(* ===== verification/Prelude.thy ===== *)
theory Prelude
  imports Main "HOL-Library.Word" "HOL-Library.Monad_Syntax"
begin

text \<open>
  The shared base of the development: the names of the machine integer types, the little-endian
  byte layout every on-disk format of the program uses, the bit-counting primitives of
  \<open>u64\<close>, and the generic list and arithmetic lemmas the components rely on.

  Conventions of all theories. Fixed-width integers whose bits or whose overflow matter are
  \<open>'w word\<close>; sizes, offsets, document ids and counters that the code keeps below their width
  are \<open>nat\<close>, with the bound stated as part of the invariant. Arithmetic follows the release
  profile (wrapping, shift amounts masked); an explicit \<open>assert!\<close>, an index out of range, an
  \<open>unwrap\<close> of nothing and a \<open>panic!\<close> are the value \<open>None\<close>; a loop with no
  termination argument of its own is \<open>None\<close> where it does not return.
\<close>

unbundle bit_operations_syntax

named_theorems le_simps \<open>little-endian byte layout\<close>
named_theorems bit_laws \<open>bits of the operations of a component\<close>

type_synonym u8 = "8 word"
type_synonym u32 = "32 word"
type_synonym u64 = "64 word"
type_synonym u128 = "128 word"

section \<open>Little-endian byte layout\<close>

fun le_nat :: "u8 list \<Rightarrow> nat" where
  "le_nat [] = 0"
| "le_nat (b # bs) = unat b + 256 * le_nat bs"

fun le_bytes :: "nat \<Rightarrow> nat \<Rightarrow> u8 list" where
  "le_bytes 0 x = []"
| "le_bytes (Suc n) x = word_of_nat (x mod 256) # le_bytes n (x div 256)"

definition u64_to_le_bytes :: "u64 \<Rightarrow> u8 list" where
  "u64_to_le_bytes w = le_bytes 8 (unat w)"

definition u64_from_le_bytes :: "u8 list \<Rightarrow> u64" where
  "u64_from_le_bytes bs = word_of_nat (le_nat bs)"

lemma unat_u8_of_nat [simp]: "unat (word_of_nat x :: u8) = x mod 256"
  by (simp add: unsigned_of_nat take_bit_eq_mod)

lemma unat_u8_less [simp]: "unat (b :: u8) < 256"
  using unsigned_less [of b] by simp

lemma unat_u64_less: "unat (w :: u64) < 2 ^ 64"
  by (rule order_less_le_trans [OF unsigned_less]) simp

lemma unat_u32_less: "unat (w :: u32) < 2 ^ 32"
  by (rule order_less_le_trans [OF unsigned_less]) simp

lemma length_le_bytes [simp]: "length (le_bytes n x) = n"
  by (induction n arbitrary: x) auto

lemma le_nat_less: "le_nat bs < 256 ^ length bs"
proof (induction bs)
  case (Cons b bs)
  have "unat b + 256 * le_nat bs < 256 + 256 * le_nat bs"
    by simp
  also have "\<dots> = 256 * Suc (le_nat bs)"
    by simp
  also have "\<dots> \<le> 256 * 256 ^ length bs"
    using Cons.IH by (intro mult_le_mono2) simp
  finally show ?case by simp
qed simp

lemma mod_add_div_mult: "(x :: nat) mod a + a * (x div a mod b) = x mod (a * b)"
  by (simp add: mod_mult2_eq)

lemma le_nat_le_bytes [le_simps]: "le_nat (le_bytes n x) = x mod 256 ^ n"
proof (induction n arbitrary: x)
  case (Suc n)
  then show ?case by (simp add: mod_add_div_mult)
qed simp

lemma le_nat_le_bytes_id: "x < 256 ^ n \<Longrightarrow> le_nat (le_bytes n x) = x"
  by (simp add: le_simps)

lemma le_bytes_le_nat [le_simps]: "length bs = n \<Longrightarrow> le_bytes n (le_nat bs) = bs"
proof (induction bs arbitrary: n)
  case (Cons b bs)
  then obtain m where n: "n = Suc m" "length bs = m" by auto
  have "(unat b + 256 * le_nat bs) mod 256 = unat b"
    by simp
  moreover have "(unat b + 256 * le_nat bs) div 256 = le_nat bs"
    by simp
  ultimately show ?case
    using n Cons.IH [of m] by simp
qed simp

lemma le_nat_append [le_simps]: "le_nat (xs @ ys) = le_nat xs + 256 ^ length xs * le_nat ys"
  by (induction xs) (simp_all add: algebra_simps)

lemma le_nat_zeros [simp]: "le_nat (replicate n 0) = 0"
  by (induction n) simp_all

lemma le_nat_take: "le_nat (take n bs) = le_nat bs mod 256 ^ n"
proof (cases "n \<le> length bs")
  case True
  have "le_nat bs = le_nat (take n bs) + 256 ^ n * le_nat (drop n bs)"
    using le_nat_append [of "take n bs" "drop n bs"] True by simp
  moreover have "le_nat (take n bs) < 256 ^ n"
    using le_nat_less [of "take n bs"] True by simp
  ultimately show ?thesis by simp
next
  case False
  have "le_nat bs < 256 ^ length bs" by (rule le_nat_less)
  also have "\<dots> \<le> 256 ^ n" using False by (intro power_increasing) auto
  finally show ?thesis using False by simp
qed

lemma le_nat_drop: "le_nat (drop n bs) = le_nat bs div 256 ^ n"
proof (cases "n \<le> length bs")
  case True
  have "le_nat bs = le_nat (take n bs) + 256 ^ n * le_nat (drop n bs)"
    using le_nat_append [of "take n bs" "drop n bs"] True by simp
  moreover have "le_nat (take n bs) < 256 ^ n"
    using le_nat_less [of "take n bs"] True by simp
  ultimately show ?thesis by simp
next
  case False
  have "le_nat bs < 256 ^ length bs" by (rule le_nat_less)
  also have "\<dots> \<le> 256 ^ n" using False by (intro power_increasing) auto
  finally show ?thesis using False by simp
qed

lemma length_u64_to_le_bytes [simp]: "length (u64_to_le_bytes w) = 8"
  by (simp add: u64_to_le_bytes_def)

lemma le_nat_u64_to_le_bytes [le_simps]: "le_nat (u64_to_le_bytes w) = unat w"
proof -
  have "unat w < 256 ^ 8" using unat_u64_less [of w] by simp
  then show ?thesis by (simp add: u64_to_le_bytes_def le_nat_le_bytes_id)
qed

lemma u64_le_roundtrip [simp]: "u64_from_le_bytes (u64_to_le_bytes w) = w"
  by (simp add: u64_from_le_bytes_def le_simps)

lemma unat_u64_from_le_bytes:
  assumes "length bs \<le> 8"
  shows "unat (u64_from_le_bytes bs) = le_nat bs"
proof -
  have "le_nat bs < 256 ^ length bs" by (rule le_nat_less)
  also have "\<dots> \<le> 256 ^ 8" using assms by (intro power_increasing) auto
  finally show ?thesis
    by (simp add: u64_from_le_bytes_def unsigned_of_nat take_bit_nat_eq_self)
qed

lemma nth_le_bytes: "i < n \<Longrightarrow> le_bytes n x ! i = word_of_nat (x div 256 ^ i mod 256)"
proof (induction n arbitrary: x i)
  case (Suc n)
  then show ?case
    by (cases i) (simp_all add: div_mult2_eq)
qed simp

lemma u64_to_le_bytes_map: "u64_to_le_bytes w = map (\<lambda>i. ucast (drop_bit (8 * i) w)) [0..<8]"
proof (rule nth_equalityI)
  fix i assume "i < length (u64_to_le_bytes w)"
  then have i: "i < 8" by simp
  have "unat w div 256 ^ i = unat (drop_bit (8 * i) w)"
    using unat_drop_bit_eq [of "8 * i" w] by (simp only: drop_bit_eq_div [of _ "unat w"] power_mult) simp
  then have "u64_to_le_bytes w ! i = word_of_nat (unat (drop_bit (8 * i) w) mod 256)"
    using i by (simp add: u64_to_le_bytes_def nth_le_bytes)
  also have "\<dots> = ucast (drop_bit (8 * i) w)"
    by (simp add: word_unat_eq_iff unsigned_ucast_eq take_bit_eq_mod)
  finally show "u64_to_le_bytes w ! i = map (\<lambda>i. ucast (drop_bit (8 * i) w)) [0..<8] ! i"
    using i by simp
qed simp

lemma u64_to_le_bytes_list:
  "u64_to_le_bytes w = [ucast w, ucast (drop_bit 8 w), ucast (drop_bit 16 w), ucast (drop_bit 24 w),
     ucast (drop_bit 32 w), ucast (drop_bit 40 w), ucast (drop_bit 48 w), ucast (drop_bit 56 w)]"
  by (simp add: u64_to_le_bytes_map upt_conv_Cons numeral_eq_Suc)

section \<open>Bit counting on \<open>u64\<close>\<close>

definition count_ones :: "u64 \<Rightarrow> nat" where
  "count_ones w = length (filter (bit w) [0..<64])"

definition trailing_zeros :: "u64 \<Rightarrow> nat" where
  "trailing_zeros w = length (takeWhile (\<lambda>i. \<not> bit w i) [0..<64])"

definition leading_zeros :: "u64 \<Rightarrow> nat" where
  "leading_zeros w = length (takeWhile (\<lambda>i. \<not> bit w (63 - i)) [0..<64])"

lemma bit_u64_less: "bit (w :: u64) i \<Longrightarrow> i < 64"
  using bit_imp_le_length [of w i] by simp

lemma u64_bits_eqI:
  assumes "\<And>i. i < 64 \<Longrightarrow> bit (a :: u64) i = bit b i"
  shows "a = b"
  using assms by (intro bit_word_eqI) simp

lemma u64_zero_iff: "w = (0 :: u64) \<longleftrightarrow> (\<forall>i. \<not> bit w i)"
  using u64_bits_eqI [of w 0] by auto

lemma set_filter_bit: "set (filter (bit (w :: u64)) [0..<64]) = {i. bit w i}"
  by (auto dest: bit_u64_less)

lemma count_ones_card: "count_ones w = card {i. bit w i}"
proof -
  have "card (set (filter (bit w) [0..<64])) = length (filter (bit w) [0..<64])"
    by (rule distinct_card) simp
  then show ?thesis by (simp only: count_ones_def set_filter_bit)
qed

lemma finite_u64_bits [simp]: "finite {i. bit (w :: u64) i}"
  by (rule finite_subset [of _ "{..<64}"]) (auto dest: bit_u64_less)

lemma length_takeWhile_upt:
  assumes "P k" "k < n" "\<And>i. i < k \<Longrightarrow> \<not> P i"
  shows "length (takeWhile (\<lambda>i. \<not> P i) [0..<n]) = k"
proof -
  have "[0..<n] = [0..<k] @ k # [Suc k..<n]"
    using assms(2) upt_add_eq_append [of 0 k "n - k"] by (simp add: upt_conv_Cons)
  moreover have "takeWhile (\<lambda>i. \<not> P i) ([0..<k] @ k # [Suc k..<n]) = [0..<k]"
    using assms(1,3) by (subst takeWhile_append2) auto
  ultimately show ?thesis by simp
qed

lemma trailing_zeros_eqI:
  assumes "bit w k" "\<And>i. i < k \<Longrightarrow> \<not> bit w i"
  shows "trailing_zeros w = k"
  unfolding trailing_zeros_def
  by (rule length_takeWhile_upt) (use assms in \<open>auto dest: bit_u64_less\<close>)

lemma Min_u64_bits_le: "bit (w :: u64) i \<Longrightarrow> Min {i. bit w i} \<le> i"
  by (rule Min_le [OF finite_u64_bits]) simp

lemma trailing_zeros_Min:
  assumes "w \<noteq> 0"
  shows "trailing_zeros w = Min {i. bit w i}"
proof -
  have ne: "{i. bit w i} \<noteq> {}" using assms u64_zero_iff by auto
  show ?thesis
  proof (rule trailing_zeros_eqI)
    show "bit w (Min {i. bit w i})"
      using Min_in [OF finite_u64_bits ne] by simp
    show "\<not> bit w i" if "i < Min {i. bit w i}" for i
      using that Min_u64_bits_le leD by blast
  qed
qed

lemma trailing_zeros_props:
  assumes "w \<noteq> 0"
  shows "bit w (trailing_zeros w)" "i < trailing_zeros w \<Longrightarrow> \<not> bit w i" "trailing_zeros w < 64"
proof -
  have ne: "{i. bit w i} \<noteq> {}" using assms u64_zero_iff by auto
  show *: "bit w (trailing_zeros w)"
    using Min_in [OF finite_u64_bits ne] trailing_zeros_Min [OF assms] by simp
  show "\<not> bit w i" if "i < trailing_zeros w"
    using that Min_u64_bits_le leD unfolding trailing_zeros_Min [OF assms] by blast
  show "trailing_zeros w < 64" using * by (rule bit_u64_less)
qed

section \<open>Partial maps over lists\<close>

text \<open>Run a computation that may panic on every element, in order.\<close>

fun map_opt :: "('a \<Rightarrow> 'b option) \<Rightarrow> 'a list \<Rightarrow> 'b list option" where
  "map_opt f [] = Some []"
| "map_opt f (x # xs) =
     (case f x of None \<Rightarrow> None | Some y \<Rightarrow> map_option (Cons y) (map_opt f xs))"

lemma map_opt_Some: "(\<And>x. x \<in> set xs \<Longrightarrow> f x = Some (g x)) \<Longrightarrow> map_opt f xs = Some (map g xs)"
  by (induction xs) auto

lemma map_opt_map: "map_opt f (map g xs) = map_opt (\<lambda>x. f (g x)) xs"
  by (induction xs) (auto split: option.splits)

lemma map_opt_cong: "(\<And>x. x \<in> set xs \<Longrightarrow> f x = g x) \<Longrightarrow> map_opt f xs = map_opt g xs"
  by (induction xs) (auto split: option.splits)

lemma map_opt_length: "map_opt f xs = Some ys \<Longrightarrow> length ys = length xs"
  by (induction xs arbitrary: ys) (auto split: option.splits)

lemma map_opt_map_option: "map_opt (\<lambda>x. map_option (h x) (f x)) xs = map_option (map2 h xs) (map_opt f xs)"
  by (induction xs) (auto simp: option.map_comp comp_def split: option.splits)

section \<open>Lists of blocks of one length\<close>

lemma nth_concat_uniform:
  assumes "\<forall>x\<in>set xss. length x = n" "i div n < length xss" "n > 0"
  shows "concat xss ! i = xss ! (i div n) ! (i mod n)"
  using assms(1,2)
proof (induction xss arbitrary: i)
  case (Cons x xss)
  show ?case
  proof (cases "i < n")
    case True
    then show ?thesis using Cons.prems by (simp add: nth_append)
  next
    case False
    then have "i div n = Suc ((i - n) div n)" "(i - n) mod n = i mod n"
      using assms(3) by (simp_all add: le_div_geq le_mod_geq)
    then show ?thesis
      using Cons.IH [of "i - n"] Cons.prems False by (simp add: nth_append)
  qed
qed simp

lemma concat_length_uniform: "\<forall>x\<in>set xss. length x = n \<Longrightarrow> length (concat xss) = n * length xss"
  by (induction xss) auto

lemma concat_map_blocks:
  "concat (map (\<lambda>k. map (\<lambda>i. f (k * m + i)) [0..<m]) [0..<c]) = map f [0..<c * m]"
proof (induction c)
  case (Suc c)
  have "map f [0..<Suc c * m] = map f ([0..<c * m] @ [c * m..<c * m + m])"
    by (subst upt_add_eq_append [symmetric]) (simp_all add: add.commute)
  also have "[c * m..<c * m + m] = map (\<lambda>i. c * m + i) [0..<m]"
    by (simp add: map_add_upt add.commute [of "c * m"])
  finally show ?case using Suc by (simp add: comp_def)
qed simp

section \<open>Bit slices of natural numbers\<close>

text \<open>\<open>n\<close> bits of a number from bit \<open>s\<close> on, as the bit packers read them.\<close>

definition bit_slice :: "nat \<Rightarrow> nat \<Rightarrow> nat \<Rightarrow> nat" where
  "bit_slice s n x = x div 2 ^ s mod 2 ^ n"

lemma bit_slice_take_drop: "bit_slice s n x = take_bit n (drop_bit s x)"
  by (simp add: bit_slice_def take_bit_eq_mod drop_bit_eq_div)

lemma bit_slice_less: "bit_slice s n x < 2 ^ n"
  by (simp add: bit_slice_def)

lemma bit_slice_of_slice: "s + n \<le> m \<Longrightarrow> bit_slice s n (bit_slice t m x) = bit_slice (t + s) n x"
  unfolding bit_slice_take_drop
  by (rule bit_eqI) (auto simp: bit_simps add.commute add.left_commute)

lemma unat_bit_slice: "n \<le> LENGTH('a) \<Longrightarrow> unat (word_of_nat (bit_slice s n x) :: 'a :: len word) = bit_slice s n x"
proof -
  assume n: "n \<le> LENGTH('a)"
  have "bit_slice s n x < 2 ^ n" by (rule bit_slice_less)
  also have "\<dots> \<le> 2 ^ LENGTH('a)" using n by (intro power_increasing) auto
  finally show ?thesis by (simp add: unsigned_of_nat take_bit_nat_eq_self)
qed

lemma unat_shift_mask:
  "unat (drop_bit s v AND mask n) = bit_slice s n (unat (v :: 'a :: len word))"
  unfolding bit_slice_take_drop
  by (rule bit_eqI) (auto simp: bit_simps dest: bit_imp_le_length)

end
