(* ===== verification/VInt.thy ===== *)
theory VInt
  imports Prelude
begin

text \<open>
  Variable-length integers: \<^verbatim>\<open>common/src/vint.rs\<close> (the stop-bit code of \<open>u32\<close>, \<open>u64\<close> and
  \<open>u128\<close>), \<^verbatim>\<open>sstable/src/vint.rs\<close> (the continue-bit code) and the delta and plain block codes
  of \<^verbatim>\<open>src/postings/compression/vint.rs\<close>. The loops are written once for every word width,
  and each function of the source is an instance; the lemmas are the round trips.
\<close>

datatype io_error = UnexpectedEof | InvalidData

section \<open>Seven-bit digits of a word\<close>

lemma word_div_128: "(x :: 'a :: len word) div 128 = drop_bit 7 x"
  by (simp add: drop_bit_eq_div)

lemma word_mod_128: "(x :: 'a :: len word) mod 128 = take_bit 7 x"
  by (simp add: take_bit_eq_mod)

lemma unat_word_div_128: "unat ((x :: 'a :: len word) div 128) = unat x div 128"
  using unat_drop_bit_eq [of 7 x] by (simp add: word_div_128 drop_bit_eq_div [of 7 "unat x"])

lemma word_div_128_less: "x \<noteq> 0 \<Longrightarrow> unat ((x :: 'a :: len word) div 128) < unat x"
  by (simp add: unat_word_div_128 unat_gt_0)

section \<open>The stop-bit code\<close>

abbreviation STOP_BIT :: u8 where
  "STOP_BIT \<equiv> 128"

text \<open>
  \<open>serialize_vint_u128\<close>, and the inner loop of the block compressors at \<open>u32\<close>: seven bits at a
  time, the last byte marked.
\<close>

function vint_bytes :: "'a :: len word \<Rightarrow> u8 list" where
  "vint_bytes val =
     (let next_byte = ucast (val mod 128); val' = val div 128
      in if val' = 0 then [next_byte OR STOP_BIT] else next_byte # vint_bytes val')"
  by pat_completeness auto
termination
  by (relation "measure unat") (auto intro: word_div_128_less)

declare vint_bytes.simps [simp del]

definition serialize_vint_u128 :: "u128 \<Rightarrow> u8 list \<Rightarrow> u8 list" where
  "serialize_vint_u128 val output = output @ vint_bytes val"

text \<open>\<open>VInt::serialize_into\<close> fills a ten-byte buffer; running past it is \<open>unreachable!\<close>.\<close>

fun vint_fill :: "nat \<Rightarrow> u64 \<Rightarrow> u8 list option" where
  "vint_fill 0 remaining = None"
| "vint_fill (Suc slots) remaining =
     (let next_byte = ucast (remaining mod 128); remaining' = remaining div 128
      in if remaining' = 0 then Some [next_byte OR STOP_BIT]
         else map_option (Cons next_byte) (vint_fill slots remaining'))"

definition vint_serialize_into :: "u64 \<Rightarrow> u8 list option" where
  "vint_serialize_into val = vint_fill 10 val"

definition vint_serialize_into_vec :: "u64 \<Rightarrow> u8 list \<Rightarrow> u8 list option" where
  "vint_serialize_into_vec val output = map_option (\<lambda>buffer. output @ buffer) (vint_serialize_into val)"

text \<open>Decoding: \<open>VInt::deserialize\<close> at \<open>u64\<close> and \<open>VIntU128::deserialize\<close> at \<open>u128\<close>.\<close>

fun vint_read :: "'a :: len word \<Rightarrow> nat \<Rightarrow> u8 list \<Rightarrow> io_error + ('a word \<times> u8 list)" where
  "vint_read result shift [] = Inl InvalidData"
| "vint_read result shift (b # bytes) =
     (let result' = result OR push_bit (shift mod LENGTH('a)) (ucast (b mod 128))
      in if b \<ge> STOP_BIT then Inr (result', bytes) else vint_read result' (shift + 7) bytes)"

definition vint_deserialize :: "u8 list \<Rightarrow> io_error + (u64 \<times> u8 list)" where
  "vint_deserialize bytes = vint_read 0 0 bytes"

definition vint_u128_deserialize :: "u8 list \<Rightarrow> io_error + (u128 \<times> u8 list)" where
  "vint_u128_deserialize bytes = vint_read 0 0 bytes"

text \<open>Reading a \<open>u32\<close> from a slice: find the final byte within five, then fold the payload.\<close>

definition vint_len :: "u8 list \<Rightarrow> nat option" where
  "vint_len data =
     (let n = length (takeWhile (\<lambda>val. val < STOP_BIT) (take 5 data))
      in if n < length (take 5 data) then Some (n + 1) else None)"

fun vint_u32_fold :: "u32 \<Rightarrow> nat \<Rightarrow> u8 list \<Rightarrow> u32" where
  "vint_u32_fold result shift [] = result"
| "vint_u32_fold result shift (b # bs) =
     vint_u32_fold (result OR push_bit (shift mod 32) (ucast (b AND 127))) (shift + 7) bs"

definition read_u32_vint_no_advance :: "u8 list \<Rightarrow> (u32 \<times> nat) option" where
  "read_u32_vint_no_advance data =
     (case vint_len data of
        None \<Rightarrow> None
      | Some vlen \<Rightarrow> Some (vint_u32_fold 0 0 (take vlen data), vlen))"

definition read_u32_vint :: "u8 list \<Rightarrow> (u32 \<times> u8 list) option" where
  "read_u32_vint data =
     (case read_u32_vint_no_advance data of
        None \<Rightarrow> None
      | Some (result, vlen) \<Rightarrow> Some (result, drop vlen data))"

text \<open>
  \<open>serialize_vint_u32\<close> computes the whole code in one 64-bit word with masks and shifts and then
  takes as many of its little-endian bytes as the value needs.
\<close>

definition serialize_vint_u32 :: "u32 \<Rightarrow> u8 list" where
  "serialize_vint_u32 val32 =
     (let MASK_1 = 127 :: u64;
          MASK_2 = push_bit 7 MASK_1;
          MASK_3 = push_bit 7 MASK_2;
          MASK_4 = push_bit 7 MASK_3;
          MASK_5 = push_bit 7 MASK_4;
          val = ucast val32 :: u64;
          stop = 128 :: u64;
          (res, num_bytes) =
            (if val < push_bit 7 1 then (val OR stop, 1)
             else if val < push_bit 14 1 then
               ((val AND MASK_1) OR push_bit 1 (val AND MASK_2) OR push_bit 8 stop, 2)
             else if val < push_bit 21 1 then
               ((val AND MASK_1) OR push_bit 1 (val AND MASK_2) OR push_bit 2 (val AND MASK_3)
                 OR push_bit (8 * 2) stop, 3)
             else if val < push_bit 28 1 then
               ((val AND MASK_1) OR push_bit 1 (val AND MASK_2) OR push_bit 2 (val AND MASK_3)
                 OR push_bit 3 (val AND MASK_4) OR push_bit (8 * 3) stop, 4)
             else
               ((val AND MASK_1) OR push_bit 1 (val AND MASK_2) OR push_bit 2 (val AND MASK_3)
                 OR push_bit 3 (val AND MASK_4) OR push_bit 4 (val AND MASK_5)
                 OR push_bit (8 * 4) stop, 5 :: nat))
      in take num_bytes (u64_to_le_bytes res))"

definition write_u32_vint :: "u32 \<Rightarrow> u8 list \<Rightarrow> u8 list" where
  "write_u32_vint val writer = writer @ serialize_vint_u32 val"

section \<open>Bytes of the code\<close>

lemma u8_less_iff: "\<not> (128 :: u8) \<le> b \<longleftrightarrow> b < 128"
  by (rule not_le)

lemma ucast_7bits_less: "(ucast (take_bit 7 (x :: 'a :: len word)) :: u8) < 128"
proof -
  have "unat (take_bit 7 x) < 128"
    using take_bit_nat_less_exp [of 7 "unat x"] by (simp add: unsigned_take_bit_eq)
  moreover have "unat (ucast (take_bit 7 x) :: u8) \<le> unat (take_bit 7 x)"
    by (simp add: unsigned_ucast_eq)
  ultimately show ?thesis by (simp add: word_less_nat_alt)
qed

lemma u8_or_stop_ge: "(STOP_BIT :: u8) \<le> b OR STOP_BIT"
  by (rule le_word_or1)

lemma u8_mod_128_id: "b < 128 \<Longrightarrow> b mod 128 = b" for b :: u8
  by (simp add: word_unat_eq_iff unat_mod word_less_nat_alt)

lemma u8_or_stop_mod: "b < 128 \<Longrightarrow> (b OR STOP_BIT) mod 128 = b" for b :: u8
proof -
  assume "b < 128"
  then have b: "take_bit 7 b = b"
    by (simp add: take_bit_eq_mod u8_mod_128_id)
  have "(b OR 128) mod 128 = take_bit 7 (b OR 128)"
    by (simp add: take_bit_eq_mod)
  also have "\<dots> = take_bit 7 b"
    by (rule bit_word_eqI) (auto simp: bit_simps)
  finally show ?thesis using b by simp
qed

lemma ucast_ucast_7bits:
  "(ucast (ucast (take_bit 7 (x :: 'a :: len word)) :: u8) :: 'a word) = take_bit 7 x"
  by (rule bit_word_eqI) (auto simp: bit_simps dest: bit_imp_le_length)

text \<open>One step of the decoder on one step of the encoder.\<close>

lemma vint_bytes_unfold:
  "vint_bytes (x :: 'a :: len word) =
     (if drop_bit 7 x = 0 then [ucast (take_bit 7 x) OR STOP_BIT]
      else ucast (take_bit 7 x) # vint_bytes (drop_bit 7 x))"
  by (subst vint_bytes.simps) (simp add: Let_def word_div_128 word_mod_128)

lemma digit_join:
  "take_bit s v OR push_bit s (take_bit 7 (drop_bit s v)) = take_bit (s + 7) (v :: 'a :: len word)"
  by (rule bit_word_eqI) (auto simp: bit_simps)

lemma take_bit_all_dropped: "drop_bit n v = 0 \<Longrightarrow> take_bit n v = (v :: 'a :: len word)"
  using bits_ident [of n v] by simp

lemma vint_read_bytes:
  fixes v :: "'a :: len word"
  assumes "s = 0 \<or> drop_bit s v \<noteq> 0"
  shows "vint_read (take_bit s v) s (vint_bytes (drop_bit s v) @ rest) = Inr (v, rest)"
  using assms
proof (induction "unat (drop_bit s v)" arbitrary: s rule: less_induct)
  case less
  let ?r = "drop_bit s v"
  have s: "s mod LENGTH('a) = s"
  proof (cases "s = 0")
    case False
    then have "drop_bit s v \<noteq> 0" using less.prems by simp
    then have "s < LENGTH('a)"
      by (metis drop_bit_word_beyond linorder_not_less)
    then show ?thesis by simp
  qed simp
  show ?case
  proof (cases "drop_bit 7 ?r = 0")
    case True
    then have dropped: "drop_bit (s + 7) v = 0" by (simp add: drop_bit_drop_bit add.commute)
    have "vint_bytes ?r = [ucast (take_bit 7 ?r) OR STOP_BIT]"
      by (subst vint_bytes_unfold) (simp only: True simp_thms if_True)
    then show ?thesis
      by (simp add: s u8_or_stop_ge u8_or_stop_mod ucast_7bits_less ucast_ucast_7bits digit_join
          take_bit_all_dropped [OF dropped])
  next
    case False
    then have next_digit: "drop_bit (s + 7) v \<noteq> 0" by (simp add: drop_bit_drop_bit add.commute)
    have step: "vint_bytes ?r = ucast (take_bit 7 ?r) # vint_bytes (drop_bit (s + 7) v)"
      using False by (subst vint_bytes_unfold) (simp add: drop_bit_drop_bit add.commute)
    have "unat (drop_bit (s + 7) v) < unat ?r"
    proof -
      have "?r \<noteq> 0" using False by (metis drop_bit_of_0)
      then have "unat (?r div 128) < unat ?r" by (rule word_div_128_less)
      then show ?thesis by (simp add: word_div_128 drop_bit_drop_bit add.commute)
    qed
    then have "vint_read (take_bit (s + 7) v) (s + 7) (vint_bytes (drop_bit (s + 7) v) @ rest) = Inr (v, rest)"
      using next_digit by (intro less.hyps) auto
    moreover have "(ucast (take_bit 7 ?r) :: u8) mod 128 = ucast (take_bit 7 ?r)"
      using ucast_7bits_less [of ?r] by (rule u8_mod_128_id)
    ultimately show ?thesis
      using ucast_7bits_less [of ?r]
      by (simp add: step s ucast_ucast_7bits digit_join Let_def flip: u8_less_iff)
  qed
qed

lemma vint_deserialize_bytes: "vint_deserialize (vint_bytes v @ rest) = Inr (v, rest)"
  using vint_read_bytes [of 0 v rest] by (simp add: vint_deserialize_def)

lemma vint_u128_deserialize_bytes: "vint_u128_deserialize (vint_bytes v @ rest) = Inr (v, rest)"
  using vint_read_bytes [of 0 v rest] by (simp add: vint_u128_deserialize_def)

text \<open>Ten bytes always hold a \<open>u64\<close>, so \<open>unreachable!\<close> is unreachable.\<close>

lemma vint_fill_enough:
  "unat r < 128 ^ n \<Longrightarrow> 0 < n \<Longrightarrow> vint_fill n r = Some (vint_bytes r)"
proof (induction n arbitrary: r)
  case (Suc n)
  show ?case
  proof (cases "r div 128 = 0")
    case True
    then show ?thesis by (subst vint_bytes.simps) (simp add: Let_def)
  next
    case False
    have "unat (r div 128) < 128 ^ n"
      using Suc.prems by (simp add: unat_word_div_128 less_mult_imp_div_less mult.commute)
    moreover have "0 < n"
      using False Suc.prems by (cases n) (auto simp: unat_word_div_128 word_unat_eq_iff)
    ultimately have "vint_fill n (r div 128) = Some (vint_bytes (r div 128))"
      by (rule Suc.IH)
    with False show ?thesis by (subst vint_bytes.simps) (simp add: Let_def)
  qed
qed simp

lemma vint_serialize_into_total: "vint_serialize_into v = Some (vint_bytes v)"
  unfolding vint_serialize_into_def
  by (rule vint_fill_enough) (use unat_u64_less [of v] in simp_all)

lemma length_vint_bytes:
  "unat r < 128 ^ n \<Longrightarrow> 0 < n \<Longrightarrow> length (vint_bytes (r :: 'a :: len word)) \<le> n"
proof (induction n arbitrary: r)
  case (Suc n)
  show ?case
  proof (cases "r div 128 = 0")
    case True
    then show ?thesis by (subst vint_bytes.simps) (simp add: Let_def)
  next
    case False
    have "unat (r div 128) < 128 ^ n"
      using Suc.prems by (simp add: unat_word_div_128 less_mult_imp_div_less mult.commute)
    moreover have "0 < n"
      using False Suc.prems by (cases n) (auto simp: unat_word_div_128 word_unat_eq_iff)
    ultimately have "length (vint_bytes (r div 128)) \<le> n"
      by (rule Suc.IH)
    with False show ?thesis by (subst vint_bytes.simps) (simp add: Let_def)
  qed
qed simp

lemma length_vint_bytes_u32: "length (vint_bytes (r :: u32)) \<le> 5"
  by (rule length_vint_bytes) (use unat_u32_less [of r] in simp_all)

lemma vint_bytes_nonempty [simp]: "vint_bytes r \<noteq> []"
  by (subst vint_bytes.simps) (simp add: Let_def)

text \<open>The code is prefix-free: only the last byte carries the stop bit.\<close>

lemma vint_bytes_shape:
  "\<exists>ds d. vint_bytes (r :: 'a :: len word) = ds @ [d OR STOP_BIT] \<and> d < 128 \<and> (\<forall>x\<in>set ds. x < 128)"
proof (induction r rule: vint_bytes.induct)
  case (1 r)
  show ?case
  proof (cases "r div 128 = 0")
    case True
    then have "vint_bytes r = [] @ [ucast (take_bit 7 r) OR STOP_BIT]"
      by (subst vint_bytes.simps) (simp add: Let_def word_mod_128)
    then show ?thesis using ucast_7bits_less [of r] by fastforce
  next
    case False
    then obtain ds d where *: "vint_bytes (r div 128) = ds @ [d OR STOP_BIT]" "d < 128" "\<forall>x\<in>set ds. x < 128"
      using "1.IH" [OF refl refl] by auto
    have "vint_bytes r = (ucast (take_bit 7 r) # ds) @ [d OR STOP_BIT]"
      using False by (subst vint_bytes.simps) (simp add: Let_def word_mod_128 *)
    then show ?thesis using * ucast_7bits_less [of r] by (metis set_ConsD)
  qed
qed

section \<open>Reading a \<open>u32\<close>\<close>

lemma u8_and_127: "x AND 127 = x mod (128 :: u8)"
  using take_bit_eq_mask [of 7 x] by (simp add: take_bit_eq_mod mask_eq_exp_minus_1)

lemma vint_u32_fold_read:
  "\<forall>x\<in>set ds. x < 128 \<Longrightarrow> d \<ge> 128 \<Longrightarrow>
   vint_read result shift (ds @ d # rest) = Inr (vint_u32_fold result shift (ds @ [d]), rest)"
proof (induction ds arbitrary: result shift)
  case Nil
  then show ?case by (simp add: u8_and_127)
next
  case (Cons x ds)
  have "\<not> 128 \<le> x" using Cons.prems by (simp add: not_le)
  with Cons show ?case by (simp add: u8_and_127)
qed

lemma read_u32_vint_bytes: "read_u32_vint (vint_bytes (v :: u32) @ rest) = Some (v, rest)"
proof -
  obtain ds d where shape: "vint_bytes v = ds @ [d OR STOP_BIT]" "d < 128" "\<forall>x\<in>set ds. x < 128"
    using vint_bytes_shape by blast
  have short: "length ds < 5" using length_vint_bytes_u32 [of v] shape(1) by simp
  then have "5 - length ds = Suc (4 - length ds)" by simp
  then have take5: "take 5 (vint_bytes v @ rest) = ds @ (d OR STOP_BIT) # take (4 - length ds) rest"
    using short by (simp add: shape(1))
  have tw: "takeWhile (\<lambda>val. val < STOP_BIT) (ds @ (d OR STOP_BIT) # xs) = ds" for xs
    using shape(3) u8_or_stop_ge [of d] by (simp add: takeWhile_append2 not_less)
  have vlen: "vint_len (vint_bytes v @ rest) = Some (length ds + 1)"
    unfolding vint_len_def take5 tw by simp
  have "vint_read 0 0 (vint_bytes v @ rest) = Inr (vint_u32_fold 0 0 (vint_bytes v), rest)"
    using vint_u32_fold_read [OF shape(3) u8_or_stop_ge, of 0 0 d rest] by (simp add: shape(1))
  then have "vint_u32_fold 0 0 (vint_bytes v) = v"
    using vint_read_bytes [of 0 v rest] by simp
  then show ?thesis
    using vlen by (simp add: read_u32_vint_def read_u32_vint_no_advance_def shape(1))
qed

section \<open>The one-word \<open>u32\<close> encoder\<close>

lemma u32_less_exp_iff:
  assumes "k < 64"
  shows "(ucast (x :: u32) :: u64) < push_bit k 1 \<longleftrightarrow> drop_bit k x = 0"
proof -
  have "unat (ucast x :: u64) = unat x"
    by (simp add: unsigned_ucast_eq take_bit_nat_eq_self unat_u32_less [THEN less_trans])
  moreover have "unat (push_bit k 1 :: u64) = 2 ^ k"
  proof -
    have "(push_bit k 1 :: u64) = word_of_nat (2 ^ k)" by (simp add: push_bit_eq_mult)
    moreover have "(2 :: nat) ^ k < 2 ^ 64" using assms by (intro power_strict_increasing) auto
    ultimately show ?thesis
      using assms by (simp only: unsigned_of_nat) (simp add: take_bit_nat_eq_self)
  qed
  moreover have "drop_bit k x = 0 \<longleftrightarrow> unat x < 2 ^ k"
    using unat_drop_bit_eq [of k x]
    by (simp only: word_unat_eq_iff drop_bit_eq_div [of _ "unat x"]) (simp add: div_eq_0_iff)
  ultimately show ?thesis by (simp add: word_less_nat_alt)
qed

lemma bit_dropped: "drop_bit n x = 0 \<Longrightarrow> n \<le> i \<Longrightarrow> \<not> bit (x :: 'a :: len word) i"
  by (metis bit_drop_bit_eq bit_0_eq bot_apply le_add_diff_inverse bot_bool_def comp_apply)

lemma u8_bits_eqI: "(\<And>j. j < 8 \<Longrightarrow> bit a j = bit b j) \<Longrightarrow> a = (b :: u8)"
  by (rule bit_word_eqI) simp

lemma bit_127: "bit (127 :: u64) j \<longleftrightarrow> j < 7"
  using bit_mask_iff [where ?'a = u64, of 7 j] by (auto simp: mask_eq_exp_minus_1)

lemma bit_128_u64: "bit (128 :: u64) j \<longleftrightarrow> j = 7"
  using bit_exp_iff [where ?'a = u64, of 7 j] by auto

lemma bit_128_u8: "bit (128 :: u8) j \<longleftrightarrow> j = 7"
  using bit_exp_iff [where ?'a = u8, of 7 j] by auto


lemma take_numerals:
  "take 1 (a # xs) = [a]" "take 2 (a # b # xs) = [a, b]" "take 3 (a # b # c # xs) = [a, b, c]"
  "take 4 (a # b # c # d # xs) = [a, b, c, d]" "take 5 (a # b # c # d # e # xs) = [a, b, c, d, e]"
  by simp_all

lemma drop_bits_7: "drop_bit 7 (drop_bit 7 x) = drop_bit 14 x" "drop_bit 7 (drop_bit 14 x) = drop_bit 21 x"
  "drop_bit 7 (drop_bit 21 x) = drop_bit 28 x" "drop_bit 7 (drop_bit 28 x) = drop_bit 35 x" for x :: u32
  by (simp_all add: drop_bit_drop_bit)

lemma serialize_vint_u32_eq: "serialize_vint_u32 x = vint_bytes x"
proof -
  define M S where ms: "M = (127 :: u64)" "S = (128 :: u64)"
  define B where b: "B = (128 :: u8)"
  have bits: "bit M j \<longleftrightarrow> j < 7" "bit S j \<longleftrightarrow> j = 7" "bit B j \<longleftrightarrow> j = 7" for j
    by (simp_all only: ms b bit_127 bit_128_u64 bit_128_u8)
  have k: "(7::nat) < 64" "(14::nat) < 64" "(21::nat) < 64" "(28::nat) < 64" by simp_all
  have top: "drop_bit 35 x = 0" by simp
  note unf = vint_bytes_unfold [of x] vint_bytes_unfold [of "drop_bit 7 x"]
     vint_bytes_unfold [of "drop_bit 14 x"] vint_bytes_unfold [of "drop_bit 21 x"]
     vint_bytes_unfold [of "drop_bit 28 x"]
  note defs = serialize_vint_u32_def Let_def k [THEN u32_less_exp_iff] if_True if_False simp_thms
    prod.case take_numerals u64_to_le_bytes_list drop_bits_7 list.simps ms [symmetric] b [symmetric]
  consider "drop_bit 7 x = 0" | "drop_bit 7 x \<noteq> 0" "drop_bit 14 x = 0"
    | "drop_bit 7 x \<noteq> 0" "drop_bit 14 x \<noteq> 0" "drop_bit 21 x = 0"
    | "drop_bit 7 x \<noteq> 0" "drop_bit 14 x \<noteq> 0" "drop_bit 21 x \<noteq> 0" "drop_bit 28 x = 0"
    | "drop_bit 7 x \<noteq> 0" "drop_bit 14 x \<noteq> 0" "drop_bit 21 x \<noteq> 0" "drop_bit 28 x \<noteq> 0" by blast
  then show ?thesis
  proof cases
    case 1
    show ?thesis
      by (simp only: defs unf(1) 1, intro conjI u8_bits_eqI)
        (auto simp: bit_simps bits bit_dropped [OF 1] simp del: push_bit_Suc)
  next
    case 2
    show ?thesis
      by (simp only: defs unf(1,2) 2, intro conjI u8_bits_eqI)
        (auto simp: bit_simps bits bit_dropped [OF 2(2)] simp del: push_bit_Suc)
  next
    case 3
    show ?thesis
      by (simp only: defs unf(1,2,3) 3, intro conjI u8_bits_eqI)
        (auto simp: bit_simps bits bit_dropped [OF 3(3)] simp del: push_bit_Suc)
  next
    case 4
    show ?thesis
      by (simp only: defs unf(1,2,3,4) 4, intro conjI u8_bits_eqI)
        (auto simp: bit_simps bits bit_dropped [OF 4(4)] simp del: push_bit_Suc)
  next
    case 5
    show ?thesis
      by (simp only: defs unf 5 top, intro conjI u8_bits_eqI)
        (auto simp: bit_simps bits bit_dropped [OF top] simp del: push_bit_Suc)
  qed
qed
section \<open>Block codes of the postings\<close>

text \<open>
  Writing past the end of the output slice panics; \<open>cap\<close> is the slice's length. A reader that runs
  past its input panics as well.
\<close>

definition compress_unsorted :: "u32 list \<Rightarrow> nat \<Rightarrow> u8 list option" where
  "compress_unsorted input cap =
     (let output = concat (map vint_bytes input)
      in if length output \<le> cap then Some output else None)"

fun vint_deltas :: "u32 \<Rightarrow> u32 list \<Rightarrow> u32 list" where
  "vint_deltas offset [] = []"
| "vint_deltas offset (v # vs) = (v - offset) # vint_deltas v vs"

definition compress_sorted :: "u32 list \<Rightarrow> nat \<Rightarrow> u32 \<Rightarrow> u8 list option" where
  "compress_sorted input cap offset =
     (let output = concat (map vint_bytes (vint_deltas offset input))
      in if length output \<le> cap then Some output else None)"

fun vint_accumulate :: "u32 \<Rightarrow> nat \<Rightarrow> u8 list \<Rightarrow> (u32 \<times> u8 list) option" where
  "vint_accumulate result shift [] = None"
| "vint_accumulate result shift (cur_byte # data) =
     (let result' = result + push_bit (shift mod 32) (ucast (cur_byte mod 128))
      in if cur_byte AND 128 \<noteq> 0 then Some (result', data)
         else vint_accumulate result' (shift + 7) data)"

fun uncompress_sorted_loop :: "nat \<Rightarrow> u32 \<Rightarrow> u8 list \<Rightarrow> (u32 list \<times> u8 list) option" where
  "uncompress_sorted_loop 0 result data = Some ([], data)"
| "uncompress_sorted_loop (Suc n) result data =
     (case vint_accumulate result 0 data of
        None \<Rightarrow> None
      | Some (result', data') \<Rightarrow>
          map_option (\<lambda>(out, rest). (result' # out, rest)) (uncompress_sorted_loop n result' data'))"

text \<open>The output array and the number of bytes read.\<close>

definition uncompress_sorted :: "u8 list \<Rightarrow> nat \<Rightarrow> u32 \<Rightarrow> (u32 list \<times> nat) option" where
  "uncompress_sorted compressed_data n offset =
     map_option (\<lambda>(out, rest). (out, length compressed_data - length rest))
       (uncompress_sorted_loop n offset compressed_data)"

fun uncompress_unsorted_loop :: "nat \<Rightarrow> u8 list \<Rightarrow> (u32 list \<times> u8 list) option" where
  "uncompress_unsorted_loop 0 data = Some ([], data)"
| "uncompress_unsorted_loop (Suc n) data =
     (case vint_accumulate 0 0 data of
        None \<Rightarrow> None
      | Some (result, data') \<Rightarrow>
          map_option (\<lambda>(out, rest). (result # out, rest)) (uncompress_unsorted_loop n data'))"

definition uncompress_unsorted :: "u8 list \<Rightarrow> nat \<Rightarrow> (u32 list \<times> nat) option" where
  "uncompress_unsorted compressed_data n =
     map_option (\<lambda>(out, rest). (out, length compressed_data - length rest))
       (uncompress_unsorted_loop n compressed_data)"

text \<open>The values written to the first positions of the output array; the others stay as they were.\<close>

fun uncompress_unsorted_until_end :: "u8 list \<Rightarrow> nat \<Rightarrow> u32 list option" where
  "uncompress_unsorted_until_end data 0 = Some []"
| "uncompress_unsorted_until_end data (Suc n) =
     (if data = [] then Some []
      else case vint_accumulate 0 0 data of
             None \<Rightarrow> None
           | Some (result, data') \<Rightarrow> map_option (Cons result) (uncompress_unsorted_until_end data' n))"

lemma u8_and_128: "b AND 128 \<noteq> 0 \<longleftrightarrow> b \<ge> (128 :: u8)"
proof -
  have "b AND 128 = 0 \<longleftrightarrow> \<not> bit b 7"
    using and_exp_eq_0_iff_not_bit [of b 7] by simp
  moreover have "bit b 7 \<longleftrightarrow> odd (unat b div 128)"
    using bit_iff_odd [of "unat b" 7] by (simp add: bit_unsigned_iff)
  moreover have "odd (unat b div 128) \<longleftrightarrow> 128 \<le> unat b"
  proof (cases "unat b < 128")
    case False
    then have "unat b div 128 = 1"
      using unat_u8_less [of b] by (intro div_nat_eqI) auto
    with False show ?thesis by simp
  qed simp
  ultimately show ?thesis by (simp add: word_le_nat_alt)
qed

lemma digit_sum:
  "push_bit s (take_bit 7 r) + push_bit (s + 7) (drop_bit 7 r) = push_bit s (r :: 'a :: len word)"
proof -
  have "push_bit (s + 7) (drop_bit 7 r) = push_bit s (push_bit 7 (drop_bit 7 r))"
    by (simp add: push_bit_push_bit)
  then have "push_bit s (take_bit 7 r) + push_bit (s + 7) (drop_bit 7 r) =
      push_bit s (push_bit 7 (drop_bit 7 r) + take_bit 7 r)"
    by (simp add: push_bit_add add.commute)
  then show ?thesis by (simp add: bits_ident)
qed

lemma vint_accumulate_bytes:
  fixes r :: u32
  assumes "s = 0 \<or> s < 32 \<and> unat r < 2 ^ (32 - s) \<and> r \<noteq> 0"
  shows "vint_accumulate acc s (vint_bytes r @ rest) = Some (acc + push_bit s r, rest)"
  using assms
proof (induction r arbitrary: acc s rule: vint_bytes.induct)
  case (1 r)
  have s: "s mod 32 = s" using "1.prems" by auto
  show ?case
  proof (cases "r div 128 = 0")
    case True
    then have "vint_bytes r = [ucast (take_bit 7 r) OR STOP_BIT]"
      by (subst vint_bytes.simps) (simp add: Let_def word_mod_128)
    moreover have "take_bit 7 r = r"
      using True by (simp add: word_div_128 take_bit_all_dropped)
    ultimately show ?thesis
      using ucast_7bits_less [of r] ucast_ucast_7bits [of r]
      by (simp add: s u8_and_128 u8_or_stop_ge u8_or_stop_mod)
  next
    case False
    have big: "unat r \<ge> 128"
      using False by (simp add: word_unat_eq_iff unat_word_div_128)
    have next_ok: "s + 7 < 32 \<and> unat (r div 128) < 2 ^ (32 - (s + 7)) \<and> r div 128 \<noteq> 0"
    proof -
      have lt: "unat r < 2 ^ (32 - s)" using "1.prems" unat_u32_less [of r] by auto
      have "s < 25"
      proof (rule ccontr)
        assume "\<not> s < 25"
        then have "2 ^ (32 - s) \<le> (2 :: nat) ^ 7" by (intro power_increasing) auto
        with lt big show False by simp
      qed
      moreover from this have "(2 :: nat) ^ (32 - s) = 2 ^ (32 - (s + 7)) * 128"
        using power_add [of "2 :: nat" "25 - s" 7] by (simp add: algebra_simps)
      ultimately show ?thesis
        using lt False by (simp add: unat_word_div_128 less_mult_imp_div_less)
    qed
    have step: "vint_bytes r = ucast (take_bit 7 r) # vint_bytes (r div 128)"
      using False by (subst vint_bytes.simps) (simp add: Let_def word_mod_128)
    have "vint_accumulate (acc + push_bit s (take_bit 7 r)) (s + 7) (vint_bytes (r div 128) @ rest) =
        Some (acc + push_bit s (take_bit 7 r) + push_bit (s + 7) (r div 128), rest)"
      using "1.IH" [OF refl refl False] next_ok by simp
    also have "acc + push_bit s (take_bit 7 r) + push_bit (s + 7) (r div 128) = acc + push_bit s r"
      using digit_sum [of s r] by (simp add: word_div_128 add.assoc)
    finally show ?thesis
      using ucast_7bits_less [of r] ucast_ucast_7bits [of r]
      by (simp add: step s Let_def u8_and_128 u8_mod_128_id flip: u8_less_iff)
  qed
qed

lemma uncompress_sorted_loop_bytes:
  "uncompress_sorted_loop (length vs) offset (concat (map vint_bytes (vint_deltas offset vs)) @ rest) = Some (vs, rest)"
proof (induction vs arbitrary: offset)
  case (Cons v vs)
  then show ?case
    using vint_accumulate_bytes [of 0 "v - offset" offset] by simp
qed simp

lemma uncompress_unsorted_loop_bytes:
  "uncompress_unsorted_loop (length vs) (concat (map vint_bytes vs) @ rest) = Some (vs, rest)"
proof (induction vs)
  case (Cons v vs)
  then show ?case
    using vint_accumulate_bytes [of 0 v 0] by simp
qed simp

lemma uncompress_until_end_bytes:
  "length vs \<le> n \<Longrightarrow> uncompress_unsorted_until_end (concat (map vint_bytes vs)) n = Some vs"
proof (induction vs arbitrary: n)
  case Nil
  then show ?case by (cases n) auto
next
  case (Cons v vs)
  then obtain m where "n = Suc m" "length vs \<le> m" by (cases n) auto
  with Cons.IH show ?case
    using vint_accumulate_bytes [of 0 v 0] by simp
qed

lemma length_vint_deltas [simp]: "length (vint_deltas offset vs) = length vs"
  by (induction vs arbitrary: offset) auto

lemma length_concat_vint_bytes: "length (concat (map vint_bytes (vs :: u32 list))) \<le> 5 * length vs"
proof (induction vs)
  case (Cons v vs)
  then show ?case using length_vint_bytes_u32 [of v] by simp
qed simp

section \<open>The continue-bit code of the sorted string table\<close>

abbreviation CONTINUE_BIT :: u8 where
  "CONTINUE_BIT \<equiv> 128"

text \<open>The loop over the buffer; falling off its end returns 10.\<close>

fun sst_vint_fill :: "u64 \<Rightarrow> nat \<Rightarrow> u8 list \<times> bool" where
  "sst_vint_fill val 0 = ([], False)"
| "sst_vint_fill val (Suc slots) =
     (let next_byte = ucast (val AND 127); val' = drop_bit 7 val
      in if val' = 0 then ([next_byte], True)
         else (case sst_vint_fill val' slots of
                 (bs, ok) \<Rightarrow> ((next_byte OR CONTINUE_BIT) # bs, ok)))"

definition sst_vint_serialize :: "u64 \<Rightarrow> nat \<Rightarrow> u8 list \<times> nat" where
  "sst_vint_serialize val buffer_len =
     (case sst_vint_fill val buffer_len of (bs, ok) \<Rightarrow> (bs, if ok then length bs else 10))"

definition sst_vint_serialize_into_vec :: "u64 \<Rightarrow> u8 list \<Rightarrow> u8 list" where
  "sst_vint_serialize_into_vec val buffer =
     (case sst_vint_serialize val 10 of (buf, num_bytes) \<Rightarrow> buffer @ take num_bytes buf)"

fun sst_vint_read :: "u64 \<Rightarrow> nat \<Rightarrow> nat \<Rightarrow> u8 list \<Rightarrow> nat \<times> u64" where
  "sst_vint_read result shift consumed [] = (consumed, result)"
| "sst_vint_read result shift consumed (b # buf) =
     (let result' = result OR push_bit (shift mod 64) (ucast (b mod 128))
      in if b < CONTINUE_BIT then (consumed + 1, result')
         else sst_vint_read result' (shift + 7) (consumed + 1) buf)"

definition sst_vint_deserialize_read :: "u8 list \<Rightarrow> nat \<times> u64" where
  "sst_vint_deserialize_read buf = sst_vint_read 0 0 0 buf"

function sst_vint_bytes :: "u64 \<Rightarrow> u8 list" where
  "sst_vint_bytes val =
     (if drop_bit 7 val = 0 then [ucast (take_bit 7 val)]
      else (ucast (take_bit 7 val) OR CONTINUE_BIT) # sst_vint_bytes (drop_bit 7 val))"
  by pat_completeness auto
termination
proof (relation "measure unat")
  fix val :: u64
  assume "drop_bit 7 val \<noteq> 0"
  then have "val \<noteq> 0" by (metis drop_bit_of_0)
  then show "(drop_bit 7 val, val) \<in> measure unat"
    using word_div_128_less [of val] by (simp add: word_div_128)
qed simp

declare sst_vint_bytes.simps [simp del]

lemma sst_vint_fill_enough:
  "unat v < 128 ^ n \<Longrightarrow> 0 < n \<Longrightarrow> sst_vint_fill v n = (sst_vint_bytes v, True)"
proof (induction n arbitrary: v)
  case (Suc n)
  have and127: "v AND 127 = take_bit 7 v"
    using take_bit_eq_mask [of 7 v] by (simp add: mask_eq_exp_minus_1)
  show ?case
  proof (cases "drop_bit 7 v = 0")
    case True
    then show ?thesis by (subst sst_vint_bytes.simps) (simp add: Let_def and127)
  next
    case False
    have eq: "unat (drop_bit 7 v) = unat v div 128"
      using unat_word_div_128 [of v] by (simp add: word_div_128)
    have "unat (drop_bit 7 v) < 128 ^ n"
      using Suc.prems by (simp add: eq less_mult_imp_div_less mult.commute)
    moreover have "0 < n"
      using False Suc.prems by (cases n) (auto simp: eq word_unat_eq_iff)
    ultimately have "sst_vint_fill (drop_bit 7 v) n = (sst_vint_bytes (drop_bit 7 v), True)"
      by (rule Suc.IH)
    with False show ?thesis by (subst sst_vint_bytes.simps) (simp add: Let_def and127)
  qed
qed simp

lemma sst_vint_read_bytes:
  assumes "s = 0 \<or> drop_bit s v \<noteq> 0"
  shows "sst_vint_read (take_bit s v) s c (sst_vint_bytes (drop_bit s v) @ rest) =
           (c + length (sst_vint_bytes (drop_bit s v)), v)"
  using assms
proof (induction "unat (drop_bit s v)" arbitrary: s c rule: less_induct)
  case less
  let ?r = "drop_bit s v"
  have s: "s mod 64 = s"
  proof (cases "s = 0")
    case False
    then have "drop_bit s v \<noteq> 0" using less.prems by simp
    then have "s < 64"
      using drop_bit_word_beyond [of s v] by (intro ccontr [of "s < 64"]) simp
    then show ?thesis by simp
  qed simp
  show ?case
  proof (cases "drop_bit 7 ?r = 0")
    case True
    then have dropped: "drop_bit (s + 7) v = 0" by (simp add: drop_bit_drop_bit add.commute)
    have "sst_vint_bytes ?r = [ucast (take_bit 7 ?r)]"
      by (subst sst_vint_bytes.simps) (simp only: True simp_thms if_True)
    then show ?thesis
      using ucast_7bits_less [of ?r]
      by (simp add: s u8_mod_128_id ucast_ucast_7bits digit_join take_bit_all_dropped [OF dropped])
  next
    case False
    then have next_digit: "drop_bit (s + 7) v \<noteq> 0" by (simp add: drop_bit_drop_bit add.commute)
    have step: "sst_vint_bytes ?r = (ucast (take_bit 7 ?r) OR CONTINUE_BIT) # sst_vint_bytes (drop_bit (s + 7) v)"
      using False by (subst sst_vint_bytes.simps) (simp add: drop_bit_drop_bit add.commute)
    have "?r \<noteq> 0" using False by (metis drop_bit_of_0)
    then have "unat (drop_bit (s + 7) v) < unat ?r"
      using word_div_128_less [of ?r] by (simp add: word_div_128 drop_bit_drop_bit add.commute)
    then show ?thesis
      using less.hyps [of "s + 7" "c + 1"] next_digit ucast_7bits_less [of ?r] u8_or_stop_ge
      by (simp add: step s u8_or_stop_mod ucast_ucast_7bits digit_join Let_def flip: u8_less_iff)
  qed
qed

section \<open>Properties\<close>

text \<open>
  Property C31. Every variable-length integer code round-trips, whatever follows it in the stream, and
  the \<open>u64\<close> writer never reaches its \<open>unreachable!\<close>: the ten-byte buffer always suffices. This
  covers the \<open>u64\<close> and \<open>u128\<close> codes of the common crate, the panicking \<open>u32\<close> reader, and the
  continue-bit code of the sorted string table with its count of consumed bytes.
\<close>

theorem vint_codes_roundtrip:
  "(\<exists>bs. vint_serialize_into v = Some bs \<and> length bs \<le> 10 \<and> vint_deserialize (bs @ rest) = Inr (v, rest)) \<and>
   vint_u128_deserialize (serialize_vint_u128 w [] @ rest) = Inr (w, rest) \<and>
   read_u32_vint (write_u32_vint x [] @ rest) = Some (x, rest) \<and>
   sst_vint_deserialize_read (sst_vint_serialize_into_vec v [] @ rest) =
     (length (sst_vint_serialize_into_vec v []), v)"
proof (intro conjI)
  have bound: "unat v < 128 ^ 10" using unat_u64_less [of v] by simp
  show "\<exists>bs. vint_serialize_into v = Some bs \<and> length bs \<le> 10 \<and> vint_deserialize (bs @ rest) = Inr (v, rest)"
    using length_vint_bytes [OF bound] by (simp add: vint_serialize_into_total vint_deserialize_bytes)
  show "vint_u128_deserialize (serialize_vint_u128 w [] @ rest) = Inr (w, rest)"
    by (simp add: serialize_vint_u128_def vint_u128_deserialize_bytes)
  show "read_u32_vint (write_u32_vint x [] @ rest) = Some (x, rest)"
    by (simp add: write_u32_vint_def serialize_vint_u32_eq read_u32_vint_bytes)
  have "sst_vint_serialize_into_vec v [] = sst_vint_bytes v"
    using sst_vint_fill_enough [OF bound]
    by (simp add: sst_vint_serialize_into_vec_def sst_vint_serialize_def)
  then show "sst_vint_deserialize_read (sst_vint_serialize_into_vec v [] @ rest) =
     (length (sst_vint_serialize_into_vec v []), v)"
    using sst_vint_read_bytes [of 0 v 0 rest] by (simp add: sst_vint_deserialize_read_def)
qed

text \<open>
  Property C32. The branchless one-word encoder of \<open>u32\<close> writes byte for byte what the seven-bit loop
  of the other encoders writes, and never more than five bytes.
\<close>

theorem vint_u32_one_word_equiv:
  "serialize_vint_u32 x = vint_bytes x \<and> length (serialize_vint_u32 x) \<le> 5"
  by (simp add: serialize_vint_u32_eq length_vint_bytes_u32)

text \<open>
  Property C33. The posting block codes round-trip on any list of at most 128 values: with the
  640-byte output buffer no write panics, the delta decoder started from the same offset and the
  plain decoder give the list back and report how many bytes they read, and the decoder that
  reads until the end of its input recovers the number of values from the bytes alone.
\<close>

theorem postings_vint_block_roundtrip:
  assumes "length vs \<le> 128"
  shows "\<exists>sorted_bytes bytes.
     compress_sorted vs 640 offset = Some sorted_bytes \<and> compress_unsorted vs 640 = Some bytes \<and>
     uncompress_sorted (sorted_bytes @ rest) (length vs) offset = Some (vs, length sorted_bytes) \<and>
     uncompress_unsorted (bytes @ rest) (length vs) = Some (vs, length bytes) \<and>
     uncompress_unsorted_until_end bytes 128 = Some vs"
proof -
  have "length (concat (map vint_bytes (vint_deltas offset vs))) \<le> 640"
      "length (concat (map vint_bytes vs)) \<le> 640"
    using length_concat_vint_bytes [of "vint_deltas offset vs"] length_concat_vint_bytes [of vs] assms
    by simp_all
  then show ?thesis
    using assms
    by (simp add: compress_sorted_def compress_unsorted_def uncompress_sorted_def
        uncompress_unsorted_def uncompress_sorted_loop_bytes uncompress_unsorted_loop_bytes
        uncompress_until_end_bytes)
qed

theorem postings_vint_block_roundtrip_witness:
  "\<exists>sorted_bytes. compress_sorted [3, 300, 70000] 640 1 = Some sorted_bytes \<and>
     uncompress_sorted (sorted_bytes @ [7]) 3 1 = Some ([3, 300, 70000], length sorted_bytes)"
  using postings_vint_block_roundtrip [of "[3, 300, 70000]" 1 "[7]"]
  by (auto simp: numeral_3_eq_3)

end
