(* ===== verification/Serialize.thy ===== *)
theory Serialize
  imports VInt
begin

text \<open>
  The \<open>BinarySerializable\<close> trait of \<^verbatim>\<open>common/src/serialize.rs\<close>. The trait is the locale
  \<open>codec\<close>: an encoder, a decoder that consumes a prefix of its input or fails, and the law that
  decoding an encoding gives the value back and leaves what follows. The implementations for
  the fixed-width numbers, booleans, strings, pairs and vectors are translated below and the
  interpretations discharge the law for each of them.
\<close>

type_synonym 'a decoder = "u8 list \<Rightarrow> io_error + ('a \<times> u8 list)"

section \<open>Implementations\<close>

text \<open>Byte-order reads and writes: \<open>read_exact\<close> fails at the end of the input.\<close>

definition le_read :: "nat \<Rightarrow> 'a :: len word decoder" where
  "le_read n bytes =
     (if length bytes < n then Inl UnexpectedEof
      else Inr (word_of_nat (le_nat (take n bytes)), drop n bytes))"

definition unit_serialize :: "unit \<Rightarrow> u8 list" where
  "unit_serialize _ = []"

definition unit_deserialize :: "unit decoder" where
  "unit_deserialize bytes = Inr ((), bytes)"

definition u8_serialize :: "u8 \<Rightarrow> u8 list" where
  "u8_serialize v = le_bytes 1 (unat v)"

definition u8_deserialize :: "u8 decoder" where
  "u8_deserialize = le_read 1"

definition u16_serialize :: "16 word \<Rightarrow> u8 list" where
  "u16_serialize v = le_bytes 2 (unat v)"

definition u16_deserialize :: "16 word decoder" where
  "u16_deserialize = le_read 2"

definition u32_serialize :: "u32 \<Rightarrow> u8 list" where
  "u32_serialize v = le_bytes 4 (unat v)"

definition u32_deserialize :: "u32 decoder" where
  "u32_deserialize = le_read 4"

definition u64_serialize :: "u64 \<Rightarrow> u8 list" where
  "u64_serialize v = le_bytes 8 (unat v)"

definition u64_deserialize :: "u64 decoder" where
  "u64_deserialize = le_read 8"

definition u128_serialize :: "u128 \<Rightarrow> u8 list" where
  "u128_serialize v = le_bytes 16 (unat v)"

definition u128_deserialize :: "u128 decoder" where
  "u128_deserialize = le_read 16"

definition bool_serialize :: "bool \<Rightarrow> u8 list" where
  "bool_serialize b = u8_serialize (if b then 1 else 0)"

definition bool_deserialize :: "bool decoder" where
  "bool_deserialize bytes =
     (case u8_deserialize bytes of
        Inl e \<Rightarrow> Inl e
      | Inr (val, rest) \<Rightarrow>
          if val = 0 then Inr (False, rest)
          else if val = 1 then Inr (True, rest)
          else Inl InvalidData)"

definition vint_serialize :: "u64 \<Rightarrow> u8 list option" where
  "vint_serialize v = vint_serialize_into v"

definition pair_serialize :: "('a \<Rightarrow> u8 list) \<Rightarrow> ('b \<Rightarrow> u8 list) \<Rightarrow> 'a \<times> 'b \<Rightarrow> u8 list" where
  "pair_serialize enc_l enc_r p = enc_l (fst p) @ enc_r (snd p)"

definition pair_deserialize :: "'a decoder \<Rightarrow> 'b decoder \<Rightarrow> ('a \<times> 'b) decoder" where
  "pair_deserialize dec_l dec_r bytes =
     (case dec_l bytes of
        Inl e \<Rightarrow> Inl e
      | Inr (l, bytes') \<Rightarrow>
          (case dec_r bytes' of
             Inl e \<Rightarrow> Inl e
           | Inr (r, rest) \<Rightarrow> Inr ((l, r), rest)))"

definition vec_serialize :: "('a \<Rightarrow> u8 list) \<Rightarrow> 'a list \<Rightarrow> u8 list" where
  "vec_serialize enc items = vint_bytes (word_of_nat (length items) :: u64) @ concat (map enc items)"

fun read_items :: "'a decoder \<Rightarrow> nat \<Rightarrow> 'a list decoder" where
  "read_items dec 0 bytes = Inr ([], bytes)"
| "read_items dec (Suc n) bytes =
     (case dec bytes of
        Inl e \<Rightarrow> Inl e
      | Inr (item, bytes') \<Rightarrow>
          (case read_items dec n bytes' of
             Inl e \<Rightarrow> Inl e
           | Inr (items, rest) \<Rightarrow> Inr (item # items, rest)))"

definition vec_deserialize :: "'a decoder \<Rightarrow> 'a list decoder" where
  "vec_deserialize dec bytes =
     (case vint_deserialize bytes of
        Inl e \<Rightarrow> Inl e
      | Inr (num_items, bytes') \<Rightarrow> read_items dec (unat num_items) bytes')"

text \<open>
  Rust strings are byte sequences in UTF-8; \<open>read_to_string\<close> checks the encoding the way
  \<open>core::str::from_utf8\<close> does.
\<close>

definition utf8_cont :: "u8 \<Rightarrow> bool" where
  "utf8_cont b \<longleftrightarrow> 0x80 \<le> b \<and> b \<le> 0xBF"

text \<open>One character: the rest of the input after it, or nothing when it is malformed.\<close>

definition utf8_step :: "u8 \<Rightarrow> u8 list \<Rightarrow> u8 list option" where
  "utf8_step b bs =
     (if b < 0x80 then Some bs
      else if 0xC2 \<le> b \<and> b \<le> 0xDF then
        (if length bs \<ge> 1 \<and> utf8_cont (bs ! 0) then Some (drop 1 bs) else None)
      else if 0xE0 \<le> b \<and> b \<le> 0xEF then
        (if length bs \<ge> 2 \<and>
            (if b = 0xE0 then 0xA0 \<le> bs ! 0 \<and> bs ! 0 \<le> 0xBF
             else if b = 0xED then 0x80 \<le> bs ! 0 \<and> bs ! 0 \<le> 0x9F
             else utf8_cont (bs ! 0)) \<and> utf8_cont (bs ! 1)
         then Some (drop 2 bs) else None)
      else if 0xF0 \<le> b \<and> b \<le> 0xF4 then
        (if length bs \<ge> 3 \<and>
            (if b = 0xF0 then 0x90 \<le> bs ! 0 \<and> bs ! 0 \<le> 0xBF
             else if b = 0xF4 then 0x80 \<le> bs ! 0 \<and> bs ! 0 \<le> 0x8F
             else utf8_cont (bs ! 0)) \<and> utf8_cont (bs ! 1) \<and> utf8_cont (bs ! 2)
         then Some (drop 3 bs) else None)
      else None)"

lemma utf8_step_length: "utf8_step b bs = Some rest \<Longrightarrow> length rest \<le> length bs"
  by (auto simp: utf8_step_def split: if_splits)

function utf8_valid :: "u8 list \<Rightarrow> bool" where
  "utf8_valid [] = True"
| "utf8_valid (b # bs) =
     (case utf8_step b bs of None \<Rightarrow> False | Some rest \<Rightarrow> utf8_valid rest)"
  by pat_completeness auto
termination
  by (relation "measure length") (auto dest: utf8_step_length)

definition string_serialize :: "u8 list \<Rightarrow> u8 list" where
  "string_serialize s = vint_bytes (word_of_nat (length s) :: u64) @ s"

text \<open>\<open>take(n).read_to_string\<close> stops at the end of the input without an error.\<close>

definition string_deserialize :: "u8 list decoder" where
  "string_deserialize bytes =
     (case vint_deserialize bytes of
        Inl e \<Rightarrow> Inl e
      | Inr (string_length, bytes') \<Rightarrow>
          (let s = take (unat string_length) bytes'
           in if utf8_valid s then Inr (s, drop (unat string_length) bytes') else Inl InvalidData))"

section \<open>The trait\<close>

locale codec =
  fixes enc :: "'a \<Rightarrow> u8 list"
    and dec :: "'a decoder"
    and valid :: "'a \<Rightarrow> bool"
  assumes dec_enc: "valid a \<Longrightarrow> dec (enc a @ rest) = Inr (a, rest)"
begin

lemma enc_inj: "valid a \<Longrightarrow> valid b \<Longrightarrow> enc a = enc b \<Longrightarrow> a = b"
  by (metis dec_enc sum.inject(2) prod.inject)

text \<open>Encodings are self-delimiting: two streams agree only if their first values do.\<close>

lemma enc_prefix_free: "valid a \<Longrightarrow> valid b \<Longrightarrow> enc a @ xs = enc b @ ys \<Longrightarrow> a = b \<and> xs = ys"
  by (metis dec_enc sum.inject(2) prod.inject)

lemma read_items_enc:
  "\<forall>a\<in>set items. valid a \<Longrightarrow>
   read_items dec (length items) (concat (map enc items) @ rest) = Inr (items, rest)"
  by (induction items) (simp_all add: dec_enc)

lemma vec_dec_enc:
  assumes "\<forall>a\<in>set items. valid a" "length items < 2 ^ 64"
  shows "vec_deserialize dec (vec_serialize enc items @ rest) = Inr (items, rest)"
proof -
  have "unat (word_of_nat (length items) :: u64) = length items"
    using assms(2) by (simp add: unsigned_of_nat take_bit_nat_eq_self)
  then show ?thesis
    using assms(1)
    by (simp add: vec_deserialize_def vec_serialize_def vint_deserialize_bytes read_items_enc)
qed

end

text \<open>A vector of serializable items is serializable, and so is a pair.\<close>

locale codec_vec = item: codec enc dec valid
  for enc :: "'a \<Rightarrow> u8 list" and dec :: "'a decoder" and valid :: "'a \<Rightarrow> bool"
begin

sublocale vec: codec "vec_serialize enc" "vec_deserialize dec"
    "\<lambda>items. (\<forall>a\<in>set items. valid a) \<and> length items < 2 ^ 64"
  by unfold_locales (simp add: item.vec_dec_enc)

end

locale codec_pair = l: codec enc_l dec_l valid_l + r: codec enc_r dec_r valid_r
  for enc_l :: "'a \<Rightarrow> u8 list" and dec_l :: "'a decoder" and valid_l :: "'a \<Rightarrow> bool"
    and enc_r :: "'b \<Rightarrow> u8 list" and dec_r :: "'b decoder" and valid_r :: "'b \<Rightarrow> bool"
begin

sublocale both: codec "pair_serialize enc_l enc_r" "pair_deserialize dec_l dec_r"
    "\<lambda>(a, b). valid_l a \<and> valid_r b"
  by unfold_locales (auto simp: pair_serialize_def pair_deserialize_def l.dec_enc r.dec_enc)

end

section \<open>Interpretations\<close>

lemma le_read_le_bytes:
  assumes "256 ^ n = (2 :: nat) ^ LENGTH('a)"
  shows "le_read n (le_bytes n (unat (v :: 'a :: len word)) @ rest) = Inr (v, rest)"
proof -
  have "unat v < 256 ^ n" unfolding assms by (rule unsigned_less)
  then show ?thesis by (simp add: le_read_def le_nat_le_bytes_id)
qed

interpretation u8c: codec u8_serialize u8_deserialize "\<lambda>_. True"
  by unfold_locales (simp add: u8_serialize_def u8_deserialize_def le_read_le_bytes del: le_bytes.simps)

interpretation u16c: codec u16_serialize u16_deserialize "\<lambda>_. True"
  by unfold_locales (simp add: u16_serialize_def u16_deserialize_def le_read_le_bytes del: le_bytes.simps)

interpretation u32c: codec u32_serialize u32_deserialize "\<lambda>_. True"
  by unfold_locales (simp add: u32_serialize_def u32_deserialize_def le_read_le_bytes del: le_bytes.simps)

interpretation u64c: codec u64_serialize u64_deserialize "\<lambda>_. True"
  by unfold_locales (simp add: u64_serialize_def u64_deserialize_def le_read_le_bytes del: le_bytes.simps)

interpretation u128c: codec u128_serialize u128_deserialize "\<lambda>_. True"
  by unfold_locales (simp add: u128_serialize_def u128_deserialize_def le_read_le_bytes del: le_bytes.simps)

interpretation unitc: codec unit_serialize unit_deserialize "\<lambda>_. True"
  by unfold_locales (simp add: unit_serialize_def unit_deserialize_def)

interpretation boolc: codec bool_serialize bool_deserialize "\<lambda>_. True"
  by unfold_locales (simp add: bool_serialize_def bool_deserialize_def u8c.dec_enc)

interpretation vintc: codec "vint_bytes :: u64 \<Rightarrow> u8 list" vint_deserialize "\<lambda>_. True"
  by unfold_locales (simp add: vint_deserialize_bytes)

interpretation vint128c: codec "vint_bytes :: u128 \<Rightarrow> u8 list" vint_u128_deserialize "\<lambda>_. True"
  by unfold_locales (simp add: vint_u128_deserialize_bytes)

interpretation stringc: codec string_serialize string_deserialize
    "\<lambda>s. utf8_valid s \<and> length s < 2 ^ 64"
proof unfold_locales
  fix s rest :: "u8 list"
  assume s: "utf8_valid s \<and> length s < 2 ^ 64"
  then have "unat (word_of_nat (length s) :: u64) = length s"
    by (simp add: unsigned_of_nat take_bit_nat_eq_self)
  with s show "string_deserialize (string_serialize s @ rest) = Inr (s, rest)"
    by (simp add: string_deserialize_def string_serialize_def vint_deserialize_bytes)
qed

interpretation stringsc: codec_vec string_serialize string_deserialize
    "\<lambda>s. utf8_valid s \<and> length s < 2 ^ 64"
  by unfold_locales

interpretation string_u64_pairc: codec_pair string_serialize string_deserialize
    "\<lambda>s. utf8_valid s \<and> length s < 2 ^ 64" u64_serialize u64_deserialize "\<lambda>_. True"
  by unfold_locales

interpretation pairsc: codec_vec "pair_serialize string_serialize u64_serialize"
    "pair_deserialize string_deserialize u64_deserialize"
    "\<lambda>(s, v). (utf8_valid s \<and> length s < 2 ^ 64) \<and> True"
  by unfold_locales

section \<open>Properties\<close>

text \<open>
  Property C34. The composite encodings the index metadata is written with round-trip: a vector of
  pairs of a string and a number is read back exactly, and what follows it in the stream is left
  untouched.
\<close>

theorem vec_of_pairs_roundtrip:
  assumes "\<forall>(s, v)\<in>set items. utf8_valid s \<and> length s < 2 ^ 64" and "length items < 2 ^ 64"
  shows "vec_deserialize (pair_deserialize string_deserialize u64_deserialize)
           (vec_serialize (pair_serialize string_serialize u64_serialize) items @ rest) =
         Inr (items, rest)"
  by (rule pairsc.vec.dec_enc) (use assms in auto)

theorem vec_of_pairs_roundtrip_witness:
  "vec_deserialize (pair_deserialize string_deserialize u64_deserialize)
     (vec_serialize (pair_serialize string_serialize u64_serialize) [([0x61, 0xC3, 0xA9], 7)] @ [1]) =
   Inr ([([0x61, 0xC3, 0xA9], 7)], [1])"
  by (rule vec_of_pairs_roundtrip) (simp_all add: utf8_step_def utf8_cont_def)

text \<open>
  Property C38. A string whose bytes are cut short decodes without an error: the reader returns the
  prefix that is there, when that prefix is valid UTF-8, instead of reporting the missing bytes.
\<close>

theorem truncated_string_accepted:
  assumes "length s < 2 ^ 64" and "n \<le> length s" and "utf8_valid (take n s)"
  shows "string_deserialize (take (length (string_serialize s) - (length s - n)) (string_serialize s)) =
           Inr (take n s, [])"
proof -
  have "unat (word_of_nat (length s) :: u64) = length s"
    using assms(1) by (simp add: unsigned_of_nat take_bit_nat_eq_self)
  then show ?thesis
    using assms(2,3) by (simp add: string_deserialize_def string_serialize_def vint_deserialize_bytes)
qed

theorem truncated_string_accepted_witness:
  "string_deserialize (take 3 (string_serialize [0x61, 0x62, 0x63, 0x64])) = Inr ([0x61, 0x62], [])"
proof -
  have "length (string_serialize [0x61, 0x62, 0x63, 0x64]) = 5"
    by (simp add: string_serialize_def vint_bytes.simps Let_def)
  then show ?thesis
    using truncated_string_accepted [of "[0x61, 0x62, 0x63, 0x64]" 2] by (simp add: utf8_step_def)
qed

end
