(* ===== verification/BitPack.thy ===== *)
theory BitPack
  imports Prelude
begin

text \<open>
  The bit packer of \<^verbatim>\<open>bitpacker/src/bitpacker.rs\<close>: the writer that packs values of a fixed bit
  width through a 64-bit buffer, the random-access reader with its slow path at the end of the data,
  the batch reader that decodes several values per load, and the value-range filter. The blocked
  packer of \<^verbatim>\<open>blocked_bitpacker.rs\<close> is built on it. Correctness is stated on the number the
  packed bytes denote in little-endian order: value \<open>i\<close> is bits \<open>i * num_bits\<close> and up.
\<close>

section \<open>The writer\<close>

record bit_packer =
  bp_mini_buffer :: u64
  bp_mini_buffer_written :: nat

definition bit_packer_new :: bit_packer where
  "bit_packer_new = \<lparr>bp_mini_buffer = 0, bp_mini_buffer_written = 0\<rparr>"

definition bit_packer_write :: "u64 \<Rightarrow> nat \<Rightarrow> bit_packer \<times> u8 list \<Rightarrow> bit_packer \<times> u8 list" where
  "bit_packer_write val num_bits = (\<lambda>(bp, output).
     (let written = bp_mini_buffer_written bp
      in if written + num_bits > 64 then
           (let mini_buffer = bp_mini_buffer bp OR push_bit (written mod 64) val
            in (\<lparr>bp_mini_buffer = drop_bit ((64 - written) mod 64) val,
                 bp_mini_buffer_written = written + num_bits - 64\<rparr>,
                output @ u64_to_le_bytes mini_buffer))
         else
           (let mini_buffer = bp_mini_buffer bp OR push_bit (written mod 64) val;
                written' = written + num_bits
            in if written' = 64 then (bit_packer_new, output @ u64_to_le_bytes mini_buffer)
               else (\<lparr>bp_mini_buffer = mini_buffer, bp_mini_buffer_written = written'\<rparr>, output))))"

definition bit_packer_flush :: "bit_packer \<times> u8 list \<Rightarrow> bit_packer \<times> u8 list" where
  "bit_packer_flush = (\<lambda>(bp, output).
     (if bp_mini_buffer_written bp > 0 then
        (let num_bytes = (bp_mini_buffer_written bp + 7) div 8
         in (\<lparr>bp_mini_buffer = 0, bp_mini_buffer_written = 0\<rparr>,
             output @ take num_bytes (u64_to_le_bytes (bp_mini_buffer bp))))
      else (bp, output)))"

definition bit_packer_close :: "bit_packer \<times> u8 list \<Rightarrow> bit_packer \<times> u8 list" where
  "bit_packer_close = bit_packer_flush"

definition pack_all :: "nat \<Rightarrow> u64 list \<Rightarrow> u8 list \<Rightarrow> u8 list" where
  "pack_all num_bits vals output =
     snd (bit_packer_close (fold (\<lambda>val. bit_packer_write val num_bits) vals (bit_packer_new, output)))"

section \<open>The reader\<close>

record bit_unpacker =
  bu_num_bits :: nat
  bu_mask :: u64

definition bit_unpacker_new :: "nat \<Rightarrow> bit_unpacker option" where
  "bit_unpacker_new num_bits =
     (if num_bits \<le> 7 * 8 \<or> num_bits = 64 then
        Some \<lparr>bu_num_bits = num_bits,
              bu_mask = (if num_bits = 64 then NOT 0 else push_bit num_bits 1 - 1)\<rparr>
      else None)"

definition get_slow_path :: "u64 \<Rightarrow> nat \<Rightarrow> nat \<Rightarrow> u8 list \<Rightarrow> u64 option" where
  "get_slow_path msk addr bit_shift data =
     (if addr \<le> length data \<and> length data - addr \<le> 8 then
        (let available_bytes = length data - addr;
             bytes = drop addr data @ replicate (8 - available_bytes) 0
         in Some (drop_bit bit_shift (u64_from_le_bytes bytes) AND msk))
      else None)"

definition unpacker_get :: "bit_unpacker \<Rightarrow> nat \<Rightarrow> u8 list \<Rightarrow> u64 option" where
  "unpacker_get u idx data =
     (let addr_in_bits = idx * bu_num_bits u;
          addr = addr_in_bits div 8
      in if addr + 8 > length data then
           (if bu_num_bits u = 0 then Some 0
            else get_slow_path (bu_mask u) addr (addr_in_bits mod 8) data)
         else
           (let bit_shift = addr_in_bits mod 8;
                val_unshifted_unmasked = u64_from_le_bytes (take 8 (drop addr data))
            in Some (drop_bit bit_shift val_unshifted_unmasked AND bu_mask u)))"

text \<open>
  The unchecked eight-byte load of \<open>get_range\<close>: reading past the end of the slice, undefined in
  the source, is \<open>None\<close> here.
\<close>

definition unpacker_load :: "u8 list \<Rightarrow> nat \<Rightarrow> u64 option" where
  "unpacker_load data bit_addr =
     (if bit_addr div 8 + 8 \<le> length data
      then Some (drop_bit (bit_addr mod 8) (u64_from_le_bytes (take 8 (drop (bit_addr div 8) data))))
      else None)"

definition packed_chunk :: "bit_unpacker \<Rightarrow> u8 list \<Rightarrow> nat \<Rightarrow> nat \<Rightarrow> u64 list option" where
  "packed_chunk u data n bit_addr =
     map_option (\<lambda>packed. map (\<lambda>i. drop_bit (i * bu_num_bits u) packed AND bu_mask u) [0..<n])
       (unpacker_load data bit_addr)"

definition get_range_chunk4 :: "bit_unpacker \<Rightarrow> u8 list \<Rightarrow> nat \<Rightarrow> u64 list option" where
  "get_range_chunk4 u data bit_addr =
     (if bu_num_bits u \<le> 14 \<or> bu_num_bits u = 16 then packed_chunk u data 4 bit_addr
      else if bu_num_bits u \<le> 28 \<or> bu_num_bits u = 32 then
        map_option concat
          (map_opt (\<lambda>pair_idx. packed_chunk u data 2 (bit_addr + pair_idx * 2 * bu_num_bits u)) [0..<2])
      else
        map_opt (\<lambda>i. map_option (\<lambda>packed. packed AND bu_mask u)
                      (unpacker_load data (bit_addr + i * bu_num_bits u))) [0..<4])"

text \<open>
  The decoded values, one for each slot of an output of length \<open>n\<close>. The loop near the end of the data casts each
  index to 32 bits; the loads of the other branches compute with 64 bits.
\<close>

definition unpacker_get_range :: "bit_unpacker \<Rightarrow> nat \<Rightarrow> u8 list \<Rightarrow> nat \<Rightarrow> u64 list option" where
  "unpacker_get_range u start_idx data n =
     (if n = 0 then Some []
      else if bu_num_bits u = 0 then Some (replicate n 0)
      else
        (let last_bit_addr = (start_idx + n - 1) * bu_num_bits u;
             bit_addr = start_idx * bu_num_bits u
         in if last_bit_addr div 8 + 8 > length data then
              map_opt (\<lambda>offset. unpacker_get u ((start_idx + offset) mod 2 ^ 32) data) [0..<n]
            else if n = 64 \<and> bu_num_bits u \<le> 8 then
              map_option concat
                (map_opt (\<lambda>k. packed_chunk u data 8 (bit_addr + k * (8 * bu_num_bits u))) [0..<n div 8])
            else
              map_opt (\<lambda>k. get_range_chunk4 u data (bit_addr + k * (4 * bu_num_bits u))) [0..<n div 4]
                \<bind> (\<lambda>chunks.
              map_opt (\<lambda>i. map_option (\<lambda>packed. packed AND bu_mask u)
                        (unpacker_load data (bit_addr + n div 4 * (4 * bu_num_bits u) + i * bu_num_bits u)))
                [0..<n mod 4]
                \<bind> (\<lambda>remainder. Some (concat chunks @ remainder)))))"

section \<open>The writer appends bits\<close>

text \<open>The number the output and the buffer denote together, and how many bits it has.\<close>

definition packed_bits :: "bit_packer \<times> u8 list \<Rightarrow> nat" where
  "packed_bits st = 8 * length (snd st) + bp_mini_buffer_written (fst st)"

definition packed_value :: "bit_packer \<times> u8 list \<Rightarrow> nat" where
  "packed_value st = le_nat (snd st) + 2 ^ (8 * length (snd st)) * unat (bp_mini_buffer (fst st))"

definition packer_inv :: "bit_packer \<times> u8 list \<Rightarrow> bool" where
  "packer_inv st \<longleftrightarrow> bp_mini_buffer_written (fst st) < 64 \<and>
     unat (bp_mini_buffer (fst st)) < 2 ^ bp_mini_buffer_written (fst st)"

lemma unat_push_bit_u64: "unat (push_bit w (v :: u64)) = push_bit w (take_bit (64 - w) (unat v))"
  by (rule bit_eqI) (auto simp: bit_simps dest: bit_imp_le_length)

lemma unat_or_shift:
  assumes "unat (m :: u64) < 2 ^ w" "w < 64"
  shows "unat (m OR push_bit w v) = unat m + 2 ^ w * (unat v mod 2 ^ (64 - w))"
proof -
  have m: "unat m = take_bit w (unat m)"
    using assms by (simp add: take_bit_nat_eq_self)
  have "unat (m OR push_bit w v) = unat m OR unat (push_bit w v)"
    by (rule bit_eqI) (auto simp: bit_simps dest: bit_imp_le_length)
  also have "\<dots> = take_bit w (unat m) OR push_bit w (take_bit (64 - w) (unat v))"
    by (simp only: unat_push_bit_u64 flip: m)
  also have "\<dots> = take_bit w (unat m) + push_bit w (take_bit (64 - w) (unat v))"
    by (rule disjunctive_add [symmetric]) (auto simp: bit_simps)
  finally show ?thesis
    using m by (simp only: push_bit_eq_mult take_bit_eq_mod mult.commute)
qed

lemma split_shift:
  assumes "w \<le> (64 :: nat)"
  shows "2 ^ w * (x mod 2 ^ (64 - w)) + 2 ^ 64 * (x div 2 ^ (64 - w)) = 2 ^ w * (x :: nat)"
proof -
  have "(2 :: nat) ^ 64 = 2 ^ w * 2 ^ (64 - w)" using assms by (simp flip: power_add)
  then have "2 ^ w * (x mod 2 ^ (64 - w)) + 2 ^ 64 * (x div 2 ^ (64 - w))
      = 2 ^ w * (x mod 2 ^ (64 - w) + 2 ^ (64 - w) * (x div 2 ^ (64 - w)))"
    by (simp only: algebra_simps)
  then show ?thesis by simp
qed

lemma power_256: "(256 :: nat) ^ n = 2 ^ (8 * n)"
  by (simp add: power_mult)

lemma bit_packer_write_bits:
  assumes "packer_inv st" "unat val < 2 ^ nb" "nb \<le> 64"
  shows "packer_inv (bit_packer_write val nb st)"
    and "packed_bits (bit_packer_write val nb st) = packed_bits st + nb"
    and "packed_value (bit_packer_write val nb st) = packed_value st + 2 ^ packed_bits st * unat val"
proof -
  obtain bp out where st: "st = (bp, out)" by force
  define w where "w = bp_mini_buffer_written bp"
  define m where "m = unat (bp_mini_buffer bp)"
  have w: "w < 64" and m: "m < 2 ^ w" using assms(1) by (auto simp: packer_inv_def st w_def m_def)
  have acc: "unat (bp_mini_buffer bp OR push_bit w val) = m + 2 ^ w * (unat val mod 2 ^ (64 - w))"
    unfolding m_def by (rule unat_or_shift) (use w m in \<open>auto simp: m_def\<close>)
  have hi: "unat (drop_bit k val) = unat val div 2 ^ k" for k
    by (simp only: unat_drop_bit_eq drop_bit_eq_div [of _ "unat val"])
  have small: "unat val mod 2 ^ (64 - w) = unat val" if "w + nb \<le> 64"
  proof -
    have "(2 :: nat) ^ nb \<le> 2 ^ (64 - w)" using that by (intro power_increasing) auto
    then show ?thesis by (intro mod_less) (rule less_le_trans [OF assms(2)])
  qed
  have hi_less: "unat val div 2 ^ (64 - w) < 2 ^ (w + nb - 64)" if "w + nb > 64"
  proof -
    have "(2 :: nat) ^ nb = 2 ^ (w + nb - 64) * 2 ^ (64 - w)" using that w by (simp flip: power_add)
    then show ?thesis using assms(2) by (simp add: less_mult_imp_div_less)
  qed
  have sum_less: "m + 2 ^ w * unat val < 2 ^ (w + nb)"
  proof -
    have "m + 2 ^ w * unat val < 2 ^ w * Suc (unat val)" using m by simp
    also have "\<dots> \<le> 2 ^ w * 2 ^ nb" using assms(2) by (intro mult_le_mono2) simp
    finally show ?thesis by (simp add: power_add)
  qed
  consider (over) "w + nb > 64" | (full) "w + nb = 64" | (room) "w + nb < 64" by linarith
  note cases_w = this
  show "packer_inv (bit_packer_write val nb st)"
    using cases_w
  proof cases
    case over
    then show ?thesis using w assms(3) hi_less
      by (auto simp: bit_packer_write_def st packer_inv_def Let_def w_def [symmetric] hi)
  next
    case full
    then show ?thesis
      by (auto simp: bit_packer_write_def st packer_inv_def Let_def w_def [symmetric] bit_packer_new_def)
  next
    case room
    then show ?thesis using w acc small sum_less
      by (auto simp: bit_packer_write_def st packer_inv_def Let_def w_def [symmetric])
  qed
  show "packed_bits (bit_packer_write val nb st) = packed_bits st + nb"
    by (auto simp: bit_packer_write_def st packed_bits_def Let_def w_def [symmetric] bit_packer_new_def)
  show "packed_value (bit_packer_write val nb st) = packed_value st + 2 ^ packed_bits st * unat val"
    using cases_w
  proof cases
    case over
    have "0 < w" using over assms(3) by simp
    then have "packed_value (bit_packer_write val nb st)
        = le_nat out + 2 ^ (8 * length out) *
          (m + (2 ^ w * (unat val mod 2 ^ (64 - w)) + 2 ^ 64 * (unat val div 2 ^ (64 - w))))"
      using over w
      by (simp add: bit_packer_write_def st packed_value_def Let_def w_def [symmetric] le_nat_append
          le_nat_u64_to_le_bytes acc hi power_256 power_add algebra_simps)
    then show ?thesis using w
      by (simp only: split_shift less_imp_le)
        (simp add: st packed_value_def packed_bits_def w_def m_def power_add algebra_simps)
  next
    case full
    then show ?thesis using w small
      by (simp add: bit_packer_write_def st packed_value_def packed_bits_def Let_def w_def [symmetric]
          m_def [symmetric] le_nat_append le_nat_u64_to_le_bytes acc power_256 power_add algebra_simps
          bit_packer_new_def)
  next
    case room
    then show ?thesis using w small
      by (simp add: bit_packer_write_def st packed_value_def packed_bits_def Let_def w_def [symmetric]
          m_def [symmetric] acc power_add algebra_simps)
  qed
qed

lemma packer_inv_new [simp]: "packer_inv (bit_packer_new, out)"
  by (simp add: packer_inv_def bit_packer_new_def)

lemma bit_packer_close_value:
  assumes "packer_inv st"
  shows "le_nat (snd (bit_packer_close st)) = packed_value st"
    and "length (snd (bit_packer_close st)) = (packed_bits st + 7) div 8"
proof -
  obtain bp out where st: "st = (bp, out)" by force
  define w where "w = bp_mini_buffer_written bp"
  have w: "w < 64" and m: "unat (bp_mini_buffer bp) < 2 ^ w"
    using assms by (auto simp: packer_inv_def st w_def)
  have "(2 :: nat) ^ w \<le> 256 ^ ((w + 7) div 8)"
    unfolding power_256 by (rule power_increasing) auto
  then have keep: "unat (bp_mini_buffer bp) mod 256 ^ ((w + 7) div 8) = unat (bp_mini_buffer bp)"
    using m by simp
  show "le_nat (snd (bit_packer_close st)) = packed_value st"
  proof (cases "w = 0")
    case True
    then have "unat (bp_mini_buffer bp) = 0" using m by simp
    then show ?thesis using True
      by (simp add: bit_packer_close_def bit_packer_flush_def st w_def packed_value_def)
  next
    case False
    then show ?thesis using keep
      by (simp add: bit_packer_close_def bit_packer_flush_def st w_def packed_value_def Let_def
          le_nat_append le_nat_take le_nat_u64_to_le_bytes power_256)
  qed
  show "length (snd (bit_packer_close st)) = (packed_bits st + 7) div 8"
    using w by (auto simp: bit_packer_close_def bit_packer_flush_def st packed_bits_def Let_def
        w_def [symmetric])
qed

text \<open>The number a list of values packs to.\<close>

fun pack_nat :: "nat \<Rightarrow> nat list \<Rightarrow> nat" where
  "pack_nat nb [] = 0"
| "pack_nat nb (v # vs) = v + 2 ^ nb * pack_nat nb vs"

lemma bit_slice_pack_nat:
  "i < length vs \<Longrightarrow> \<forall>v\<in>set vs. v < 2 ^ nb \<Longrightarrow> bit_slice (i * nb) nb (pack_nat nb vs) = vs ! i"
proof (induction vs arbitrary: i)
  case (Cons v vs)
  show ?case
  proof (cases i)
    case 0
    then show ?thesis using Cons.prems by (simp add: bit_slice_def)
  next
    case (Suc j)
    have "(v + 2 ^ nb * pack_nat nb vs) div 2 ^ (Suc j * nb) = pack_nat nb vs div 2 ^ (j * nb)"
      using Cons.prems by (simp add: power_add div_mult2_eq)
    then show ?thesis using Cons Suc by (simp add: bit_slice_def)
  qed
qed simp

lemma bit_packer_write_fold:
  "packer_inv st \<Longrightarrow> \<forall>v\<in>set vals. unat v < 2 ^ nb \<Longrightarrow> nb \<le> 64 \<Longrightarrow>
   packer_inv (fold (\<lambda>v. bit_packer_write v nb) vals st) \<and>
   packed_bits (fold (\<lambda>v. bit_packer_write v nb) vals st) = packed_bits st + length vals * nb \<and>
   packed_value (fold (\<lambda>v. bit_packer_write v nb) vals st) =
     packed_value st + 2 ^ packed_bits st * pack_nat nb (map unat vals)"
proof (induction vals arbitrary: st)
  case (Cons v vals)
  have v: "unat v < 2 ^ nb" using Cons.prems by simp
  note step = bit_packer_write_bits [OF Cons.prems(1) v Cons.prems(3)]
  show ?case
    using Cons.IH [OF step(1)] Cons.prems step(2,3)
    by (simp add: power_add algebra_simps)
qed simp

lemma pack_all_value:
  assumes "\<forall>v\<in>set vals. unat v < 2 ^ nb" "nb \<le> 64"
  shows "le_nat (pack_all nb vals out) = le_nat out + 2 ^ (8 * length out) * pack_nat nb (map unat vals)"
    and "length (pack_all nb vals out) = length out + (length vals * nb + 7) div 8"
proof -
  note f = bit_packer_write_fold [OF packer_inv_new assms]
  have z: "packed_value (bit_packer_new, out) = le_nat out" "packed_bits (bit_packer_new, out) = 8 * length out"
    by (simp_all add: packed_value_def packed_bits_def bit_packer_new_def)
  show "le_nat (pack_all nb vals out) = le_nat out + 2 ^ (8 * length out) * pack_nat nb (map unat vals)"
    using f z by (simp add: pack_all_def bit_packer_close_value)
  show "length (pack_all nb vals out) = length out + (length vals * nb + 7) div 8"
    using f z by (simp add: pack_all_def bit_packer_close_value add.commute)
qed

section \<open>The reader returns bit slices\<close>

lemma unat_load8:
  assumes "unat w = bit_slice (8 * (a div 8)) 64 x" "a mod 8 + s + nb \<le> 64"
  shows "unat (drop_bit s (drop_bit (a mod 8) w) AND mask nb) = bit_slice (a + s) nb x"
proof -
  have "unat (drop_bit s (drop_bit (a mod 8) w) AND mask nb) = bit_slice (a mod 8 + s) nb (unat w)"
    by (simp only: drop_bit_drop_bit unat_shift_mask add.commute)
  also have "\<dots> = bit_slice (8 * (a div 8) + (a mod 8 + s)) nb x"
    unfolding assms(1) by (rule bit_slice_of_slice) (use assms(2) in simp)
  also have "8 * (a div 8) + (a mod 8 + s) = a + s" by simp
  finally show ?thesis .
qed

lemma unat_u64_read:
  "a + 8 \<le> length data \<Longrightarrow> unat (u64_from_le_bytes (take 8 (drop a data))) = bit_slice (8 * a) 64 (le_nat data)"
  by (simp add: unat_u64_from_le_bytes le_nat_take le_nat_drop bit_slice_def power_256)

lemma bit_unpacker_new_props:
  "bit_unpacker_new nb = Some u \<Longrightarrow> bu_num_bits u = nb \<and> bu_mask u = mask nb \<and> (nb \<le> 56 \<or> nb = 64)"
  by (auto simp: bit_unpacker_new_def mask_eq_exp_minus_1 push_bit_eq_mult split: if_splits)

text \<open>
  A value that starts at a multiple of its width fits in the eight bytes loaded from its first byte.
\<close>

lemma slice_fits:
  assumes "nb \<le> (56 :: nat) \<or> nb = 64"
  shows "(idx * nb) mod 8 + nb \<le> 64"
  using assms
proof
  assume "nb \<le> 56"
  moreover have "(idx * nb) mod 8 < 8" by simp
  ultimately show ?thesis by linarith
qed simp

lemma unpacker_get_slice:
  assumes new: "bit_unpacker_new nb = Some u" and len: "(idx + 1) * nb \<le> 8 * length data"
  shows "unpacker_get u idx data = Some (word_of_nat (bit_slice (idx * nb) nb (le_nat data)))"
proof -
  note u = bit_unpacker_new_props [OF new]
  define a where "a = idx * nb"
  have fit: "a mod 8 + 0 + nb \<le> 64" using slice_fits u by (simp add: a_def)
  have eq: "drop_bit (a mod 8) w AND mask nb = (word_of_nat (bit_slice a nb (le_nat data)) :: u64)"
    if "unat w = bit_slice (8 * (a div 8)) 64 (le_nat data)" for w
    using unat_load8 [OF that fit] fit unat_bit_slice [where 'a = 64, of nb a "le_nat data"]
    by (simp add: word_unat_eq_iff)
  show ?thesis
  proof (cases "a div 8 + 8 > length data")
    case False
    then show ?thesis using u eq [OF unat_u64_read]
      by (simp add: unpacker_get_def a_def Let_def)
  next
    case True
    show ?thesis
    proof (cases "nb = 0")
      case True
      then show ?thesis using u \<open>a div 8 + 8 > length data\<close>
        by (simp add: unpacker_get_def a_def bit_slice_def)
    next
      case False
      have le: "a div 8 \<le> length data" using len by (simp add: a_def)
      have "unat (u64_from_le_bytes (drop (a div 8) data @ replicate (8 - (length data - a div 8)) 0))
          = bit_slice (8 * (a div 8)) 64 (le_nat data)"
      proof -
        have "le_nat data div 256 ^ (a div 8) < 256 ^ (length data - a div 8)"
          using le_nat_less [of "drop (a div 8) data"] by (simp add: le_nat_drop)
        also have "\<dots> \<le> 256 ^ 8" using True by (intro power_increasing) auto
        finally show ?thesis using True
          by (simp add: unat_u64_from_le_bytes le_nat_append le_nat_zeros le_nat_drop bit_slice_def power_256)
      qed
      from eq [OF this] show ?thesis using u True False le
        by (simp add: unpacker_get_def a_def Let_def get_slow_path_def)
    qed
  qed
qed

text \<open>The value the packed number holds at position \<open>idx\<close>.\<close>

definition packed_at :: "nat \<Rightarrow> u8 list \<Rightarrow> nat \<Rightarrow> u64" where
  "packed_at nb data idx = word_of_nat (bit_slice (idx * nb) nb (le_nat data))"

lemma packed_chunk_slice:
  assumes new: "bit_unpacker_new nb = Some u"
    and "(idx * nb) div 8 + 8 \<le> length data" "(idx * nb) mod 8 + n * nb \<le> 64"
  shows "packed_chunk u data n (idx * nb) = Some (map (\<lambda>i. packed_at nb data (idx + i)) [0..<n])"
proof -
  note u = bit_unpacker_new_props [OF new]
  have "drop_bit (i * nb) (drop_bit (idx * nb mod 8) (u64_from_le_bytes (take 8 (drop (idx * nb div 8) data))))
      AND mask nb = packed_at nb data (idx + i)" if "i < n" for i
  proof -
    have "Suc i * nb \<le> n * nb" using that by (intro mult_le_mono1) simp
    then have fit: "idx * nb mod 8 + i * nb + nb \<le> 64" using assms(3) by simp
    then have "unat (word_of_nat (bit_slice (idx * nb + i * nb) nb (le_nat data)) :: u64)
        = bit_slice (idx * nb + i * nb) nb (le_nat data)"
      by (intro unat_bit_slice) simp
    with unat_load8 [OF unat_u64_read [OF assms(2)] fit] show ?thesis
      by (simp add: packed_at_def word_unat_eq_iff add_mult_distrib)
  qed
  then show ?thesis using assms u
    by (auto simp: packed_chunk_def unpacker_load_def)
qed

lemma packed_chunk_single:
  assumes "bu_num_bits u = nb"
  shows "map_option (\<lambda>packed. packed AND bu_mask u) (unpacker_load data a) = Some v \<longleftrightarrow>
     packed_chunk u data 1 a = Some [v]"
  by (auto simp: packed_chunk_def)

lemma single_slice:
  assumes new: "bit_unpacker_new nb = Some u" and "(idx * nb) div 8 + 8 \<le> length data"
  shows "map_option (\<lambda>packed. packed AND bu_mask u) (unpacker_load data (idx * nb)) = Some (packed_at nb data idx)"
proof -
  have "packed_chunk u data 1 (idx * nb) = Some (map (\<lambda>i. packed_at nb data (idx + i)) [0..<1])"
    by (rule packed_chunk_slice [OF assms]) (use slice_fits bit_unpacker_new_props [OF new] in simp)
  then show ?thesis
    by (subst packed_chunk_single [OF refl]) simp
qed

lemma div8_mono: "a \<le> b \<Longrightarrow> b div 8 + 8 \<le> n \<Longrightarrow> a div 8 + 8 \<le> (n :: nat)"
  by (meson add_le_mono1 div_le_mono order_trans)

lemma mult_mod8: "(8 :: nat) dvd nb \<Longrightarrow> idx * nb mod 8 = 0"
  by (simp add: dvd_mult)

lemma get_range_chunk4_slice:
  assumes new: "bit_unpacker_new nb = Some u" and "((idx + 3) * nb) div 8 + 8 \<le> length data"
  shows "get_range_chunk4 u data (idx * nb) = Some (map (\<lambda>i. packed_at nb data (idx + i)) [0..<4])"
proof -
  note u = bit_unpacker_new_props [OF new]
  have load: "((idx + i) * nb) div 8 + 8 \<le> length data" if "i \<le> 3" for i
    by (rule div8_mono [OF mult_le_mono1 assms(2)]) (use that in simp)
  have mod8: "j * nb mod 8 < 8" for j by simp
  consider (quad) "nb \<le> 14 \<or> nb = 16" | (pair) "\<not> (nb \<le> 14 \<or> nb = 16)" "nb \<le> 28 \<or> nb = 32"
    | (one) "\<not> (nb \<le> 14 \<or> nb = 16)" "\<not> (nb \<le> 28 \<or> nb = 32)" by blast
  then show ?thesis
  proof cases
    case quad
    have "idx * nb mod 8 + 4 * nb \<le> 64" using quad mod8 [of idx] mult_mod8 [of 16 idx] by auto
    with packed_chunk_slice [OF new, of idx data 4] load [of 0] show ?thesis
      using quad u by (simp add: get_range_chunk4_def)
  next
    case pair
    have fit: "j * nb mod 8 + 2 * nb \<le> 64" for j
      using pair(2) mod8 [of j] mult_mod8 [of 32 j] by auto
    have "packed_chunk u data 2 ((idx + p * 2) * nb) = Some (map (\<lambda>i. packed_at nb data (idx + p * 2 + i)) [0..<2])"
      if "p < 2" for p
      by (rule packed_chunk_slice [OF new load fit]) (use that in simp)
    then have "map_opt (\<lambda>p. packed_chunk u data 2 (idx * nb + p * 2 * nb)) [0..<2]
        = Some (map (\<lambda>p. map (\<lambda>i. packed_at nb data (idx + (p * 2 + i))) [0..<2]) [0..<2])"
      by (intro map_opt_Some) (simp add: add_mult_distrib add.assoc)
    then have "map_option concat (map_opt (\<lambda>p. packed_chunk u data 2 (idx * nb + p * 2 * nb)) [0..<2])
        = Some (map (\<lambda>i. packed_at nb data (idx + i)) [0..<2 * 2])"
      by (simp only: option.map concat_map_blocks [where f = "\<lambda>i. packed_at nb data (idx + i)"])
    then show ?thesis using pair u
      by (simp add: get_range_chunk4_def del: upt.simps)
  next
    case one
    have "map_option (\<lambda>packed. packed AND bu_mask u) (unpacker_load data ((idx + i) * nb))
        = Some (packed_at nb data (idx + i))" if "i < 4" for i
      by (rule single_slice [OF new load]) (use that in simp)
    with one u show ?thesis
      by (auto simp: get_range_chunk4_def add_mult_distrib intro!: map_opt_Some)
  qed
qed

lemma unpacker_get_range_slice:
  assumes new: "bit_unpacker_new nb = Some u" and len: "(start + n) * nb \<le> 8 * length data" and idx: "start + n \<le> 2 ^ 32"
  shows "unpacker_get_range u start data n = Some (map (\<lambda>i. packed_at nb data (start + i)) [0..<n])"
proof -
  note u = bit_unpacker_new_props [OF new]
  define slow where "slow \<longleftrightarrow> (start + n - 1) * nb div 8 + 8 > length data"
  consider (zero) "n = 0 \<or> nb = 0" | (slow) "n \<noteq> 0" "nb \<noteq> 0" slow
    | (wide) "n \<noteq> 0" "nb \<noteq> 0" "\<not> slow" "n = 64 \<and> nb \<le> 8" | (four) "n \<noteq> 0" "nb \<noteq> 0" "\<not> slow" "\<not> (n = 64 \<and> nb \<le> 8)"
    by blast
  then show ?thesis
  proof cases
    case zero
    have "map (\<lambda>i. 0) [0..<n] = replicate n (0 :: u64)" by (simp add: map_replicate_const)
    with zero show ?thesis using u
      by (auto simp: unpacker_get_range_def packed_at_def bit_slice_def)
  next
    case slow
    have "unpacker_get u ((start + i) mod 2 ^ 32) data = Some (packed_at nb data (start + i))" if "i < n" for i
    proof -
      have "(start + i) mod 2 ^ 32 = start + i" using that idx by simp
      moreover have "(start + i + 1) * nb \<le> (start + n) * nb" using that by (intro mult_le_mono1) simp
      ultimately show ?thesis
        using unpacker_get_slice [OF new, of "start + i" data] len by (simp add: packed_at_def)
    qed
    then show ?thesis using slow u
      by (auto simp: unpacker_get_range_def Let_def slow_def intro!: map_opt_Some)
  next
    case wide
    have load: "(start + j) * nb div 8 + 8 \<le> length data" if "j < n" for j
      by (rule div8_mono [of _ "(start + n - 1) * nb"]) (use that wide(3) in \<open>auto simp: slow_def\<close>)
    have "packed_chunk u data 8 ((start + k * 8) * nb)
        = Some (map (\<lambda>i. packed_at nb data (start + k * 8 + i)) [0..<8])" if "k < 8" for k
    proof (rule packed_chunk_slice [OF new load])
      have "(start + k * 8) * nb mod 8 < 8" by simp
      then show "(start + k * 8) * nb mod 8 + 8 * nb \<le> 64"
        using wide(4) mult_mod8 [of 8 "start + k * 8"] by (cases "nb = 8") auto
    qed (use that wide in simp)
    then have "map_opt (\<lambda>k. packed_chunk u data 8 (start * nb + k * (8 * nb))) [0..<8]
       = Some (map (\<lambda>k. map (\<lambda>i. packed_at nb data (start + (k * 8 + i))) [0..<8]) [0..<8])"
      by (intro map_opt_Some) (simp add: add_mult_distrib add.assoc mult.assoc)
    then have "map_option concat (map_opt (\<lambda>k. packed_chunk u data 8 (start * nb + k * (8 * nb))) [0..<8])
       = Some (map (\<lambda>i. packed_at nb data (start + i)) [0..<8 * 8])"
      by (simp only: option.map concat_map_blocks [where f = "\<lambda>i. packed_at nb data (start + i)"])
    then show ?thesis using wide u
      by (simp add: unpacker_get_range_def Let_def slow_def del: upt.simps)
  next
    case four
    have load: "(start + j) * nb div 8 + 8 \<le> length data" if "j < n" for j
      by (rule div8_mono [of _ "(start + n - 1) * nb"]) (use that four(3) in \<open>auto simp: slow_def\<close>)
    have chunk: "get_range_chunk4 u data ((start + k * 4) * nb)
        = Some (map (\<lambda>i. packed_at nb data (start + k * 4 + i)) [0..<4])" if "k < n div 4" for k
    proof (rule get_range_chunk4_slice [OF new])
      show "(start + k * 4 + 3) * nb div 8 + 8 \<le> length data"
        using load [of "k * 4 + 3"] that by (simp add: add.assoc)
    qed
    have A: "map_opt (\<lambda>k. get_range_chunk4 u data (start * nb + k * (4 * nb))) [0..<n div 4]
       = Some (map (\<lambda>k. map (\<lambda>i. packed_at nb data (start + (k * 4 + i))) [0..<4]) [0..<n div 4])"
      using chunk by (intro map_opt_Some) (simp add: add_mult_distrib add.assoc mult.assoc)
    have B: "map_opt (\<lambda>i. map_option (\<lambda>packed. packed AND bu_mask u)
         (unpacker_load data (start * nb + n div 4 * (4 * nb) + i * nb))) [0..<n mod 4]
       = Some (map (\<lambda>i. packed_at nb data (start + (n div 4 * 4 + i))) [0..<n mod 4])"
    proof (rule map_opt_Some)
      fix i assume i: "i \<in> set [0..<n mod 4]"
      then have "n div 4 * 4 + i < n" by (metis atLeastLessThan_iff div_mult_mod_eq nat_add_left_cancel_less set_upt)
      from single_slice [OF new load [OF this]] show "map_option (\<lambda>packed. packed AND bu_mask u)
         (unpacker_load data (start * nb + n div 4 * (4 * nb) + i * nb)) = Some (packed_at nb data (start + (n div 4 * 4 + i)))"
        by (simp add: add_mult_distrib add.assoc mult.assoc)
    qed
    have "[0..<n] = [0..<n div 4 * 4 + n mod 4]" by simp
    also have "\<dots> = [0..<n div 4 * 4] @ map (\<lambda>i. n div 4 * 4 + i) [0..<n mod 4]"
      using upt_add_eq_append [of 0 "n div 4 * 4" "n mod 4"] map_add_upt [of "n div 4 * 4" "n mod 4"]
      by (simp only: add.commute [of _ "n div 4 * 4"] add_0_right le0 simp_thms)
    finally have split: "[0..<n] = [0..<n div 4 * 4] @ map (\<lambda>i. n div 4 * 4 + i) [0..<n mod 4]" .
    have um: "bu_mask u = mask nb" "bu_num_bits u = nb" using u by simp_all
    show ?thesis using four
      by (auto simp add: unpacker_get_range_def Let_def slow_def A B [unfolded um] um split comp_def
          concat_map_blocks [where f = "\<lambda>i. packed_at nb data (start + i)"]
          simp del: upt.simps)
  qed
qed

section \<open>Packing and reading back\<close>

lemma bit_slice_payload:
  assumes "i < length vs" "\<forall>v\<in>set vs. v < 2 ^ nb" "x = pack_nat nb vs + 2 ^ (8 * n) * y" "length vs * nb \<le> 8 * n"
  shows "bit_slice (i * nb) nb x = vs ! i"
proof -
  have le: "i * nb + nb \<le> 8 * n"
    using mult_le_mono1 [of "Suc i" "length vs" nb] assms(1,4) by simp
  have "pack_nat nb vs < 2 ^ (length vs * nb)" using assms(2)
  proof (induction vs)
    case (Cons v vs)
    have "v + 2 ^ nb * pack_nat nb vs < 2 ^ nb * Suc (pack_nat nb vs)" using Cons.prems by simp
    also have "\<dots> \<le> 2 ^ nb * 2 ^ (length vs * nb)"
      using Cons by (intro mult_le_mono2) simp
    finally show ?case by (simp add: power_add)
  qed simp
  also have "\<dots> \<le> 2 ^ (8 * n)" using assms(4) by (intro power_increasing) auto
  finally have "bit_slice 0 (8 * n) x = pack_nat nb vs"
    using assms(3) by (simp add: bit_slice_def)
  then have "bit_slice (i * nb) nb x = bit_slice (i * nb) nb (pack_nat nb vs)"
    using bit_slice_of_slice [of "i * nb" nb "8 * n" 0 x] le by simp
  then show ?thesis using bit_slice_pack_nat [OF assms(1,2)] by simp
qed

lemma pack_all_get:
  assumes "bit_unpacker_new nb = Some u" "\<forall>v\<in>set vals. unat v < 2 ^ nb" "i < length vals"
  shows "unpacker_get u i (pack_all nb vals [] @ rest) = Some (vals ! i)"
proof -
  have nb: "nb \<le> 64" using bit_unpacker_new_props [OF assms(1)] by auto
  note pk = pack_all_value [OF assms(2) nb, of "[]", simplified]
  define n where "n = (length vals * nb + 7) div 8"
  have cap: "length vals * nb \<le> 8 * n" by (simp add: n_def)
  have "Suc i * nb \<le> length vals * nb" using assms(3) by (intro mult_le_mono1) simp
  then have "(i + 1) * nb \<le> 8 * length (pack_all nb vals [] @ rest)" using cap pk by (simp add: n_def)
  note get = unpacker_get_slice [OF assms(1) this]
  have "bit_slice (i * nb) nb (le_nat (pack_all nb vals [] @ rest)) = map unat vals ! i"
    by (rule bit_slice_payload [of _ _ _ _ n "le_nat rest"])
      (use assms(2,3) cap pk in \<open>auto simp: le_nat_append power_256 n_def\<close>)
  then show ?thesis using get assms(3) by simp
qed

text \<open>
  Property C22. Values that fit the width, packed by the writer and closed, are read back
  by random access at their index, whatever bytes follow them; the writer uses exactly
  \<open>\<lceil>length vals * nb / 8\<rceil>\<close> bytes.
\<close>

theorem bitpack_roundtrip:
  assumes "nb \<le> 56 \<or> nb = 64" and "\<forall>v\<in>set vals. unat v < 2 ^ nb"
  shows "\<exists>u. bit_unpacker_new nb = Some u \<and>
    (\<forall>i < length vals. unpacker_get u i (pack_all nb vals [] @ rest) = Some (vals ! i)) \<and>
    length (pack_all nb vals []) = (length vals * nb + 7) div 8"
proof -
  obtain u where u: "bit_unpacker_new nb = Some u"
    using assms(1) by (auto simp: bit_unpacker_new_def)
  have "nb \<le> 64" using assms(1) by auto
  with u assms(2) pack_all_get pack_all_value(2) [OF assms(2), of "[]"] show ?thesis by auto
qed

theorem bitpack_roundtrip_witness:
  "\<exists>u. bit_unpacker_new 3 = Some u \<and>
    (\<forall>i < 3. unpacker_get u i (pack_all 3 [5, 0, 7] [] @ [255]) = Some ([5, 0, 7] ! i)) \<and>
    length (pack_all 3 [5, 0, 7] []) = 2"
  using bitpack_roundtrip [of 3 "[5, 0, 7]" "[255]"] by (simp add: numeral_3_eq_3)

text \<open>
  Property C23. The batch reader, which decodes eight, four or two values from one unchecked
  64-bit load, stays inside the data and returns what reading each value on its own returns, for every range of
  32-bit indices whose values are in the data.
\<close>

theorem get_range_equiv:
  assumes "bit_unpacker_new nb = Some u" and "(start + n) * nb \<le> 8 * length data" and "start + n \<le> 2 ^ 32"
  shows "unpacker_get_range u start data n = map_opt (\<lambda>i. unpacker_get u (start + i) data) [0..<n] \<and>
    unpacker_get_range u start data n \<noteq> None"
proof -
  have "unpacker_get u (start + i) data = Some (packed_at nb data (start + i))" if "i < n" for i
  proof -
    have "(start + i + 1) * nb \<le> (start + n) * nb" using that by (intro mult_le_mono1) simp
    with unpacker_get_slice [OF assms(1), of "start + i" data] assms(2) show ?thesis
      by (simp add: packed_at_def)
  qed
  then have "map_opt (\<lambda>i. unpacker_get u (start + i) data) [0..<n] = Some (map (\<lambda>i. packed_at nb data (start + i)) [0..<n])"
    by (intro map_opt_Some) simp
  then show ?thesis using unpacker_get_range_slice [OF assms] by simp
qed

theorem get_range_equiv_witness:
  "unpacker_get_range \<lparr>bu_num_bits = 12, bu_mask = 0xFFF\<rparr> 1 (map word_of_nat [1..<18]) 6 =
     map_opt (\<lambda>i. unpacker_get \<lparr>bu_num_bits = 12, bu_mask = 0xFFF\<rparr> (1 + i) (map word_of_nat [1..<18])) [0..<6] \<and>
   unpacker_get_range \<lparr>bu_num_bits = 12, bu_mask = 0xFFF\<rparr> 1 (map word_of_nat [1..<18]) 6 \<noteq> None"
  by (rule get_range_equiv [of 12]) (simp_all add: bit_unpacker_new_def)

end
