(* ===== verification/BlockedBitpack.thy ===== *)
theory BlockedBitpack
  imports BitPack
begin

text \<open>
  What the bit packer is used for in the \<^verbatim>\<open>bitpacker\<close> crate: the width and range computations of
  \<^verbatim>\<open>lib.rs\<close>, the blocked packer of \<^verbatim>\<open>blocked_bitpacker.rs\<close> (blocks of 128 values, each packed
  relative to its minimum, with offset and width in one 64-bit word), and the search for the
  positions whose value lies in a range (\<^verbatim>\<open>bitpacker.rs\<close> and \<^verbatim>\<open>filter_vec/scalar.rs\<close>).
\<close>

section \<open>Widths and ranges\<close>

definition compute_num_bits :: "u64 \<Rightarrow> nat" where
  "compute_num_bits n =
     (let amplitude = 64 - leading_zeros n in if amplitude \<le> 64 - 8 then amplitude else 64)"

datatype ordering = Less | Equal | Greater

text \<open>\<open>cmp\<close> is the \<open>partial_cmp\<close> of the element type.\<close>

definition minmax :: "('a \<Rightarrow> 'a \<Rightarrow> ordering option) \<Rightarrow> 'a list \<Rightarrow> ('a \<times> 'a) option" where
  "minmax cmp vals =
     (case dropWhile (\<lambda>val. cmp val val \<noteq> Some Equal) vals of
        [] \<Rightarrow> None
      | first_el # rest \<Rightarrow>
          Some (fold (\<lambda>val (min_so_far, max_so_far).
                  (if cmp val min_so_far = Some Less then val else min_so_far,
                   if cmp val max_so_far = Some Greater then val else max_so_far))
                rest (first_el, first_el)))"

definition ord_cmp :: "'a :: linorder \<Rightarrow> 'a \<Rightarrow> ordering option" where
  "ord_cmp x y = Some (if x < y then Less else if x = y then Equal else Greater)"

section \<open>The blocked packer\<close>

record bb_metadata =
  md_encoded :: u64
  md_base_value :: u64

definition metadata_new :: "u64 \<Rightarrow> nat \<Rightarrow> u64 \<Rightarrow> bb_metadata" where
  "metadata_new offset num_bits base_value =
     \<lparr>md_encoded = offset OR push_bit (64 - 8) (word_of_nat num_bits), md_base_value = base_value\<rparr>"

definition metadata_offset :: "bb_metadata \<Rightarrow> u64" where
  "metadata_offset m = drop_bit 8 (push_bit 8 (md_encoded m))"

definition metadata_num_bits :: "bb_metadata \<Rightarrow> nat" where
  "metadata_num_bits m = unat (ucast (drop_bit 56 (md_encoded m)) :: u8)"

definition bb_block_size :: nat where
  "bb_block_size = 128"

record blocked_bitpacker =
  bb_compressed_blocks :: "u8 list"
  bb_buffer :: "u64 list"
  bb_offset_and_bits :: "bb_metadata list"

definition blocked_new :: blocked_bitpacker where
  "blocked_new = \<lparr>bb_compressed_blocks = replicate 8 0, bb_buffer = [], bb_offset_and_bits = []\<rparr>"

definition blocked_flush :: "blocked_bitpacker \<Rightarrow> blocked_bitpacker" where
  "blocked_flush b =
     (case minmax ord_cmp (bb_buffer b) of
        None \<Rightarrow> b
      | Some (min_value, max_value) \<Rightarrow>
          (let num_bits_block = compute_num_bits (max_value - min_value);
               blocks = take (length (bb_compressed_blocks b) - 8) (bb_compressed_blocks b);
               offset = word_of_nat (length blocks);
               written = bit_packer_flush
                 (fold (\<lambda>val. bit_packer_write (val - min_value) num_bits_block) (bb_buffer b)
                   (bit_packer_new, blocks))
           in \<lparr>bb_compressed_blocks = snd written @ replicate 8 0,
               bb_buffer = [],
               bb_offset_and_bits =
                 bb_offset_and_bits b @ [metadata_new offset num_bits_block min_value]\<rparr>))"

definition blocked_add :: "u64 \<Rightarrow> blocked_bitpacker \<Rightarrow> blocked_bitpacker" where
  "blocked_add val b =
     (let b' = b\<lparr>bb_buffer := bb_buffer b @ [val]\<rparr>
      in if length (bb_buffer b') = bb_block_size then blocked_flush b' else b')"

definition blocked_get :: "blocked_bitpacker \<Rightarrow> nat \<Rightarrow> u64 option" where
  "blocked_get b idx =
     (let metadata_pos = idx div bb_block_size; pos_in_block = idx mod bb_block_size
      in if metadata_pos < length (bb_offset_and_bits b) then
           (let metadata = bb_offset_and_bits b ! metadata_pos;
                offset = unat (metadata_offset metadata)
            in case bit_unpacker_new (metadata_num_bits metadata) of
                 None \<Rightarrow> None
               | Some u \<Rightarrow>
                   if offset \<le> length (bb_compressed_blocks b)
                   then map_option (\<lambda>unpacked. unpacked + md_base_value metadata)
                          (unpacker_get u pos_in_block (drop offset (bb_compressed_blocks b)))
                   else None)
         else if pos_in_block < length (bb_buffer b) then Some (bb_buffer b ! pos_in_block)
         else None)"

definition blocked_iter :: "blocked_bitpacker \<Rightarrow> u64 list option" where
  "blocked_iter b =
     map_option (\<lambda>packed. packed @ bb_buffer b)
       (map_opt (blocked_get b) [0..<length (bb_offset_and_bits b) * bb_block_size])"

section \<open>Positions of the values in a range\<close>

definition filter_step :: "u32 \<Rightarrow> u32 \<Rightarrow> u32 \<Rightarrow> nat \<Rightarrow> u32 list \<times> nat \<Rightarrow> u32 list \<times> nat" where
  "filter_step lo hi offset i = (\<lambda>(output, output_cursor).
     (let val = output ! i
      in (output[output_cursor := offset + word_of_nat i],
          output_cursor + (if lo \<le> val \<and> val \<le> hi then 1 else 0))))"

definition filter_vec_in_place :: "u32 \<Rightarrow> u32 \<Rightarrow> u32 \<Rightarrow> u32 list \<Rightarrow> u32 list" where
  "filter_vec_in_place lo hi offset output =
     (let (output', output_cursor) = fold (filter_step lo hi offset) [0..<length output] (output, 0)
      in take output_cursor output')"

text \<open>
  \<open>BitPacker1x\<close> is the block decoder of the external \<^verbatim>\<open>bitpacking\<close> crate: from a byte slice and a
  width it gives the 32 values of the block and the number of bytes read.
\<close>

type_synonym decompress_1x = "u8 list \<Rightarrow> nat \<Rightarrow> u32 list \<times> nat"

definition u32_add :: "nat \<Rightarrow> nat \<Rightarrow> nat" where
  "u32_add a b = (a + b) mod 2 ^ 32"

definition get_batch_ramp :: "bit_unpacker \<Rightarrow> u8 list \<Rightarrow> nat \<Rightarrow> nat \<Rightarrow> u32 list option" where
  "get_batch_ramp u data start_idx n =
     map_opt (\<lambda>i. map_option ucast (unpacker_get u (start_idx + i) data)) [0..<n]"

fun get_batch_highway ::
  "decompress_1x \<Rightarrow> bit_unpacker \<Rightarrow> u8 list \<Rightarrow> nat \<Rightarrow> nat \<Rightarrow> u32 list option" where
  "get_batch_highway dec u data 0 offset = Some []"
| "get_batch_highway dec u data (Suc num_blocks) offset =
     (if offset \<le> length data then
        (let (vals, n) = dec (drop offset data) (bu_num_bits u)
         in map_option (\<lambda>rest. vals @ rest) (get_batch_highway dec u data num_blocks (offset + n)))
      else None)"

definition get_batch_u32s ::
  "decompress_1x \<Rightarrow> bit_unpacker \<Rightarrow> nat \<Rightarrow> u8 list \<Rightarrow> nat \<Rightarrow> u32 list option" where
  "get_batch_u32s dec u start_idx data n =
     (if bu_num_bits u \<le> 32 then
        (let end_idx = u32_add start_idx n;
             end_bit_read = end_idx * bu_num_bits u;
             end_byte_read = (end_bit_read + 7) div 8
         in if end_byte_read \<le> length data then
              (let entrance_ramp_len = 8 - start_idx mod 8 mod 8;
                   highway_start = u32_add start_idx entrance_ramp_len
               in if u32_add highway_start 32 > end_idx then get_batch_ramp u data start_idx n
                  else
                    (let num_blocks = (end_idx - highway_start) div 32;
                         highway_end = u32_add highway_start (num_blocks * 32)
                     in get_batch_ramp u data start_idx entrance_ramp_len \<bind> (\<lambda>entrance.
                        get_batch_highway dec u data num_blocks (highway_start * bu_num_bits u div 8)
                          \<bind> (\<lambda>highway.
                        get_batch_ramp u data highway_end (n - entrance_ramp_len - num_blocks * 32)
                          \<bind> (\<lambda>exit. Some (entrance @ highway @ exit))))))
            else None)
      else None)"

definition get_ids_for_value_range_slow ::
  "bit_unpacker \<Rightarrow> u64 \<times> u64 \<Rightarrow> nat \<times> nat \<Rightarrow> u8 list \<Rightarrow> u32 list option" where
  "get_ids_for_value_range_slow u = (\<lambda>(lo, hi) (id_start, id_end) data.
     map_option (map word_of_nat)
       (map_option (\<lambda>vals. map fst (filter (\<lambda>(i, val). lo \<le> val \<and> val \<le> hi) vals))
         (map_opt (\<lambda>i. map_option (Pair i) (unpacker_get u i data)) [id_start..<id_end])))"

definition get_ids_for_value_range_fast ::
  "decompress_1x \<Rightarrow> bit_unpacker \<Rightarrow> u32 \<times> u32 \<Rightarrow> nat \<times> nat \<Rightarrow> u8 list \<Rightarrow> u32 list option" where
  "get_ids_for_value_range_fast dec u = (\<lambda>(lo, hi) (id_start, id_end) data.
     map_option (filter_vec_in_place lo hi (word_of_nat id_start))
       (get_batch_u32s dec u id_start data (id_end - id_start)))"

definition get_ids_for_value_range ::
  "decompress_1x \<Rightarrow> bit_unpacker \<Rightarrow> u64 \<times> u64 \<Rightarrow> nat \<times> nat \<Rightarrow> u8 list \<Rightarrow> u32 list option" where
  "get_ids_for_value_range dec u value_range id_range data =
     (if bu_num_bits u > 32 then get_ids_for_value_range_slow u value_range id_range data
      else if fst value_range > 0xFFFFFFFF then Some []
      else get_ids_for_value_range_fast dec u
             (ucast (fst value_range), ucast (min (snd value_range) 0xFFFFFFFF)) id_range data)"

section \<open>Lemmas on widths and ranges\<close>

lemma takeWhile_upt:
  shows "length (takeWhile P [0..<n]) \<le> n"
    and "j < length (takeWhile P [0..<n]) \<Longrightarrow> P j"
    and "length (takeWhile P [0..<n]) < n \<Longrightarrow> \<not> P (length (takeWhile P [0..<n]))"
proof -
  show le: "length (takeWhile P [0..<n]) \<le> n"
    using length_takeWhile_le [of P "[0..<n]"] by simp
  show "P j" if j: "j < length (takeWhile P [0..<n])"
    using takeWhile_nth [OF j] nth_mem [OF j] set_takeWhileD [of _ P "[0..<n]"] j le by auto
  show "\<not> P (length (takeWhile P [0..<n]))" if "length (takeWhile P [0..<n]) < n"
    using nth_length_takeWhile [of P "[0..<n]"] that by simp
qed

lemma leading_zeros_props:
  shows "leading_zeros n \<le> 64" "bit n i \<Longrightarrow> i < 64 - leading_zeros n"
    "leading_zeros n < 64 \<Longrightarrow> bit n (63 - leading_zeros n)"
proof -
  show le: "leading_zeros n \<le> 64"
    unfolding leading_zeros_def by (rule takeWhile_upt)
  show "i < 64 - leading_zeros n" if b: "bit n i"
  proof (rule ccontr)
    assume "\<not> ?thesis"
    with bit_u64_less [OF b] le have "63 - i < leading_zeros n" by simp
    then have "\<not> bit n (63 - (63 - i))" unfolding leading_zeros_def by (rule takeWhile_upt)
    then show False using b bit_u64_less [OF b] by simp
  qed
  show "bit n (63 - leading_zeros n)" if "leading_zeros n < 64"
    using takeWhile_upt(3) [of "\<lambda>i. \<not> bit n (63 - i)" 64] that unfolding leading_zeros_def by blast
qed

lemma unat_less_amplitude: "unat n < 2 ^ (64 - leading_zeros n)"
proof -
  have "n = take_bit (64 - leading_zeros n) n"
    by (rule bit_word_eqI) (auto simp: bit_simps dest: leading_zeros_props(2))
  then have "unat n = take_bit (64 - leading_zeros n) (unat n)"
    by (metis unsigned_take_bit_eq)
  then show ?thesis by (metis take_bit_nat_less_exp)
qed

lemma compute_num_bits_props:
  "compute_num_bits n \<le> 56 \<or> compute_num_bits n = 64" "unat n < 2 ^ compute_num_bits n"
proof -
  show "compute_num_bits n \<le> 56 \<or> compute_num_bits n = 64"
    by (auto simp: compute_num_bits_def Let_def)
  show "unat n < 2 ^ compute_num_bits n"
    using unat_less_amplitude [of n] unat_u64_less [of n]
    by (auto simp: compute_num_bits_def Let_def)
qed

lemma minmax_fold:
  "fold (\<lambda>val (mi, ma). (if ord_cmp val mi = Some Less then val else mi,
      if ord_cmp val ma = Some Greater then val else ma)) xs (a, b)
   = (Min (insert a (set xs)), Max (insert b (set xs :: 'a :: linorder set)))"
proof (induction xs arbitrary: a b)
  case (Cons x xs)
  have mn: "Min (insert (if x < a then x else a) (set xs)) = Min (insert a (set (x # xs)))"
    by (cases "xs = []") (auto simp: min_def insert_commute)
  have mx: "Max (insert (if b < x then x else b) (set xs)) = Max (insert b (set (x # xs)))"
    by (cases "xs = []") (auto simp: max_def insert_commute)
  have "ord_cmp x a = Some Less \<longleftrightarrow> x < a" "ord_cmp x b = Some Greater \<longleftrightarrow> b < x"
    by (auto simp: ord_cmp_def)
  then show ?case unfolding mn [symmetric] mx [symmetric] by (simp add: Cons.IH)
qed simp

lemma minmax_ord: "minmax ord_cmp vals = (if vals = [] then None else Some (Min (set vals), Max (set vals)))"
proof (cases vals)
  case (Cons x xs)
  have "ord_cmp x x = Some Equal" by (simp add: ord_cmp_def)
  then show ?thesis by (simp add: minmax_def Cons minmax_fold)
qed (simp add: minmax_def)

section \<open>The blocked packer stores what is added\<close>

lemma metadata_fields:
  assumes "unat offset < 2 ^ 56" "nb \<le> 64"
  shows "metadata_offset (metadata_new offset nb base) = offset"
    and "metadata_num_bits (metadata_new offset nb base) = nb"
proof -
  have off: "i < 56" if "bit offset i" for i
  proof -
    have "offset = take_bit 56 offset"
      using assms(1) by (simp add: word_unat_eq_iff unsigned_take_bit_eq take_bit_nat_eq_self)
    then show ?thesis using that by (metis bit_take_bit_iff)
  qed
  show "metadata_offset (metadata_new offset nb base) = offset"
    by (rule bit_word_eqI) (auto simp: metadata_offset_def metadata_new_def bit_simps dest: off)
  have nb: "unat (word_of_nat nb :: u8) = nb" using assms(2) by (simp add: unsigned_of_nat take_bit_nat_eq_self)
  have "ucast (drop_bit 56 (offset OR push_bit 56 (word_of_nat nb))) = (word_of_nat nb :: u8)"
    by (rule bit_word_eqI) (auto simp: bit_simps dest: off)
  then show "metadata_num_bits (metadata_new offset nb base) = nb"
    using nb by (simp add: metadata_num_bits_def metadata_new_def)
qed

lemma bit_packer_write_append:
  "bit_packer_write v nb (bp, pre @ out) = apsnd ((@) pre) (bit_packer_write v nb (bp, out))"
  by (simp add: bit_packer_write_def Let_def)

lemma bit_packer_fold_append:
  "fold (\<lambda>v. bit_packer_write (f v) nb) vals (bp, pre @ out) =
     apsnd ((@) pre) (fold (\<lambda>v. bit_packer_write (f v) nb) vals (bp, out))"
proof (induction vals arbitrary: bp out)
  case (Cons v vals)
  obtain bp' out' where st: "bit_packer_write (f v) nb (bp, out) = (bp', out')" by force
  show ?case using Cons.IH [of bp' out'] by (simp add: bit_packer_write_append st)
qed simp

lemma pack_all_append: "pack_all nb vals pre = pre @ pack_all nb vals []"
proof -
  obtain bp out where st: "fold (\<lambda>v. bit_packer_write v nb) vals (bit_packer_new, []) = (bp, out)" by force
  then have "fold (\<lambda>v. bit_packer_write v nb) vals (bit_packer_new, pre) = (bp, pre @ out)"
    using bit_packer_fold_append [of "\<lambda>v. v" nb vals bit_packer_new pre "[]"] by simp
  then show ?thesis using st
    by (simp add: pack_all_def bit_packer_close_def bit_packer_flush_def Let_def)
qed

text \<open>Block \<open>vals\<close> is stored at the metadata's offset of the body, packed relative to its minimum.\<close>

definition block_stored :: "u8 list \<Rightarrow> bb_metadata \<Rightarrow> u64 list \<Rightarrow> bool" where
  "block_stored body m vals \<longleftrightarrow>
     (\<exists>nb rest. metadata_num_bits m = nb \<and> (nb \<le> 56 \<or> nb = 64) \<and>
        unat (metadata_offset m) \<le> length body \<and>
        (\<forall>v\<in>set vals. unat (v - md_base_value m) < 2 ^ nb) \<and>
        drop (unat (metadata_offset m)) body = pack_all nb (map (\<lambda>v. v - md_base_value m) vals) [] @ rest)"

definition blocked_rep :: "blocked_bitpacker \<Rightarrow> u64 list list \<Rightarrow> bool" where
  "blocked_rep b blocks \<longleftrightarrow>
     (\<exists>body. bb_compressed_blocks b = body @ replicate 8 0 \<and> length body \<le> 8 * length (concat blocks) \<and>
        list_all2 (block_stored body) (bb_offset_and_bits b) blocks)"

lemma block_stored_append: "block_stored body m vals \<Longrightarrow> block_stored (body @ ext) m vals"
  unfolding block_stored_def by fastforce

lemma block_stored_get:
  assumes "block_stored body m vals" "i < length vals"
  shows "\<exists>u. bit_unpacker_new (metadata_num_bits m) = Some u \<and>
    unat (metadata_offset m) \<le> length (body @ pad) \<and>
    map_option (\<lambda>x. x + md_base_value m) (unpacker_get u i (drop (unat (metadata_offset m)) (body @ pad)))
      = Some (vals ! i)"
proof -
  from block_stored_append [OF assms(1), of pad] obtain nb rest where
    nb: "metadata_num_bits m = nb" "nb \<le> 56 \<or> nb = 64" "unat (metadata_offset m) \<le> length (body @ pad)"
      "\<forall>v\<in>set vals. unat (v - md_base_value m) < 2 ^ nb" and
    body: "drop (unat (metadata_offset m)) (body @ pad) = pack_all nb (map (\<lambda>v. v - md_base_value m) vals) [] @ rest"
    unfolding block_stored_def by blast
  obtain u where u: "bit_unpacker_new nb = Some u"
    using nb(2) by (auto simp: bit_unpacker_new_def)
  have "unpacker_get u i (pack_all nb (map (\<lambda>v. v - md_base_value m) vals) [] @ rest)
      = Some (map (\<lambda>v. v - md_base_value m) vals ! i)"
    by (rule pack_all_get [OF u]) (use nb assms(2) in auto)
  then show ?thesis using u nb body assms(2) by simp
qed

lemma blocked_get_stored:
  assumes "blocked_rep b blocks" "idx div 128 < length blocks" "idx mod 128 < length (blocks ! (idx div 128))"
  shows "blocked_get b idx = Some (blocks ! (idx div 128) ! (idx mod 128))"
proof -
  from assms(1) obtain body where
    body: "bb_compressed_blocks b = body @ replicate 8 0" "list_all2 (block_stored body) (bb_offset_and_bits b) blocks"
    unfolding blocked_rep_def by blast
  then have "block_stored body (bb_offset_and_bits b ! (idx div 128)) (blocks ! (idx div 128))"
    and len: "length (bb_offset_and_bits b) = length blocks"
    using assms(2) by (auto simp: list_all2_conv_all_nth)
  from block_stored_get [OF this(1) assms(3), of "replicate 8 0"] show ?thesis
    using assms(2) len body(1) by (auto simp: blocked_get_def bb_block_size_def Let_def)
qed

lemma blocked_flush_rep:
  assumes rep: "blocked_rep b blocks" and ne: "bb_buffer b \<noteq> []" and small: "length (concat blocks) < 2 ^ 53"
  shows "blocked_rep (blocked_flush b) (blocks @ [bb_buffer b])" "bb_buffer (blocked_flush b) = []"
proof -
  from rep obtain body where
    body: "bb_compressed_blocks b = body @ replicate 8 0" "length body \<le> 8 * length (concat blocks)"
      "list_all2 (block_stored body) (bb_offset_and_bits b) blocks"
    unfolding blocked_rep_def by blast
  define mi ma where "mi = Min (set (bb_buffer b))" and "ma = Max (set (bb_buffer b))"
  define nb where "nb = compute_num_bits (ma - mi)"
  define packed where "packed = pack_all nb (map (\<lambda>v. v - mi) (bb_buffer b)) []"
  define m where "m = metadata_new (word_of_nat (length body)) nb mi"
  have nb: "nb \<le> 56 \<or> nb = 64" "nb \<le> 64" "unat (ma - mi) < 2 ^ nb"
    using compute_num_bits_props [of "ma - mi"] by (auto simp: nb_def)
  have fits: "\<forall>v\<in>set (bb_buffer b). unat (v - mi) < 2 ^ nb"
  proof
    fix v assume v: "v \<in> set (bb_buffer b)"
    then have "mi \<le> v" "v \<le> ma" by (simp_all add: mi_def ma_def)
    then have "unat (v - mi) \<le> unat (ma - mi)"
      by (simp add: unat_sub word_le_nat_alt diff_le_mono)
    then show "unat (v - mi) < 2 ^ nb" using nb(3) by simp
  qed
  have off: "unat (word_of_nat (length body) :: u64) = length body" "length body < 2 ^ 56"
    using body(2) small by (simp_all add: unsigned_of_nat take_bit_nat_eq_self)
  then have meta: "unat (metadata_offset m) = length body" "metadata_num_bits m = nb" "md_base_value m = mi"
    using metadata_fields [of "word_of_nat (length body)" nb mi] nb(2) by (auto simp: m_def metadata_new_def)
  have written: "snd (bit_packer_flush (fold (\<lambda>val. bit_packer_write (val - mi) nb) (bb_buffer b) (bit_packer_new, body)))
      = body @ packed"
    unfolding packed_def pack_all_append [symmetric]
    by (simp add: pack_all_def bit_packer_close_def fold_map comp_def)
  have res: "blocked_flush b = \<lparr>bb_compressed_blocks = (body @ packed) @ replicate 8 0, bb_buffer = [],
      bb_offset_and_bits = bb_offset_and_bits b @ [m]\<rparr>"
    using ne written
    by (simp add: blocked_flush_def minmax_ord mi_def [symmetric] ma_def [symmetric] nb_def [symmetric]
        Let_def body(1) m_def)
  have "length packed = (length (bb_buffer b) * nb + 7) div 8"
    using pack_all_value(2) [of "map (\<lambda>v. v - mi) (bb_buffer b)" nb "[]"] fits nb(2) by (simp add: packed_def)
  also have "\<dots> \<le> 8 * length (bb_buffer b)"
  proof -
    have *: "(x + 7) div 8 \<le> 8 * y" if "x \<le> y * 64" for x y :: nat using that by linarith
    show ?thesis by (rule *) (use nb(2) in \<open>intro mult_le_mono2\<close>)
  qed
  finally have len: "length (body @ packed) \<le> 8 * length (concat (blocks @ [bb_buffer b]))"
    using body(2) by simp
  have "block_stored (body @ packed) m (bb_buffer b)"
    unfolding block_stored_def using meta nb fits by (auto simp: packed_def)
  moreover have "list_all2 (block_stored (body @ packed)) (bb_offset_and_bits b) blocks"
    using body(3) by (rule list_all2_mono) (rule block_stored_append)
  ultimately have "list_all2 (block_stored (body @ packed)) (bb_offset_and_bits b @ [m]) (blocks @ [bb_buffer b])"
    by (intro list_all2_appendI) simp_all
  with len show "blocked_rep (blocked_flush b) (blocks @ [bb_buffer b])"
    unfolding blocked_rep_def res by auto
  show "bb_buffer (blocked_flush b) = []" by (simp add: res)
qed

lemma blocked_adds:
  assumes "length vs < 2 ^ 53"
  defines "b \<equiv> fold blocked_add vs blocked_new"
  shows "\<exists>blocks. blocked_rep b blocks \<and> (\<forall>x\<in>set blocks. length x = 128) \<and>
    concat blocks @ bb_buffer b = vs \<and> length (bb_buffer b) < 128"
  using assms(1) unfolding b_def
proof (induction vs rule: rev_induct)
  case Nil
  show ?case by (rule exI [of _ "[]"]) (simp add: blocked_rep_def blocked_new_def)
next
  case (snoc v vs)
  define b where "b = fold blocked_add vs blocked_new"
  define b' where "b' = b\<lparr>bb_buffer := bb_buffer b @ [v]\<rparr>"
  from snoc obtain blocks where
    rep: "blocked_rep b blocks" and full: "\<forall>x\<in>set blocks. length x = 128"
    and vs: "concat blocks @ bb_buffer b = vs" and lt: "length (bb_buffer b) < 128"
    unfolding b_def by auto
  have rep': "blocked_rep b' blocks" using rep by (simp add: blocked_rep_def b'_def)
  have step: "fold blocked_add (vs @ [v]) blocked_new = blocked_add v b" by (simp add: b_def)
  show ?case
  proof (cases "length (bb_buffer b') = 128")
    case True
    have "length (concat blocks) < 2 ^ 53"
      using snoc.prems by (simp flip: vs)
    from blocked_flush_rep [OF rep' _ this] True
    have "blocked_rep (blocked_flush b') (blocks @ [bb_buffer b'])" "bb_buffer (blocked_flush b') = []"
      by fastforce+
    moreover have "blocked_add v b = blocked_flush b'"
      using True by (simp add: blocked_add_def b'_def bb_block_size_def)
    ultimately show ?thesis using full vs True unfolding step
      by (intro exI [of _ "blocks @ [bb_buffer b']"]) (auto simp: b'_def)
  next
    case False
    then have "blocked_add v b = b'" by (simp add: blocked_add_def b'_def bb_block_size_def)
    then show ?thesis using full vs False lt rep' unfolding step
      by (intro exI [of _ blocks]) (auto simp: b'_def)
  qed
qed

lemma blocked_get_adds:
  assumes rep: "blocked_rep b blocks" and full: "\<forall>x\<in>set blocks. length x = 128"
    and vs: "concat blocks @ bb_buffer b = vs" and lt: "length (bb_buffer b) < 128" and i: "i < length vs"
  shows "blocked_get b i = Some (vs ! i)"
proof -
  have len: "length (concat blocks) = 128 * length blocks"
    using full by (rule concat_length_uniform)
  have meta: "length (bb_offset_and_bits b) = length blocks"
    using rep by (auto simp: blocked_rep_def dest: list_all2_lengthD)
  show ?thesis
  proof (cases "i div 128 < length blocks")
    case True
    then have "blocked_get b i = Some (blocks ! (i div 128) ! (i mod 128))"
      by (intro blocked_get_stored [OF rep]) (use full in auto)
    moreover have "i < length (concat blocks)" using True len by (simp add: div_less_iff_less_mult)
    ultimately show ?thesis using nth_concat_uniform [OF full True]
      by (simp add: nth_append flip: vs)
  next
    case False
    then have "128 * length blocks \<le> i" by (simp add: div_less_iff_less_mult)
    moreover have "i < 128 * length blocks + 128" using i lt len by (simp flip: vs)
    ultimately have "i mod 128 = i - 128 * length blocks" "\<not> i < length (concat blocks)"
      using len mod_mult_self2 [of "i - 128 * length blocks" 128 "length blocks"] by simp_all
    then show ?thesis using False i meta len
      by (auto simp: blocked_get_def bb_block_size_def Let_def nth_append simp flip: vs)
  qed
qed

lemma blocked_get_flushed:
  assumes rep: "blocked_rep b blocks" and full: "\<forall>x\<in>set blocks. length x = 128"
    and vs: "concat blocks @ bb_buffer b = vs" and lt: "length (bb_buffer b) < 128" and i: "i < length vs"
    and small: "length vs < 2 ^ 53"
  shows "blocked_get (blocked_flush b) i = Some (vs ! i)"
proof (cases "bb_buffer b = []")
  case True
  then have "blocked_flush b = b" by (simp add: blocked_flush_def minmax_ord)
  then show ?thesis using blocked_get_adds [OF rep full vs lt i] by simp
next
  case False
  have len: "length (concat blocks) = 128 * length blocks"
    using full by (rule concat_length_uniform)
  have "length (concat blocks) < 2 ^ 53" using small by (simp flip: vs)
  note rep' = blocked_flush_rep(1) [OF rep False this]
  let ?blocks = "blocks @ [bb_buffer b]"
  have total: "length vs = 128 * length blocks + length (bb_buffer b)" using len by (simp flip: vs)
  show ?thesis
  proof (cases "i div 128 < length blocks")
    case True
    then have "i < length (concat blocks)" using len by (simp add: div_less_iff_less_mult)
    with True show ?thesis using blocked_get_stored [OF rep', of i] full nth_concat_uniform [OF full True]
      by (simp add: nth_append flip: vs)
  next
    case False
    then have ge: "128 * length blocks \<le> i" by (simp add: div_less_iff_less_mult)
    define r where "r = i - 128 * length blocks"
    have ir: "i = r + 128 * length blocks" "r < length (bb_buffer b)" "r < 128"
      using ge i total lt by (auto simp: r_def)
    then have "i div 128 = length blocks" "i mod 128 = r" by simp_all
    then show ?thesis using blocked_get_stored [OF rep', of i] ir len
      by (simp add: nth_append flip: vs)
  qed
qed

text \<open>
  Property C24. Every value added to a blocked packer is read back at its index, before and after
  the final flush, and iterating before the flush returns the values in order, as long as the
  block offsets fit the 56 bits the metadata gives them (fewer than \<open>2 ^ 53\<close> values).
\<close>

theorem blocked_bitpacker_roundtrip:
  assumes "length vs < 2 ^ 53"
  shows "(\<forall>i < length vs. blocked_get (fold blocked_add vs blocked_new) i = Some (vs ! i) \<and>
      blocked_get (blocked_flush (fold blocked_add vs blocked_new)) i = Some (vs ! i)) \<and>
    blocked_iter (fold blocked_add vs blocked_new) = Some vs"
proof -
  define b where "b = fold blocked_add vs blocked_new"
  from blocked_adds [OF assms] obtain blocks where
    rep: "blocked_rep b blocks" and full: "\<forall>x\<in>set blocks. length x = 128"
    and vs: "concat blocks @ bb_buffer b = vs" and lt: "length (bb_buffer b) < 128"
    unfolding b_def by blast
  have get: "blocked_get b i = Some (vs ! i)" "blocked_get (blocked_flush b) i = Some (vs ! i)" if "i < length vs" for i
    using blocked_get_adds [OF rep full vs lt that] blocked_get_flushed [OF rep full vs lt that assms] by auto
  have meta: "length (bb_offset_and_bits b) = length blocks"
    using rep by (auto simp: blocked_rep_def dest: list_all2_lengthD)
  have len: "length (concat blocks) = length blocks * 128"
    using full concat_length_uniform by fastforce
  have "map_opt (blocked_get b) [0..<length blocks * 128] = Some (map ((!) vs) [0..<length blocks * 128])"
    by (rule map_opt_Some) (use get len vs in auto)
  also have "map ((!) vs) [0..<length blocks * 128] = concat blocks"
    by (rule nth_equalityI) (auto simp: len nth_append simp flip: vs)
  finally have "blocked_iter b = Some vs"
    using vs meta by (simp add: blocked_iter_def bb_block_size_def)
  then show ?thesis using get by (simp add: b_def)
qed

theorem blocked_bitpacker_roundtrip_witness:
  "blocked_get (fold blocked_add (map word_of_nat [0..<200]) blocked_new) 150 = Some 150 \<and>
   blocked_get (blocked_flush (fold blocked_add (map word_of_nat [0..<200]) blocked_new)) 150 = Some 150 \<and>
   blocked_iter (fold blocked_add (map word_of_nat [0..<200]) blocked_new) = Some (map word_of_nat [0..<200])"
  using blocked_bitpacker_roundtrip [of "map word_of_nat [0..<200]"] by (simp del: upt.simps upt_rec_numeral)

section \<open>The value-range search finds the positions\<close>

lemma filter_step_pair: "filter_step lo hi offset i (out, c) =
    (out[c := offset + word_of_nat i], c + (if lo \<le> out ! i \<and> out ! i \<le> hi then 1 else 0))"
  by (simp add: filter_step_def Let_def)

lemma filter_vec_invariant:
  fixes lo hi offset :: u32
  assumes "k \<le> length out"
  defines "st \<equiv> fold (filter_step lo hi offset) [0..<k] (out, 0)"
  shows "length (fst st) = length out \<and> snd st \<le> k \<and> drop k (fst st) = drop k out \<and>
    take (snd st) (fst st) = map (\<lambda>i. offset + word_of_nat i) (filter (\<lambda>i. lo \<le> out ! i \<and> out ! i \<le> hi) [0..<k])"
  using assms(1) unfolding st_def
proof (induction k)
  case (Suc k)
  obtain o' c where st: "fold (filter_step lo hi offset) [0..<k] (out, 0) = (o', c)" by force
  from Suc st have h: "length o' = length out" "c \<le> k" "drop k o' = drop k out"
    "take c o' = map (\<lambda>i. offset + word_of_nat i) (filter (\<lambda>i. lo \<le> out ! i \<and> out ! i \<le> hi) [0..<k])"
    by auto
  have nth: "o' ! k = out ! k"
    using h(1,3) Suc.prems by (metis Cons_nth_drop_Suc Suc_le_lessD list.inject)
  have "take (Suc c) (o'[c := x]) = take c o' @ [x]" for x
    using h(1,2) Suc.prems by (simp add: take_Suc_conv_app_nth)
  moreover have "drop (Suc k) o' = drop (Suc k) out"
    using arg_cong [OF h(3), of tl] by (simp add: drop_Suc tl_drop)
  ultimately show ?case using h nth by (simp add: st filter_step_pair)
qed simp

lemma filter_vec_in_place_eq:
  "filter_vec_in_place lo hi offset out =
     map (\<lambda>i. offset + word_of_nat i) (filter (\<lambda>i. lo \<le> out ! i \<and> out ! i \<le> hi) [0..<length out])"
  using filter_vec_invariant [of "length out" out lo hi offset]
  by (simp add: filter_vec_in_place_def split_beta Let_def)

text \<open>
  What the search relies on of \<open>BitPacker1x\<close>: the block decoder reads 32 consecutive values of
  \<open>nb\<close> bits in little-endian bit order and reports \<open>4 * nb\<close> bytes.
\<close>

definition decodes_1x :: "decompress_1x \<Rightarrow> bool" where
  "decodes_1x dec \<longleftrightarrow> (\<forall>data nb. nb \<le> 32 \<longrightarrow> 4 * nb \<le> length data \<longrightarrow>
     dec data nb = (map (\<lambda>i. word_of_nat (bit_slice (i * nb) nb (le_nat data))) [0..<32], 4 * nb))"

definition packed_at_u32 :: "nat \<Rightarrow> u8 list \<Rightarrow> nat \<Rightarrow> u32" where
  "packed_at_u32 nb data idx = ucast (packed_at nb data idx)"

lemma packed_at_u32_alt: "packed_at_u32 nb data idx = word_of_nat (bit_slice (idx * nb) nb (le_nat data))"
  unfolding packed_at_u32_def packed_at_def
  by (rule bit_word_eqI) (auto simp: bit_simps)

lemma bit_slice_drop:
  assumes "8 dvd h * nb"
  shows "bit_slice (i * nb) nb (le_nat (drop (h * nb div 8) data)) = bit_slice ((h + i) * nb) nb (le_nat data)"
proof -
  have "8 * (h * nb div 8) = h * nb" using assms by simp
  then have "le_nat (drop (h * nb div 8) data) = le_nat data div 2 ^ (h * nb)"
    by (simp add: le_nat_drop power_256)
  then show ?thesis
    by (simp add: bit_slice_def div_mult2_eq [symmetric] add_mult_distrib flip: power_add)
qed

lemma get_batch_ramp_eq:
  assumes "bit_unpacker_new nb = Some u" "(s + n) * nb \<le> 8 * length data"
  shows "get_batch_ramp u data s n = Some (map (\<lambda>i. packed_at_u32 nb data (s + i)) [0..<n])"
  unfolding get_batch_ramp_def
proof (rule map_opt_Some)
  fix i assume "i \<in> set [0..<n]"
  then have "(s + i + 1) * nb \<le> (s + n) * nb" by (intro mult_le_mono1) simp
  with unpacker_get_slice [OF assms(1), of "s + i" data] assms(2)
  show "map_option ucast (unpacker_get u (s + i) data) = Some (packed_at_u32 nb data (s + i))"
    by (simp add: packed_at_u32_def packed_at_def)
qed

lemma upt_split: "map f [0..<a + b] = map f [0..<a] @ map (\<lambda>i. f (a + i)) [0..<b]"
proof -
  have "map f [a..<a + b] = map f (map (\<lambda>i. i + a) [0..<b])"
    by (simp only: map_add_upt add.commute [of a b])
  then show ?thesis
    using upt_add_eq_append [of 0 a b] by (simp add: add.commute)
qed

lemma get_batch_highway_eq:
  assumes "decodes_1x dec" "bit_unpacker_new nb = Some u" "nb \<le> 32" "8 dvd h" "(h + k * 32) * nb \<le> 8 * length data"
  shows "get_batch_highway dec u data k (h * nb div 8) = Some (map (\<lambda>i. packed_at_u32 nb data (h + i)) [0..<k * 32])"
  using assms(4,5)
proof (induction k arbitrary: h)
  case (Suc k)
  have nb: "bu_num_bits u = nb" using bit_unpacker_new_props [OF assms(2)] by simp
  have dvd: "8 dvd h * nb" using Suc.prems(1) by simp
  have room: "h * nb div 8 + 4 * nb \<le> length data"
    using Suc.prems(2) by (simp add: add_mult_distrib)
  then have "dec (drop (h * nb div 8) data) nb = (map (\<lambda>i. packed_at_u32 nb data (h + i)) [0..<32], 4 * nb)"
    using assms(1,3) unfolding decodes_1x_def
    by (simp add: packed_at_u32_alt bit_slice_drop [OF dvd])
  moreover have "h * nb div 8 + 4 * nb = (h + 32) * nb div 8"
    by (simp add: add_mult_distrib)
  moreover have "get_batch_highway dec u data k ((h + 32) * nb div 8) =
      Some (map (\<lambda>i. packed_at_u32 nb data (h + 32 + i)) [0..<k * 32])"
    by (rule Suc.IH) (use Suc.prems in \<open>auto simp: add.assoc\<close>)
  ultimately show ?case
    using room nb upt_split [of "\<lambda>i. packed_at_u32 nb data (h + i)" 32 "k * 32"] by (simp add: add.assoc)
qed simp

lemma get_batch_u32s_eq:
  assumes dec: "decodes_1x dec" and new: "bit_unpacker_new nb = Some u" and nb: "nb \<le> 32"
    and len: "(s + n) * nb \<le> 8 * length data" and u32: "s + n + 40 < 2 ^ 32"
  shows "get_batch_u32s dec u s data n = Some (map (\<lambda>i. packed_at_u32 nb data (s + i)) [0..<n])"
proof -
  note u = bit_unpacker_new_props [OF new]
  define r where "r = 8 - s mod 8"
  define h where "h = s + r"
  define k where "k = (s + n - h) div 32"
  have r: "r \<le> 8" "8 dvd h"
  proof -
    show "r \<le> 8" by (simp add: r_def)
    have "h = 8 * (s div 8) + 8"
      unfolding h_def r_def by presburger
    then show "8 dvd h" by simp
  qed
  have adds: "u32_add s n = s + n" "u32_add s r = h" "u32_add h 32 = h + 32"
    using u32 r by (auto simp: u32_add_def h_def)
  have bound: "((s + n) * nb + 7) div 8 \<le> length data" using len by linarith
  show ?thesis
  proof (cases "h + 32 > s + n")
    case True
    then show ?thesis using u nb bound adds get_batch_ramp_eq [OF new len]
      by (simp add: get_batch_u32s_def Let_def r_def [symmetric])
  next
    case False
    have "k * 32 \<le> s + n - h" by (simp add: k_def)
    then have hk: "h + k * 32 \<le> s + n" using False by linarith
    then have add: "u32_add h (k * 32) = h + k * 32" using u32 by (simp add: u32_add_def)
    have le: "m * nb \<le> 8 * length data" if "m \<le> s + n" for m
      using mult_le_mono1 [OF that, of nb] len by linarith
    have ramp1: "get_batch_ramp u data s r = Some (map (\<lambda>i. packed_at_u32 nb data (s + i)) [0..<r])"
      by (rule get_batch_ramp_eq [OF new le]) (use hk in \<open>simp add: h_def\<close>)
    have high: "get_batch_highway dec u data k (h * nb div 8) = Some (map (\<lambda>i. packed_at_u32 nb data (h + i)) [0..<k * 32])"
      by (rule get_batch_highway_eq [OF dec new nb r(2) le [OF hk]])
    have ramp2: "get_batch_ramp u data (h + k * 32) (n - r - k * 32) =
        Some (map (\<lambda>i. packed_at_u32 nb data (h + k * 32 + i)) [0..<n - r - k * 32])"
      by (rule get_batch_ramp_eq [OF new le]) (use hk in \<open>simp add: h_def\<close>)
    define e where "e = n - r - k * 32"
    have n: "n = r + (k * 32 + e)" using hk by (simp add: h_def e_def)
    have "map (\<lambda>i. packed_at_u32 nb data (s + i)) [0..<n] =
        map (\<lambda>i. packed_at_u32 nb data (s + i)) [0..<r] @ map (\<lambda>i. packed_at_u32 nb data (h + i)) [0..<k * 32] @
        map (\<lambda>i. packed_at_u32 nb data (h + k * 32 + i)) [0..<e]"
      unfolding n upt_split by (simp add: h_def add.assoc)
    moreover have e2: "n - (r + k * 32) = e" by (simp add: e_def)
    ultimately show ?thesis using False u nb bound adds add ramp1 high ramp2 [folded e_def]
      by (simp add: get_batch_u32s_def Let_def r_def [symmetric] k_def [symmetric] e2)
  qed
qed

lemma packed_at_less: "nb \<le> 64 \<Longrightarrow> unat (packed_at nb data i) < 2 ^ nb"
  unfolding packed_at_def using unat_bit_slice [where 'a = 64, of nb "i * nb" "le_nat data"] bit_slice_less by simp

lemma unat_packed_at_u32: "nb \<le> 32 \<Longrightarrow> unat (packed_at_u32 nb data i) = unat (packed_at nb data i)"
  unfolding packed_at_u32_alt packed_at_def
  using unat_bit_slice [where 'a = 64, of nb "i * nb" "le_nat data"]
    unat_bit_slice [where 'a = 32, of nb "i * nb" "le_nat data"] by simp

lemma range_u32_iff:
  assumes "unat v < 2 ^ 32" "unat w = unat v" "\<not> lo > 0xFFFFFFFF"
  shows "(ucast (lo :: u64) :: u32) \<le> w \<and> w \<le> ucast (min hi 0xFFFFFFFF) \<longleftrightarrow> lo \<le> v \<and> v \<le> (hi :: u64)"
proof -
  have u: "unat (ucast (x :: u64) :: u32) = unat x" if "x \<le> 0xFFFFFFFF" for x
    using that by (simp add: unsigned_ucast_eq word_le_nat_alt take_bit_nat_eq_self)
  have v: "unat v \<le> 0xFFFFFFFF" using assms(1) by simp
  have "(ucast lo :: u32) \<le> w \<longleftrightarrow> lo \<le> v"
    using u [of lo] assms(2,3) by (simp add: word_le_nat_alt not_less)
  moreover have "w \<le> (ucast (min hi 0xFFFFFFFF) :: u32) \<longleftrightarrow> v \<le> hi"
    using u [of "min hi 0xFFFFFFFF"] assms(2) v by (simp add: word_le_nat_alt min_def split: if_splits)
  ultimately show ?thesis by simp
qed

text \<open>The positions of \<open>id_start..id_end\<close> whose value lies between \<open>lo\<close> and \<open>hi\<close>.\<close>

definition ids_in_range :: "nat \<Rightarrow> u8 list \<Rightarrow> u64 \<times> u64 \<Rightarrow> nat \<times> nat \<Rightarrow> u32 list" where
  "ids_in_range nb data vr ir =
     map word_of_nat (filter (\<lambda>i. fst vr \<le> packed_at nb data i \<and> packed_at nb data i \<le> snd vr) [fst ir..<snd ir])"

lemma get_ids_slow_eq:
  assumes "bit_unpacker_new nb = Some u" "b * nb \<le> 8 * length data"
  shows "get_ids_for_value_range_slow u (lo, hi) (a, b) data = Some (ids_in_range nb data (lo, hi) (a, b))"
proof -
  have "map_opt (\<lambda>i. map_option (Pair i) (unpacker_get u i data)) [a..<b] = Some (map (\<lambda>i. (i, packed_at nb data i)) [a..<b])"
  proof (rule map_opt_Some)
    fix i assume "i \<in> set [a..<b]"
    then have "(i + 1) * nb \<le> b * nb" by (intro mult_le_mono1) simp
    with unpacker_get_slice [OF assms(1), of i data] assms(2)
    show "map_option (Pair i) (unpacker_get u i data) = Some (i, packed_at nb data i)"
      by (simp add: packed_at_def)
  qed
  then show ?thesis by (simp add: get_ids_for_value_range_slow_def ids_in_range_def filter_map comp_def)
qed

lemma get_ids_fast_eq:
  assumes "decodes_1x dec" "bit_unpacker_new nb = Some u" "nb \<le> 32" "b * nb \<le> 8 * length data"
    "b + 40 < 2 ^ 32" "a \<le> b" "\<not> lo > 0xFFFFFFFF"
  shows "get_ids_for_value_range_fast dec u (ucast lo, ucast (min hi 0xFFFFFFFF)) (a, b) data
    = Some (ids_in_range nb data (lo, hi) (a, b))"
proof -
  define P where "P i \<longleftrightarrow> lo \<le> packed_at nb data i \<and> packed_at nb data i \<le> hi" for i
  have iff: "(ucast lo :: u32) \<le> packed_at_u32 nb data i \<and> packed_at_u32 nb data i \<le> ucast (min hi 0xFFFFFFFF) \<longleftrightarrow> P i" for i
  proof -
    have "(2 :: nat) ^ nb \<le> 2 ^ 32" using assms(3) by (intro power_increasing) auto
    then have "unat (packed_at nb data i) < 2 ^ 32"
      using packed_at_less [of nb data i] assms(3) by linarith
    then show ?thesis unfolding P_def
      by (rule range_u32_iff) (use assms(3,7) unat_packed_at_u32 in auto)
  qed
  have "get_batch_u32s dec u a data (b - a) = Some (map (\<lambda>i. packed_at_u32 nb data (a + i)) [0..<b - a])"
    by (rule get_batch_u32s_eq [OF assms(1-3)]) (use assms in auto)
  moreover have "map word_of_nat (filter P [a..<b]) = map (\<lambda>i. word_of_nat a + word_of_nat i :: u32) (filter (\<lambda>i. P (a + i)) [0..<b - a])"
  proof -
    have "[a..<b] = map (\<lambda>i. a + i) [0..<b - a]"
      using map_add_upt [of a "b - a"] assms(6) by (simp add: add.commute)
    then show ?thesis by (simp add: filter_map comp_def)
  qed
  moreover have "filter (\<lambda>i. (ucast lo :: u32) \<le> map (\<lambda>i. packed_at_u32 nb data (a + i)) [0..<b - a] ! i \<and>
        map (\<lambda>i. packed_at_u32 nb data (a + i)) [0..<b - a] ! i \<le> ucast (min hi 0xFFFFFFFF)) [0..<b - a]
      = filter (\<lambda>i. P (a + i)) [0..<b - a]"
    by (rule filter_cong) (use iff in auto)
  moreover have "ids_in_range nb data (lo, hi) (a, b) = map word_of_nat (filter P [a..<b])"
    by (simp add: ids_in_range_def P_def [abs_def])
  ultimately show ?thesis
    by (simp add: get_ids_for_value_range_fast_def filter_vec_in_place_eq)
qed

text \<open>
  Property C25. The search over a range of positions returns, in increasing order, exactly the
  positions whose packed value lies in the requested range: by reading value by value when the
  width exceeds 32 bits, and otherwise by block decoding and in-place filtering, given that the
  external block decoder reads the packed layout.
\<close>

theorem get_ids_for_value_range_correct:
  assumes "decodes_1x dec" and "bit_unpacker_new nb = Some u" and "b * nb \<le> 8 * length data"
    and "b + 40 < 2 ^ 32" and "a \<le> b"
  shows "get_ids_for_value_range dec u (lo, hi) (a, b) data = Some (ids_in_range nb data (lo, hi) (a, b))"
proof -
  have nb: "bu_num_bits u = nb" using bit_unpacker_new_props [OF assms(2)] by simp
  consider (slow) "nb > 32" | (none) "nb \<le> 32" "lo > 0xFFFFFFFF" | (fast) "nb \<le> 32" "\<not> lo > 0xFFFFFFFF" by linarith
  then show ?thesis
  proof cases
    case slow
    then show ?thesis using nb get_ids_slow_eq [OF assms(2,3)] by (simp add: get_ids_for_value_range_def)
  next
    case none
    have "\<not> lo \<le> packed_at nb data i" for i
    proof -
      have "(2 :: nat) ^ nb \<le> 2 ^ 32" using none(1) by (intro power_increasing) auto
      then have "unat (packed_at nb data i) < 2 ^ 32"
        using packed_at_less [of nb data i] none(1) by linarith
      then show ?thesis using none(2) by (simp add: word_le_nat_alt word_less_nat_alt)
    qed
    then show ?thesis using nb none by (simp add: get_ids_for_value_range_def ids_in_range_def)
  next
    case fast
    then show ?thesis using nb get_ids_fast_eq [OF assms(1,2) fast(1) assms(3-5) fast(2)]
      by (simp add: get_ids_for_value_range_def)
  qed
qed

theorem get_ids_for_value_range_correct_witness:
  "get_ids_for_value_range
     (\<lambda>data nb. (map (\<lambda>i. word_of_nat (bit_slice (i * nb) nb (le_nat data))) [0..<32], 4 * nb))
     \<lparr>bu_num_bits = 8, bu_mask = 255\<rparr> (2, 3) (1, 4) [1, 2, 9, 3] = Some [1, 3]"
proof -
  have "ids_in_range 8 [1, 2, 9, 3] (2, 3) (1, 4) = [1, 3]"
    by (simp add: ids_in_range_def packed_at_def bit_slice_def upt_conv_Cons)
  with get_ids_for_value_range_correct
    [of "\<lambda>data nb. (map (\<lambda>i. word_of_nat (bit_slice (i * nb) nb (le_nat data))) [0..<32], 4 * nb)"
        8 "\<lparr>bu_num_bits = 8, bu_mask = 255\<rparr>" 4 "[1, 2, 9, 3]" 1 2 3]
  show ?thesis by (simp add: decodes_1x_def bit_unpacker_new_def)
qed

text \<open>
  Property C35. The width chosen for an amplitude is the least width the reader supports
  (at most 56 bits, or 64) in which the amplitude fits.
\<close>

theorem compute_num_bits_least:
  "(compute_num_bits n \<le> 56 \<or> compute_num_bits n = 64) \<and> unat n < 2 ^ compute_num_bits n \<and>
   Least (\<lambda>w. (w \<le> 56 \<or> w = 64) \<and> unat n < 2 ^ w) = compute_num_bits n"
proof -
  have "compute_num_bits n \<le> w" if w: "w \<le> 56 \<or> w = 64" "unat n < 2 ^ w" for w
  proof -
    have "64 - leading_zeros n \<le> w"
    proof (cases "leading_zeros n < 64")
      case True
      have "bit (unat n) (63 - leading_zeros n)"
        using leading_zeros_props(3) [OF True] by (simp add: bit_unsigned_iff)
      moreover have "unat n = take_bit w (unat n)" using w(2) by (simp add: take_bit_nat_eq_self)
      ultimately have "63 - leading_zeros n < w" by (metis bit_take_bit_iff)
      then show ?thesis using True by simp
    qed simp
    then show ?thesis using w(1) by (auto simp: compute_num_bits_def Let_def)
  qed
  then have "Least (\<lambda>w. (w \<le> 56 \<or> w = 64) \<and> unat n < 2 ^ w) = compute_num_bits n"
    using compute_num_bits_props [of n] by (intro Least_equality) auto
  then show ?thesis using compute_num_bits_props [of n] by blast
qed

end
