(* ===== verification/TinySet.thy ===== *)
theory TinySet
  imports Prelude
begin

text \<open>
  \<open>TinySet\<close> of \<^verbatim>\<open>common/src/bitset.rs\<close>: a set of numbers below 64 kept in the bits of one
  \<open>u64\<close>. Every operation is translated from the source; the lemmas give each one its meaning on
  the abstract set \<open>tinyset_elems\<close>, up to the iterator, which lists the set in ascending order.
\<close>

section \<open>Operations\<close>

type_synonym tinyset = u64

definition tinyset_empty :: tinyset where
  "tinyset_empty = 0"

text \<open>\<open>clear\<close> overwrites the set, so the new state is all it returns.\<close>

definition tinyset_clear :: "tinyset \<Rightarrow> tinyset" where
  "tinyset_clear s = 0"

definition tinyset_complement :: "tinyset \<Rightarrow> tinyset" where
  "tinyset_complement s = NOT s"

definition tinyset_full :: tinyset where
  "tinyset_full = tinyset_complement tinyset_empty"

definition tinyset_intersect :: "tinyset \<Rightarrow> tinyset \<Rightarrow> tinyset" where
  "tinyset_intersect s other = s AND other"

definition tinyset_union :: "tinyset \<Rightarrow> tinyset \<Rightarrow> tinyset" where
  "tinyset_union s other = s OR other"

definition tinyset_is_empty :: "tinyset \<Rightarrow> bool" where
  "tinyset_is_empty s \<longleftrightarrow> s = 0"

definition tinyset_singleton :: "nat \<Rightarrow> tinyset" where
  "tinyset_singleton el = push_bit (el mod 64) 1"

definition tinyset_contains :: "tinyset \<Rightarrow> nat \<Rightarrow> bool" where
  "tinyset_contains s el \<longleftrightarrow> \<not> tinyset_is_empty (tinyset_intersect s (tinyset_singleton el))"

definition tinyset_len :: "tinyset \<Rightarrow> nat" where
  "tinyset_len s = count_ones s"

definition tinyset_insert :: "tinyset \<Rightarrow> nat \<Rightarrow> tinyset" where
  "tinyset_insert s el = tinyset_union s (tinyset_singleton el)"

definition tinyset_remove :: "tinyset \<Rightarrow> nat \<Rightarrow> tinyset" where
  "tinyset_remove s el = tinyset_intersect s (tinyset_complement (tinyset_singleton el))"

text \<open>The mutating variants return the changed flag and the new set.\<close>

definition tinyset_insert_mut :: "tinyset \<Rightarrow> nat \<Rightarrow> bool \<times> tinyset" where
  "tinyset_insert_mut s el = (let s' = tinyset_insert s el in (s \<noteq> s', s'))"

definition tinyset_remove_mut :: "tinyset \<Rightarrow> nat \<Rightarrow> bool \<times> tinyset" where
  "tinyset_remove_mut s el = (let s' = tinyset_remove s el in (s \<noteq> s', s'))"

definition tinyset_pop_lowest :: "tinyset \<Rightarrow> nat option \<times> tinyset" where
  "tinyset_pop_lowest s =
     (if tinyset_is_empty s then (None, s)
      else (Some (trailing_zeros s), s AND (s - 1)))"

definition tinyset_range_lower :: "nat \<Rightarrow> tinyset" where
  "tinyset_range_lower upper_bound = push_bit (upper_bound mod 64) 1 - 1"

definition tinyset_range_greater_or_equal :: "nat \<Rightarrow> tinyset" where
  "tinyset_range_greater_or_equal from_included =
     tinyset_complement (tinyset_range_lower from_included)"

definition tinyset_into_bytes :: "tinyset \<Rightarrow> u8 list" where
  "tinyset_into_bytes s = u64_to_le_bytes s"

text \<open>The writer after \<open>serialize\<close>, as the bytes written to it so far.\<close>

definition tinyset_serialize :: "tinyset \<Rightarrow> u8 list \<Rightarrow> u8 list" where
  "tinyset_serialize s writer = writer @ u64_to_le_bytes s"

definition tinyset_deserialize :: "u8 list \<Rightarrow> tinyset" where
  "tinyset_deserialize data = u64_from_le_bytes data"

section \<open>The set a \<open>TinySet\<close> stands for\<close>

definition tinyset_elems :: "tinyset \<Rightarrow> nat set" where
  "tinyset_elems s = {i. bit s i}"

lemma tinyset_elems_less: "i \<in> tinyset_elems s \<Longrightarrow> i < 64"
  by (simp add: tinyset_elems_def bit_u64_less)

lemma finite_tinyset_elems [simp]: "finite (tinyset_elems s)"
  by (simp add: tinyset_elems_def)

lemma tinyset_eq_iff: "s = t \<longleftrightarrow> tinyset_elems s = tinyset_elems t"
  by (auto simp: tinyset_elems_def intro: u64_bits_eqI)

lemma elems_empty [bit_laws]: "tinyset_elems tinyset_empty = {}"
  by (simp add: tinyset_elems_def tinyset_empty_def)

lemma elems_clear [bit_laws]: "tinyset_elems (tinyset_clear s) = {}"
  by (simp add: tinyset_elems_def tinyset_clear_def)

lemma elems_complement [bit_laws]: "tinyset_elems (tinyset_complement s) = {..<64} - tinyset_elems s"
  by (auto simp: tinyset_elems_def tinyset_complement_def bit_simps)

lemma elems_full [bit_laws]: "tinyset_elems tinyset_full = {..<64}"
  by (simp add: tinyset_full_def bit_laws)

lemma elems_intersect [bit_laws]:
  "tinyset_elems (tinyset_intersect s t) = tinyset_elems s \<inter> tinyset_elems t"
  by (auto simp: tinyset_elems_def tinyset_intersect_def bit_simps)

lemma elems_union [bit_laws]: "tinyset_elems (tinyset_union s t) = tinyset_elems s \<union> tinyset_elems t"
  by (auto simp: tinyset_elems_def tinyset_union_def bit_simps)

lemma is_empty_iff [bit_laws]: "tinyset_is_empty s \<longleftrightarrow> tinyset_elems s = {}"
  by (simp add: tinyset_is_empty_def tinyset_eq_iff [of s 0] tinyset_elems_def)

lemma elems_singleton [bit_laws]: "el < 64 \<Longrightarrow> tinyset_elems (tinyset_singleton el) = {el}"
  by (auto simp: tinyset_elems_def tinyset_singleton_def bit_simps)

lemma contains_iff [bit_laws]: "el < 64 \<Longrightarrow> tinyset_contains s el \<longleftrightarrow> el \<in> tinyset_elems s"
  by (auto simp: tinyset_contains_def bit_laws)

lemma elems_insert [bit_laws]:
  "el < 64 \<Longrightarrow> tinyset_elems (tinyset_insert s el) = insert el (tinyset_elems s)"
  by (auto simp: tinyset_insert_def bit_laws)

lemma elems_remove [bit_laws]:
  "el < 64 \<Longrightarrow> tinyset_elems (tinyset_remove s el) = tinyset_elems s - {el}"
  by (auto simp: tinyset_remove_def bit_laws dest: tinyset_elems_less)

lemma tinyset_len_card [bit_laws]: "tinyset_len s = card (tinyset_elems s)"
  by (simp add: tinyset_len_def tinyset_elems_def count_ones_card)

lemma insert_mut_iff [bit_laws]:
  assumes "el < 64"
  shows "fst (tinyset_insert_mut s el) \<longleftrightarrow> el \<notin> tinyset_elems s"
    and "snd (tinyset_insert_mut s el) = tinyset_insert s el"
  using assms
  by (auto simp: tinyset_insert_mut_def Let_def tinyset_eq_iff [of s] elems_insert)

lemma remove_mut_iff [bit_laws]:
  assumes "el < 64"
  shows "fst (tinyset_remove_mut s el) \<longleftrightarrow> el \<in> tinyset_elems s"
    and "snd (tinyset_remove_mut s el) = tinyset_remove s el"
  using assms
  by (auto simp: tinyset_remove_mut_def Let_def tinyset_eq_iff [of s] elems_remove)

lemma bytes_roundtrip [simp]: "tinyset_deserialize (tinyset_into_bytes s) = s"
  by (simp add: tinyset_deserialize_def tinyset_into_bytes_def)

lemma serialize_roundtrip [simp]: "tinyset_deserialize (drop (length writer) (tinyset_serialize s writer)) = s"
  by (simp add: tinyset_deserialize_def tinyset_serialize_def)

lemma elems_range_lower [bit_laws]:
  assumes "ub < 64"
  shows "tinyset_elems (tinyset_range_lower ub) = {..<ub}"
proof -
  have "(push_bit ub 1 :: u64) - 1 = mask ub"
    by (simp add: mask_eq_exp_minus_1 push_bit_eq_mult)
  with assms show ?thesis
    by (auto simp: tinyset_elems_def tinyset_range_lower_def bit_simps)
qed

lemma elems_range_greater_or_equal [bit_laws]:
  "from_i < 64 \<Longrightarrow> tinyset_elems (tinyset_range_greater_or_equal from_i) = {from_i..<64}"
  by (auto simp: tinyset_range_greater_or_equal_def bit_laws)

section \<open>Popping the lowest element\<close>

text \<open>
  Clearing the lowest set bit with \<open>n & (n - 1)\<close>: a word is its part above the lowest bit
  plus that bit, and subtracting one turns the bit into the mask below it.
\<close>

lemma lowest_bit_split:
  assumes "bit w k" "\<And>i. i < k \<Longrightarrow> \<not> bit w i"
  shows "w = (w AND NOT (mask (Suc k))) + push_bit k (1 :: u64)"
proof -
  have "k < 64" using assms(1) by (rule bit_u64_less)
  have "(w AND NOT (mask (Suc k))) + push_bit k 1 = (w AND NOT (mask (Suc k))) OR push_bit k (1 :: u64)"
    by (rule disjunctive_add) (auto simp: bit_simps)
  also have "\<dots> = w"
    using assms \<open>k < 64\<close>
    by (intro u64_bits_eqI) (auto simp: bit_simps less_Suc_eq not_less_less_Suc_eq)
  finally show ?thesis by simp
qed

lemma lowest_bit_pred:
  assumes "bit w k" "\<And>i. i < k \<Longrightarrow> \<not> bit w i"
  shows "w - 1 = (w AND NOT (mask (Suc k))) OR (mask k :: u64)"
proof -
  have "w - 1 = (w AND NOT (mask (Suc k))) + (push_bit k 1 - 1)"
    using lowest_bit_split [OF assms] by (simp add: algebra_simps)
  also have "push_bit k 1 - 1 = (mask k :: u64)"
    by (simp add: mask_eq_exp_minus_1 push_bit_eq_mult)
  also have "(w AND NOT (mask (Suc k))) + mask k = (w AND NOT (mask (Suc k))) OR mask k"
    by (rule disjunctive_add) (auto simp: bit_simps)
  finally show ?thesis .
qed

lemma elems_clear_lowest:
  assumes "s \<noteq> 0"
  shows "tinyset_elems (s AND (s - 1)) = tinyset_elems s - {trailing_zeros s}"
proof -
  let ?k = "trailing_zeros s"
  note k = trailing_zeros_props [OF assms]
  have eq: "s - 1 = (s AND NOT (mask (Suc ?k))) OR mask ?k"
    using k(1,2) by (rule lowest_bit_pred)
  have "bit (s AND (s - 1)) i \<longleftrightarrow> bit s i \<and> i \<noteq> ?k" for i
    unfolding bit_and_iff eq
    using k by (auto simp: bit_simps less_Suc_eq not_less_less_Suc_eq dest: bit_u64_less)
  then show ?thesis by (auto simp: tinyset_elems_def)
qed

lemma pop_lowest_empty [simp]: "tinyset_elems s = {} \<Longrightarrow> tinyset_pop_lowest s = (None, s)"
  by (simp add: tinyset_pop_lowest_def bit_laws)

lemma pop_lowest_Min:
  assumes "tinyset_elems s \<noteq> {}"
  shows "fst (tinyset_pop_lowest s) = Some (Min (tinyset_elems s))"
    and "tinyset_elems (snd (tinyset_pop_lowest s)) = tinyset_elems s - {Min (tinyset_elems s)}"
proof -
  have "s \<noteq> 0" using assms by (auto simp: tinyset_elems_def)
  then have m: "trailing_zeros s = Min (tinyset_elems s)"
    unfolding tinyset_elems_def by (rule trailing_zeros_Min)
  show "fst (tinyset_pop_lowest s) = Some (Min (tinyset_elems s))"
    using assms by (simp add: tinyset_pop_lowest_def is_empty_iff m)
  show "tinyset_elems (snd (tinyset_pop_lowest s)) = tinyset_elems s - {Min (tinyset_elems s)}"
    using assms elems_clear_lowest [OF \<open>s \<noteq> 0\<close>]
    by (simp add: tinyset_pop_lowest_def is_empty_iff m)
qed

text \<open>
  \<open>TinySetIterator\<close> pops until nothing is left; it ends because every pop removes an element.
\<close>

function tinyset_iter :: "tinyset \<Rightarrow> nat list" where
  "tinyset_iter s =
     (case tinyset_pop_lowest s of
        (None, _) \<Rightarrow> []
      | (Some lowest, s') \<Rightarrow> lowest # tinyset_iter s')"
  by pat_completeness auto
termination
proof (relation "measure tinyset_len")
  fix s a b lowest
  assume p: "(a, b) = tinyset_pop_lowest s" "a = Some lowest"
  then have ne: "tinyset_elems s \<noteq> {}"
    by (auto simp: pop_lowest_empty)
  have "tinyset_elems b = tinyset_elems s - {Min (tinyset_elems s)}"
    using pop_lowest_Min(2) [OF ne] p by (metis snd_conv)
  then show "(b, s) \<in> measure tinyset_len"
    using ne by (simp add: tinyset_len_card card_gt_0_iff)
qed simp

declare tinyset_iter.simps [simp del]

lemma tinyset_iter_sorted_list: "tinyset_iter s = sorted_list_of_set (tinyset_elems s)"
proof (induction s rule: tinyset_iter.induct)
  case (1 s)
  show ?case
  proof (cases "tinyset_elems s = {}")
    case True
    then show ?thesis by (simp add: tinyset_iter.simps)
  next
    case False
    obtain s' where pop: "tinyset_pop_lowest s = (Some (Min (tinyset_elems s)), s')"
      using pop_lowest_Min(1) [OF False] by (metis prod.collapse)
    have s': "tinyset_elems s' = tinyset_elems s - {Min (tinyset_elems s)}"
      using pop_lowest_Min(2) [OF False] pop by simp
    have "tinyset_iter s = Min (tinyset_elems s) # tinyset_iter s'"
      by (subst tinyset_iter.simps) (simp add: pop)
    also have "tinyset_iter s' = sorted_list_of_set (tinyset_elems s - {Min (tinyset_elems s)})"
      using "1.IH" [OF pop [symmetric] refl] s' by simp
    also have "Min (tinyset_elems s) # \<dots> = sorted_list_of_set (tinyset_elems s)"
      using False by (simp add: sorted_list_of_set_nonempty)
    finally show ?thesis .
  qed
qed

end
