(* ===== verification/BitSet.thy ===== *)
theory BitSet
  imports TinySet
begin

text \<open>
  \<open>BitSet\<close> and \<open>ReadOnlyBitSet\<close> of \<^verbatim>\<open>common/src/bitset.rs\<close>, and the alive-document set
  \<open>AliveBitSet\<close> of \<^verbatim>\<open>src/fastfield/alive_bitset.rs\<close> built on them. A bitset is an array of
  64-bit buckets with a cached cardinality; its serialized form is the capacity followed by the
  buckets, little-endian, and is queried byte by byte without being decoded.
\<close>

section \<open>The mutable bitset\<close>

record bitset =
  bs_tinysets :: "tinyset list"
  bs_len :: nat
  bs_max_value :: nat

definition num_buckets :: "nat \<Rightarrow> nat" where
  "num_buckets max_val = (max_val + 63) div 64"

definition bitset_serialize :: "bitset \<Rightarrow> u8 list" where
  "bitset_serialize b = le_bytes 4 (bs_max_value b) @ concat (map tinyset_into_bytes (bs_tinysets b))"

definition bitset_with_max_value :: "nat \<Rightarrow> bitset" where
  "bitset_with_max_value max_value =
     \<lparr>bs_tinysets = replicate (num_buckets max_value) tinyset_empty,
      bs_len = 0, bs_max_value = max_value\<rparr>"

definition bitset_with_max_value_and_full :: "nat \<Rightarrow> bitset" where
  "bitset_with_max_value_and_full max_value =
     (let tinybitsets = replicate (num_buckets max_value) tinyset_full;
          lower = max_value mod 64
      in \<lparr>bs_tinysets =
            (if lower \<noteq> 0 then tinybitsets[length tinybitsets - 1 := tinyset_range_lower lower]
             else tinybitsets),
          bs_len = max_value, bs_max_value = max_value\<rparr>)"

text \<open>\<open>clear\<close> empties the buckets and leaves \<open>len\<close> as it was.\<close>

definition bitset_clear :: "bitset \<Rightarrow> bitset" where
  "bitset_clear b = b\<lparr>bs_tinysets := map (\<lambda>_. tinyset_empty) (bs_tinysets b)\<rparr>"

fun zip_intersect :: "tinyset list \<Rightarrow> tinyset list \<Rightarrow> tinyset list" where
  "zip_intersect (l # ls) (r # rs) = tinyset_intersect l r # zip_intersect ls rs"
| "zip_intersect ls _ = ls"

definition bitset_intersect_update_with_iter :: "bitset \<Rightarrow> tinyset list \<Rightarrow> bitset" where
  "bitset_intersect_update_with_iter b other =
     (let ts = zip_intersect (bs_tinysets b) other;
          visited = take (length other) ts
      in b\<lparr>bs_tinysets := ts, bs_len := sum_list (map tinyset_len visited)\<rparr>)"

definition bitset_insert :: "bitset \<Rightarrow> nat \<Rightarrow> (bool \<times> bitset) option" where
  "bitset_insert b el =
     (let higher = el div 64; lower = el mod 64
      in if higher < length (bs_tinysets b) then
           (let (changed, t) = tinyset_insert_mut (bs_tinysets b ! higher) lower
            in Some (changed, b\<lparr>bs_tinysets := (bs_tinysets b)[higher := t],
                                bs_len := bs_len b + (if changed then 1 else 0)\<rparr>))
         else None)"

definition bitset_remove :: "bitset \<Rightarrow> nat \<Rightarrow> bitset option" where
  "bitset_remove b el =
     (let higher = el div 64; lower = el mod 64
      in if higher < length (bs_tinysets b) then
           (let (changed, t) = tinyset_remove_mut (bs_tinysets b ! higher) lower
            in Some (b\<lparr>bs_tinysets := (bs_tinysets b)[higher := t],
                       bs_len := bs_len b - (if changed then 1 else 0)\<rparr>))
         else None)"

definition bitset_tinyset :: "bitset \<Rightarrow> nat \<Rightarrow> tinyset option" where
  "bitset_tinyset b bucket =
     (if bucket < length (bs_tinysets b) then Some (bs_tinysets b ! bucket) else None)"

definition bitset_contains :: "bitset \<Rightarrow> nat \<Rightarrow> bool option" where
  "bitset_contains b el =
     (case bitset_tinyset b (el div 64) of
        None \<Rightarrow> None
      | Some t \<Rightarrow> Some (tinyset_contains t (el mod 64)))"

fun list_position :: "('a \<Rightarrow> bool) \<Rightarrow> 'a list \<Rightarrow> nat option" where
  "list_position P [] = None"
| "list_position P (x # xs) = (if P x then Some 0 else map_option Suc (list_position P xs))"

text \<open>The outer option is the slice panic, the inner one the answer.\<close>

definition first_non_empty_bucket :: "bitset \<Rightarrow> nat \<Rightarrow> nat option option" where
  "first_non_empty_bucket b bucket =
     (if bucket \<le> length (bs_tinysets b)
      then Some (map_option (\<lambda>delta_bucket. bucket + delta_bucket)
             (list_position (\<lambda>t. \<not> tinyset_is_empty t) (drop bucket (bs_tinysets b))))
      else None)"

section \<open>The serialized bitset\<close>

record ro_bitset =
  ro_data :: "u8 list"
  ro_max_value :: nat

fun chunks :: "nat \<Rightarrow> 'a list \<Rightarrow> 'a list list" where
  "chunks n xs = (if n = 0 \<or> length xs < n then [] else take n xs # chunks n (drop n xs))"

declare chunks.simps [simp del]

definition ro_open :: "u8 list \<Rightarrow> ro_bitset option" where
  "ro_open data =
     (if length data < 4 then None
      else if length (drop 4 data) mod 8 \<noteq> 0 then None
      else Some \<lparr>ro_data = drop 4 data, ro_max_value = le_nat (take 4 data)\<rparr>)"

definition ro_iter_tinysets :: "ro_bitset \<Rightarrow> tinyset list" where
  "ro_iter_tinysets r = map tinyset_deserialize (chunks 8 (ro_data r))"

definition ro_len :: "ro_bitset \<Rightarrow> nat" where
  "ro_len r = sum_list (map tinyset_len (ro_iter_tinysets r))"

definition ro_iter :: "ro_bitset \<Rightarrow> nat list" where
  "ro_iter r =
     concat (map (\<lambda>(chunk_num, t).
               takeWhile (\<lambda>doc. doc < ro_max_value r)
                 (map (\<lambda>val. val + chunk_num * 64) (tinyset_iter t)))
             (enumerate 0 (ro_iter_tinysets r)))"

definition ro_contains :: "ro_bitset \<Rightarrow> nat \<Rightarrow> bool option" where
  "ro_contains r el =
     (let byte_offset = el div 8
      in if byte_offset < length (ro_data r)
         then Some ((ro_data r ! byte_offset) AND push_bit (el mod 8) 1 \<noteq> 0)
         else None)"

definition intersect_bitsets :: "ro_bitset \<Rightarrow> ro_bitset \<Rightarrow> ro_bitset option" where
  "intersect_bitsets left other =
     (if ro_max_value left \<noteq> ro_max_value other then None
      else if length (ro_data left) \<noteq> length (ro_data other) then None
      else Some
        \<lparr>ro_data = concat (map (\<lambda>(l, r). tinyset_into_bytes (tinyset_intersect l r))
                     (zip (ro_iter_tinysets left) (ro_iter_tinysets other))),
         ro_max_value = ro_max_value left\<rparr>)"

definition bitset_intersect_update :: "bitset \<Rightarrow> ro_bitset \<Rightarrow> bitset" where
  "bitset_intersect_update b other = bitset_intersect_update_with_iter b (ro_iter_tinysets other)"

definition ro_from_bitset :: "bitset \<Rightarrow> ro_bitset option" where
  "ro_from_bitset b = ro_open (bitset_serialize b)"

section \<open>Alive documents\<close>

record alive_bitset =
  ab_num_alive_docs :: nat
  ab_bitset :: ro_bitset

definition alive_from :: "ro_bitset \<Rightarrow> alive_bitset" where
  "alive_from r = \<lparr>ab_num_alive_docs = ro_len r, ab_bitset = r\<rparr>"

definition alive_open :: "u8 list \<Rightarrow> alive_bitset option" where
  "alive_open bytes = map_option alive_from (ro_open bytes)"

definition write_alive_bitset :: "bitset \<Rightarrow> u8 list" where
  "write_alive_bitset b = bitset_serialize b"

definition is_alive :: "alive_bitset \<Rightarrow> nat \<Rightarrow> bool option" where
  "is_alive a doc = ro_contains (ab_bitset a) doc"

definition is_deleted :: "alive_bitset \<Rightarrow> nat \<Rightarrow> bool option" where
  "is_deleted a doc = map_option Not (is_alive a doc)"

definition iter_alive :: "alive_bitset \<Rightarrow> nat list" where
  "iter_alive a = ro_iter (ab_bitset a)"

definition intersect_alive_bitsets :: "alive_bitset \<Rightarrow> alive_bitset \<Rightarrow> alive_bitset option" where
  "intersect_alive_bitsets left right =
     (if ro_max_value (ab_bitset left) \<noteq> ro_max_value (ab_bitset right) then None
      else map_option (\<lambda>b. \<lparr>ab_num_alive_docs = ro_len b, ab_bitset = b\<rparr>)
             (intersect_bitsets (ab_bitset left) (ab_bitset right)))"

section \<open>The set of a bucket array\<close>

definition buckets_elems :: "tinyset list \<Rightarrow> nat set" where
  "buckets_elems ts = {x. x div 64 < length ts \<and> x mod 64 \<in> tinyset_elems (ts ! (x div 64))}"

lemma buckets_elems_less: "x \<in> buckets_elems ts \<Longrightarrow> x < 64 * length ts"
  by (auto simp: buckets_elems_def)

lemma finite_buckets_elems [simp]: "finite (buckets_elems ts)"
  by (rule finite_subset [of _ "{..<64 * length ts}"]) (auto dest: buckets_elems_less)

lemma buckets_elems_Nil [simp]: "buckets_elems [] = {}"
  by (simp add: buckets_elems_def)

lemma buckets_elems_snoc:
  "buckets_elems (ts @ [t]) = buckets_elems ts \<union> (\<lambda>i. i + length ts * 64) ` tinyset_elems t"
    (is "?L = ?R")
proof (rule set_eqI)
  fix x
  show "x \<in> ?L \<longleftrightarrow> x \<in> ?R"
  proof (cases "x div 64 = length ts")
    case True
    then have "x = x mod 64 + length ts * 64" by presburger
    then show ?thesis
      using True by (auto simp: buckets_elems_def dest: tinyset_elems_less)
  next
    case False
    then have "x \<notin> (\<lambda>i. i + length ts * 64) ` tinyset_elems t"
      by (auto dest: tinyset_elems_less)
    then show ?thesis
      using False by (auto simp: buckets_elems_def nth_append)
  qed
qed

lemma card_buckets_elems: "card (buckets_elems ts) = sum_list (map tinyset_len ts)"
proof (induction ts rule: rev_induct)
  case (snoc t ts)
  have disj: "buckets_elems ts \<inter> (\<lambda>i. i + length ts * 64) ` tinyset_elems t = {}"
    by (auto dest!: buckets_elems_less)
  have "card ((\<lambda>i. i + length ts * 64) ` tinyset_elems t) = card (tinyset_elems t)"
    by (rule card_image) (simp add: inj_on_def)
  then show ?case
    using snoc disj by (simp add: buckets_elems_snoc card_Un_disjoint tinyset_len_card)
qed simp

lemma buckets_elems_replicate_empty [simp]: "buckets_elems (replicate n tinyset_empty) = {}"
  by (auto simp: buckets_elems_def bit_laws)

lemma zip_intersect_length: "length (zip_intersect ts us) = length ts"
  by (induction ts us rule: zip_intersect.induct) auto

lemma buckets_elems_zip:
  assumes "length ts = length us"
  shows "buckets_elems (zip_intersect ts us) = buckets_elems ts \<inter> buckets_elems us"
proof -
  note len = zip_intersect_length [of ts us]
  have nth: "i < length ts \<Longrightarrow> zip_intersect ts us ! i = tinyset_intersect (ts ! i) (us ! i)" for i
    using assms by (induction ts us arbitrary: i rule: zip_intersect.induct) (auto simp: nth_Cons split: nat.split)
  show ?thesis
    using assms by (auto simp: buckets_elems_def len nth bit_laws)
qed

section \<open>The mutable bitset implements a bounded set\<close>

definition bitset_elems :: "bitset \<Rightarrow> nat set" where
  "bitset_elems b = buckets_elems (bs_tinysets b)"

text \<open>
  The invariant: as many buckets as the capacity needs, no element at or above the capacity (the
  padding of the last bucket is clear), the cached cardinality is right.
\<close>

definition bitset_inv :: "bitset \<Rightarrow> bool" where
  "bitset_inv b \<longleftrightarrow>
     length (bs_tinysets b) = num_buckets (bs_max_value b) \<and>
     bitset_elems b \<subseteq> {..<bs_max_value b} \<and>
     bs_len b = card (bitset_elems b) \<and>
     bs_max_value b < 2 ^ 32"

lemma num_buckets_alt: "num_buckets m = m div 64 + (if m mod 64 = 0 then 0 else 1)"
proof -
  have "(m mod 64 + 63) div 64 = (if m mod 64 = 0 then 0 else 1)"
  proof (cases "m mod 64 = 0")
    case False
    have "m mod 64 < 64" by simp
    with False have "(m mod 64 + 63) div 64 = 1"
      by (intro div_nat_eqI) auto
    with False show ?thesis by simp
  qed simp
  then show ?thesis
    by (simp add: num_buckets_def div_add1_eq [of m 63 64])
qed

lemma bucket_in_range: "el < m \<Longrightarrow> el div 64 < num_buckets m"
  unfolding num_buckets_alt by (auto simp: less_Suc_eq_le div_le_mono dest: less_imp_le intro: ccontr)

lemma div_mod_less_iff: "x < m \<longleftrightarrow> x div k < m div k \<or> x div k = m div k \<and> x mod k < m mod k"
  for x m k :: nat
  by (metis div_le_mono div_mult_mod_eq leD le_neq_implies_less less_imp_le_nat linorder_neqE_nat
      nat_add_left_cancel_less)

lemma finite_bitset_elems [simp]: "finite (bitset_elems b)"
  by (simp add: bitset_elems_def)

lemma buckets_elems_update:
  assumes "el div 64 < length ts"
  shows "buckets_elems (ts[el div 64 := tinyset_insert (ts ! (el div 64)) (el mod 64)]) =
           insert el (buckets_elems ts)"
    and "buckets_elems (ts[el div 64 := tinyset_remove (ts ! (el div 64)) (el mod 64)]) =
           buckets_elems ts - {el}"
proof -
  have eq: "x = el \<longleftrightarrow> x mod 64 = el mod 64" if "x div 64 = el div 64" for x
    using that by (metis div_mult_mod_eq)
  have ne: "x \<noteq> el" if "x div 64 \<noteq> el div 64" for x
    using that by blast
  show "buckets_elems (ts[el div 64 := tinyset_insert (ts ! (el div 64)) (el mod 64)]) =
           insert el (buckets_elems ts)" (is "?L = ?R")
  proof (rule set_eqI)
    show "x \<in> ?L \<longleftrightarrow> x \<in> ?R" for x
      using assms eq [of x] ne [of x]
      by (cases "x div 64 = el div 64") (simp_all add: buckets_elems_def bit_laws)
  qed
  show "buckets_elems (ts[el div 64 := tinyset_remove (ts ! (el div 64)) (el mod 64)]) =
           buckets_elems ts - {el}" (is "?L = ?R")
  proof (rule set_eqI)
    show "x \<in> ?L \<longleftrightarrow> x \<in> ?R" for x
      using assms eq [of x] ne [of x]
      by (cases "x div 64 = el div 64") (simp_all add: buckets_elems_def bit_laws)
  qed
qed

lemma bitset_insert_correct:
  assumes "bitset_inv b" "el < bs_max_value b"
  shows "\<exists>b'. bitset_insert b el = Some (el \<notin> bitset_elems b, b') \<and> bitset_inv b' \<and>
              bitset_elems b' = insert el (bitset_elems b) \<and> bs_max_value b' = bs_max_value b"
proof -
  let ?t = "bs_tinysets b ! (el div 64)"
  have r: "el div 64 < length (bs_tinysets b)"
    using assms bucket_in_range by (simp add: bitset_inv_def)
  have mut: "tinyset_insert_mut ?t (el mod 64) = (el \<notin> bitset_elems b, tinyset_insert ?t (el mod 64))"
    using insert_mut_iff [of "el mod 64" ?t] r
    by (simp add: prod_eq_iff bitset_elems_def buckets_elems_def)
  show ?thesis
    using assms r
    by (auto simp: bitset_insert_def Let_def mut bitset_inv_def bitset_elems_def
        buckets_elems_update card_insert_if insert_absorb)
qed

lemma bitset_remove_correct:
  assumes "bitset_inv b" "el < bs_max_value b"
  shows "\<exists>b'. bitset_remove b el = Some b' \<and> bitset_inv b' \<and>
              bitset_elems b' = bitset_elems b - {el} \<and> bs_max_value b' = bs_max_value b"
proof -
  let ?t = "bs_tinysets b ! (el div 64)"
  have r: "el div 64 < length (bs_tinysets b)"
    using assms bucket_in_range by (simp add: bitset_inv_def)
  have mut: "tinyset_remove_mut ?t (el mod 64) = (el \<in> bitset_elems b, tinyset_remove ?t (el mod 64))"
    using remove_mut_iff [of "el mod 64" ?t] r
    by (simp add: prod_eq_iff bitset_elems_def buckets_elems_def)
  show ?thesis
    using assms r
    by (auto simp: bitset_remove_def Let_def mut bitset_inv_def bitset_elems_def
        buckets_elems_update card_Diff_singleton_if)
qed

lemma bitset_contains_correct:
  assumes "bitset_inv b" "el < bs_max_value b"
  shows "bitset_contains b el = Some (el \<in> bitset_elems b)"
  using assms bucket_in_range [of el "bs_max_value b"]
  by (simp add: bitset_contains_def bitset_tinyset_def bitset_inv_def bitset_elems_def
      buckets_elems_def contains_iff)

lemma bitset_with_max_value_correct:
  assumes "m < 2 ^ 32"
  shows "bitset_inv (bitset_with_max_value m)" "bitset_elems (bitset_with_max_value m) = {}"
  using assms by (simp_all add: bitset_inv_def bitset_with_max_value_def bitset_elems_def)

lemma bitset_full_elems: "bitset_elems (bitset_with_max_value_and_full m) = {..<m}"
proof (rule set_eqI)
  fix x
  let ?ts = "bs_tinysets (bitset_with_max_value_and_full m)"
  have len: "length ?ts = num_buckets m"
    by (simp add: bitset_with_max_value_and_full_def Let_def)
  have nth: "?ts ! i = (if m mod 64 \<noteq> 0 \<and> i = num_buckets m - 1 then tinyset_range_lower (m mod 64)
                        else tinyset_full)" if "i < num_buckets m" for i
    using that by (auto simp: bitset_with_max_value_and_full_def Let_def nth_list_update)
  show "x \<in> bitset_elems (bitset_with_max_value_and_full m) \<longleftrightarrow> x \<in> {..<m}"
  proof (cases "x div 64 < num_buckets m")
    case True
    show ?thesis
    proof (cases "m mod 64 \<noteq> 0 \<and> x div 64 = num_buckets m - 1")
      case True
      then have "x div 64 = m div 64" by (simp add: num_buckets_alt)
      moreover from this have "x < m \<longleftrightarrow> x mod 64 < m mod 64"
        by (simp add: div_mod_less_iff [of x m 64])
      ultimately show ?thesis
        using True \<open>x div 64 < num_buckets m\<close>
        by (simp add: bitset_elems_def buckets_elems_def len nth bit_laws)
    next
      case False
      have "x < m" using False True
        by (auto simp: num_buckets_alt div_mod_less_iff [of x m 64] split: if_splits)
      moreover have "?ts ! (x div 64) = tinyset_full"
        using nth [OF True] False by auto
      ultimately show ?thesis
        using True by (simp add: bitset_elems_def buckets_elems_def len bit_laws)
    qed
  next
    case False
    then have "\<not> x < m" using bucket_in_range by blast
    with False show ?thesis by (simp add: bitset_elems_def buckets_elems_def len)
  qed
qed

lemma bitset_full_correct:
  assumes "m < 2 ^ 32"
  shows "bitset_inv (bitset_with_max_value_and_full m)"
proof -
  have "bs_len (bitset_with_max_value_and_full m) = card (bitset_elems (bitset_with_max_value_and_full m))"
    unfolding bitset_full_elems by (simp add: bitset_with_max_value_and_full_def Let_def)
  then show ?thesis
    using assms bitset_full_elems [of m]
    by (simp add: bitset_inv_def bitset_with_max_value_and_full_def Let_def)
qed

text \<open>
  The interface the rest of the program sees: a set of numbers below a capacity, with checked
  membership. The clients fill a set from a list of documents and delete a list of documents.
\<close>

locale bounded_set =
  fixes elems :: "'s \<Rightarrow> nat set"
    and invar :: "'s \<Rightarrow> bool"
    and cap :: "'s \<Rightarrow> nat"
    and size_of :: "'s \<Rightarrow> nat"
    and ins :: "'s \<Rightarrow> nat \<Rightarrow> (bool \<times> 's) option"
    and del :: "'s \<Rightarrow> nat \<Rightarrow> 's option"
    and isin :: "'s \<Rightarrow> nat \<Rightarrow> bool option"
  assumes ins: "invar s \<Longrightarrow> x < cap s \<Longrightarrow>
      \<exists>s'. ins s x = Some (x \<notin> elems s, s') \<and> invar s' \<and> elems s' = insert x (elems s) \<and> cap s' = cap s"
    and del: "invar s \<Longrightarrow> x < cap s \<Longrightarrow>
      \<exists>s'. del s x = Some s' \<and> invar s' \<and> elems s' = elems s - {x} \<and> cap s' = cap s"
    and isin: "invar s \<Longrightarrow> x < cap s \<Longrightarrow> isin s x = Some (x \<in> elems s)"
    and size_of: "invar s \<Longrightarrow> size_of s = card (elems s)"
begin

lemma ins_all:
  assumes "invar s" "\<forall>x\<in>set xs. x < cap s"
  shows "\<exists>s'. foldl (\<lambda>acc x. acc \<bind> (\<lambda>a. map_option snd (ins a x))) (Some s) xs = Some s' \<and>
              invar s' \<and> elems s' = elems s \<union> set xs \<and> cap s' = cap s"
  using assms
proof (induction xs arbitrary: s)
  case (Cons x xs)
  obtain s' where s': "ins s x = Some (x \<notin> elems s, s')" "invar s'"
      "elems s' = insert x (elems s)" "cap s' = cap s"
    using ins [of s x] Cons.prems by auto
  then show ?case
    using Cons.IH [of s'] Cons.prems by auto
qed simp

lemma del_all:
  assumes "invar s" "\<forall>x\<in>set xs. x < cap s"
  shows "\<exists>s'. foldl (\<lambda>acc x. acc \<bind> (\<lambda>a. del a x)) (Some s) xs = Some s' \<and>
              invar s' \<and> elems s' = elems s - set xs \<and> cap s' = cap s"
  using assms
proof (induction xs arbitrary: s)
  case (Cons x xs)
  obtain s' where s': "del s x = Some s'" "invar s'" "elems s' = elems s - {x}" "cap s' = cap s"
    using del [of s x] Cons.prems by auto
  then show ?case
    using Cons.IH [of s'] Cons.prems by auto
qed simp

end

interpretation bs: bounded_set bitset_elems bitset_inv bs_max_value bs_len
  bitset_insert bitset_remove bitset_contains
proof unfold_locales
  show "bs_len s = card (bitset_elems s)" if "bitset_inv s" for s
    using that by (simp add: bitset_inv_def)
qed (fact bitset_insert_correct bitset_remove_correct bitset_contains_correct)+

section \<open>The serialized bitset\<close>

definition ro_elems :: "ro_bitset \<Rightarrow> nat set" where
  "ro_elems r = buckets_elems (ro_iter_tinysets r)"

definition ro_inv :: "ro_bitset \<Rightarrow> bool" where
  "ro_inv r \<longleftrightarrow> length (ro_data r) = 8 * num_buckets (ro_max_value r) \<and> ro_elems r \<subseteq> {..<ro_max_value r}"

lemma chunks_concat:
  assumes "n > 0" "\<forall>x\<in>set xss. length x = n"
  shows "chunks n (concat xss) = xss"
  using assms(2)
proof (induction xss)
  case Nil
  then show ?case using assms(1) by (simp add: chunks.simps)
next
  case (Cons x xss)
  then show ?case
    using assms(1) by (subst chunks.simps) simp
qed

lemma concat_chunks: "n > 0 \<Longrightarrow> length xs mod n = 0 \<Longrightarrow> concat (chunks n xs) = xs"
proof (induction n xs rule: chunks.induct)
  case (1 n xs)
  show ?case
  proof (cases "length xs < n")
    case True
    then show ?thesis using 1 by (subst chunks.simps) simp
  next
    case False
    then have "length (drop n xs) mod n = 0"
      using "1.prems" by (simp add: le_mod_geq)
    then show ?thesis
      using "1.IH" "1.prems" False by (subst chunks.simps) simp
  qed
qed

lemma chunks_length: "n > 0 \<Longrightarrow> c \<in> set (chunks n xs) \<Longrightarrow> length c = n"
proof (induction n xs rule: chunks.induct)
  case (1 n xs)
  then show ?case
    by (subst (asm) chunks.simps) (auto split: if_splits)
qed

lemma length_chunks: "n > 0 \<Longrightarrow> length (chunks n xs) = length xs div n"
proof (induction n xs rule: chunks.induct)
  case (1 n xs)
  then show ?case
    by (subst chunks.simps) (auto simp: le_div_geq)
qed

lemma into_bytes_deserialize: "length c = 8 \<Longrightarrow> tinyset_into_bytes (tinyset_deserialize c) = c"
  unfolding tinyset_into_bytes_def tinyset_deserialize_def u64_to_le_bytes_def
  by (simp add: unat_u64_from_le_bytes le_simps)

lemma ro_data_tinysets:
  assumes "length (ro_data r) mod 8 = 0"
  shows "ro_data r = concat (map tinyset_into_bytes (ro_iter_tinysets r))"
proof -
  have "map tinyset_into_bytes (ro_iter_tinysets r) = chunks 8 (ro_data r)"
    unfolding ro_iter_tinysets_def map_map
    by (rule map_idI) (simp add: into_bytes_deserialize chunks_length)
  then show ?thesis
    using assms by (simp add: concat_chunks)
qed

lemma length_ro_iter_tinysets: "length (ro_iter_tinysets r) = length (ro_data r) div 8"
  by (simp add: ro_iter_tinysets_def length_chunks)

lemma bit_tinyset_byte:
  assumes "i < 8" "j < 8"
  shows "bit (tinyset_into_bytes t ! i) j \<longleftrightarrow> bit t (8 * i + j)"
proof -
  have "tinyset_into_bytes t ! i = word_of_nat (unat t div 256 ^ i mod 256)"
    using assms by (simp add: tinyset_into_bytes_def u64_to_le_bytes_def nth_le_bytes)
  also have "bit \<dots> j \<longleftrightarrow> bit (unat t div 256 ^ i) j"
    using assms by (simp add: bit_of_nat_iff bit_take_bit_iff
        take_bit_eq_mod [of 8, simplified, symmetric])
  also have "\<dots> \<longleftrightarrow> bit t (8 * i + j)"
  proof -
    have "unat t div 256 ^ i = drop_bit (8 * i) (unat t)"
      by (simp add: drop_bit_eq_div power_mult)
    then show ?thesis by (simp add: bit_drop_bit_eq bit_unsigned_iff)
  qed
  finally show ?thesis .
qed

lemma ro_contains_correct:
  assumes "ro_inv r" "el < 64 * num_buckets (ro_max_value r)"
  shows "ro_contains r el = Some (el \<in> ro_elems r)"
proof -
  let ?ts = "ro_iter_tinysets r"
  have len: "length ?ts = num_buckets (ro_max_value r)"
    using assms(1) by (simp add: length_ro_iter_tinysets ro_inv_def)
  have range: "el div 64 < length ?ts"
    using assms(2) len by (simp add: less_mult_imp_div_less mult.commute)
  have eq: "el div 8 div 8 = el div 64" by (simp add: div_mult2_eq [symmetric])
  have "ro_data r ! (el div 8) = concat (map tinyset_into_bytes ?ts) ! (el div 8)"
    using ro_data_tinysets [of r] assms(1) by (simp add: ro_inv_def)
  also have "\<dots> = tinyset_into_bytes (?ts ! (el div 64)) ! (el div 8 mod 8)"
    using range eq by (subst nth_concat_uniform [where n = 8])
      (auto simp: tinyset_into_bytes_def)
  finally have byte: "ro_data r ! (el div 8) = \<dots>" .
  have off: "8 * (el div 8 mod 8) + el mod 8 = el mod 64"
    using mod_mult2_eq [of el 8 8] by simp
  have "(ro_data r ! (el div 8)) AND push_bit (el mod 8) 1 \<noteq> 0 \<longleftrightarrow> bit (ro_data r ! (el div 8)) (el mod 8)"
    by (simp add: and_exp_eq_0_iff_not_bit push_bit_eq_mult)
  also have "\<dots> \<longleftrightarrow> el \<in> ro_elems r"
    using range bit_tinyset_byte [of "el div 8 mod 8" "el mod 8" "?ts ! (el div 64)"] off
    by (simp add: byte ro_elems_def buckets_elems_def tinyset_elems_def)
  finally show ?thesis
    using assms range len
    by (simp add: ro_contains_def ro_inv_def less_mult_imp_div_less)
qed

lemma ro_len_correct: "ro_len r = card (ro_elems r)"
  by (simp add: ro_len_def ro_elems_def card_buckets_elems)

lemma sorted_shifted_iter: "sorted_wrt (<) (map (\<lambda>val. val + k) (tinyset_iter t))"
  by (simp add: tinyset_iter_sorted_list sorted_wrt_map)

lemma set_tinyset_iter [simp]: "set (tinyset_iter t) = tinyset_elems t"
  by (simp add: tinyset_iter_sorted_list)

lemma concat_enumerate_iter:
  "sorted_wrt (<) (concat (map (\<lambda>(n, t). map (\<lambda>val. val + n * 64) (tinyset_iter t)) (enumerate 0 ts)))
   \<and> set (concat (map (\<lambda>(n, t). map (\<lambda>val. val + n * 64) (tinyset_iter t)) (enumerate 0 ts))) = buckets_elems ts"
proof (induction ts rule: rev_induct)
  case (snoc t ts)
  have "enumerate 0 (ts @ [t]) = enumerate 0 ts @ [(length ts, t)]"
    by (simp add: enumerate_append_eq)
  then show ?case
    using snoc
    by (auto simp: sorted_wrt_append sorted_shifted_iter buckets_elems_snoc dest!: buckets_elems_less)
qed simp

lemma ro_iter_correct:
  assumes "ro_inv r"
  shows "ro_iter r = sorted_list_of_set (ro_elems r)"
proof -
  let ?f = "\<lambda>(n, t). map (\<lambda>val. val + n * 64) (tinyset_iter t)"
  let ?ts = "ro_iter_tinysets r"
  have all: "\<forall>(n, t)\<in>set (enumerate 0 ?ts). \<forall>x\<in>set (?f (n, t)). x < ro_max_value r"
  proof -
    have "set (concat (map ?f (enumerate 0 ?ts))) \<subseteq> {..<ro_max_value r}"
      using concat_enumerate_iter [of ?ts] assms by (simp add: ro_inv_def ro_elems_def)
    then show ?thesis by fastforce
  qed
  have "ro_iter r = concat (map ?f (enumerate 0 ?ts))"
    unfolding ro_iter_def
    by (rule arg_cong [where f = concat], rule map_cong [OF refl])
      (use all in \<open>fastforce simp: takeWhile_eq_all_conv\<close>)
  also have "\<dots> = sorted_list_of_set (ro_elems r)"
    using concat_enumerate_iter [of ?ts] unfolding ro_elems_def
    by (intro sorted_distinct_set_unique [symmetric])
      (auto simp: strict_sorted_iff)
  finally show ?thesis .
qed

lemma ro_from_bitset_correct:
  assumes "bitset_inv b"
  shows "\<exists>r. ro_from_bitset b = Some r \<and> ro_inv r \<and> ro_elems r = bitset_elems b \<and>
             ro_max_value r = bs_max_value b"
proof -
  let ?body = "concat (map tinyset_into_bytes (bs_tinysets b))"
  let ?r = "\<lparr>ro_data = ?body, ro_max_value = bs_max_value b\<rparr>"
  have len: "length ?body = 8 * length (bs_tinysets b)"
    by (subst concat_length_uniform [where n = 8]) (auto simp: tinyset_into_bytes_def)
  have mv: "le_nat (le_bytes 4 (bs_max_value b)) = bs_max_value b"
    using assms by (intro le_nat_le_bytes_id) (simp add: bitset_inv_def)
  have opened: "ro_from_bitset b = Some ?r"
    by (simp add: ro_from_bitset_def ro_open_def bitset_serialize_def len mv)
  have "chunks 8 ?body = map tinyset_into_bytes (bs_tinysets b)"
    by (rule chunks_concat) (auto simp: tinyset_into_bytes_def)
  then have "ro_iter_tinysets ?r = bs_tinysets b"
    by (simp add: ro_iter_tinysets_def comp_def)
  then have "ro_elems ?r = bitset_elems b"
    by (simp add: ro_elems_def bitset_elems_def)
  with opened show ?thesis
    using assms len by (auto simp: ro_inv_def bitset_inv_def)
qed

lemma intersect_bitsets_correct:
  assumes "ro_inv l" "ro_inv r" "ro_max_value l = ro_max_value r"
  shows "\<exists>b. intersect_bitsets l r = Some b \<and> ro_inv b \<and> ro_elems b = ro_elems l \<inter> ro_elems r \<and>
             ro_max_value b = ro_max_value l"
proof -
  let ?ts = "zip_intersect (ro_iter_tinysets l) (ro_iter_tinysets r)"
  have len: "length (ro_iter_tinysets l) = num_buckets (ro_max_value l)"
      "length (ro_iter_tinysets r) = length (ro_iter_tinysets l)"
    using assms by (simp_all add: length_ro_iter_tinysets ro_inv_def)
  have zip: "map (\<lambda>(l, r). tinyset_into_bytes (tinyset_intersect l r)) (zip ls rs) =
             map tinyset_into_bytes (zip_intersect ls rs)" if "length ls = length rs" for ls rs
    using that by (induction ls rs rule: zip_intersect.induct) auto
  let ?b = "\<lparr>ro_data = concat (map tinyset_into_bytes ?ts), ro_max_value = ro_max_value l\<rparr>"
  have "chunks 8 (ro_data ?b) = map tinyset_into_bytes ?ts"
    by (simp, rule chunks_concat) (auto simp: tinyset_into_bytes_def)
  then have ts: "ro_iter_tinysets ?b = ?ts"
    by (simp add: ro_iter_tinysets_def comp_def)
  have tslen: "length ?ts = length (ro_iter_tinysets l)" for ls rs
    by (rule zip_intersect_length)
  have elems: "ro_elems ?b = ro_elems l \<inter> ro_elems r"
    using len by (simp add: ro_elems_def ts buckets_elems_zip)
  have "length (ro_data ?b) = 8 * num_buckets (ro_max_value l)"
    using len tslen by (simp, subst concat_length_uniform [where n = 8]) (auto simp: tinyset_into_bytes_def)
  moreover have "intersect_bitsets l r = Some ?b"
    using assms len by (simp add: intersect_bitsets_def ro_inv_def zip)
  ultimately show ?thesis
    using assms elems by (auto simp: ro_inv_def)
qed

section \<open>Properties\<close>

datatype bitset_op = Insert nat | Remove nat

fun bitset_exec :: "bitset_op \<Rightarrow> bitset \<Rightarrow> bitset option" where
  "bitset_exec (Insert el) b = map_option snd (bitset_insert b el)"
| "bitset_exec (Remove el) b = bitset_remove b el"

fun bitset_run :: "bitset_op list \<Rightarrow> bitset \<Rightarrow> bitset option" where
  "bitset_run [] b = Some b"
| "bitset_run (x # xs) b = bitset_exec x b \<bind> bitset_run xs"

fun set_exec :: "bitset_op \<Rightarrow> nat set \<Rightarrow> nat set" where
  "set_exec (Insert el) S = insert el S"
| "set_exec (Remove el) S = S - {el}"

fun op_in_range :: "nat \<Rightarrow> bitset_op \<Rightarrow> bool" where
  "op_in_range m (Insert el) = (el < m)"
| "op_in_range m (Remove el) = (el < m)"

lemma bitset_exec_correct:
  assumes "bitset_inv b" "op_in_range (bs_max_value b) x"
  shows "\<exists>b'. bitset_exec x b = Some b' \<and> bitset_inv b' \<and>
              bitset_elems b' = set_exec x (bitset_elems b) \<and> bs_max_value b' = bs_max_value b"
  using assms bs.ins [of b] bs.del [of b] by (cases x) fastforce+

lemma bitset_run_correct:
  assumes "bitset_inv b" "\<forall>x\<in>set xs. op_in_range (bs_max_value b) x"
  shows "\<exists>b'. bitset_run xs b = Some b' \<and> bitset_inv b' \<and>
              bitset_elems b' = fold set_exec xs (bitset_elems b) \<and> bs_max_value b' = bs_max_value b"
  using assms
proof (induction xs arbitrary: b)
  case (Cons x xs)
  obtain b' where "bitset_exec x b = Some b'" "bitset_inv b'"
      "bitset_elems b' = set_exec x (bitset_elems b)" "bs_max_value b' = bs_max_value b"
    using bitset_exec_correct [of b x] Cons.prems by auto
  then show ?case using Cons.IH [of b'] Cons.prems by auto
qed simp

text \<open>
  Property C19. A \<open>BitSet\<close> created with a capacity, after any sequence of in-range insertions and
  removals, holds exactly the set the sequence builds: no operation panics, \<open>contains\<close> decides
  membership, \<open>len\<close> is the cardinality, and the iterator of its read-only form lists the set in
  ascending order.
\<close>

theorem bitset_refines_set:
  assumes "m < 2 ^ 32" and "\<forall>x\<in>set ops. op_in_range m x"
  shows "\<exists>b. bitset_run ops (bitset_with_max_value m) = Some b \<and>
             (\<forall>el < m. bitset_contains b el = Some (el \<in> fold set_exec ops {})) \<and>
             bs_len b = card (fold set_exec ops {}) \<and>
             (\<exists>r. ro_from_bitset b = Some r \<and> ro_iter r = sorted_list_of_set (fold set_exec ops {}))"
proof -
  have "bs_max_value (bitset_with_max_value m) = m"
    by (simp add: bitset_with_max_value_def)
  then obtain b where b: "bitset_run ops (bitset_with_max_value m) = Some b" "bitset_inv b"
      "bitset_elems b = fold set_exec ops {}" "bs_max_value b = m"
    using bitset_run_correct [of "bitset_with_max_value m" ops] bitset_with_max_value_correct assms
    by auto
  obtain r where "ro_from_bitset b = Some r" "ro_iter r = sorted_list_of_set (fold set_exec ops {})"
    using ro_from_bitset_correct [OF b(2)] ro_iter_correct b(3) by auto
  then show ?thesis
    using b bs.isin bs.size_of by (intro exI [of _ b]) auto
qed

theorem bitset_refines_set_witness:
  "\<exists>b. bitset_run [Insert 3, Insert 70, Remove 3] (bitset_with_max_value 100) = Some b \<and>
       bitset_contains b 70 = Some True \<and> bitset_contains b 3 = Some False \<and> bs_len b = 1 \<and>
       map_option ro_iter (ro_from_bitset b) = Some [70]"
proof -
  have eq: "fold set_exec [Insert 3, Insert 70, Remove 3] {} = {70}" by auto
  show ?thesis
    using bitset_refines_set [of 100 "[Insert 3, Insert 70, Remove 3]"] unfolding eq by fastforce
qed

text \<open>
  Property C20. Writing the alive bitset of a segment and opening it again gives the same set: every
  document below the capacity is alive exactly when it was in the bitset, the iterator lists the
  alive documents in ascending order, and the number of alive documents is the cached length.
\<close>

theorem alive_bitset_roundtrip:
  assumes "bitset_inv b"
  shows "\<exists>a. alive_open (write_alive_bitset b) = Some a \<and>
             ab_num_alive_docs a = bs_len b \<and>
             (\<forall>doc < bs_max_value b. is_alive a doc = Some (doc \<in> bitset_elems b)) \<and>
             iter_alive a = sorted_list_of_set (bitset_elems b)"
proof -
  obtain r where r: "ro_open (bitset_serialize b) = Some r" "ro_inv r" "ro_elems r = bitset_elems b"
      "ro_max_value r = bs_max_value b"
    using ro_from_bitset_correct [OF assms] by (auto simp: ro_from_bitset_def)
  have contains: "ro_contains r doc = Some (doc \<in> bitset_elems b)" if "doc < bs_max_value b" for doc
    using ro_contains_correct [OF r(2), of doc] r that bucket_in_range [OF that]
    by (simp add: div_less_iff_less_mult mult.commute)
  show ?thesis
    using assms r contains
    by (simp add: alive_open_def write_alive_bitset_def alive_from_def is_alive_def iter_alive_def
        ro_len_correct ro_iter_correct bitset_inv_def)
qed

theorem alive_bitset_roundtrip_witness:
  "\<exists>a. alive_open (write_alive_bitset (bitset_with_max_value_and_full 5)) = Some a \<and>
       is_alive a 4 = Some True"
  using alive_bitset_roundtrip [OF bitset_full_correct [of 5]] bitset_full_elems [of 5]
  by (auto simp: bitset_with_max_value_and_full_def Let_def)

text \<open>
  Property C21. Intersecting the alive sets of two views of a segment keeps exactly the documents alive
  in both, with the right count, and panics only when the capacities differ.
\<close>

theorem intersect_alive_bitsets_correct:
  assumes "ro_inv (ab_bitset l)" and "ro_inv (ab_bitset r)"
  shows "case intersect_alive_bitsets l r of
           None \<Rightarrow> ro_max_value (ab_bitset l) \<noteq> ro_max_value (ab_bitset r)
         | Some a \<Rightarrow> iter_alive a = sorted_list_of_set (set (iter_alive l) \<inter> set (iter_alive r)) \<and>
                     ab_num_alive_docs a = length (iter_alive a)"
proof (cases "ro_max_value (ab_bitset l) = ro_max_value (ab_bitset r)")
  case True
  obtain b where "intersect_bitsets (ab_bitset l) (ab_bitset r) = Some b" "ro_inv b"
      "ro_elems b = ro_elems (ab_bitset l) \<inter> ro_elems (ab_bitset r)"
    using intersect_bitsets_correct [OF assms True] by blast
  moreover have "finite (ro_elems x)" for x by (simp add: ro_elems_def)
  ultimately show ?thesis
    using assms True
    by (simp add: intersect_alive_bitsets_def iter_alive_def ro_iter_correct ro_len_correct)
qed (simp add: intersect_alive_bitsets_def)

theorem intersect_alive_bitsets_correct_witness:
  "let r = \<lparr>ro_data = [3, 0, 0, 0, 0, 0, 0, 0], ro_max_value = 10\<rparr>;
       s = \<lparr>ro_data = [6, 0, 0, 0, 0, 0, 0, 0], ro_max_value = 10\<rparr>
   in (case intersect_alive_bitsets (alive_from r) (alive_from s) of
         None \<Rightarrow> False | Some a \<Rightarrow> ab_num_alive_docs a = length (iter_alive a))"
proof -
  let ?r = "\<lparr>ro_data = [3, 0, 0, 0, 0, 0, 0, 0], ro_max_value = 10\<rparr>"
  let ?s = "\<lparr>ro_data = [6, 0, 0, 0, 0, 0, 0, 0], ro_max_value = 10\<rparr>"
  have inv: "ro_inv \<lparr>ro_data = [b, 0, 0, 0, 0, 0, 0, 0], ro_max_value = 10\<rparr>" if "b < 8" for b
  proof -
    let ?x = "\<lparr>ro_data = [b, 0, 0, 0, 0, 0, 0, 0], ro_max_value = 10\<rparr>"
    have "ro_iter_tinysets ?x = [word_of_nat (unat b)]"
      by (simp add: ro_iter_tinysets_def chunks.simps tinyset_deserialize_def u64_from_le_bytes_def)
    moreover have "i < 10" if "bit (word_of_nat (unat b) :: u64) i" for i
    proof -
      have "bit b i" using that by (simp add: bit_of_nat_iff bit_unsigned_iff)
      then show ?thesis using bit_imp_le_length [of b i] by simp
    qed
    ultimately show ?thesis
      by (auto simp: ro_inv_def num_buckets_def ro_elems_def buckets_elems_def tinyset_elems_def)
  qed
  show ?thesis
    using intersect_alive_bitsets_correct [of "alive_from ?r" "alive_from ?s"] inv [of 3] inv [of 6]
    by (simp add: alive_from_def split: option.splits)
qed

text \<open>
  Property C36. \<open>BitSet::clear\<close> removes every element but leaves the cached length: on any non-empty
  bitset the result reports the old, wrong cardinality and is outside the invariant.
\<close>

theorem bitset_clear_keeps_len:
  assumes "bitset_inv b" and "bitset_elems b \<noteq> {}"
  shows "bitset_elems (bitset_clear b) = {} \<and> bs_len (bitset_clear b) = card (bitset_elems b) \<and>
         \<not> bitset_inv (bitset_clear b)"
proof -
  have empty: "bitset_elems (bitset_clear b) = {}"
    by (simp add: bitset_elems_def bitset_clear_def map_replicate_const)
  have len: "bs_len (bitset_clear b) = card (bitset_elems b)"
    using assms(1) by (simp add: bitset_clear_def bitset_inv_def)
  have "card (bitset_elems b) \<noteq> 0" using assms(2) by simp
  then show ?thesis
    using empty len by (simp add: bitset_inv_def)
qed

theorem bitset_clear_keeps_len_witness:
  "bitset_elems (bitset_clear (bitset_with_max_value_and_full 5)) = {} \<and>
   bs_len (bitset_clear (bitset_with_max_value_and_full 5)) = 5"
proof -
  have "bitset_elems (bitset_with_max_value_and_full 5) \<noteq> {}"
    unfolding bitset_full_elems lessThan_empty_iff by simp
  from bitset_clear_keeps_len [OF bitset_full_correct this] show ?thesis
    by (simp add: bitset_full_elems)
qed

end
