(* ===== verification/DocSet.thy ===== *)
theory DocSet
  imports BitSet
begin

text \<open>
  The \<open>DocSet\<close> trait of \<^verbatim>\<open>src/docset.rs\<close>: the interface every query is evaluated through. A document
  set is a state with a record of operations; each operation that can panic or loop is
  option-valued and returns the document id the source returns together with the new state. The
  provided methods of the trait are definitions over the record. The contract of the trait is a
  chain of locales (iterate, seek, seek with danger) whose laws describe the documents that remain.
  The simple document sets (\<^verbatim>\<open>vec_docset.rs\<close>, \<^verbatim>\<open>all_query.rs\<close>, \<^verbatim>\<open>empty_query.rs\<close>) interpret it.
\<close>

section \<open>The trait\<close>

definition TERMINATED :: nat where
  "TERMINATED = 2147483647"

definition COLLECT_BLOCK_BUFFER_LEN :: nat where
  "COLLECT_BLOCK_BUFFER_LEN = 64"

definition BLOCK_NUM_TINYBITSETS :: nat where
  "BLOCK_NUM_TINYBITSETS = 16"

definition BLOCK_WINDOW :: nat where
  "BLOCK_WINDOW = BLOCK_NUM_TINYBITSETS * 64"

datatype seek_danger_result = Found | SeekLowerBound nat

record 's docset_ops =
  ds_doc :: "'s \<Rightarrow> nat"
  ds_advance :: "'s \<Rightarrow> (nat \<times> 's) option"
  ds_seek :: "nat \<Rightarrow> 's \<Rightarrow> (nat \<times> 's) option"
  ds_seek_danger :: "nat \<Rightarrow> 's \<Rightarrow> (seek_danger_result \<times> 's) option"
  ds_size_hint :: "'s \<Rightarrow> nat"
  ds_cost :: "'s \<Rightarrow> nat"

text \<open>The provided methods. The loop of \<open>seek\<close> carries the document last returned.\<close>

partial_function (option) seek_loop ::
  "('s \<Rightarrow> (nat \<times> 's) option) \<Rightarrow> nat \<Rightarrow> nat \<Rightarrow> 's \<Rightarrow> (nat \<times> 's) option" where
  "seek_loop advance target doc s =
     (if doc < target then advance s \<bind> (\<lambda>(doc', s'). seek_loop advance target doc' s')
      else Some (doc, s))"

definition default_seek ::
  "('s \<Rightarrow> nat) \<Rightarrow> ('s \<Rightarrow> (nat \<times> 's) option) \<Rightarrow> nat \<Rightarrow> 's \<Rightarrow> (nat \<times> 's) option" where
  "default_seek doc advance target s = seek_loop advance target (doc s) s"

definition default_seek_danger ::
  "('s \<Rightarrow> nat) \<Rightarrow> (nat \<Rightarrow> 's \<Rightarrow> (nat \<times> 's) option) \<Rightarrow> nat \<Rightarrow> 's \<Rightarrow> (seek_danger_result \<times> 's) option" where
  "default_seek_danger doc seek target s =
     (if target \<ge> TERMINATED then Some (SeekLowerBound target, s)
      else (if doc s < target then seek target s else Some (doc s, s)) \<bind> (\<lambda>(d, s').
           Some (if d = target then Found else SeekLowerBound d, s')))"

fun fill_buffer_loop :: "'s docset_ops \<Rightarrow> nat \<Rightarrow> 's \<Rightarrow> (nat list \<times> 's) option" where
  "fill_buffer_loop ops 0 s = Some ([], s)"
| "fill_buffer_loop ops (Suc n) s =
     ds_advance ops s \<bind> (\<lambda>(d, s').
       if d = TERMINATED then Some ([ds_doc ops s], s')
       else fill_buffer_loop ops n s' \<bind> (\<lambda>(ds, s''). Some (ds_doc ops s # ds, s'')))"

text \<open>The filled part of the buffer; its length is the returned count.\<close>

definition fill_buffer :: "'s docset_ops \<Rightarrow> 's \<Rightarrow> (nat list \<times> 's) option" where
  "fill_buffer ops s =
     (if ds_doc ops s = TERMINATED then Some ([], s)
      else fill_buffer_loop ops COLLECT_BLOCK_BUFFER_LEN s)"

definition block_insert :: "nat \<Rightarrow> u64 list \<Rightarrow> u64 list" where
  "block_insert delta msk =
     msk[delta div 64 := snd (tinyset_insert_mut (msk ! (delta div 64)) (delta mod 64))]"

partial_function (option) fill_bitset_loop ::
  "'s docset_ops \<Rightarrow> nat \<Rightarrow> u64 list \<Rightarrow> 's \<Rightarrow> (nat \<times> u64 list \<times> 's) option" where
  "fill_bitset_loop ops min_doc msk s =
     (if ds_doc ops s \<ge> min_doc + BLOCK_WINDOW then Some (ds_doc ops s, msk, s)
      else
        (let msk' = block_insert (ds_doc ops s - min_doc) msk
         in ds_advance ops s \<bind> (\<lambda>(d, s').
              if d = TERMINATED then Some (TERMINATED, msk', s')
              else fill_bitset_loop ops min_doc msk' s')))"

definition fill_bitset_block ::
  "'s docset_ops \<Rightarrow> nat \<Rightarrow> u64 list \<Rightarrow> 's \<Rightarrow> (nat \<times> u64 list \<times> 's) option" where
  "fill_bitset_block ops min_doc msk s =
     ds_seek ops min_doc s \<bind> (\<lambda>(_, s'). fill_bitset_loop ops min_doc msk s')"

partial_function (option) count_loop ::
  "'s docset_ops \<Rightarrow> (nat \<Rightarrow> bool option) \<Rightarrow> nat \<Rightarrow> nat \<Rightarrow> 's \<Rightarrow> (nat \<times> 's) option" where
  "count_loop ops counts n doc s =
     (if doc \<noteq> TERMINATED then
        counts doc \<bind> (\<lambda>c. ds_advance ops s \<bind> (\<lambda>(doc', s').
          count_loop ops counts (if c then n + 1 else n) doc' s'))
      else Some (n, s))"

definition ds_count :: "'s docset_ops \<Rightarrow> alive_bitset \<Rightarrow> 's \<Rightarrow> (nat \<times> 's) option" where
  "ds_count ops alive s = count_loop ops (is_alive alive) 0 (ds_doc ops s) s"

definition count_including_deleted :: "'s docset_ops \<Rightarrow> 's \<Rightarrow> (nat \<times> 's) option" where
  "count_including_deleted ops s = count_loop ops (\<lambda>_. Some True) 0 (ds_doc ops s) s"

text \<open>
  \<open>for_each_docset_buffered\<close> of \<^verbatim>\<open>weight.rs\<close>: the slices the callback is called with, in the order of the calls,
  for a document set that keeps the provided \<open>fill_buffer\<close>.
\<close>

partial_function (option) for_each_docset_buffered :: "'s docset_ops \<Rightarrow> 's \<Rightarrow> (nat list list \<times> 's) option" where
  "for_each_docset_buffered ops s =
     fill_buffer ops s \<bind> (\<lambda>(items, s').
       if length items \<noteq> COLLECT_BLOCK_BUFFER_LEN then Some ([items], s')
       else for_each_docset_buffered ops s' \<bind> (\<lambda>(calls, s''). Some (items # calls, s'')))"

section \<open>The contract\<close>

text \<open>The document a set with remaining documents \<open>D\<close> is positioned on.\<close>

definition first_doc :: "nat set \<Rightarrow> nat" where
  "first_doc D = (if D = {} then TERMINATED else Min D)"

text \<open>
  \<open>rep D s\<close>: state \<open>s\<close> is valid and the documents from the current one on are \<open>D\<close>.
  \<open>ready t D s\<close>: \<open>seek_danger\<close> may be called with any target from \<open>t\<close> on, and the documents from
  \<open>t\<close> on are \<open>D\<close>; the state need not be valid for the other operations. A failed \<open>seek_danger\<close>
  leaves the state ready for the same target, which is what every implementation provides and
  what \<open>Exclude::seek\<close> needs; the comment in the trait promises callers only larger targets.
\<close>

locale docset_iter =
  fixes ops :: "'s docset_ops" and rep :: "nat set \<Rightarrow> 's \<Rightarrow> bool"
  assumes rep_bound: "rep D s \<Longrightarrow> D \<subseteq> {..<TERMINATED}"
    and doc_first: "rep D s \<Longrightarrow> ds_doc ops s = first_doc D"
    and advance_law: "rep D s \<Longrightarrow>
      \<exists>s'. ds_advance ops s = Some (ds_doc ops s', s') \<and> rep (D - {first_doc D}) s'"

locale docset_seek = docset_iter +
  assumes seek_law: "rep D s \<Longrightarrow> first_doc D \<le> t \<Longrightarrow> t \<le> TERMINATED \<Longrightarrow>
      \<exists>s'. ds_seek ops t s = Some (ds_doc ops s', s') \<and> rep (D \<inter> {t..}) s'"

text \<open>A bound returned by a failed dangerous seek lies past the target, or is the sentinel.\<close>

definition danger_bound :: "nat \<Rightarrow> nat \<Rightarrow> bool" where
  "danger_bound t b \<longleftrightarrow> (t < b \<or> b = TERMINATED) \<and> b \<le> TERMINATED"

definition danger_result :: "nat \<Rightarrow> nat set \<Rightarrow> seek_danger_result \<Rightarrow> bool" where
  "danger_result t D r \<longleftrightarrow>
     (if t \<in> D then r = Found
      else \<exists>b. r = SeekLowerBound b \<and> danger_bound t b \<and> (\<forall>d\<in>D. b \<le> d))"

locale docset = docset_seek +
  fixes ready :: "nat \<Rightarrow> nat set \<Rightarrow> 's \<Rightarrow> bool"
  assumes ready_bound: "ready t D s \<Longrightarrow> D \<subseteq> {t..<TERMINATED}"
    and ready_mono: "ready t D s \<Longrightarrow> t \<le> u \<Longrightarrow> ready u (D \<inter> {u..}) s"
    and rep_ready: "rep D s \<Longrightarrow> first_doc D \<le> t \<Longrightarrow> ready t (D \<inter> {t..}) s"
    and danger_law: "ready t D s \<Longrightarrow> t \<le> TERMINATED \<Longrightarrow>
      \<exists>r s'. ds_seek_danger ops t s = Some (r, s') \<and> danger_result t D r \<and>
        (if t \<in> D then rep D s' else ready t D s')"

lemma first_doc_le: "d \<in> D \<Longrightarrow> D \<subseteq> {..<TERMINATED} \<Longrightarrow> first_doc D \<le> d"
  by (auto simp: first_doc_def intro: Min_le finite_subset)

lemma first_doc_in: "D \<noteq> {} \<Longrightarrow> D \<subseteq> {..<TERMINATED} \<Longrightarrow> first_doc D \<in> D"
  by (auto simp: first_doc_def intro: Min_in finite_subset)

lemma first_doc_bound: "D \<subseteq> {..<TERMINATED} \<Longrightarrow> first_doc D \<le> TERMINATED"
  using first_doc_in [of D] by (cases "D = {}") (auto simp: first_doc_def)

lemma first_doc_terminated_iff: "D \<subseteq> {..<TERMINATED} \<Longrightarrow> first_doc D = TERMINATED \<longleftrightarrow> D = {}"
  using first_doc_in [of D] by (cases "D = {}") (auto simp: first_doc_def [of "{}"])

lemma first_doc_ge: "D \<subseteq> {..<TERMINATED} \<Longrightarrow> t \<le> TERMINATED \<Longrightarrow> (\<And>d. d \<in> D \<Longrightarrow> t \<le> d) \<Longrightarrow> t \<le> first_doc D"
  using first_doc_in [of D] by (cases "D = {}") (auto simp: first_doc_def)

lemma first_doc_eqI: "d \<in> D \<Longrightarrow> D \<subseteq> {..<TERMINATED} \<Longrightarrow> (\<And>x. x \<in> D \<Longrightarrow> d \<le> x) \<Longrightarrow> first_doc D = d"
  using first_doc_in [of D] first_doc_le [of d D] by (metis empty_iff le_antisym)

lemma first_doc_empty [simp]: "first_doc {} = TERMINATED"
  by (simp add: first_doc_def)

lemma finite_docs: "D \<subseteq> {..<TERMINATED} \<Longrightarrow> finite D"
  by (rule finite_subset) auto

lemma first_doc_minus_gt:
  assumes "D \<subseteq> {..<TERMINATED}" "D \<noteq> {}"
  shows "first_doc D < first_doc (D - {first_doc D})"
proof (cases "D - {first_doc D} = {}")
  case True
  then show ?thesis using first_doc_in [OF assms(2,1)] assms(1)
    unfolding True first_doc_empty by auto
next
  case False
  then have "first_doc (D - {first_doc D}) \<in> D - {first_doc D}"
    using assms(1) by (intro first_doc_in) auto
  then show ?thesis using first_doc_le [OF _ assms(1)] by (metis Diff_iff insertI1 le_neq_implies_less)
qed

lemma restrict_minus_first:
  assumes "D \<subseteq> {..<TERMINATED}" "first_doc D < t"
  shows "(D - {first_doc D}) \<inter> {t..} = D \<inter> {t..}"
  using assms by auto

section \<open>The provided methods keep the contract\<close>

context docset_iter
begin

lemma advance_first:
  assumes "rep D s"
  obtains s' where "ds_advance ops s = Some (first_doc (D - {first_doc D}), s')" "rep (D - {first_doc D}) s'"
  using advance_law [OF assms] doc_first by metis

lemma seek_loop_law:
  assumes "rep D s" "t \<le> TERMINATED"
  shows "\<exists>s'. seek_loop (ds_advance ops) t (first_doc D) s = Some (first_doc (D \<inter> {t..}), s') \<and> rep (D \<inter> {t..}) s'"
  using assms
proof (induction "card D" arbitrary: D s rule: less_induct)
  case less
  note bound = rep_bound [OF less.prems(1)]
  show ?case
  proof (cases "first_doc D < t")
    case True
    then have ne: "D \<noteq> {}" using less.prems(2) by auto
    obtain s' where s': "ds_advance ops s = Some (first_doc (D - {first_doc D}), s')" "rep (D - {first_doc D}) s'"
      using less.prems(1) by (rule advance_first)
    have "card (D - {first_doc D}) < card D"
      using first_doc_in [OF ne bound] finite_docs [OF bound] by (intro psubset_card_mono) auto
    from less.hyps [OF this s'(2) less.prems(2)] show ?thesis
      using True s'(1) bound by (simp add: seek_loop.simps restrict_minus_first)
  next
    case False
    then have "D \<inter> {t..} = D" using first_doc_le [OF _ bound] by force
    then show ?thesis using False less.prems by (simp add: seek_loop.simps)
  qed
qed

lemma default_seek_law:
  assumes "rep D s" "t \<le> TERMINATED"
  shows "\<exists>s'. default_seek (ds_doc ops) (ds_advance ops) t s = Some (ds_doc ops s', s') \<and> rep (D \<inter> {t..}) s'"
  using seek_loop_law [OF assms] doc_first assms(1) by (auto simp: default_seek_def)

lemma docset_seek_default:
  assumes "ds_seek ops = default_seek (ds_doc ops) (ds_advance ops)"
  shows "docset_seek ops rep"
  by unfold_locales (simp add: assms default_seek_law)

lemma fill_buffer_loop_law:
  assumes "rep D s" "D \<noteq> {}"
  shows "\<exists>s'. fill_buffer_loop ops n s = Some (take n (sorted_list_of_set D), s') \<and>
    rep (set (drop n (sorted_list_of_set D))) s'"
  using assms
proof (induction n arbitrary: D s)
  case 0
  then show ?case using finite_docs [OF rep_bound] by (simp add: set_sorted_list_of_set)
next
  case (Suc n)
  note bound = rep_bound [OF Suc.prems(1)]
  note fin = finite_docs [OF bound]
  have list: "sorted_list_of_set D = first_doc D # sorted_list_of_set (D - {first_doc D})"
    using Suc.prems(2) fin by (simp add: first_doc_def sorted_list_of_set_nonempty)
  obtain s' where s': "ds_advance ops s = Some (first_doc (D - {first_doc D}), s')" "rep (D - {first_doc D}) s'"
    using Suc.prems(1) by (rule advance_first)
  show ?case
  proof (cases "D - {first_doc D} = {}")
    case True
    then show ?thesis using s' doc_first [OF Suc.prems(1)] unfolding list True by simp
  next
    case False
    then have "first_doc (D - {first_doc D}) \<noteq> TERMINATED"
      using rep_bound [OF s'(2)] by (simp add: first_doc_terminated_iff)
    with Suc.IH [OF s'(2) False] s'(1) doc_first [OF Suc.prems(1)] show ?thesis
      by (auto simp: list)
  qed
qed

lemma fill_buffer_law:
  assumes "rep D s"
  shows "\<exists>s'. fill_buffer ops s = Some (take 64 (sorted_list_of_set D), s') \<and>
    rep (set (drop 64 (sorted_list_of_set D))) s'"
proof (cases "D = {}")
  case True
  then show ?thesis using assms doc_first [OF assms] by (simp add: fill_buffer_def)
next
  case False
  then show ?thesis
    using fill_buffer_loop_law [OF assms False, of 64] doc_first [OF assms] rep_bound [OF assms]
    by (simp add: fill_buffer_def COLLECT_BLOCK_BUFFER_LEN_def first_doc_terminated_iff)
qed

text \<open>The buffered iteration ends, and its slices put together list the documents in ascending order.\<close>

lemma for_each_docset_buffered_law:
  assumes "rep D s"
  shows "\<exists>calls s'. for_each_docset_buffered ops s = Some (calls, s') \<and> concat calls = sorted_list_of_set D \<and> rep {} s'"
  using assms
proof (induction "card D" arbitrary: D s rule: less_induct)
  case less
  let ?l = "sorted_list_of_set D"
  have fin: "finite D" using rep_bound [OF less.prems] by (rule finite_docs)
  obtain s' where s': "fill_buffer ops s = Some (take 64 ?l, s')" "rep (set (drop 64 ?l)) s'"
    using fill_buffer_law [OF less.prems] by blast
  show ?case
  proof (cases "64 \<le> card D")
    case True
    have rest: "sorted_list_of_set (set (drop 64 ?l)) = drop 64 ?l"
      by (rule sorted_list_of_set.idem_if_sorted_distinct) (simp_all add: sorted_wrt_drop)
    have "card (set (drop 64 ?l)) < card D" using True by (simp add: distinct_card)
    from less.hyps [OF this s'(2)] obtain calls s'' where
      "for_each_docset_buffered ops s' = Some (calls, s'')" "concat calls = drop 64 ?l" "rep {} s''"
      unfolding rest by blast
    then show ?thesis using s'(1) True
      by (subst for_each_docset_buffered.simps) (simp add: COLLECT_BLOCK_BUFFER_LEN_def)
  next
    case False
    then show ?thesis using s'
      by (subst for_each_docset_buffered.simps) (simp add: COLLECT_BLOCK_BUFFER_LEN_def)
  qed
qed

lemma count_loop_law:
  assumes "rep D s" "\<And>d. d \<in> D \<Longrightarrow> counts d = Some (d \<in> A)"
  shows "\<exists>s'. count_loop ops counts n (first_doc D) s = Some (n + card (D \<inter> A), s') \<and> rep {} s'"
  using assms
proof (induction "card D" arbitrary: D s n rule: less_induct)
  case less
  note bound = rep_bound [OF less.prems(1)]
  note fin = finite_docs [OF bound]
  show ?case
  proof (cases "D = {}")
    case True
    then show ?thesis using less.prems(1) by (simp add: count_loop.simps)
  next
    case False
    let ?d = "first_doc D"
    have d: "?d \<in> D" using False bound by (rule first_doc_in)
    obtain s' where s': "ds_advance ops s = Some (first_doc (D - {?d}), s')" "rep (D - {?d}) s'"
      using less.prems(1) by (rule advance_first)
    have "card (D - {?d}) < card D" using d fin by (intro psubset_card_mono) auto
    from less.hyps [OF this s'(2)] less.prems(2)
    obtain s'' where s'': "count_loop ops counts (if ?d \<in> A then n + 1 else n) (first_doc (D - {?d})) s' =
        Some ((if ?d \<in> A then n + 1 else n) + card ((D - {?d}) \<inter> A), s'')" "rep {} s''"
      by (metis DiffD1)
    have "D \<inter> A = (if ?d \<in> A then insert ?d ((D - {?d}) \<inter> A) else (D - {?d}) \<inter> A)" using d by auto
    then have "card (D \<inter> A) = (if ?d \<in> A then 1 else 0) + card ((D - {?d}) \<inter> A)"
      using fin by (simp split: if_splits)
    moreover have "?d \<noteq> TERMINATED" using False bound by (simp add: first_doc_terminated_iff)
    ultimately show ?thesis
      using s' s'' less.prems(2) [OF d] by (subst count_loop.simps) simp
  qed
qed

lemma count_including_deleted_law:
  "rep D s \<Longrightarrow> \<exists>s'. count_including_deleted ops s = Some (card D, s') \<and> rep {} s'"
  using count_loop_law [of D s "\<lambda>_. Some True" UNIV 0] doc_first [of D s]
  by (simp add: count_including_deleted_def)

lemma count_law:
  assumes "rep D s" "\<And>d. d \<in> D \<Longrightarrow> is_alive alive d = Some (d \<in> A)"
  shows "\<exists>s'. ds_count ops alive s = Some (card (D \<inter> A), s') \<and> rep {} s'"
  using count_loop_law [OF assms, where n = 0] doc_first [OF assms(1)]
  by (simp add: ds_count_def)

end

text \<open>Documents of a block, relative to its first document.\<close>

definition block_docs :: "nat \<Rightarrow> nat set \<Rightarrow> nat set" where
  "block_docs m D = (\<lambda>d. d - m) ` (D \<inter> {m..<m + BLOCK_WINDOW})"

lemma block_insert_elems:
  assumes "length msk = BLOCK_NUM_TINYBITSETS" "delta < BLOCK_WINDOW"
  shows "buckets_elems (block_insert delta msk) = insert delta (buckets_elems msk)"
    and "length (block_insert delta msk) = BLOCK_NUM_TINYBITSETS"
proof -
  have "delta div 64 < length msk"
    using assms by (simp add: BLOCK_WINDOW_def BLOCK_NUM_TINYBITSETS_def less_mult_imp_div_less)
  then show "buckets_elems (block_insert delta msk) = insert delta (buckets_elems msk)"
    by (simp add: block_insert_def insert_mut_iff(2) buckets_elems_update)
  show "length (block_insert delta msk) = BLOCK_NUM_TINYBITSETS"
    using assms by (simp add: block_insert_def)
qed

lemma block_docs_step:
  assumes "D \<subseteq> {m..<TERMINATED}" "d = first_doc D" "d < m + BLOCK_WINDOW" "D \<noteq> {}"
  shows "block_docs m D = insert (d - m) (block_docs m (D - {d}))"
    and "D \<inter> {m + BLOCK_WINDOW..} = (D - {d}) \<inter> {m + BLOCK_WINDOW..}"
proof -
  have "D \<subseteq> {..<TERMINATED}" using assms(1) by auto
  then have "d \<in> D" using first_doc_in assms(2,4) by simp
  then show "block_docs m D = insert (d - m) (block_docs m (D - {d}))"
    using assms(1,3) by (auto simp: block_docs_def)
  show "D \<inter> {m + BLOCK_WINDOW..} = (D - {d}) \<inter> {m + BLOCK_WINDOW..}"
    using assms(3) by auto
qed

context docset_iter
begin

lemma fill_bitset_loop_law:
  assumes "rep D s" "D \<subseteq> {m..}" "m + BLOCK_WINDOW \<le> TERMINATED" "length msk = BLOCK_NUM_TINYBITSETS"
  shows "\<exists>msk' s'. fill_bitset_loop ops m msk s = Some (first_doc (D \<inter> {m + BLOCK_WINDOW..}), msk', s') \<and>
    rep (D \<inter> {m + BLOCK_WINDOW..}) s' \<and> length msk' = BLOCK_NUM_TINYBITSETS \<and>
    buckets_elems msk' = buckets_elems msk \<union> block_docs m D"
  using assms(1,2,4)
proof (induction "card D" arbitrary: D s msk rule: less_induct)
  case less
  note bound = rep_bound [OF less.prems(1)]
  let ?d = "first_doc D"
  have doc: "ds_doc ops s = ?d" using less.prems(1) by (rule doc_first)
  show ?case
  proof (cases "m + BLOCK_WINDOW \<le> ?d")
    case True
    then have "D \<inter> {m + BLOCK_WINDOW..} = D" using first_doc_le [OF _ bound] by force
    moreover have "block_docs m D = {}" using True first_doc_le [OF _ bound] by (force simp: block_docs_def)
    ultimately show ?thesis
      using less.prems True doc by (simp add: fill_bitset_loop.simps)
  next
    case False
    have ne: "D \<noteq> {}"
      using False assms(3) by auto
    have dm: "m \<le> ?d" using first_doc_in [OF ne bound] less.prems(2) by auto
    have "?d - m < BLOCK_WINDOW" using False dm by simp
    note ins = block_insert_elems [OF less.prems(3) this]
    note step = block_docs_step [of D m ?d, OF _ refl _ ne]
    have sub: "D \<subseteq> {m..<TERMINATED}" using bound less.prems(2) by auto
    have lt: "?d < m + BLOCK_WINDOW" using False by simp
    obtain s' where s': "ds_advance ops s = Some (first_doc (D - {?d}), s')" "rep (D - {?d}) s'"
      using less.prems(1) by (rule advance_first)
    show ?thesis
    proof (cases "D - {?d} = {}")
      case True
      then have "block_docs m D = {?d - m}" "D \<inter> {m + BLOCK_WINDOW..} = {}"
        using step [OF sub lt] unfolding True by (simp_all add: block_docs_def)
      then show ?thesis using s' False doc ins
        unfolding True by (subst fill_bitset_loop.simps) (simp add: Let_def)
    next
      case nonempty: False
      have "card (D - {?d}) < card D"
        using first_doc_in [OF ne bound] finite_docs [OF bound] by (intro psubset_card_mono) auto
      from less.hyps [OF this s'(2) _ ins(2)] less.prems(2)
      obtain msk' s'' where r: "fill_bitset_loop ops m (block_insert (?d - m) msk) s' =
          Some (first_doc ((D - {?d}) \<inter> {m + BLOCK_WINDOW..}), msk', s'')"
        "rep ((D - {?d}) \<inter> {m + BLOCK_WINDOW..}) s''" "length msk' = BLOCK_NUM_TINYBITSETS"
        "buckets_elems msk' = buckets_elems (block_insert (?d - m) msk) \<union> block_docs m (D - {?d})"
        by blast
      have "first_doc (D - {?d}) \<noteq> TERMINATED"
        using nonempty rep_bound [OF s'(2)] by (simp add: first_doc_terminated_iff)
      then have "fill_bitset_loop ops m msk s = Some (first_doc (D \<inter> {m + BLOCK_WINDOW..}), msk', s'')"
        using s'(1) False doc r(1) step(2) [OF sub lt] by (subst fill_bitset_loop.simps) (simp add: Let_def)
      then show ?thesis using r(2-4) ins(1) step [OF sub lt] by auto
    qed
  qed
qed

end

context docset_seek
begin

lemma seek_first:
  assumes "rep D s" "first_doc D \<le> t" "t \<le> TERMINATED"
  obtains s' where "ds_seek ops t s = Some (first_doc (D \<inter> {t..}), s')" "rep (D \<inter> {t..}) s'"
  using seek_law [OF assms] doc_first by metis

lemma fill_bitset_block_law:
  assumes "rep D s" "first_doc D \<le> m" "m + BLOCK_WINDOW \<le> TERMINATED" "length msk = BLOCK_NUM_TINYBITSETS"
  shows "\<exists>msk' s'. fill_bitset_block ops m msk s = Some (first_doc (D \<inter> {m + BLOCK_WINDOW..}), msk', s') \<and>
    rep (D \<inter> {m + BLOCK_WINDOW..}) s' \<and> length msk' = BLOCK_NUM_TINYBITSETS \<and>
    buckets_elems msk' = buckets_elems msk \<union> block_docs m D"
proof -
  have "m \<le> TERMINATED" using assms(3) by simp
  then obtain s' where s': "ds_seek ops m s = Some (first_doc (D \<inter> {m..}), s')" "rep (D \<inter> {m..}) s'"
    using assms(1,2) by (auto intro: seek_first)
  have eq: "D \<inter> {m..} \<inter> {m + BLOCK_WINDOW..} = D \<inter> {m + BLOCK_WINDOW..}" "block_docs m (D \<inter> {m..}) = block_docs m D"
    by (auto simp: block_docs_def)
  show ?thesis
    using fill_bitset_loop_law [OF s'(2) _ assms(3,4)] s'(1) unfolding eq
    by (simp add: fill_bitset_block_def)
qed

lemma default_danger_law:
  assumes "rep D' s" "D = D' \<inter> {t..}" "t \<le> TERMINATED"
  shows "\<exists>r s'. default_seek_danger (ds_doc ops) (ds_seek ops) t s = Some (r, s') \<and> danger_result t D r \<and>
     (if t \<in> D then rep D s' else \<exists>D''. rep D'' s' \<and> D = D'' \<inter> {t..})"
proof (cases "t = TERMINATED")
  case True
  then have "D = {}" using rep_bound [OF assms(1)] assms(2) by auto
  then show ?thesis using True assms by (auto simp: default_seek_danger_def danger_result_def danger_bound_def)
next
  case False
  have bound: "D \<subseteq> {..<TERMINATED}" using rep_bound [OF assms(1)] assms(2) by auto
  have tT: "t < TERMINATED" using False assms(3) by simp
  obtain s' where s': "(if ds_doc ops s < t then ds_seek ops t s else Some (ds_doc ops s, s)) = Some (first_doc D, s')" "rep D s'"
  proof (cases "ds_doc ops s < t")
    case True
    then have "first_doc D' \<le> t" using doc_first [OF assms(1)] by simp
    from seek_first [OF assms(1) this assms(3)] True that show ?thesis by (auto simp: assms(2))
  next
    case False
    then have "D = D'" using assms(1,2) doc_first [OF assms(1)] first_doc_le [OF _ rep_bound [OF assms(1)]] by force
    with False that assms(1) doc_first show ?thesis by simp
  qed
  have res: "default_seek_danger (ds_doc ops) (ds_seek ops) t s =
      Some (if first_doc D = t then Found else SeekLowerBound (first_doc D), s')"
    using tT s'(1) by (simp add: default_seek_danger_def)
  have ge: "t \<le> d" if "d \<in> D" for d using that assms(2) by simp
  show ?thesis
  proof (cases "t \<in> D")
    case True
    then have "first_doc D = t" using bound ge by (rule first_doc_eqI)
    then show ?thesis using True res s'(2) by (simp add: danger_result_def)
  next
    case False
    have "t < first_doc D"
    proof (cases "D = {}")
      case ne: False
      then show ?thesis using first_doc_in [OF ne bound] ge False by (metis le_neq_implies_less)
    qed (use tT in simp)
    moreover have "D = D \<inter> {t..}" using ge by auto
    ultimately show ?thesis using False res s'(2) first_doc_le [OF _ bound] first_doc_bound [OF bound]
      by (auto simp: danger_result_def danger_bound_def)
  qed
qed

end

text \<open>Every valid state of a document set with the provided \<open>seek_danger\<close> is ready.\<close>

definition valid_ready :: "(nat set \<Rightarrow> 's \<Rightarrow> bool) \<Rightarrow> nat \<Rightarrow> nat set \<Rightarrow> 's \<Rightarrow> bool" where
  "valid_ready rep t D s \<longleftrightarrow> (\<exists>D'. rep D' s \<and> D = D' \<inter> {t..})"

context docset_seek
begin

lemma docset_default:
  assumes "ds_seek_danger ops = default_seek_danger (ds_doc ops) (ds_seek ops)"
  shows "docset ops rep (valid_ready rep)"
proof unfold_locales
  show "D \<subseteq> {t..<TERMINATED}" if "valid_ready rep t D s" for t D s
    using that by (fastforce simp: valid_ready_def dest: rep_bound)
  show "valid_ready rep u (D \<inter> {u..}) s" if "valid_ready rep t D s" "t \<le> u" for t D s u
    using that by (fastforce simp: valid_ready_def)
  show "valid_ready rep t (D \<inter> {t..}) s" if "rep D s" for D s t
    using that by (auto simp: valid_ready_def)
  show "\<exists>r s'. ds_seek_danger ops t s = Some (r, s') \<and> danger_result t D r \<and>
      (if t \<in> D then rep D s' else valid_ready rep t D s')" if "valid_ready rep t D s" "t \<le> TERMINATED" for t D s
  proof -
    from that(1) obtain D' where "rep D' s" "D = D' \<inter> {t..}" by (auto simp: valid_ready_def)
    from default_danger_law [OF this that(2)] show ?thesis
      unfolding assms valid_ready_def .
  qed
qed

end

context docset
begin

lemma rep_ready_same:
  assumes "rep D s" "t \<in> D" "D \<subseteq> {t..}"
  shows "ready t D s" "first_doc D = t"
proof -
  show f: "first_doc D = t" using assms(2) rep_bound [OF assms(1)] by (rule first_doc_eqI) (use assms(3) in auto)
  have "D \<inter> {t..} = D" using assms(3) by auto
  then show "ready t D s" using rep_ready [OF assms(1), of t] f by simp
qed

lemma seek_danger_ready:
  assumes "ready t D s" "t \<le> TERMINATED"
  obtains r s' where "ds_seek_danger ops t s = Some (r, s')" "danger_result t D r" "ready t D s'"
    "t \<in> D \<Longrightarrow> rep D s'" "r = Found \<longleftrightarrow> t \<in> D"
proof -
  obtain r s' where r: "ds_seek_danger ops t s = Some (r, s')" "danger_result t D r"
    "if t \<in> D then rep D s' else ready t D s'"
    using danger_law [OF assms] by blast
  have "D \<subseteq> {t..}" using ready_bound [OF assms(1)] by auto
  then have "ready t D s'" using r(3) rep_ready_same(1) by (auto split: if_splits)
  moreover have "r = Found \<longleftrightarrow> t \<in> D" using r(2) by (auto simp: danger_result_def split: if_splits)
  ultimately show ?thesis using that r by (auto split: if_splits)
qed

end

end
