(* ===== verification/LeafDocSets.thy ===== *)
theory LeafDocSets
  imports DocSet
begin

text \<open>
  Document sets without children: \<open>VecDocSet\<close> (\<^verbatim>\<open>vec_docset.rs\<close>), \<open>AllScorer\<close> (\<^verbatim>\<open>all_query.rs\<close>),
  \<open>EmptyScorer\<close> (\<^verbatim>\<open>empty_query.rs\<close>) and \<open>BitSetDocSet\<close> (\<^verbatim>\<open>bitset/mod.rs\<close>). The first three
  interpret the whole contract. The fourth keeps the iteration laws and seeks correctly below its
  capacity, but two of its corners break the trait's promises, which is stated at the end.
\<close>

section \<open>VecDocSet\<close>

record vec_docset =
  vd_doc_ids :: "nat list"
  vd_cursor :: nat

definition vec_docset_from :: "nat list \<Rightarrow> vec_docset option" where
  "vec_docset_from doc_ids =
     (if list_all (\<lambda>(a, b). a < b) (zip doc_ids (tl doc_ids))
      then Some \<lparr>vd_doc_ids = doc_ids, vd_cursor = 0\<rparr> else None)"

definition vec_doc :: "vec_docset \<Rightarrow> nat" where
  "vec_doc v = (if vd_cursor v = length (vd_doc_ids v) then TERMINATED else vd_doc_ids v ! vd_cursor v)"

definition vec_advance :: "vec_docset \<Rightarrow> (nat \<times> vec_docset) option" where
  "vec_advance v =
     (let cursor = vd_cursor v + 1
      in if cursor \<ge> length (vd_doc_ids v) then Some (TERMINATED, v\<lparr>vd_cursor := length (vd_doc_ids v)\<rparr>)
         else (let v' = v\<lparr>vd_cursor := cursor\<rparr> in Some (vec_doc v', v')))"

definition vec_ops :: "vec_docset docset_ops" where
  "vec_ops = \<lparr>ds_doc = vec_doc, ds_advance = vec_advance, ds_seek = default_seek vec_doc vec_advance,
     ds_seek_danger = default_seek_danger vec_doc (default_seek vec_doc vec_advance),
     ds_size_hint = (\<lambda>v. length (vd_doc_ids v)), ds_cost = (\<lambda>v. length (vd_doc_ids v))\<rparr>"

definition vec_rep :: "nat set \<Rightarrow> vec_docset \<Rightarrow> bool" where
  "vec_rep D v \<longleftrightarrow> sorted_wrt (<) (vd_doc_ids v) \<and> set (vd_doc_ids v) \<subseteq> {..<TERMINATED} \<and>
     vd_cursor v \<le> length (vd_doc_ids v) \<and> D = set (drop (vd_cursor v) (vd_doc_ids v))"

lemma sorted_wrt_Min_drop:
  assumes "sorted_wrt (<) xs" "i < length xs"
  shows "Min (set (drop i xs)) = xs ! (i :: nat)" "set (drop i xs) - {xs ! i} = set (drop (Suc i) xs)"
proof -
  have d: "drop i xs = xs ! i # drop (Suc i) xs" using assms(2) by (simp add: Cons_nth_drop_Suc)
  have s: "sorted_wrt (<) (xs ! i # drop (Suc i) xs)" using assms(1) by (metis d sorted_wrt_drop)
  then show "Min (set (drop i xs)) = xs ! i"
    unfolding d by (intro Min_eqI) (auto intro: less_imp_le)
  show "set (drop i xs) - {xs ! i} = set (drop (Suc i) xs)"
    unfolding d using s by auto
qed

lemma vec_rep_doc:
  assumes "vec_rep D v"
  shows "vec_doc v = first_doc D"
  using assms sorted_wrt_Min_drop [of "vd_doc_ids v" "vd_cursor v"]
  by (auto simp: vec_rep_def vec_doc_def first_doc_def)

interpretation vec_iter: docset_iter vec_ops vec_rep
proof
  show "D \<subseteq> {..<TERMINATED}" if "vec_rep D v" for D v
    using that by (auto simp: vec_rep_def dest: in_set_dropD)
  show doc: "ds_doc vec_ops v = first_doc D" if "vec_rep D v" for D v
    using vec_rep_doc [OF that] by (simp add: vec_ops_def)
  show "\<exists>v'. ds_advance vec_ops v = Some (ds_doc vec_ops v', v') \<and> vec_rep (D - {first_doc D}) v'"
    if "vec_rep D v" for D v
  proof (cases "vd_cursor v < length (vd_doc_ids v)")
    case True
    have fst: "first_doc D = vd_doc_ids v ! vd_cursor v"
      using True vec_rep_doc [OF that] by (simp add: vec_doc_def)
    have "sorted_wrt (<) (vd_doc_ids v)" "D = set (drop (vd_cursor v) (vd_doc_ids v))"
      using that by (auto simp: vec_rep_def)
    then have D: "D - {first_doc D} = set (drop (Suc (vd_cursor v)) (vd_doc_ids v))"
      unfolding fst using sorted_wrt_Min_drop(2) [OF _ True] by blast
    let ?v = "v\<lparr>vd_cursor := Suc (vd_cursor v)\<rparr>"
    have "vec_rep (D - {first_doc D}) ?v" unfolding D using that True by (simp add: vec_rep_def)
    moreover have "vec_advance v = Some (vec_doc ?v, ?v)"
      using True by (auto simp: vec_advance_def Let_def vec_doc_def le_Suc_eq not_less_eq_eq)
    ultimately show ?thesis by (auto simp: vec_ops_def)
  next
    case False
    then show ?thesis using that
      by (auto simp: vec_ops_def vec_advance_def vec_rep_def vec_doc_def Let_def)
  qed
qed

interpretation vec_seek: docset_seek vec_ops vec_rep
  by (rule vec_iter.docset_seek_default) (simp add: vec_ops_def)

interpretation vec: docset vec_ops vec_rep "valid_ready vec_rep"
  by (rule vec_seek.docset_default) (simp add: vec_ops_def)

lemma vec_docset_from_rep:
  assumes "sorted_wrt (<) ids" "set ids \<subseteq> {..<TERMINATED}"
  shows "\<exists>v. vec_docset_from ids = Some v \<and> vec_rep (set ids) v"
proof -
  have "list_all (\<lambda>(a, b). a < b) (zip ids (tl ids))"
    using assms(1) by (auto simp: list_all_length sorted_wrt_iff_nth_less nth_tl)
  then show ?thesis using assms by (simp add: vec_docset_from_def vec_rep_def)
qed

section \<open>AllScorer and EmptyScorer\<close>

record all_scorer =
  al_doc :: nat
  al_max_doc :: nat

definition all_scorer_new :: "nat \<Rightarrow> all_scorer" where
  "all_scorer_new max_doc = \<lparr>al_doc = (if max_doc = 0 then TERMINATED else 0), al_max_doc = max_doc\<rparr>"

definition all_advance :: "all_scorer \<Rightarrow> (nat \<times> all_scorer) option" where
  "all_advance a =
     (if al_doc a + 1 \<ge> al_max_doc a then Some (TERMINATED, a\<lparr>al_doc := TERMINATED\<rparr>)
      else Some (al_doc a + 1, a\<lparr>al_doc := al_doc a + 1\<rparr>))"

definition all_seek :: "nat \<Rightarrow> all_scorer \<Rightarrow> (nat \<times> all_scorer) option" where
  "all_seek target a =
     (let doc = (if target \<ge> al_max_doc a then TERMINATED else target) in Some (doc, a\<lparr>al_doc := doc\<rparr>))"

definition all_ops :: "all_scorer docset_ops" where
  "all_ops = \<lparr>ds_doc = al_doc, ds_advance = all_advance, ds_seek = all_seek,
     ds_seek_danger = default_seek_danger al_doc all_seek,
     ds_size_hint = al_max_doc, ds_cost = al_max_doc\<rparr>"

definition all_fill_buffer :: "all_scorer \<Rightarrow> (nat list \<times> all_scorer) option" where
  "all_fill_buffer a =
     (if al_doc a = TERMINATED then Some ([], a)
      else if al_doc a + COLLECT_BLOCK_BUFFER_LEN < al_max_doc a then
        Some ([al_doc a..<al_doc a + COLLECT_BLOCK_BUFFER_LEN],
              a\<lparr>al_doc := al_doc a + COLLECT_BLOCK_BUFFER_LEN\<rparr>)
      else fill_buffer_loop all_ops COLLECT_BLOCK_BUFFER_LEN a)"

definition all_rep :: "nat set \<Rightarrow> all_scorer \<Rightarrow> bool" where
  "all_rep D a \<longleftrightarrow> al_max_doc a \<le> TERMINATED \<and>
     (if D = {} then al_doc a = TERMINATED else al_doc a < al_max_doc a \<and> D = {al_doc a..<al_max_doc a})"

lemma first_doc_interval: "first_doc {a..<b} = (if a < b then a else TERMINATED)"
  by (auto simp: first_doc_def intro: Min_eqI)

interpretation all_seek: docset_seek all_ops all_rep
proof
  show "D \<subseteq> {..<TERMINATED}" if "all_rep D a" for D a
    using that by (auto simp: all_rep_def split: if_splits)
  show "ds_doc all_ops a = first_doc D" if "all_rep D a" for D a
    using that by (auto simp: all_rep_def all_ops_def first_doc_interval split: if_splits)
  show "\<exists>a'. ds_advance all_ops a = Some (ds_doc all_ops a', a') \<and> all_rep (D - {first_doc D}) a'"
    if "all_rep D a" for D a
  proof (cases "D = {}")
    case True
    then show ?thesis using that by (simp add: all_rep_def all_ops_def all_advance_def)
  next
    case False
    then have D: "D = {al_doc a..<al_max_doc a}" "al_doc a < al_max_doc a" "al_max_doc a \<le> TERMINATED"
      using that by (auto simp: all_rep_def)
    then have "D - {first_doc D} = {Suc (al_doc a)..<al_max_doc a}" by (auto simp: first_doc_interval)
    then show ?thesis using D by (auto simp: all_rep_def all_ops_def all_advance_def)
  qed
  show "\<exists>a'. ds_seek all_ops t a = Some (ds_doc all_ops a', a') \<and> all_rep (D \<inter> {t..}) a'"
    if "all_rep D a" "first_doc D \<le> t" "t \<le> TERMINATED" for D a t
  proof (cases "t \<ge> al_max_doc a")
    case True
    then have "D \<inter> {t..} = {}" using that(1) by (auto simp: all_rep_def split: if_splits)
    then show ?thesis using that True by (simp add: all_ops_def all_seek_def all_rep_def)
  next
    case False
    then have "D \<noteq> {}" using that by (auto simp: all_rep_def)
    then have "D = {al_doc a..<al_max_doc a}" "al_doc a \<le> t"
      using that by (auto simp: all_rep_def first_doc_interval split: if_splits)
    then have "D \<inter> {t..} = {t..<al_max_doc a}" by auto
    then show ?thesis using that(1) False by (simp add: all_ops_def all_seek_def all_rep_def Let_def)
  qed
qed

interpretation all: docset all_ops all_rep "valid_ready all_rep"
  by (rule all_seek.docset_default) (simp add: all_ops_def)

definition empty_ops :: "unit docset_ops" where
  "empty_ops = \<lparr>ds_doc = (\<lambda>_. TERMINATED), ds_advance = (\<lambda>s. Some (TERMINATED, s)),
     ds_seek = default_seek (\<lambda>_. TERMINATED) (\<lambda>s. Some (TERMINATED, s)),
     ds_seek_danger = default_seek_danger (\<lambda>_. TERMINATED)
       (default_seek (\<lambda>_. TERMINATED) (\<lambda>s. Some (TERMINATED, s))),
     ds_size_hint = (\<lambda>_. 0), ds_cost = (\<lambda>_. 0)\<rparr>"

definition empty_rep :: "nat set \<Rightarrow> unit \<Rightarrow> bool" where
  "empty_rep D s \<longleftrightarrow> D = {}"

interpretation empty_iter: docset_iter empty_ops empty_rep
  by unfold_locales (auto simp: empty_ops_def empty_rep_def)

interpretation empty_seek: docset_seek empty_ops empty_rep
  by (rule empty_iter.docset_seek_default) (simp add: empty_ops_def)

interpretation empty: docset empty_ops empty_rep "valid_ready empty_rep"
  by (rule empty_seek.docset_default) (simp add: empty_ops_def)

section \<open>BitSetDocSet\<close>

record bitset_docset =
  bd_docs :: bitset
  bd_cursor_bucket :: nat
  bd_cursor_tinybitset :: tinyset
  bd_doc :: nat

definition go_to_bucket :: "nat \<Rightarrow> bitset_docset \<Rightarrow> bitset_docset option" where
  "go_to_bucket bucket_addr b =
     map_option (\<lambda>t. b\<lparr>bd_cursor_bucket := bucket_addr, bd_cursor_tinybitset := t\<rparr>)
       (bitset_tinyset (bd_docs b) bucket_addr)"

definition bd_pop :: "bitset_docset \<Rightarrow> bitset_docset option" where
  "bd_pop b =
     (case tinyset_pop_lowest (bd_cursor_tinybitset b) of
        (None, _) \<Rightarrow> None
      | (Some lower, t) \<Rightarrow>
          Some (b\<lparr>bd_cursor_tinybitset := t, bd_doc := (bd_cursor_bucket b * 64) OR lower\<rparr>))"

definition bd_advance :: "bitset_docset \<Rightarrow> (nat \<times> bitset_docset) option" where
  "bd_advance b =
     (case bd_pop b of
        Some b' \<Rightarrow> Some (bd_doc b', b')
      | None \<Rightarrow>
          first_non_empty_bucket (bd_docs b) (bd_cursor_bucket b + 1) \<bind> (\<lambda>found.
            case found of
              Some cursor_bucket \<Rightarrow>
                go_to_bucket cursor_bucket b \<bind> (\<lambda>b1. bd_pop b1 \<bind> (\<lambda>b'. Some (bd_doc b', b')))
            | None \<Rightarrow> Some (TERMINATED, b\<lparr>bd_doc := TERMINATED\<rparr>)))"

definition bitset_docset_from :: "bitset \<Rightarrow> bitset_docset option" where
  "bitset_docset_from docs =
     (if bs_max_value docs = 0 then Some tinyset_empty else bitset_tinyset docs 0) \<bind> (\<lambda>first_tiny_bitset.
      map_option snd (bd_advance
        \<lparr>bd_docs = docs, bd_cursor_bucket = 0, bd_cursor_tinybitset = first_tiny_bitset, bd_doc = 0\<rparr>))"

definition bd_seek :: "nat \<Rightarrow> bitset_docset \<Rightarrow> (nat \<times> bitset_docset) option" where
  "bd_seek target b =
     (if target \<ge> bs_max_value (bd_docs b) then Some (TERMINATED, b\<lparr>bd_doc := TERMINATED\<rparr>)
      else
        (let target_bucket = target div 64
         in if target_bucket > bd_cursor_bucket b then
              go_to_bucket target_bucket b \<bind> (\<lambda>b1.
                bd_advance (b1\<lparr>bd_cursor_tinybitset :=
                  tinyset_intersect (bd_cursor_tinybitset b1) (tinyset_range_greater_or_equal target)\<rparr>))
            else seek_loop bd_advance target (bd_doc b) b))"

definition bitset_docset_ops :: "bitset_docset docset_ops" where
  "bitset_docset_ops = \<lparr>ds_doc = bd_doc, ds_advance = bd_advance, ds_seek = bd_seek,
     ds_seek_danger = default_seek_danger bd_doc bd_seek,
     ds_size_hint = (\<lambda>b. bs_len (bd_docs b)), ds_cost = (\<lambda>b. bs_len (bd_docs b))\<rparr>"

lemma bucket_or: "l < 64 \<Longrightarrow> b * 64 OR l = b * 64 + (l :: nat)"
proof -
  assume l: "l < 64"
  have "b * 64 OR l = push_bit 6 b OR take_bit 6 l"
    using l by (simp add: push_bit_eq_mult take_bit_nat_eq_self)
  also have "\<dots> = push_bit 6 b + take_bit 6 l"
    by (rule disjunctive_add [symmetric]) (auto simp: bit_simps)
  also have "\<dots> = b * 64 + l" using l by (simp add: push_bit_eq_mult take_bit_nat_eq_self)
  finally show ?thesis .
qed

text \<open>
  The documents still to come: those of the cursor's tiny set, and those of the later buckets.
\<close>

definition bd_later :: "bitset_docset \<Rightarrow> nat set" where
  "bd_later b = (\<lambda>i. bd_cursor_bucket b * 64 + i) ` tinyset_elems (bd_cursor_tinybitset b) \<union>
     {x \<in> bitset_elems (bd_docs b). bd_cursor_bucket b < x div 64}"

definition bd_wf :: "bitset_docset \<Rightarrow> bool" where
  "bd_wf b \<longleftrightarrow> bitset_inv (bd_docs b) \<and> bs_max_value (bd_docs b) \<le> TERMINATED \<and>
     bd_cursor_bucket b < length (bs_tinysets (bd_docs b)) \<and>
     tinyset_elems (bd_cursor_tinybitset b) \<subseteq> tinyset_elems (bs_tinysets (bd_docs b) ! bd_cursor_bucket b)"

definition bd_rep :: "nat set \<Rightarrow> bitset_docset \<Rightarrow> bool" where
  "bd_rep D b \<longleftrightarrow> bd_wf b \<and>
     (if D = {} then bd_doc b = TERMINATED \<and> bd_later b = {}
      else bd_doc b \<in> bitset_elems (bd_docs b) \<and> bd_doc b div 64 = bd_cursor_bucket b \<and>
        (\<forall>d\<in>bd_later b. bd_doc b < d) \<and> D = insert (bd_doc b) (bd_later b))"

lemma bd_later_sub:
  assumes "bd_wf b"
  shows "bd_later b \<subseteq> bitset_elems (bd_docs b)"
proof -
  have "bd_cursor_bucket b * 64 + i \<in> bitset_elems (bd_docs b)" if "i \<in> tinyset_elems (bd_cursor_tinybitset b)" for i
    using assms that tinyset_elems_less [OF that] by (auto simp: bd_wf_def bitset_elems_def buckets_elems_def)
  then show ?thesis by (auto simp: bd_later_def)
qed

lemma bd_later_bound: "bd_wf b \<Longrightarrow> bd_later b \<subseteq> {..<TERMINATED}"
  using bd_later_sub [of b] by (fastforce simp: bd_wf_def bitset_inv_def)

lemma list_position_Some:
  "list_position P xs = Some i \<Longrightarrow> i < length xs \<and> P (xs ! i) \<and> (\<forall>j<i. \<not> P (xs ! j))"
proof (induction xs arbitrary: i)
  case (Cons x xs)
  then show ?case by (auto split: if_splits simp: nth_Cons split: nat.splits)
qed simp

lemma list_position_None: "list_position P xs = None \<Longrightarrow> x \<in> set xs \<Longrightarrow> \<not> P x"
  by (induction xs) (auto split: if_splits)

text \<open>Popping from a non-empty cursor moves to the first document still to come.\<close>

lemma bd_pop_some:
  assumes wf: "bd_wf b" and ne: "tinyset_elems (bd_cursor_tinybitset b) \<noteq> {}"
  shows "\<exists>b'. bd_pop b = Some b' \<and> bd_rep (bd_later b) b' \<and> bd_doc b' = first_doc (bd_later b) \<and> bd_later b \<noteq> {}"
proof -
  let ?t = "bd_cursor_tinybitset b"
  let ?m = "Min (tinyset_elems ?t)"
  have m: "?m \<in> tinyset_elems ?t" using ne by (intro Min_in) auto
  have m64: "?m < 64" using tinyset_elems_less [OF m] .
  obtain t' where pop: "tinyset_pop_lowest ?t = (Some ?m, t')" and t': "tinyset_elems t' = tinyset_elems ?t - {?m}"
    using pop_lowest_Min [OF ne] by (metis prod.collapse)
  let ?d = "bd_cursor_bucket b * 64 + ?m"
  let ?b = "b\<lparr>bd_cursor_tinybitset := t', bd_doc := ?d\<rparr>"
  have res: "bd_pop b = Some ?b" using pop m64 by (simp add: bd_pop_def bucket_or)
  have later: "bd_later b = insert ?d (bd_later ?b)"
    using m by (auto simp: bd_later_def t')
  have div: "?d div 64 = bd_cursor_bucket b" using m64 by simp
  have gt: "?d < d" if later_d: "d \<in> bd_later ?b" for d
  proof -
    consider i where "i \<in> tinyset_elems ?t" "i \<noteq> ?m" "d = bd_cursor_bucket b * 64 + i"
      | "bd_cursor_bucket b < d div 64"
      using later_d by (auto simp: bd_later_def t')
    then show ?thesis
    proof cases
      case 1
      then have "?m < i" by (metis Min_le finite_tinyset_elems le_neq_implies_less)
      then show ?thesis using 1 by simp
    next
      case 2
      then show ?thesis using div by (metis div_le_mono leD not_less)
    qed
  qed
  have wf': "bd_wf ?b" using wf t' by (auto simp: bd_wf_def)
  have din: "?d \<in> bitset_elems (bd_docs b)" using bd_later_sub [OF wf] later by auto
  have rep: "bd_rep (bd_later b) ?b"
    using wf' later div gt din by (auto simp: bd_rep_def)
  have "first_doc (bd_later b) = ?d"
    by (rule first_doc_eqI) (use later gt bd_later_bound [OF wf] in \<open>auto intro: less_imp_le\<close>)
  then show ?thesis using res rep later by auto
qed

lemma bucket_elems:
  assumes "k < length ts"
  shows "{x \<in> buckets_elems ts. x div 64 = k} = (\<lambda>i. k * 64 + i) ` tinyset_elems (ts ! k)"
proof
  show "{x \<in> buckets_elems ts. x div 64 = k} \<subseteq> (\<lambda>i. k * 64 + i) ` tinyset_elems (ts ! k)"
  proof
    fix x assume "x \<in> {x \<in> buckets_elems ts. x div 64 = k}"
    then have "x mod 64 \<in> tinyset_elems (ts ! k)" "x = k * 64 + x mod 64"
      by (auto simp: buckets_elems_def)
    then show "x \<in> (\<lambda>i. k * 64 + i) ` tinyset_elems (ts ! k)" by blast
  qed
  have "(k * 64 + i) div 64 = k" "(k * 64 + i) mod 64 = i" if "i \<in> tinyset_elems (ts ! k)" for i
    using tinyset_elems_less [OF that] by simp_all
  then show "(\<lambda>i. k * 64 + i) ` tinyset_elems (ts ! k) \<subseteq> {x \<in> buckets_elems ts. x div 64 = k}"
    using assms by (auto simp: buckets_elems_def)
qed

lemma bd_later_empty_cursor:
  assumes "tinyset_elems (bd_cursor_tinybitset b) = {}"
  shows "bd_later b = {x \<in> bitset_elems (bd_docs b). bd_cursor_bucket b < x div 64}"
  using assms by (simp add: bd_later_def)

lemma bd_advance_law:
  assumes wf: "bd_wf b"
  shows "\<exists>b'. bd_advance b = Some (bd_doc b', b') \<and> bd_rep (bd_later b) b'"
proof (cases "tinyset_elems (bd_cursor_tinybitset b) = {}")
  case False
  then show ?thesis using bd_pop_some [OF wf False] by (auto simp: bd_advance_def)
next
  case True
  let ?c = "bd_cursor_bucket b" and ?ts = "bs_tinysets (bd_docs b)"
  have nopop: "bd_pop b = None" using True by (simp add: bd_pop_def)
  have c: "?c < length ?ts" using wf by (simp add: bd_wf_def)
  define found where "found = list_position (\<lambda>t. \<not> tinyset_is_empty t) (drop (?c + 1) ?ts)"
  have fneb: "first_non_empty_bucket (bd_docs b) (?c + 1) = Some (map_option ((+) (?c + 1)) found)"
    using c by (simp add: first_non_empty_bucket_def found_def)
  show ?thesis
  proof (cases found)
    case None
    have "x div 64 \<le> ?c" if "x \<in> bitset_elems (bd_docs b)" for x
    proof (rule ccontr)
      assume "\<not> ?thesis"
      then have "?ts ! (x div 64) \<in> set (drop (?c + 1) ?ts)"
        using that unfolding in_set_conv_nth
        by (intro exI [of _ "x div 64 - (?c + 1)"]) (auto simp: bitset_elems_def buckets_elems_def)
      from list_position_None [OF _ this] None have "tinyset_elems (?ts ! (x div 64)) = {}"
        by (auto simp: found_def is_empty_iff)
      then show False using that by (auto simp: bitset_elems_def buckets_elems_def)
    qed
    then have "bd_later b = {}" using True by (force simp: bd_later_empty_cursor)
    then show ?thesis using wf nopop fneb None
      by (auto simp: bd_advance_def bd_rep_def bd_wf_def bd_later_def)
  next
    case (Some i)
    let ?k = "?c + 1 + i"
    from Some have i: "i < length (drop (?c + 1) ?ts)" "tinyset_elems (?ts ! ?k) \<noteq> {}"
      and between: "j < i \<Longrightarrow> tinyset_elems (?ts ! (?c + 1 + j)) = {}" for j
      using list_position_Some [of "\<lambda>t. \<not> tinyset_is_empty t" "drop (?c + 1) ?ts" i]
      by (auto simp: found_def is_empty_iff)
    have k: "?k < length ?ts" using i(1) by simp
    let ?b1 = "b\<lparr>bd_cursor_bucket := ?k, bd_cursor_tinybitset := ?ts ! ?k\<rparr>"
    have go: "go_to_bucket ?k b = Some ?b1" using k by (simp add: go_to_bucket_def bitset_tinyset_def)
    have wf1: "bd_wf ?b1" using wf k by (simp add: bd_wf_def)
    have later: "bd_later ?b1 = bd_later b"
    proof -
      have ge: "x div 64 \<ge> ?k" if "x \<in> bitset_elems (bd_docs b)" "?c < x div 64" for x
      proof (rule ccontr)
        assume "\<not> ?thesis"
        then have "tinyset_elems (?ts ! (x div 64)) = {}"
          using between [of "x div 64 - (?c + 1)"] that(2) by simp
        then show False using that(1) by (auto simp: bitset_elems_def buckets_elems_def)
      qed
      have "?c < x div 64 \<longleftrightarrow> x div 64 = ?k \<or> ?k < x div 64" if "x \<in> bitset_elems (bd_docs b)" for x
        using ge [OF that] by linarith
      then have "{x \<in> bitset_elems (bd_docs b). ?c < x div 64} =
          {x \<in> bitset_elems (bd_docs b). x div 64 = ?k} \<union> {x \<in> bitset_elems (bd_docs b). ?k < x div 64}"
        by blast
      then show ?thesis unfolding bd_later_empty_cursor [OF True]
        using bucket_elems [OF k] by (simp add: bd_later_def bitset_elems_def)
    qed
    have "tinyset_elems (bd_cursor_tinybitset ?b1) \<noteq> {}" using i(2) by simp
    from bd_pop_some [OF wf1 this] nopop fneb Some go later show ?thesis
      by (auto simp: bd_advance_def)
  qed
qed

interpretation bd_iter: docset_iter bitset_docset_ops bd_rep
proof
  show bound: "D \<subseteq> {..<TERMINATED}" if "bd_rep D b" for D b
    using that bd_later_bound [of b]
    by (fastforce simp: bd_rep_def bd_wf_def bitset_inv_def split: if_splits)
  show "ds_doc bitset_docset_ops b = first_doc D" if "bd_rep D b" for D b
  proof (cases "D = {}")
    case False
    then have "first_doc D = bd_doc b"
      using that bound [OF that] by (intro first_doc_eqI) (auto simp: bd_rep_def intro: less_imp_le)
    then show ?thesis by (simp add: bitset_docset_ops_def)
  qed (use that in \<open>simp add: bd_rep_def bitset_docset_ops_def\<close>)
  then have doc: "bd_doc b = first_doc D" if "bd_rep D b" for D b
    using that by (auto simp: bitset_docset_ops_def)
  show "\<exists>b'. ds_advance bitset_docset_ops b = Some (ds_doc bitset_docset_ops b', b') \<and> bd_rep (D - {first_doc D}) b'"
    if "bd_rep D b" for D b
  proof -
    have "D - {first_doc D} = bd_later b"
      using that doc [OF that] by (auto simp: bd_rep_def split: if_splits)
    then show ?thesis using bd_advance_law [of b] that by (auto simp: bd_rep_def bitset_docset_ops_def)
  qed
qed

lemma bd_seek_law:
  assumes rep: "bd_rep D b" and le: "first_doc D \<le> t" and t: "t < bs_max_value (bd_docs b)"
  shows "\<exists>b'. bd_seek t b = Some (bd_doc b', b') \<and> bd_rep (D \<inter> {t..}) b'"
proof (cases "t div 64 > bd_cursor_bucket b")
  case False
  have "t \<le> TERMINATED" using t rep by (simp add: bd_rep_def bd_wf_def)
  then show ?thesis using bd_iter.seek_loop_law [OF rep, of t] bd_iter.doc_first t False rep
    by (fastforce simp: bd_seek_def Let_def bitset_docset_ops_def)
next
  case True
  let ?k = "t div 64" and ?ts = "bs_tinysets (bd_docs b)"
  have wf: "bd_wf b" using rep by (simp add: bd_rep_def)
  have k: "?k < length ?ts"
    using wf t by (auto simp: bd_wf_def bitset_inv_def num_buckets_def)
  let ?cur = "tinyset_intersect (?ts ! ?k) (tinyset_range_greater_or_equal t)"
  let ?b = "b\<lparr>bd_cursor_bucket := ?k, bd_cursor_tinybitset := ?cur\<rparr>"
  have cur: "tinyset_elems ?cur = tinyset_elems (?ts ! ?k) \<inter> {t mod 64..}"
  proof -
    have "tinyset_range_greater_or_equal t = tinyset_range_greater_or_equal (t mod 64)"
      by (simp add: tinyset_range_greater_or_equal_def tinyset_range_lower_def)
    then show ?thesis using tinyset_elems_less
      by (auto simp: elems_intersect elems_range_greater_or_equal)
  qed
  have wf': "bd_wf ?b" using wf k cur by (auto simp: bd_wf_def)
  have "bd_later ?b = {x \<in> bitset_elems (bd_docs b). t \<le> x}"
  proof -
    have "(\<lambda>i. ?k * 64 + i) ` (tinyset_elems (?ts ! ?k) \<inter> {t mod 64..})
        = {x \<in> bitset_elems (bd_docs b). x div 64 = ?k} \<inter> {t..}"
    proof -
      have "t \<le> ?k * 64 + i \<longleftrightarrow> t mod 64 \<le> i" for i
        using div_mult_mod_eq [of t 64] by linarith
      then have "(\<lambda>i. ?k * 64 + i) ` (tinyset_elems (?ts ! ?k) \<inter> {t mod 64..})
          = (\<lambda>i. ?k * 64 + i) ` tinyset_elems (?ts ! ?k) \<inter> {t..}" by auto
      then show ?thesis unfolding bitset_elems_def bucket_elems [OF k] .
    qed
    moreover have "t \<le> x" if "?k < x div 64" for x
      using that by (metis div_le_mono leD nat_le_linear)
    moreover have "?k \<le> x div 64" if "t \<le> x" for x using that by (rule div_le_mono)
    ultimately have "(\<lambda>i. ?k * 64 + i) ` (tinyset_elems (?ts ! ?k) \<inter> {t mod 64..}) \<union>
        {x \<in> bitset_elems (bd_docs b). ?k < x div 64} = {x \<in> bitset_elems (bd_docs b). t \<le> x}"
      by (auto simp: le_eq_less_or_eq [of ?k])
    then show ?thesis by (simp add: bd_later_def cur)
  qed
  also have "\<dots> = D \<inter> {t..}"
  proof -
    have far: "bd_cursor_bucket b < x div 64" if "t \<le> x" for x
      using that True by (meson div_le_mono less_le_trans)
    have "x \<in> D" if "x \<in> bitset_elems (bd_docs b)" "t \<le> x" for x
      using that rep far [OF that(2)] by (auto simp: bd_rep_def bd_later_def split: if_splits)
    moreover have "D \<subseteq> bitset_elems (bd_docs b)"
      using rep bd_later_sub [OF wf] by (auto simp: bd_rep_def split: if_splits)
    ultimately show ?thesis by auto
  qed
  finally have later: "bd_later ?b = D \<inter> {t..}" .
  have "bd_seek t b = bd_advance ?b"
    using t True k by (simp add: bd_seek_def Let_def go_to_bucket_def bitset_tinyset_def)
  then show ?thesis using bd_advance_law [OF wf'] later by simp
qed

lemma bd_pop_docs: "bd_pop b = Some b' \<Longrightarrow> bd_docs b' = bd_docs b"
  by (auto simp: bd_pop_def split: option.splits prod.splits)

lemma bd_advance_docs: "bd_advance b = Some (d, b') \<Longrightarrow> bd_docs b' = bd_docs b"
  by (auto simp: bd_advance_def go_to_bucket_def dest!: bd_pop_docs split: option.splits bind_splits)

lemma bitset_docset_from_rep:
  assumes "bitset_inv docs" "0 < bs_max_value docs" "bs_max_value docs \<le> TERMINATED"
  shows "\<exists>b. bitset_docset_from docs = Some b \<and> bd_rep (bitset_elems docs) b"
proof -
  let ?b = "\<lparr>bd_docs = docs, bd_cursor_bucket = 0, bd_cursor_tinybitset = bs_tinysets docs ! 0, bd_doc = 0\<rparr>"
  have len: "0 < length (bs_tinysets docs)" using assms(1,2) by (simp add: bitset_inv_def num_buckets_def)
  have wf: "bd_wf ?b" using assms len by (simp add: bd_wf_def)
  have "bd_later ?b = bitset_elems docs"
    unfolding bd_later_def bitset_elems_def using bucket_elems [OF len, symmetric]
    by (simp only: bitset_docset.simps mult_0 add_0) auto
  then show ?thesis using bd_advance_law [OF wf] len assms(2)
    by (auto simp: bitset_docset_from_def bitset_tinyset_def)
qed

section \<open>Properties\<close>

text \<open>
  Property C30. The batched \<open>fill_buffer\<close> of \<open>AllScorer\<close> fills the buffer as the one-by-one method
  of the trait does: the next 64 documents, or all that are left.
\<close>

theorem all_fill_buffer_equiv:
  assumes "all_rep D a"
  shows "(\<exists>a'. all_fill_buffer a = Some (take 64 (sorted_list_of_set D), a') \<and>
      all_rep (set (drop 64 (sorted_list_of_set D))) a') \<and>
    map_option fst (all_fill_buffer a) = map_option fst (fill_buffer all_ops a)"
proof -
  have "\<exists>a'. all_fill_buffer a = Some (take 64 (sorted_list_of_set D), a') \<and> all_rep (set (drop 64 (sorted_list_of_set D))) a'"
  proof (cases "al_doc a \<noteq> TERMINATED \<and> al_doc a + COLLECT_BLOCK_BUFFER_LEN < al_max_doc a")
    case True
    then have D: "D = {al_doc a..<al_max_doc a}" "al_max_doc a \<le> TERMINATED"
      using assms by (auto simp: all_rep_def split: if_splits)
    have "sorted_list_of_set D = [al_doc a..<al_max_doc a]" by (simp add: D)
    moreover have "take 64 [al_doc a..<al_max_doc a] = [al_doc a..<al_doc a + 64]"
      using True by (simp add: COLLECT_BLOCK_BUFFER_LEN_def take_upt)
    ultimately show ?thesis using True D
      by (simp add: all_fill_buffer_def all_rep_def COLLECT_BLOCK_BUFFER_LEN_def del: upt_rec_numeral)
  next
    case False
    then have "all_fill_buffer a = fill_buffer all_ops a"
      by (auto simp: all_fill_buffer_def fill_buffer_def all_ops_def)
    then show ?thesis using all_seek.fill_buffer_law [OF assms] by simp
  qed
  moreover from all_seek.fill_buffer_law [OF assms]
  obtain a'' where "fill_buffer all_ops a = Some (take 64 (sorted_list_of_set D), a'')" by blast
  ultimately show ?thesis by auto
qed

theorem all_fill_buffer_equiv_witness:
  "all_rep {0..<100} (all_scorer_new 100) \<and>
   map_option fst (all_fill_buffer (all_scorer_new 100)) = map_option fst (fill_buffer all_ops (all_scorer_new 100))"
proof -
  have rep: "all_rep {0..<100} (all_scorer_new 100)"
    by (simp add: all_rep_def all_scorer_new_def TERMINATED_def)
  then show ?thesis using all_fill_buffer_equiv [OF rep] by blast
qed

lemma seek_loop_docs:
  assumes "seek_loop advance t d b = Some r"
  shows "(\<forall>c e c'. advance c = Some (e, c') \<longrightarrow> bd_docs c' = bd_docs c) \<longrightarrow> bd_docs (snd r) = bd_docs b"
  using assms
proof (rule seek_loop.raw_induct [where P = "\<lambda>advance t d b r.
    (\<forall>c e c'. advance c = Some (e, c') \<longrightarrow> bd_docs c' = bd_docs c) \<longrightarrow> bd_docs (snd r) = bd_docs b", rotated])
  fix f advance t d b r
  assume ih: "\<And>advance t d b r. f advance t d b = Some r \<Longrightarrow>
      (\<forall>c e c'. advance c = Some (e, c') \<longrightarrow> bd_docs c' = bd_docs c) \<longrightarrow> bd_docs (snd r) = bd_docs b"
    and eq: "(if d < t then advance b \<bind> (\<lambda>(d', b'). f advance t d' b') else Some (d, b)) = Some r"
  show "(\<forall>c e c'. advance c = Some (e, c') \<longrightarrow> bd_docs c' = bd_docs c) \<longrightarrow> bd_docs (snd r) = bd_docs b"
  proof (cases "d < t")
    case True
    then obtain e c where "advance b = Some (e, c)" "f advance t e c = Some r"
      using eq by (auto split: bind_splits)
    then show ?thesis using ih by fastforce
  qed (use eq in auto)
qed

lemma bd_seek_docs: "bd_seek t b = Some (d, b') \<Longrightarrow> bd_docs b' = bd_docs b"
  using seek_loop_docs [of bd_advance t "bd_doc b" b "(d, b')"] bd_advance_docs
  by (fastforce simp: bd_seek_def go_to_bucket_def Let_def split: if_splits bind_splits)

text \<open>
  Property C29. A bitset of positive capacity, at most \<open>TERMINATED\<close>, is a document set. Every state keeps the laws of
  iteration. The set built from the bitset holds exactly its elements: the buffered iteration ends and calls its
  callback with all of them in ascending order, one buffer holds the first 64, and counting gives their
  number. From every state over the bitset, with any documents left, seeking to a target below the capacity that is
  not behind the current document lands on the first document left at or after the target, and leaves exactly those
  from the target on.
\<close>

theorem bitset_docset_correct:
  assumes "bitset_inv docs" and "0 < bs_max_value docs" and "bs_max_value docs \<le> TERMINATED"
  shows "docset_iter bitset_docset_ops bd_rep \<and>
    (\<exists>b. bitset_docset_from docs = Some b \<and> bd_docs b = docs \<and> bd_rep (bitset_elems docs) b \<and>
      map_option (concat \<circ> fst) (for_each_docset_buffered bitset_docset_ops b) = Some (sorted_list_of_set (bitset_elems docs)) \<and>
      map_option fst (fill_buffer bitset_docset_ops b) = Some (take 64 (sorted_list_of_set (bitset_elems docs))) \<and>
      map_option fst (count_including_deleted bitset_docset_ops b) = Some (card (bitset_elems docs))) \<and>
    (\<forall>D b t. bd_rep D b \<and> bd_docs b = docs \<and> bd_doc b \<le> t \<and> t < bs_max_value docs \<longrightarrow>
      (\<exists>b'. bd_seek t b = Some (first_doc (D \<inter> {t..}), b') \<and> bd_rep (D \<inter> {t..}) b' \<and> bd_docs b' = docs))"
proof (intro conjI allI impI)
  show "docset_iter bitset_docset_ops bd_rep" by unfold_locales
  obtain b where b: "bitset_docset_from docs = Some b" "bd_rep (bitset_elems docs) b"
    using bitset_docset_from_rep [OF assms] by blast
  have docs: "bd_docs b = docs"
    using b(1) bd_advance_docs by (auto simp: bitset_docset_from_def split: bind_splits)
  show "\<exists>b. bitset_docset_from docs = Some b \<and> bd_docs b = docs \<and> bd_rep (bitset_elems docs) b \<and>
      map_option (concat \<circ> fst) (for_each_docset_buffered bitset_docset_ops b) = Some (sorted_list_of_set (bitset_elems docs)) \<and>
      map_option fst (fill_buffer bitset_docset_ops b) = Some (take 64 (sorted_list_of_set (bitset_elems docs))) \<and>
      map_option fst (count_including_deleted bitset_docset_ops b) = Some (card (bitset_elems docs))"
    using b docs bd_iter.for_each_docset_buffered_law [OF b(2)] bd_iter.fill_buffer_law [OF b(2)]
      bd_iter.count_including_deleted_law [OF b(2)] by (intro exI [of _ b]) auto
next
  fix D b t
  assume h: "bd_rep D b \<and> bd_docs b = docs \<and> bd_doc b \<le> t \<and> t < bs_max_value docs"
  then have "first_doc D \<le> t" using bd_iter.doc_first [of D b] by (simp add: bitset_docset_ops_def)
  then obtain b' where b': "bd_seek t b = Some (bd_doc b', b')" "bd_rep (D \<inter> {t..}) b'"
    using bd_seek_law [of D b t] h by blast
  then show "\<exists>b'. bd_seek t b = Some (first_doc (D \<inter> {t..}), b') \<and> bd_rep (D \<inter> {t..}) b' \<and> bd_docs b' = docs"
    using bd_iter.doc_first [OF b'(2)] bd_seek_docs [OF b'(1)] h by (simp add: bitset_docset_ops_def)
qed

theorem bitset_docset_correct_witness:
  "\<exists>b b'. bitset_docset_from (bitset_with_max_value_and_full 70) = Some b \<and>
    map_option fst (count_including_deleted bitset_docset_ops b) = Some 70 \<and>
    map_option (concat \<circ> fst) (for_each_docset_buffered bitset_docset_ops b) = Some [0..<70] \<and>
    bd_seek 66 b = Some (66, b')"
proof -
  have inv: "bitset_inv (bitset_with_max_value_and_full 70)"
    and el: "bitset_elems (bitset_with_max_value_and_full 70) = {..<70}"
    using bitset_full_correct [of 70] bitset_full_elems [of 70] by simp_all
  have mv: "bs_max_value (bitset_with_max_value_and_full 70) = 70"
    by (simp add: bitset_with_max_value_and_full_def Let_def)
  have r: "0 < bs_max_value (bitset_with_max_value_and_full 70)"
    "bs_max_value (bitset_with_max_value_and_full 70) \<le> TERMINATED"
    by (simp_all add: mv TERMINATED_def)
  have sl: "sorted_list_of_set {..<70 :: nat} = [0..<70]" by (simp only: lessThan_atLeast0 sorted_list_of_set_range)
  note th = bitset_docset_correct [OF inv r, unfolded el mv sl]
  obtain b where b: "bitset_docset_from (bitset_with_max_value_and_full 70) = Some b" "bd_docs b = bitset_with_max_value_and_full 70"
    "bd_rep {..<70} b" "map_option (concat \<circ> fst) (for_each_docset_buffered bitset_docset_ops b) = Some [0..<70]"
    "map_option fst (count_including_deleted bitset_docset_ops b) = Some (card {..<70 :: nat})" using th by blast
  have "first_doc {..<70} = 0" by (rule first_doc_eqI) (auto simp: TERMINATED_def)
  then have "bd_doc b \<le> 66" using bd_iter.doc_first [OF b(3)] by (simp add: bitset_docset_ops_def)
  then obtain b' where b': "bd_seek 66 b = Some (first_doc ({..<70} \<inter> {66..}), b')" using th b(2,3) by fastforce
  have "first_doc ({..<70} \<inter> {66..}) = 66" by (rule first_doc_eqI) (auto simp: TERMINATED_def)
  then show ?thesis using b b' by (intro exI [of _ b] exI [of _ b']) simp
qed

text \<open>
  Property C37. Two corners break what the trait promises. Building the document set of a bitset of
  capacity zero panics although the constructor provides for that case, because advancing slices
  the buckets from one. And from every state that still has documents to come after the current one, seeking to a
  target at or above the capacity reports termination but leaves the cursor: the next \<open>advance\<close> on the terminated
  set goes back to the first of these documents.
\<close>

theorem bitset_docset_corners:
  "bitset_docset_from (bitset_with_max_value 0) = None \<and>
   (\<forall>b. bd_wf b \<and> bd_later b \<noteq> {} \<and> bs_max_value (bd_docs b) \<le> t \<longrightarrow>
      (\<exists>b' b''. bd_seek t b = Some (TERMINATED, b') \<and> bd_doc b' = TERMINATED \<and>
         bd_advance b' = Some (first_doc (bd_later b), b'') \<and> first_doc (bd_later b) < TERMINATED))"
proof -
  have "bitset_docset_from (bitset_with_max_value 0) = None"
    by (simp add: bitset_docset_from_def bitset_with_max_value_def bd_advance_def bd_pop_def
        first_non_empty_bucket_def num_buckets_def bit_laws)
  moreover have "\<exists>b' b''. bd_seek t b = Some (TERMINATED, b') \<and> bd_doc b' = TERMINATED \<and>
      bd_advance b' = Some (first_doc (bd_later b), b'') \<and> first_doc (bd_later b) < TERMINATED"
    if "bd_wf b" "bd_later b \<noteq> {}" "bs_max_value (bd_docs b) \<le> t" for b
  proof -
    let ?b = "b\<lparr>bd_doc := TERMINATED\<rparr>"
    have wf: "bd_wf ?b" and later: "bd_later ?b = bd_later b" using that(1) by (simp_all add: bd_wf_def bd_later_def)
    obtain b'' where b'': "bd_advance ?b = Some (bd_doc b'', b'')" "bd_rep (bd_later b) b''"
      using bd_advance_law [OF wf] later by auto
    have "bd_doc b'' = first_doc (bd_later b)"
      using bd_iter.doc_first [OF b''(2)] by (simp add: bitset_docset_ops_def)
    moreover have "first_doc (bd_later b) < TERMINATED"
      using bd_later_bound [OF that(1)] first_doc_in [OF that(2)] by auto
    ultimately show ?thesis using that(3) b''(1) by (simp add: bd_seek_def)
  qed
  ultimately show ?thesis by blast
qed

theorem bitset_docset_corners_witness:
  "\<exists>b' b''. bd_seek 10 \<lparr>bd_docs = bitset_with_max_value_and_full 10, bd_cursor_bucket = 0,
       bd_cursor_tinybitset = tinyset_range_lower 10, bd_doc = 0\<rparr> = Some (TERMINATED, b') \<and>
     bd_doc b' = TERMINATED \<and> bd_advance b' = Some (0, b'')"
proof -
  let ?b = "\<lparr>bd_docs = bitset_with_max_value_and_full 10, bd_cursor_bucket = 0,
       bd_cursor_tinybitset = tinyset_range_lower 10, bd_doc = 0\<rparr>"
  have "bd_wf ?b"
    using bitset_full_correct [of 10]
    by (simp add: bd_wf_def TERMINATED_def) (simp add: bitset_with_max_value_and_full_def Let_def num_buckets_def)
  moreover have l: "0 \<in> bd_later ?b"
    using elems_range_lower [of 10] by (auto simp: bd_later_def)
  moreover have "bs_max_value (bd_docs ?b) \<le> 10" by (simp add: bitset_with_max_value_and_full_def Let_def)
  moreover have "first_doc (bd_later ?b) = 0"
    using first_doc_le [OF l] bd_later_bound [OF calculation(1)] by simp
  ultimately show ?thesis using bitset_docset_corners [of 10] by (metis empty_iff)
qed

end
