(* ===== verification/Exclude.thy ===== *)
theory Exclude
  imports LeafDocSets
begin

text \<open>
  \<open>Exclude\<close> of \<^verbatim>\<open>src/query/exclude.rs\<close>: a document set from which the documents of an exclusion set
  are removed. The exclusion set is a document set or a vector of them, asked through
  \<open>seek_danger\<close> only. The main lemma is that \<open>Exclude\<close> keeps the document-set contract and holds the
  set difference.
\<close>

section \<open>Exclusion sets\<close>

definition contains_docset :: "'s docset_ops \<Rightarrow> nat \<Rightarrow> 's \<Rightarrow> (bool \<times> 's) option" where
  "contains_docset ops doc s = map_option (\<lambda>(r, s'). (r = Found, s')) (ds_seek_danger ops doc s)"

fun contains_vec :: "'s docset_ops \<Rightarrow> nat \<Rightarrow> 's list \<Rightarrow> (bool \<times> 's list) option" where
  "contains_vec ops doc [] = Some (False, [])"
| "contains_vec ops doc (s # ss) =
     ds_seek_danger ops doc s \<bind> (\<lambda>(r, s').
       if r = Found then Some (True, s' # ss)
       else contains_vec ops doc ss \<bind> (\<lambda>(b, ss'). Some (b, s' # ss')))"

section \<open>Exclude\<close>

record ('s, 'e) exclude =
  ex_underlying :: 's
  ex_exclusion :: 'e

partial_function (option) exclude_new ::
  "'s docset_ops \<Rightarrow> (nat \<Rightarrow> 'e \<Rightarrow> (bool \<times> 'e) option) \<Rightarrow> 's \<Rightarrow> 'e \<Rightarrow> ('s, 'e) exclude option" where
  "exclude_new ops contains u e =
     (if ds_doc ops u \<noteq> TERMINATED then
        contains (ds_doc ops u) e \<bind> (\<lambda>(c, e').
          if \<not> c then Some \<lparr>ex_underlying = u, ex_exclusion = e'\<rparr>
          else ds_advance ops u \<bind> (\<lambda>(_, u'). exclude_new ops contains u' e'))
      else Some \<lparr>ex_underlying = u, ex_exclusion = e\<rparr>)"

partial_function (option) exclude_advance ::
  "'s docset_ops \<Rightarrow> (nat \<Rightarrow> 'e \<Rightarrow> (bool \<times> 'e) option) \<Rightarrow> ('s, 'e) exclude \<Rightarrow> (nat \<times> ('s, 'e) exclude) option" where
  "exclude_advance ops contains x =
     ds_advance ops (ex_underlying x) \<bind> (\<lambda>(candidate, u').
       if candidate = TERMINATED then Some (TERMINATED, x\<lparr>ex_underlying := u'\<rparr>)
       else contains candidate (ex_exclusion x) \<bind> (\<lambda>(c, e').
         if \<not> c then Some (candidate, \<lparr>ex_underlying = u', ex_exclusion = e'\<rparr>)
         else exclude_advance ops contains \<lparr>ex_underlying = u', ex_exclusion = e'\<rparr>))"

definition exclude_seek ::
  "'s docset_ops \<Rightarrow> (nat \<Rightarrow> 'e \<Rightarrow> (bool \<times> 'e) option) \<Rightarrow> nat \<Rightarrow> ('s, 'e) exclude \<Rightarrow> (nat \<times> ('s, 'e) exclude) option" where
  "exclude_seek ops contains target x =
     ds_seek ops target (ex_underlying x) \<bind> (\<lambda>(candidate, u').
       if candidate = TERMINATED then Some (TERMINATED, x\<lparr>ex_underlying := u'\<rparr>)
       else contains candidate (ex_exclusion x) \<bind> (\<lambda>(c, e').
         if \<not> c then Some (candidate, \<lparr>ex_underlying = u', ex_exclusion = e'\<rparr>)
         else exclude_advance ops contains \<lparr>ex_underlying = u', ex_exclusion = e'\<rparr>))"

definition exclude_ops ::
  "'s docset_ops \<Rightarrow> (nat \<Rightarrow> 'e \<Rightarrow> (bool \<times> 'e) option) \<Rightarrow> ('s, 'e) exclude docset_ops" where
  "exclude_ops ops contains =
     \<lparr>ds_doc = (\<lambda>x. ds_doc ops (ex_underlying x)),
      ds_advance = exclude_advance ops contains,
      ds_seek = exclude_seek ops contains,
      ds_seek_danger = default_seek_danger (\<lambda>x. ds_doc ops (ex_underlying x)) (exclude_seek ops contains),
      ds_size_hint = (\<lambda>x. ds_size_hint ops (ex_underlying x)),
      ds_cost = (\<lambda>x. ds_size_hint ops (ex_underlying x))\<rparr>"

section \<open>The contract of an exclusion set\<close>

locale exclusion_set =
  fixes contains :: "nat \<Rightarrow> 'e \<Rightarrow> (bool \<times> 'e) option" and eready :: "nat \<Rightarrow> nat set \<Rightarrow> 'e \<Rightarrow> bool"
  assumes eready_bound: "eready t B e \<Longrightarrow> B \<subseteq> {t..<TERMINATED}"
    and eready_mono: "eready t B e \<Longrightarrow> t \<le> u \<Longrightarrow> eready u (B \<inter> {u..}) e"
    and contains_law: "eready t B e \<Longrightarrow> t < TERMINATED \<Longrightarrow>
      \<exists>e'. contains t e = Some (t \<in> B, e') \<and> eready t B e'"

definition vec_ready :: "(nat \<Rightarrow> nat set \<Rightarrow> 's \<Rightarrow> bool) \<Rightarrow> nat \<Rightarrow> nat set \<Rightarrow> 's list \<Rightarrow> bool" where
  "vec_ready ready t B ss \<longleftrightarrow> (\<exists>Bs. list_all2 (ready t) Bs ss \<and> B = \<Union> (set Bs))"

context docset
begin

lemma contains_vec_law:
  assumes "list_all2 (ready t) Bs ss" "t < TERMINATED"
  shows "\<exists>ss'. contains_vec ops t ss = Some (t \<in> \<Union> (set Bs), ss') \<and> list_all2 (ready t) Bs ss'"
  using assms(1)
proof (induction Bs ss rule: list_all2_induct)
  case (Cons B Bs s ss)
  obtain r s' where r: "ds_seek_danger ops t s = Some (r, s')" "ready t B s'" "r = Found \<longleftrightarrow> t \<in> B"
    using seek_danger_ready [OF Cons.hyps(1)] assms(2) by (metis less_imp_le)
  show ?case
  proof (cases "t \<in> B")
    case True
    then show ?thesis using r Cons.hyps by simp
  next
    case False
    then show ?thesis using r Cons.IH by auto
  qed
qed simp

end

sublocale docset \<subseteq> excl: exclusion_set "contains_docset ops" ready
proof
  show "\<exists>e'. contains_docset ops t e = Some (t \<in> B, e') \<and> ready t B e'" if "ready t B e" "t < TERMINATED" for t B e
    using seek_danger_ready [OF that(1)] that(2) by (force simp: contains_docset_def)
qed (rule ready_bound ready_mono; assumption)+

sublocale docset \<subseteq> excl_vec: exclusion_set "contains_vec ops" "vec_ready ready"
proof
  show "B \<subseteq> {t..<TERMINATED}" if "vec_ready ready t B es" for t B es
  proof -
    from that obtain Bs where Bs: "list_all2 (ready t) Bs es" "B = \<Union> (set Bs)" by (auto simp: vec_ready_def)
    have "C \<subseteq> {t..<TERMINATED}" if "C \<in> set Bs" for C
      using Bs(1) that ready_bound by (metis in_set_conv_nth list_all2_nthD)
    then show ?thesis using Bs(2) by auto
  qed
  show "vec_ready ready u (B \<inter> {u..}) es" if "vec_ready ready t B es" "t \<le> u" for t B es u
  proof -
    from that obtain Bs where Bs: "list_all2 (ready t) Bs es" "B = \<Union> (set Bs)" by (auto simp: vec_ready_def)
    have "list_all2 (ready u) (map (\<lambda>C. C \<inter> {u..}) Bs) es"
      unfolding list_all2_map1 by (rule list_all2_mono [OF Bs(1)]) (rule ready_mono [OF _ that(2)])
    moreover have "B \<inter> {u..} = \<Union> (set (map (\<lambda>C. C \<inter> {u..}) Bs))" using Bs(2) by auto
    ultimately show ?thesis unfolding vec_ready_def by blast
  qed
  show "\<exists>e'. contains_vec ops t es = Some (t \<in> B, e') \<and> vec_ready ready t B e'"
    if "vec_ready ready t B es" "t < TERMINATED" for t B es
  proof -
    from that obtain Bs where Bs: "list_all2 (ready t) Bs es" "B = \<Union> (set Bs)" by (auto simp: vec_ready_def)
    from contains_vec_law [OF Bs(1) that(2)] show ?thesis unfolding vec_ready_def Bs(2) by blast
  qed
qed

section \<open>Exclude keeps the contract\<close>

definition exclude_rep ::
  "(nat set \<Rightarrow> 's \<Rightarrow> bool) \<Rightarrow> (nat \<Rightarrow> nat set \<Rightarrow> 'e \<Rightarrow> bool) \<Rightarrow> nat set \<Rightarrow> ('s, 'e) exclude \<Rightarrow> bool" where
  "exclude_rep rep eready D x \<longleftrightarrow>
     (\<exists>A B. rep A (ex_underlying x) \<and> eready (first_doc A) B (ex_exclusion x) \<and> first_doc A \<notin> B \<and> D = A - B)"

locale exclude_of = docset_seek ops rep + exclusion_set contains eready
  for ops :: "'s docset_ops" and rep :: "nat set \<Rightarrow> 's \<Rightarrow> bool"
    and contains :: "nat \<Rightarrow> 'e \<Rightarrow> (bool \<times> 'e) option" and eready :: "nat \<Rightarrow> nat set \<Rightarrow> 'e \<Rightarrow> bool"
begin

abbreviation xrep :: "nat set \<Rightarrow> ('s, 'e) exclude \<Rightarrow> bool" where
  "xrep \<equiv> exclude_rep rep eready"

lemma xrepI:
  "rep A u \<Longrightarrow> eready (first_doc A) B e \<Longrightarrow> first_doc A \<notin> B \<Longrightarrow> D = A - B \<Longrightarrow> xrep D \<lparr>ex_underlying = u, ex_exclusion = e\<rparr>"
  by (auto simp: exclude_rep_def)

lemma terminated_xrep:
  assumes "rep {} u" "eready t B e" "t \<le> TERMINATED"
  shows "xrep {} \<lparr>ex_underlying = u, ex_exclusion = e\<rparr>"
proof (rule xrepI [OF assms(1)])
  have "B \<inter> {TERMINATED..} = {}" using eready_bound [OF assms(2)] by auto
  then show "eready (first_doc {}) {} e" using eready_mono [OF assms(2,3)] by simp
qed simp_all

lemma xrep_first:
  assumes "rep A u" "first_doc A \<notin> B"
  shows "first_doc (A - B) = first_doc A"
proof (cases "A = {}")
  case False
  note bound = rep_bound [OF assms(1)]
  show ?thesis
    by (rule first_doc_eqI) (use first_doc_in [OF False bound] assms(2) bound first_doc_le [OF _ bound] in auto)
qed simp

text \<open>One candidate: ask the exclusion set for the first document of \<open>A\<close>.\<close>

lemma ask_candidate:
  assumes "rep A u" "A \<noteq> {}" "eready t B e" "t \<le> first_doc A"
  obtains e' where "contains (first_doc A) e = Some (first_doc A \<in> B, e')"
    "eready (first_doc A) (B \<inter> {first_doc A..}) e'" "A - B \<inter> {first_doc A..} = A - B"
    "first_doc A \<in> B \<inter> {first_doc A..} \<longleftrightarrow> first_doc A \<in> B"
proof -
  have "first_doc A < TERMINATED" using first_doc_in [OF assms(2) rep_bound [OF assms(1)]] rep_bound [OF assms(1)] by auto
  from contains_law [OF eready_mono [OF assms(3,4)] this] that show ?thesis
    using first_doc_le [OF _ rep_bound [OF assms(1)]] by fastforce
qed

lemma exclude_advance_law:
  assumes "rep A u" "eready (first_doc A) B e"
  shows "\<exists>x. exclude_advance ops contains \<lparr>ex_underlying = u, ex_exclusion = e\<rparr> =
      Some (first_doc ((A - {first_doc A}) - B), x) \<and> xrep ((A - {first_doc A}) - B) x"
  using assms
proof (induction "card A" arbitrary: A u B e rule: less_induct)
  case less
  let ?A = "A - {first_doc A}"
  note bound = rep_bound [OF less.prems(1)]
  obtain u' where u': "ds_advance ops u = Some (first_doc ?A, u')" "rep ?A u'"
    using less.prems(1) by (rule advance_first)
  show ?case
  proof (cases "?A = {}")
    case True
    then have "xrep {} \<lparr>ex_underlying = u', ex_exclusion = e\<rparr>"
      using terminated_xrep [OF _ less.prems(2) first_doc_bound [OF bound]] u'(2) by metis
    then show ?thesis using u'(1) unfolding True by (subst exclude_advance.simps) simp
  next
    case False
    then have "A \<noteq> {}" by auto
    then have lt: "first_doc A < first_doc ?A" using first_doc_minus_gt [OF bound] by blast
    have cnt: "first_doc ?A \<noteq> TERMINATED"
      using False rep_bound [OF u'(2)] by (simp add: first_doc_terminated_iff)
    obtain e' where e': "contains (first_doc ?A) e = Some (first_doc ?A \<in> B, e')"
      "eready (first_doc ?A) (B \<inter> {first_doc ?A..}) e'" "?A - B \<inter> {first_doc ?A..} = ?A - B"
      "first_doc ?A \<in> B \<inter> {first_doc ?A..} \<longleftrightarrow> first_doc ?A \<in> B"
      using ask_candidate [OF u'(2) False less.prems(2) less_imp_le [OF lt]] by blast
    show ?thesis
    proof (cases "first_doc ?A \<in> B")
      case True
      have "card ?A < card A"
        using first_doc_in [OF \<open>A \<noteq> {}\<close> bound] finite_docs [OF bound] by (intro psubset_card_mono) auto
      moreover have "(?A - {first_doc ?A}) - B \<inter> {first_doc ?A..} = ?A - B" using True e'(3) by auto
      ultimately have "\<exists>x. exclude_advance ops contains \<lparr>ex_underlying = u', ex_exclusion = e'\<rparr> =
          Some (first_doc (?A - B), x) \<and> xrep (?A - B) x"
        using less.hyps [OF _ u'(2) e'(2)] by simp
      then show ?thesis using u'(1) e'(1) cnt True by (subst exclude_advance.simps) simp
    next
      case False
      have "xrep (?A - B) \<lparr>ex_underlying = u', ex_exclusion = e'\<rparr>"
        by (rule xrepI [OF u'(2) e'(2)]) (use False e' in auto)
      moreover have "first_doc (?A - B) = first_doc ?A" by (rule xrep_first [OF u'(2) False])
      ultimately show ?thesis using u'(1) e'(1) cnt False by (subst exclude_advance.simps) simp
    qed
  qed
qed

lemma exclude_new_law:
  assumes "rep A u" "eready t B e" "t \<le> first_doc A"
  shows "\<exists>x. exclude_new ops contains u e = Some x \<and> xrep (A - B) x"
  using assms
proof (induction "card A" arbitrary: A u B e t rule: less_induct)
  case less
  note bound = rep_bound [OF less.prems(1)]
  have doc: "ds_doc ops u = first_doc A" using less.prems(1) by (rule doc_first)
  show ?case
  proof (cases "A = {}")
    case True
    then have "xrep {} \<lparr>ex_underlying = u, ex_exclusion = e\<rparr>"
      using terminated_xrep less.prems first_doc_bound [OF bound] by (metis order_trans)
    then show ?thesis using True doc by (subst exclude_new.simps) simp
  next
    case False
    obtain e' where e': "contains (first_doc A) e = Some (first_doc A \<in> B, e')"
      "eready (first_doc A) (B \<inter> {first_doc A..}) e'" "A - B \<inter> {first_doc A..} = A - B"
      "first_doc A \<in> B \<inter> {first_doc A..} \<longleftrightarrow> first_doc A \<in> B"
      using ask_candidate [OF less.prems(1) False less.prems(2,3)] by blast
    have cnt: "first_doc A \<noteq> TERMINATED" using False bound by (simp add: first_doc_terminated_iff)
    show ?thesis
    proof (cases "first_doc A \<in> B")
      case True
      let ?A = "A - {first_doc A}"
      obtain u' where u': "ds_advance ops u = Some (first_doc ?A, u')" "rep ?A u'"
        using less.prems(1) by (rule advance_first)
      have "card ?A < card A"
        using first_doc_in [OF False bound] finite_docs [OF bound] by (intro psubset_card_mono) auto
      moreover have "first_doc A \<le> first_doc ?A" using first_doc_minus_gt [OF bound False] by simp
      moreover have "?A - B \<inter> {first_doc A..} = A - B" using True e'(3) by auto
      ultimately show ?thesis
        using less.hyps [OF _ u'(2) e'(2)] u'(1) e'(1) cnt True doc by (subst exclude_new.simps) simp
    next
      case notin: False
      have "xrep (A - B) \<lparr>ex_underlying = u, ex_exclusion = e'\<rparr>"
        by (rule xrepI [OF less.prems(1) e'(2)]) (use notin e' in auto)
      then show ?thesis using e'(1) cnt notin doc by (subst exclude_new.simps) simp
    qed
  qed
qed

lemma exclude_seek_law:
  assumes "rep A u" "eready (first_doc A) B e" "first_doc A \<le> t" "t \<le> TERMINATED"
  shows "\<exists>x. exclude_seek ops contains t \<lparr>ex_underlying = u, ex_exclusion = e\<rparr> =
      Some (first_doc (A \<inter> {t..} - B), x) \<and> xrep (A \<inter> {t..} - B) x"
proof -
  let ?A = "A \<inter> {t..}"
  note bound = rep_bound [OF assms(1)]
  obtain u' where u': "ds_seek ops t u = Some (first_doc ?A, u')" "rep ?A u'"
    using assms(1,3,4) by (rule seek_first)
  show ?thesis
  proof (cases "?A = {}")
    case True
    then have "xrep {} \<lparr>ex_underlying = u', ex_exclusion = e\<rparr>"
      using terminated_xrep [OF _ assms(2) first_doc_bound [OF bound]] u'(2) by metis
    then show ?thesis using u'(1) unfolding True by (simp add: exclude_seek_def)
  next
    case False
    have "first_doc A \<le> first_doc ?A"
      using assms(3) first_doc_in [OF False rep_bound [OF u'(2)]] by simp
    then obtain e' where e': "contains (first_doc ?A) e = Some (first_doc ?A \<in> B, e')"
      "eready (first_doc ?A) (B \<inter> {first_doc ?A..}) e'" "?A - B \<inter> {first_doc ?A..} = ?A - B"
      "first_doc ?A \<in> B \<inter> {first_doc ?A..} \<longleftrightarrow> first_doc ?A \<in> B"
      using ask_candidate [OF u'(2) False assms(2)] by blast
    have cnt: "first_doc ?A \<noteq> TERMINATED"
      using False rep_bound [OF u'(2)] by (simp add: first_doc_terminated_iff)
    show ?thesis
    proof (cases "first_doc ?A \<in> B")
      case True
      have "(?A - {first_doc ?A}) - B \<inter> {first_doc ?A..} = ?A - B" using True e'(3) by auto
      then show ?thesis
        using exclude_advance_law [OF u'(2) e'(2)] u'(1) e'(1) cnt True by (simp add: exclude_seek_def)
    next
      case notin: False
      have "xrep (?A - B) \<lparr>ex_underlying = u', ex_exclusion = e'\<rparr>"
        by (rule xrepI [OF u'(2) e'(2)]) (use notin e' in auto)
      moreover have "first_doc (?A - B) = first_doc ?A" by (rule xrep_first [OF u'(2) notin])
      ultimately show ?thesis using u'(1) e'(1) cnt notin by (simp add: exclude_seek_def)
    qed
  qed
qed

end

sublocale exclude_of \<subseteq> ex: docset_seek "exclude_ops ops contains" "exclude_rep rep eready"
proof
  show bound: "D \<subseteq> {..<TERMINATED}" if "xrep D x" for D x
    using that by (fastforce simp: exclude_rep_def dest: rep_bound)
  show doc: "ds_doc (exclude_ops ops contains) x = first_doc D" if "xrep D x" for D x
    using that xrep_first doc_first by (fastforce simp: exclude_rep_def exclude_ops_def)
  show "\<exists>x'. ds_advance (exclude_ops ops contains) x = Some (ds_doc (exclude_ops ops contains) x', x') \<and>
      xrep (D - {first_doc D}) x'" if "xrep D x" for D x
  proof -
    from that obtain A B u e where x: "rep A u" "eready (first_doc A) B e"
      "first_doc A \<notin> B" "D = A - B" and eq: "x = \<lparr>ex_underlying = u, ex_exclusion = e\<rparr>"
      by (cases x) (auto simp: exclude_rep_def)
    have "(A - {first_doc A}) - B = D - {first_doc D}"
      unfolding x(4) xrep_first [OF x(1,3)] by auto
    with exclude_advance_law [OF x(1,2)] doc show ?thesis
      by (fastforce simp: exclude_ops_def eq)
  qed
  show "\<exists>x'. ds_seek (exclude_ops ops contains) t x = Some (ds_doc (exclude_ops ops contains) x', x') \<and> xrep (D \<inter> {t..}) x'"
    if "xrep D x" "first_doc D \<le> t" "t \<le> TERMINATED" for D x t
  proof -
    from that(1) obtain A B u e where x: "rep A u" "eready (first_doc A) B e"
      "first_doc A \<notin> B" "D = A - B" and eq: "x = \<lparr>ex_underlying = u, ex_exclusion = e\<rparr>"
      by (cases x) (auto simp: exclude_rep_def)
    have "A \<inter> {t..} - B = D \<inter> {t..}" unfolding x(4) by auto
    moreover have "first_doc A \<le> t" using that(2) x(4) xrep_first [OF x(1,3)] by simp
    ultimately show ?thesis using exclude_seek_law [OF x(1,2) _ that(3)] doc
      by (fastforce simp: exclude_ops_def eq)
  qed
qed

sublocale exclude_of \<subseteq> ex_danger: docset "exclude_ops ops contains" "exclude_rep rep eready" "valid_ready (exclude_rep rep eready)"
  by (rule ex.docset_default) (simp add: exclude_ops_def)

context exclude_of
begin

lemma exclude_docset:
  "docset (exclude_ops ops contains) (exclude_rep rep eready) (valid_ready (exclude_rep rep eready))"
  by unfold_locales

end

interpretation vec_exclude: exclude_of vec_ops vec_rep "contains_vec vec_ops" "vec_ready (valid_ready vec_rep)"
  by unfold_locales

text \<open>
  Property C27. Excluding from any document set that keeps the trait's contract any exclusion set
  that answers membership gives a document set that again keeps the whole contract and holds
  exactly the documents of the first that are not in the second: the constructor returns, iteration
  and count see the difference, and seeking finds the first document of it.
\<close>

theorem exclude_correct:
  assumes "docset_seek ops rep" and "exclusion_set contains eready"
    and "rep A u" and "eready 0 B e"
  shows "docset (exclude_ops ops contains) (exclude_rep rep eready) (valid_ready (exclude_rep rep eready)) \<and>
    (\<exists>x. exclude_new ops contains u e = Some x \<and> exclude_rep rep eready (A - B) x \<and>
      map_option fst (count_including_deleted (exclude_ops ops contains) x) = Some (card (A - B)))"
proof -
  have ex: "exclude_of ops rep contains eready"
    using assms(1,2) by (simp add: exclude_of_def)
  obtain x where x: "exclude_new ops contains u e = Some x" "exclude_rep rep eready (A - B) x"
    using exclude_of.exclude_new_law [OF ex assms(3,4)] by auto
  have ds: "docset (exclude_ops ops contains) (exclude_rep rep eready) (valid_ready (exclude_rep rep eready))"
    by (rule exclude_of.exclude_docset [OF ex])
  then have "docset_iter (exclude_ops ops contains) (exclude_rep rep eready)"
    by (simp add: docset_def docset_seek_def)
  from docset_iter.count_including_deleted_law [OF this x(2)] x ds show ?thesis by auto
qed

theorem exclude_correct_witness:
  "\<exists>x. exclude_new vec_ops (contains_vec vec_ops) \<lparr>vd_doc_ids = [1, 2, 5], vd_cursor = 0\<rparr>
        [\<lparr>vd_doc_ids = [2, 3], vd_cursor = 0\<rparr>] = Some x \<and>
     map_option fst (count_including_deleted (exclude_ops vec_ops (contains_vec vec_ops)) x) = Some 2"
proof -
  have a: "vec_rep {1, 2, 5} \<lparr>vd_doc_ids = [1, 2, 5], vd_cursor = 0\<rparr>"
    and b: "vec_rep {2, 3} \<lparr>vd_doc_ids = [2, 3], vd_cursor = 0\<rparr>"
    by (simp_all add: vec_rep_def TERMINATED_def)
  then have e: "vec_ready (valid_ready vec_rep) 0 {2, 3} [\<lparr>vd_doc_ids = [2, 3], vd_cursor = 0\<rparr>]"
    unfolding vec_ready_def valid_ready_def by (intro exI [of _ "[{2, 3}]"]) auto
  have "({1, 2, 5} :: nat set) - {2, 3} = {1, 5}" by auto
  then show ?thesis
    using exclude_correct [OF vec_seek.docset_seek_axioms vec.excl_vec.exclusion_set_axioms a e] by auto
qed

end
