(* ===== verification/Intersection.thy ===== *)
theory Intersection
  imports LeafDocSets
begin

text \<open>
  \<open>Intersection\<close> of \<^verbatim>\<open>src/query/intersection.rs\<close>: alignment of all children on their first common
  document, advancing through \<open>seek\<close> on the cheapest child and \<open>seek_danger\<close> on the others, the
  dense count over blocks of 1024 documents, and the entry point \<open>intersect_scorers\<close>. The size
  estimate of the intersection is floating-point and stays an argument.
\<close>

section \<open>Definitions\<close>

text \<open>One pass of the loop: stop at the first child that moves past the candidate.\<close>

fun go_to_first_round :: "'s docset_ops \<Rightarrow> nat \<Rightarrow> 's list \<Rightarrow> (nat option \<times> 's list) option" where
  "go_to_first_round ops candidate [] = Some (None, [])"
| "go_to_first_round ops candidate (s # ss) =
     ds_seek ops candidate s \<bind> (\<lambda>(seek_doc, s').
       if seek_doc > candidate then Some (Some (ds_doc ops s'), s' # ss)
       else go_to_first_round ops candidate ss \<bind> (\<lambda>(r, ss'). Some (r, s' # ss')))"

partial_function (option) go_to_first_loop ::
  "'s docset_ops \<Rightarrow> nat \<Rightarrow> 's list \<Rightarrow> (nat \<times> 's list) option" where
  "go_to_first_loop ops candidate ss =
     go_to_first_round ops candidate ss \<bind> (\<lambda>(r, ss').
       case r of None \<Rightarrow> Some (candidate, ss') | Some c \<Rightarrow> go_to_first_loop ops c ss')"

definition go_to_first_doc :: "'s docset_ops \<Rightarrow> 's list \<Rightarrow> (nat \<times> 's list) option" where
  "go_to_first_doc ops ss =
     (if ss = [] then None else go_to_first_loop ops (Max (set (map (ds_doc ops) ss))) ss)"

record ('s, 't) intersection =
  in_left :: 's
  in_right :: 's
  in_others :: "'t list"
  in_segment_num_docs :: nat

definition intersection_new ::
  "'s docset_ops \<Rightarrow> 's list \<Rightarrow> nat \<Rightarrow> ('s, 's) intersection option" where
  "intersection_new ops ss num_docs =
     (if length ss \<ge> 2 then
        go_to_first_doc ops (sort_key (ds_cost ops) ss) \<bind> (\<lambda>(_, ss').
          case ss' of
            left # right # others \<Rightarrow> Some \<lparr>in_left = left, in_right = right, in_others = others,
              in_segment_num_docs = num_docs\<rparr>
          | _ \<Rightarrow> None)
      else None)"

text \<open>Ask the other children in order; stop at the first that does not hold the candidate.\<close>

fun seek_others :: "'t docset_ops \<Rightarrow> nat \<Rightarrow> 't list \<Rightarrow> (seek_danger_result \<times> 't list) option" where
  "seek_others ops candidate [] = Some (Found, [])"
| "seek_others ops candidate (s # ss) =
     ds_seek_danger ops candidate s \<bind> (\<lambda>(r, s').
       case r of
         SeekLowerBound b \<Rightarrow> Some (SeekLowerBound b, s' # ss)
       | Found \<Rightarrow> seek_others ops candidate ss \<bind> (\<lambda>(r', ss'). Some (r', s' # ss')))"

partial_function (option) seek_from_candidate ::
  "'s docset_ops \<Rightarrow> 't docset_ops \<Rightarrow> nat \<Rightarrow> ('s, 't) intersection \<Rightarrow> (nat \<times> ('s, 't) intersection) option" where
  "seek_from_candidate ops ops2 candidate x =
     (if candidate < TERMINATED then
        ds_seek ops candidate (in_left x) \<bind> (\<lambda>(candidate', left).
        ds_seek_danger ops candidate' (in_right x) \<bind> (\<lambda>(r, right).
          case r of
            SeekLowerBound b \<Rightarrow> seek_from_candidate ops ops2 b (x\<lparr>in_left := left, in_right := right\<rparr>)
          | Found \<Rightarrow>
              seek_others ops2 candidate' (in_others x) \<bind> (\<lambda>(r', others).
                case r' of
                  SeekLowerBound b \<Rightarrow> seek_from_candidate ops ops2 b
                    (x\<lparr>in_left := left, in_right := right, in_others := others\<rparr>)
                | Found \<Rightarrow> Some (candidate', x\<lparr>in_left := left, in_right := right, in_others := others\<rparr>))))
      else
        ds_seek ops TERMINATED (in_left x) \<bind> (\<lambda>(_, left). Some (TERMINATED, x\<lparr>in_left := left\<rparr>)))"

definition intersection_advance ::
  "'s docset_ops \<Rightarrow> 't docset_ops \<Rightarrow> ('s, 't) intersection \<Rightarrow> (nat \<times> ('s, 't) intersection) option" where
  "intersection_advance ops ops2 x = seek_from_candidate ops ops2 (ds_doc ops (in_left x) + 1) x"

definition intersection_seek ::
  "'s docset_ops \<Rightarrow> 't docset_ops \<Rightarrow> nat \<Rightarrow> ('s, 't) intersection \<Rightarrow> (nat \<times> ('s, 't) intersection) option" where
  "intersection_seek ops ops2 target x =
     (if target \<le> ds_doc ops (in_left x) then Some (ds_doc ops (in_left x), x)
      else seek_from_candidate ops ops2 target x)"

definition intersection_seek_danger ::
  "'s docset_ops \<Rightarrow> 't docset_ops \<Rightarrow> nat \<Rightarrow> ('s, 't) intersection \<Rightarrow>
     (seek_danger_result \<times> ('s, 't) intersection) option" where
  "intersection_seek_danger ops ops2 target x =
     ds_seek_danger ops target (in_left x) \<bind> (\<lambda>(r, left).
       case r of
         SeekLowerBound b \<Rightarrow> Some (SeekLowerBound b, x\<lparr>in_left := left\<rparr>)
       | Found \<Rightarrow>
           ds_seek_danger ops target (in_right x) \<bind> (\<lambda>(r', right).
             case r' of
               SeekLowerBound b \<Rightarrow> Some (SeekLowerBound b, x\<lparr>in_left := left, in_right := right\<rparr>)
             | Found \<Rightarrow>
                 seek_others ops2 target (in_others x) \<bind> (\<lambda>(r'', others).
                   Some (r'', x\<lparr>in_left := left, in_right := right, in_others := others\<rparr>))))"

definition intersection_ops ::
  "(('s, 't) intersection \<Rightarrow> nat) \<Rightarrow> 's docset_ops \<Rightarrow> 't docset_ops \<Rightarrow> ('s, 't) intersection docset_ops" where
  "intersection_ops estimate ops ops2 =
     \<lparr>ds_doc = (\<lambda>x. ds_doc ops (in_left x)),
      ds_advance = intersection_advance ops ops2,
      ds_seek = intersection_seek ops ops2,
      ds_seek_danger = intersection_seek_danger ops ops2,
      ds_size_hint = estimate,
      ds_cost = (\<lambda>x. ds_cost ops (in_left x))\<rparr>"

definition EMPTY_BLOCK :: "tinyset list" where
  "EMPTY_BLOCK = replicate BLOCK_NUM_TINYBITSETS tinyset_empty"

definition and_blocks_and_return_is_empty :: "tinyset list \<Rightarrow> tinyset list \<Rightarrow> bool \<times> tinyset list" where
  "and_blocks_and_return_is_empty msk update =
     (let msk' = map2 tinyset_intersect msk update in (list_all tinyset_is_empty msk', msk'))"

text \<open>
  The inner loop over the other children. Its \<open>continue\<close> goes on with the next child, so an empty
  mask does not cut it short.
\<close>

fun dense_others ::
  "'t docset_ops \<Rightarrow> nat \<Rightarrow> nat \<Rightarrow> tinyset list \<Rightarrow> 't list \<Rightarrow> (nat \<times> tinyset list \<times> 't list) option" where
  "dense_others ops base next_base msk [] = Some (next_base, msk, [])"
| "dense_others ops base next_base msk (s # ss) =
     fill_bitset_block ops base EMPTY_BLOCK s \<bind> (\<lambda>(n, other_mask, s').
     dense_others ops base (max next_base n) (snd (and_blocks_and_return_is_empty msk other_mask)) ss
       \<bind> (\<lambda>(nb, msk', ss'). Some (nb, msk', s' # ss')))"

partial_function (option) count_dense_loop ::
  "'s docset_ops \<Rightarrow> 't docset_ops \<Rightarrow> nat \<Rightarrow> nat \<Rightarrow> ('s, 't) intersection \<Rightarrow> (nat \<times> ('s, 't) intersection) option" where
  "count_dense_loop ops ops2 n next_base x =
     (if next_base < TERMINATED then
        fill_bitset_block ops next_base EMPTY_BLOCK (in_left x) \<bind> (\<lambda>(nl, msk, left).
        fill_bitset_block ops next_base EMPTY_BLOCK (in_right x) \<bind> (\<lambda>(nr, tail_mask, right).
          let nb = max (max next_base nl) nr;
              x' = x\<lparr>in_left := left, in_right := right\<rparr>;
              (all_empty, msk') = and_blocks_and_return_is_empty msk tail_mask
          in if all_empty then count_dense_loop ops ops2 n nb x'
             else
               dense_others ops2 next_base nb msk' (in_others x) \<bind> (\<lambda>(nb', msk'', others).
                 count_dense_loop ops ops2 (n + sum_list (map tinyset_len msk'')) nb'
                   (x'\<lparr>in_others := others\<rparr>))))
      else Some (n, x))"

definition count_including_deleted_dense ::
  "'s docset_ops \<Rightarrow> 't docset_ops \<Rightarrow> ('s, 't) intersection \<Rightarrow> (nat \<times> ('s, 't) intersection) option" where
  "count_including_deleted_dense ops ops2 x = count_dense_loop ops ops2 0 (ds_doc ops (in_left x)) x"

definition count_including_deleted_sparse ::
  "(('s, 't) intersection \<Rightarrow> nat) \<Rightarrow> 's docset_ops \<Rightarrow> 't docset_ops \<Rightarrow> ('s, 't) intersection \<Rightarrow>
     (nat \<times> ('s, 't) intersection) option" where
  "count_including_deleted_sparse estimate ops ops2 x =
     count_loop (intersection_ops estimate ops ops2) (\<lambda>_. Some True) 0 (ds_doc ops (in_left x)) x"

definition intersection_count ::
  "(('s, 't) intersection \<Rightarrow> nat) \<Rightarrow> 's docset_ops \<Rightarrow> 't docset_ops \<Rightarrow> ('s, 't) intersection \<Rightarrow>
     (nat \<times> ('s, 't) intersection) option" where
  "intersection_count estimate ops ops2 x =
     (if min (ds_size_hint ops (in_left x) * 32) (2 ^ 32 - 1) < in_segment_num_docs x
      then count_including_deleted_sparse estimate ops ops2 x
      else count_including_deleted_dense ops ops2 x)"

datatype 's intersect_scorers_result =
    ScorersEmpty | ScorersSingle 's | ScorersIntersection "('s, 's) intersection"

definition intersect_scorers :: "'s docset_ops \<Rightarrow> 's list \<Rightarrow> nat \<Rightarrow> 's intersect_scorers_result option" where
  "intersect_scorers ops scorers segment_num_docs =
     (case scorers of
        [] \<Rightarrow> Some ScorersEmpty
      | [s] \<Rightarrow> Some (ScorersSingle s)
      | _ \<Rightarrow>
          go_to_first_doc ops (sort_key (ds_cost ops) scorers) \<bind> (\<lambda>(doc, ss).
            if doc = TERMINATED then Some ScorersEmpty
            else case ss of
                left # right # others \<Rightarrow>
                  Some (ScorersIntersection \<lparr>in_left = left, in_right = right, in_others = others,
                    in_segment_num_docs = segment_num_docs\<rparr>)
              | _ \<Rightarrow> None))"

section \<open>Aligning the children\<close>

definition all_docs :: "nat set list \<Rightarrow> nat set" where
  "all_docs Ds = {d. d < TERMINATED \<and> (\<forall>D\<in>set Ds. d \<in> D)}"

lemma all_docs_Cons: "D \<subseteq> {..<TERMINATED} \<Longrightarrow> all_docs (D # Ds) = D \<inter> all_docs Ds"
  by (auto simp: all_docs_def)

lemma all_docs_bound: "all_docs Ds \<subseteq> {..<TERMINATED}"
  by (auto simp: all_docs_def)

context docset_seek
begin

lemma go_to_first_round_law:
  assumes "list_all2 rep Ds ss" "\<forall>D\<in>set Ds. first_doc D \<le> c" "c \<le> TERMINATED"
  shows "\<exists>r ss' Ds'. go_to_first_round ops c ss = Some (r, ss') \<and> list_all2 rep Ds' ss' \<and>
    all_docs Ds' \<inter> {c..} = all_docs Ds \<inter> {c..} \<and>
    (case r of
       None \<Rightarrow> \<forall>D\<in>set Ds'. D \<subseteq> {c..} \<and> first_doc D = c
     | Some c' \<Rightarrow> c < c' \<and> c' \<le> TERMINATED \<and> (\<forall>D\<in>set Ds'. first_doc D \<le> c') \<and> all_docs Ds \<inter> {c..} \<subseteq> {c'..})"
  using assms(1,2)
proof (induction Ds ss rule: list_all2_induct)
  case Nil
  show ?case by (intro exI [of _ None] exI [of _ "[]"]) simp
next
  case (Cons D Ds s ss)
  obtain s' where s': "ds_seek ops c s = Some (first_doc (D \<inter> {c..}), s')" "rep (D \<inter> {c..}) s'"
    using seek_first [OF Cons.hyps(1) _ assms(3)] Cons.prems by auto
  note bound = rep_bound [OF Cons.hyps(1)] and bound' = rep_bound [OF s'(2)]
  have ge: "c \<le> first_doc (D \<inter> {c..})" by (rule first_doc_ge [OF bound' assms(3)]) auto
  show ?case
  proof (cases "first_doc (D \<inter> {c..}) > c")
    case True
    have "all_docs (D # Ds) \<inter> {c..} \<subseteq> {first_doc (D \<inter> {c..})..}"
      using first_doc_le [OF _ bound'] by (auto simp: all_docs_def)
    moreover have "list_all2 rep (D \<inter> {c..} # Ds) (s' # ss)" using s'(2) Cons.hyps(2) by simp
    moreover have "all_docs (D \<inter> {c..} # Ds) \<inter> {c..} = all_docs (D # Ds) \<inter> {c..}" by (auto simp: all_docs_def)
    moreover have "go_to_first_round ops c (s # ss) = Some (Some (first_doc (D \<inter> {c..})), s' # ss)"
      using s' True doc_first [OF s'(2)] by simp
    moreover have "\<forall>E\<in>set Ds. first_doc E \<le> first_doc (D \<inter> {c..})"
      using Cons.prems True by auto
    ultimately show ?thesis using True first_doc_bound [OF bound']
      by (intro exI [of _ "Some (first_doc (D \<inter> {c..}))"] exI [of _ "s' # ss"] exI [of _ "D \<inter> {c..} # Ds"]) simp
  next
    case False
    then have eq: "first_doc (D \<inter> {c..}) = c" using ge by simp
    have "\<forall>D\<in>set Ds. first_doc D \<le> c" using Cons.prems by simp
    from Cons.IH [OF this] obtain r ss' Ds' where
      ih: "go_to_first_round ops c ss = Some (r, ss')" "list_all2 rep Ds' ss'"
        "all_docs Ds' \<inter> {c..} = all_docs Ds \<inter> {c..}"
        "case r of None \<Rightarrow> \<forall>D\<in>set Ds'. D \<subseteq> {c..} \<and> first_doc D = c
         | Some c' \<Rightarrow> c < c' \<and> c' \<le> TERMINATED \<and> (\<forall>D\<in>set Ds'. first_doc D \<le> c') \<and> all_docs Ds \<inter> {c..} \<subseteq> {c'..}"
      by blast
    have "list_all2 rep (D \<inter> {c..} # Ds') (s' # ss')" using s'(2) ih(2) by simp
    moreover have "all_docs (D \<inter> {c..} # Ds') \<inter> {c..} = all_docs (D # Ds) \<inter> {c..}"
      using ih(3) by (auto simp: all_docs_Cons [OF bound] all_docs_Cons [OF bound'])
    moreover have "go_to_first_round ops c (s # ss) = Some (r, s' # ss')"
      using s'(1) False ih(1) by simp
    moreover have "case r of None \<Rightarrow> \<forall>E\<in>set (D \<inter> {c..} # Ds'). E \<subseteq> {c..} \<and> first_doc E = c
       | Some c' \<Rightarrow> c < c' \<and> c' \<le> TERMINATED \<and> (\<forall>E\<in>set (D \<inter> {c..} # Ds'). first_doc E \<le> c') \<and>
           all_docs (D # Ds) \<inter> {c..} \<subseteq> {c'..}"
      using ih(4) eq by (auto simp: all_docs_Cons [OF bound] split: option.splits)
    ultimately show ?thesis by blast
  qed
qed

lemma go_to_first_loop_law:
  assumes "list_all2 rep Ds ss" "\<forall>D\<in>set Ds. first_doc D \<le> c" "c \<le> TERMINATED" "Ds \<noteq> []"
  shows "\<exists>ss' Ds'. go_to_first_loop ops c ss = Some (first_doc (all_docs Ds \<inter> {c..}), ss') \<and>
    list_all2 rep Ds' ss' \<and> all_docs Ds' = all_docs Ds \<inter> {c..} \<and>
    (\<forall>D\<in>set Ds'. first_doc D = first_doc (all_docs Ds \<inter> {c..}))"
  using assms
proof (induction "TERMINATED - c" arbitrary: c Ds ss rule: less_induct)
  case less
  obtain r ss' Ds' where
    r: "go_to_first_round ops c ss = Some (r, ss')" "list_all2 rep Ds' ss'"
      "all_docs Ds' \<inter> {c..} = all_docs Ds \<inter> {c..}"
      "case r of None \<Rightarrow> \<forall>D\<in>set Ds'. D \<subseteq> {c..} \<and> first_doc D = c
       | Some c' \<Rightarrow> c < c' \<and> c' \<le> TERMINATED \<and> (\<forall>D\<in>set Ds'. first_doc D \<le> c') \<and> all_docs Ds \<inter> {c..} \<subseteq> {c'..}"
    using go_to_first_round_law [OF less.prems(1-3)] by blast
  have ne: "Ds' \<noteq> []"
    using r(1,2) less.prems(1,4) by (cases ss) (auto split: bind_splits if_splits)
  show ?case
  proof (cases r)
    case None
    then have al: "\<forall>D\<in>set Ds'. D \<subseteq> {c..} \<and> first_doc D = c" using r(4) by simp
    have "all_docs Ds' \<subseteq> {c..}" using al ne by (cases Ds') (auto simp: all_docs_def)
    then have eq: "all_docs Ds' = all_docs Ds \<inter> {c..}" using r(3) by blast
    have "first_doc (all_docs Ds') = c"
    proof (cases "c = TERMINATED")
      case True
      then have "all_docs Ds' = {}" using eq by (auto simp: all_docs_def)
      then show ?thesis using True by simp
    next
      case False
      have b: "D \<subseteq> {..<TERMINATED}" if "D \<in> set Ds'" for D
        using that r(2) rep_bound by (metis in_set_conv_nth list_all2_nthD)
      have "c \<in> D" if "D \<in> set Ds'" for D
        using al that first_doc_in [OF _ b [OF that]] False by (metis first_doc_empty)
      then have "c \<in> all_docs Ds'" using False less.prems(3) by (auto simp: all_docs_def)
      then show ?thesis using eq by (intro first_doc_eqI) (auto simp: all_docs_def)
    qed
    then show ?thesis using None r(1,2) al eq
      by (intro exI [of _ ss'] exI [of _ Ds']) (simp add: go_to_first_loop.simps)
  next
    case (Some c')
    then have c': "c < c'" "c' \<le> TERMINATED" "\<forall>D\<in>set Ds'. first_doc D \<le> c'" "all_docs Ds \<inter> {c..} \<subseteq> {c'..}"
      using r(4) by auto
    have eq: "all_docs Ds' \<inter> {c'..} = all_docs Ds \<inter> {c..}" using r(3) c'(1,4) by fastforce
    have "TERMINATED - c' < TERMINATED - c" using c'(1,2) by simp
    from less.hyps [OF this r(2) c'(3,2) ne] show ?thesis
      using r(1) Some unfolding eq by (subst go_to_first_loop.simps) simp
  qed
qed

lemma go_to_first_doc_law:
  assumes "list_all2 rep Ds ss" "Ds \<noteq> []"
  shows "\<exists>ss' Ds'. go_to_first_doc ops ss = Some (first_doc (all_docs Ds), ss') \<and>
    list_all2 rep Ds' ss' \<and> all_docs Ds' = all_docs Ds \<and> (\<forall>D\<in>set Ds'. first_doc D = first_doc (all_docs Ds))"
proof -
  let ?c = "Max (set (map (ds_doc ops) ss))"
  have docs: "map (ds_doc ops) ss = map first_doc Ds"
    using assms(1) doc_first by (auto simp: list_all2_conv_all_nth intro: nth_equalityI)
  have b: "D \<subseteq> {..<TERMINATED}" if "D \<in> set Ds" for D
    using that assms(1) rep_bound by (metis in_set_conv_nth list_all2_nthD)
  have le: "\<forall>D\<in>set Ds. first_doc D \<le> ?c" unfolding docs by simp
  have cT: "?c \<le> TERMINATED" unfolding docs using assms(2) first_doc_bound [OF b] by (subst Max_le_iff) auto
  have "?c \<in> first_doc ` set Ds" unfolding docs set_map using assms(2) by (intro Max_in) auto
  then obtain D where D: "D \<in> set Ds" "first_doc D = ?c" by auto
  have "all_docs Ds \<inter> {?c..} = all_docs Ds"
    using D first_doc_le [OF _ b [OF D(1)]] by (auto simp: all_docs_def)
  then show ?thesis using go_to_first_loop_law [OF assms(1) le cT assms(2)] assms
    by (auto simp: go_to_first_doc_def)
qed

end

section \<open>Seeking and advancing\<close>

context docset
begin

lemma list_ready_bound: "list_all2 (ready t) Cs ss \<Longrightarrow> C \<in> set Cs \<Longrightarrow> C \<subseteq> {t..<TERMINATED}"
  using ready_bound by (metis in_set_conv_nth list_all2_nthD)

lemma list_rep_bound: "list_all2 rep Cs ss \<Longrightarrow> C \<in> set Cs \<Longrightarrow> C \<subseteq> {..<TERMINATED}"
  using rep_bound by (metis in_set_conv_nth list_all2_nthD)

lemma list_ready_mono:
  assumes "list_all2 (ready t) Cs ss" "t \<le> u"
  shows "list_all2 (ready u) (map (\<lambda>C. C \<inter> {u..}) Cs) ss"
  unfolding list_all2_map1 by (rule list_all2_mono [OF assms(1)]) (rule ready_mono [OF _ assms(2)])

lemma list_rep_ready:
  assumes "list_all2 rep Cs ss" "\<forall>C\<in>set Cs. first_doc C \<le> t"
  shows "list_all2 (ready t) (map (\<lambda>C. C \<inter> {t..}) Cs) ss"
  using assms by (auto simp: list_all2_conv_all_nth intro: rep_ready)

lemma seek_others_law:
  assumes "list_all2 (ready t) Cs ss" "t \<le> TERMINATED"
  shows "\<exists>r ss'. seek_others ops t ss = Some (r, ss') \<and> list_all2 (ready t) Cs ss' \<and>
    (if \<forall>C\<in>set Cs. t \<in> C then r = Found \<and> list_all2 rep Cs ss'
     else \<exists>b. r = SeekLowerBound b \<and> danger_bound t b \<and> all_docs Cs \<inter> {t..} \<subseteq> {b..})"
  using assms(1)
proof (induction Cs ss rule: list_all2_induct)
  case (Cons C Cs s ss)
  obtain r s' where r: "ds_seek_danger ops t s = Some (r, s')" "danger_result t C r" "ready t C s'"
    "t \<in> C \<Longrightarrow> rep C s'" "r = Found \<longleftrightarrow> t \<in> C"
    using seek_danger_ready [OF Cons.hyps(1) assms(2)] by blast
  show ?case
  proof (cases "t \<in> C")
    case True
    then have rf: "r = Found" using r(5) by simp
    obtain r' ss' where ih: "seek_others ops t ss = Some (r', ss')" "list_all2 (ready t) Cs ss'"
      "if \<forall>C\<in>set Cs. t \<in> C then r' = Found \<and> list_all2 rep Cs ss'
       else \<exists>b. r' = SeekLowerBound b \<and> danger_bound t b \<and> all_docs Cs \<inter> {t..} \<subseteq> {b..}"
      using Cons.IH by blast
    have sub: "all_docs (C # Cs) \<subseteq> all_docs Cs" by (auto simp: all_docs_def)
    have "seek_others ops t (s # ss) = Some (r', s' # ss')" using r(1) rf ih(1) by simp
    then show ?thesis using True r(3,4) ih(2,3) sub by (auto split: if_splits)
  next
    case False
    then obtain b where b: "r = SeekLowerBound b" "danger_bound t b" "\<forall>d\<in>C. b \<le> d"
      using r(2) by (auto simp: danger_result_def)
    then have "seek_others ops t (s # ss) = Some (SeekLowerBound b, s' # ss)" using r(1) by simp
    moreover have "all_docs (C # Cs) \<inter> {t..} \<subseteq> {b..}" using b(3) by (auto simp: all_docs_def)
    ultimately show ?thesis using False r(3) Cons.hyps(2) b by auto
  qed
qed simp

end

text \<open>
  A valid intersection: the left child is valid and, unless it is exhausted, all children are valid
  and aligned. When the left child is exhausted the others may be in any state.
\<close>

definition intersection_rep ::
  "(nat set \<Rightarrow> 's \<Rightarrow> bool) \<Rightarrow> (nat set \<Rightarrow> 't \<Rightarrow> bool) \<Rightarrow> nat set \<Rightarrow> ('s, 't) intersection \<Rightarrow> bool" where
  "intersection_rep rep orep D x \<longleftrightarrow>
     (\<exists>A. rep A (in_left x) \<and>
       (A = {} \<and> D = {} \<or>
        A \<noteq> {} \<and> (\<exists>B Cs. rep B (in_right x) \<and> list_all2 orep Cs (in_others x) \<and> D = all_docs (A # B # Cs) \<and>
          first_doc B = first_doc A \<and> (\<forall>C\<in>set Cs. first_doc C = first_doc A))))"

definition intersection_ready ::
  "(nat \<Rightarrow> nat set \<Rightarrow> 's \<Rightarrow> bool) \<Rightarrow> (nat \<Rightarrow> nat set \<Rightarrow> 't \<Rightarrow> bool) \<Rightarrow> nat \<Rightarrow> nat set \<Rightarrow> ('s, 't) intersection \<Rightarrow> bool" where
  "intersection_ready ready oready t D x \<longleftrightarrow>
     (\<exists>A. ready t A (in_left x) \<and>
       (A = {} \<and> D = {} \<or>
        (\<exists>B Cs. ready t B (in_right x) \<and> list_all2 (oready t) Cs (in_others x) \<and> D = all_docs (A # B # Cs))))"

lemma all_docs_restrict:
  "all_docs (A \<inter> {t..} # B \<inter> {t..} # map (\<lambda>C. C \<inter> {t..}) Cs) = all_docs (A # B # Cs) \<inter> {t..}"
  by (auto simp: all_docs_def)

locale intersection_of = docset ops rep ready + others: docset ops2 orep oready
  for ops :: "'s docset_ops" and rep ready and ops2 :: "'t docset_ops" and orep oready
begin

abbreviation irep :: "nat set \<Rightarrow> ('s, 't) intersection \<Rightarrow> bool" where
  "irep \<equiv> intersection_rep rep orep"

abbreviation iready :: "nat \<Rightarrow> nat set \<Rightarrow> ('s, 't) intersection \<Rightarrow> bool" where
  "iready \<equiv> intersection_ready ready oready"

lemma irep_terminated: "rep {} (in_left x) \<Longrightarrow> irep {} x"
  by (auto simp: intersection_rep_def)

lemma irep_aligned:
  assumes "rep A (in_left x)" "rep B (in_right x)" "list_all2 orep Cs (in_others x)"
    "c \<in> A" "c \<in> B" "\<forall>C\<in>set Cs. c \<in> C" "A \<subseteq> {c..}" "B \<subseteq> {c..}" "\<forall>C\<in>set Cs. C \<subseteq> {c..}"
  shows "irep (all_docs (A # B # Cs)) x" "first_doc (all_docs (A # B # Cs)) = c"
proof -
  have f: "first_doc X = c" if "X \<subseteq> {..<TERMINATED}" "c \<in> X" "X \<subseteq> {c..}" for X
    using that by (intro first_doc_eqI) auto
  have fA: "first_doc A = c" by (rule f [OF rep_bound [OF assms(1)] assms(4,7)])
  have fB: "first_doc B = c" by (rule f [OF rep_bound [OF assms(2)] assms(5,8)])
  have fC: "\<forall>C\<in>set Cs. first_doc C = c"
    using f [OF others.list_rep_bound [OF assms(3)]] assms(6,9) by simp
  have "A \<noteq> {}" using assms(4) by auto
  then show "irep (all_docs (A # B # Cs)) x"
    unfolding intersection_rep_def using assms(1-3) fA fB fC
    by (intro exI [of _ A]) auto
  have "c \<in> all_docs (A # B # Cs)" using assms rep_bound [OF assms(1)] by (auto simp: all_docs_def)
  moreover have "all_docs (A # B # Cs) \<subseteq> {c..}" using assms(7) by (auto simp: all_docs_def)
  ultimately show "first_doc (all_docs (A # B # Cs)) = c" by (rule f [OF all_docs_bound])
qed

lemma irep_first:
  assumes "rep A (in_left x)" "irep D x"
  shows "first_doc D = first_doc A" "D \<subseteq> {first_doc A..}"
proof -
  have "first_doc A = ds_doc ops (in_left x)" using doc_first [OF assms(1)] by simp
  from assms(2) obtain A' where A': "rep A' (in_left x)" and d: "A' = {} \<and> D = {} \<or>
      A' \<noteq> {} \<and> (\<exists>B Cs. rep B (in_right x) \<and> list_all2 orep Cs (in_others x) \<and> D = all_docs (A' # B # Cs) \<and>
          first_doc B = first_doc A' \<and> (\<forall>C\<in>set Cs. first_doc C = first_doc A'))"
    unfolding intersection_rep_def by blast
  have same: "first_doc A' = first_doc A" using doc_first [OF A'] doc_first [OF assms(1)] by simp
  have "first_doc D = first_doc A' \<and> D \<subseteq> {first_doc A'..}"
  proof (cases "A' = {}")
    case False
    then obtain B Cs where h: "rep B (in_right x)" "list_all2 orep Cs (in_others x)" "D = all_docs (A' # B # Cs)"
          "first_doc B = first_doc A'" "\<forall>C\<in>set Cs. first_doc C = first_doc A'"
      using d by blast
    have nT: "first_doc A' \<noteq> TERMINATED" using False rep_bound [OF A'] by (simp add: first_doc_terminated_iff)
    have "first_doc A' \<in> X" if "X \<subseteq> {..<TERMINATED}" "first_doc X = first_doc A'" for X
      using that nT by (metis first_doc_in first_doc_empty)
    then have "first_doc A' \<in> D" unfolding h(3)
      using rep_bound [OF A'] rep_bound [OF h(1)] others.list_rep_bound [OF h(2)] h(4,5) nT first_doc_bound [OF rep_bound [OF A']]
      by (auto simp: all_docs_def)
    moreover have "D \<subseteq> {first_doc A'..}"
      using first_doc_le [OF _ rep_bound [OF A']] by (auto simp: h(3) all_docs_def)
    moreover have "D \<subseteq> {..<TERMINATED}" by (simp add: h(3) all_docs_bound)
    ultimately show ?thesis by (auto intro!: first_doc_eqI)
  qed (use d in auto)
  then show "first_doc D = first_doc A" "D \<subseteq> {first_doc A..}" using same by auto
qed

lemma seek_from_candidate_law:
  assumes "rep A (in_left x)" "first_doc A \<le> c"
    "c < TERMINATED \<Longrightarrow> ready c B (in_right x)" "c < TERMINATED \<Longrightarrow> list_all2 (oready c) Cs (in_others x)"
  shows "\<exists>x'. seek_from_candidate ops ops2 c x = Some (first_doc (all_docs (A # B # Cs) \<inter> {c..}), x') \<and>
    irep (all_docs (A # B # Cs) \<inter> {c..}) x'"
  using assms
proof (induction "TERMINATED - c" arbitrary: c x A B Cs rule: less_induct)
  case less
  show ?case
  proof (cases "c < TERMINATED")
    case False
    have "first_doc A \<le> TERMINATED" using first_doc_bound [OF rep_bound [OF less.prems(1)]] .
    then obtain l where l: "ds_seek ops TERMINATED (in_left x) = Some (first_doc (A \<inter> {TERMINATED..}), l)" "rep (A \<inter> {TERMINATED..}) l"
      using seek_first [OF less.prems(1)] by blast
    have "A \<inter> {TERMINATED..} = {}" using rep_bound [OF less.prems(1)] by auto
    moreover have "all_docs (A # B # Cs) \<inter> {c..} = {}" using False by (auto simp: all_docs_def)
    ultimately show ?thesis using False l irep_terminated [of "x\<lparr>in_left := l\<rparr>"]
      by (subst seek_from_candidate.simps) simp
  next
    case True
    note rdy = less.prems(3) [OF True] and ordy = less.prems(4) [OF True]
    let ?A = "A \<inter> {c..}"
    obtain l where l: "ds_seek ops c (in_left x) = Some (first_doc ?A, l)" "rep ?A l"
      using seek_first [OF less.prems(1,2)] True by auto
    let ?c = "first_doc ?A"
    have cT: "?c \<le> TERMINATED" using first_doc_bound [OF rep_bound [OF l(2)]] .
    have cc: "c \<le> ?c" by (rule first_doc_ge [OF rep_bound [OF l(2)]]) (use True in auto)
    have low: "?A \<subseteq> {?c..}" using first_doc_le [OF _ rep_bound [OF l(2)]] by auto
    let ?B = "B \<inter> {?c..}" and ?Cs = "map (\<lambda>C. C \<inter> {?c..}) Cs"
    have eq: "all_docs (?A # ?B # ?Cs) = all_docs (A # B # Cs) \<inter> {c..}"
      using low cc by (auto simp: all_docs_def)
    have readyB: "ready ?c ?B (in_right x)" by (rule ready_mono [OF rdy cc])
    have readyC: "list_all2 (oready ?c) ?Cs (in_others x)" by (rule others.list_ready_mono [OF ordy cc])
    obtain r r' where r: "ds_seek_danger ops ?c (in_right x) = Some (r, r')" "danger_result ?c ?B r" "ready ?c ?B r'"
      "?c \<in> ?B \<Longrightarrow> rep ?B r'" "r = Found \<longleftrightarrow> ?c \<in> ?B"
      using seek_danger_ready [OF readyB cT] by blast
    have again: "\<exists>x'. seek_from_candidate ops ops2 b y = Some (first_doc (all_docs (A # B # Cs) \<inter> {c..}), x') \<and>
        irep (all_docs (A # B # Cs) \<inter> {c..}) x'"
      if b: "danger_bound ?c b" "all_docs (?A # ?B # ?Cs) \<subseteq> {b..}"
        and y: "in_left y = l" "ready ?c ?B (in_right y)" "list_all2 (oready ?c) ?Cs (in_others y)" for b y
    proof -
      have cb: "?c \<le> b" using b(1) cT by (auto simp: danger_bound_def)
      have "TERMINATED - b < TERMINATED - c" using b(1) cc True by (auto simp: danger_bound_def)
      moreover have "ready b (?B \<inter> {b..}) (in_right y)" by (rule ready_mono [OF y(2) cb])
      moreover have "list_all2 (oready b) (map (\<lambda>C. C \<inter> {b..}) ?Cs) (in_others y)"
        by (rule others.list_ready_mono [OF y(3) cb])
      moreover have "all_docs (?A # ?B \<inter> {b..} # map (\<lambda>C. C \<inter> {b..}) ?Cs) \<inter> {b..} = all_docs (?A # ?B # ?Cs)"
        using b(2) by (auto simp: all_docs_def)
      ultimately show ?thesis using less.hyps [of b ?A y] l(2) y(1) cb eq by metis
    qed
    show ?thesis
    proof (cases "?c \<in> ?B")
      case False
      then obtain b where b: "r = SeekLowerBound b" "danger_bound ?c b" "\<forall>d\<in>?B. b \<le> d"
        using r(2) unfolding danger_result_def by auto
      have "all_docs (?A # ?B # ?Cs) \<subseteq> {b..}" using b(3) by (auto simp: all_docs_def)
      from again [OF b(2) this, of "x\<lparr>in_left := l, in_right := r'\<rparr>"] show ?thesis
        using True l(1) r(1,3) b(1) readyC by (subst seek_from_candidate.simps) simp
    next
      case inB: True
      have rf: "r = Found" using r(5) inB by simp
      obtain ro os where o: "seek_others ops2 ?c (in_others x) = Some (ro, os)" "list_all2 (oready ?c) ?Cs os"
        "if \<forall>C\<in>set ?Cs. ?c \<in> C then ro = Found \<and> list_all2 orep ?Cs os
         else \<exists>b. ro = SeekLowerBound b \<and> danger_bound ?c b \<and> all_docs ?Cs \<inter> {?c..} \<subseteq> {b..}"
        using others.seek_others_law [OF readyC cT] by blast
      let ?x = "x\<lparr>in_left := l, in_right := r', in_others := os\<rparr>"
      show ?thesis
      proof (cases "\<forall>C\<in>set ?Cs. ?c \<in> C")
        case False
        then obtain b where b: "ro = SeekLowerBound b" "danger_bound ?c b" "all_docs ?Cs \<inter> {?c..} \<subseteq> {b..}"
          using o(3) by (metis (no_types, lifting))
        have "all_docs (?A # ?B # ?Cs) \<subseteq> all_docs ?Cs \<inter> {?c..}" using low by (auto simp: all_docs_def)
        then have "all_docs (?A # ?B # ?Cs) \<subseteq> {b..}" using b(3) by blast
        from again [OF b(2) this, of ?x] show ?thesis
          using True l(1) r(1,3) rf o(1,2) b(1) by (subst seek_from_candidate.simps) simp
      next
        case inC: True
        then have o3: "ro = Found" "list_all2 orep ?Cs os" using o(3) by (metis (no_types, lifting))+
        have inA: "?c \<in> ?A"
        proof -
          have "?c < TERMINATED" using inB ready_bound [OF readyB] by auto
          then show ?thesis using first_doc_in [OF _ rep_bound [OF l(2)]] by (metis first_doc_empty less_irrefl)
        qed
        have al: "irep (all_docs (?A # ?B # ?Cs)) ?x" "first_doc (all_docs (?A # ?B # ?Cs)) = ?c"
          using irep_aligned [of ?A ?x ?B ?Cs ?c] l(2) r(4) [OF inB] o3(2) inA inB inC low by auto
        have "seek_from_candidate ops ops2 c x = Some (?c, ?x)"
          using True l(1) r(1) rf o(1) o3(1) by (subst seek_from_candidate.simps) simp
        then show ?thesis using al unfolding eq by simp
      qed
    qed
  qed
qed

lemma irep_cases:
  assumes "irep D x"
  obtains (terminated) "rep {} (in_left x)" "D = {}"
  | (aligned) A B Cs where "rep A (in_left x)" "rep B (in_right x)" "list_all2 orep Cs (in_others x)"
      "D = all_docs (A # B # Cs)" "A \<noteq> {}" "first_doc B = first_doc A" "\<forall>C\<in>set Cs. first_doc C = first_doc A"
      "first_doc D = first_doc A" "D \<subseteq> {first_doc A..}"
  using assms irep_first unfolding intersection_rep_def by metis

lemma intersection_seek_law:
  assumes "irep D x" "first_doc D \<le> t"
  shows "\<exists>x'. seek_from_candidate ops ops2 t x = Some (first_doc (D \<inter> {t..}), x') \<and> irep (D \<inter> {t..}) x'"
  using assms(1)
proof (cases rule: irep_cases)
  case terminated
  have "TERMINATED \<le> t" using assms(2) terminated(2) by simp
  moreover have "all_docs ({} # B # Cs) = {}" for B Cs by (auto simp: all_docs_def)
  ultimately show ?thesis
    using seek_from_candidate_law [OF terminated(1), of t "{}" "[]"] terminated(2) by simp
next
  case (aligned A B Cs)
  have le: "first_doc A \<le> t" using assms(2) aligned(8) by simp
  have "all_docs (A # B \<inter> {t..} # map (\<lambda>C. C \<inter> {t..}) Cs) \<inter> {t..} = D \<inter> {t..}"
    unfolding aligned(4) by (auto simp: all_docs_def)
  moreover have "ready t (B \<inter> {t..}) (in_right x)" using rep_ready [OF aligned(2), of t] aligned(6) le by simp
  moreover have "list_all2 (oready t) (map (\<lambda>C. C \<inter> {t..}) Cs) (in_others x)"
    using others.list_rep_ready [OF aligned(3), of t] aligned(7) le by simp
  ultimately show ?thesis using seek_from_candidate_law [OF aligned(1) le] by metis
qed

lemma intersection_danger_law:
  assumes "iready t D x" "t \<le> TERMINATED"
  shows "\<exists>r x'. intersection_seek_danger ops ops2 t x = Some (r, x') \<and> danger_result t D r \<and>
    (if t \<in> D then irep D x' else iready t D x')"
proof -
  from assms(1) obtain A where A: "ready t A (in_left x)" and
    d: "A = {} \<and> D = {} \<or>
        (\<exists>B Cs. ready t B (in_right x) \<and> list_all2 (oready t) Cs (in_others x) \<and> D = all_docs (A # B # Cs))"
    unfolding intersection_ready_def by blast
  obtain r l where r: "ds_seek_danger ops t (in_left x) = Some (r, l)" "danger_result t A r" "ready t A l"
    "t \<in> A \<Longrightarrow> rep A l" "r = Found \<longleftrightarrow> t \<in> A"
    using seek_danger_ready [OF A assms(2)] by blast
  have sub: "D \<subseteq> A" using d by (auto simp: all_docs_def)
  show ?thesis
  proof (cases "t \<in> A")
    case False
    then obtain b where b: "r = SeekLowerBound b" "danger_bound t b" "\<forall>d\<in>A. b \<le> d"
      using r(2) by (auto simp: danger_result_def)
    have "iready t D (x\<lparr>in_left := l\<rparr>)" using r(3) d by (auto simp: intersection_ready_def)
    moreover have "t \<notin> D" using False sub by auto
    ultimately show ?thesis using r(1) b sub by (auto simp: intersection_seek_danger_def danger_result_def)
  next
    case inA: True
    then have rf: "r = Found" using r(5) by simp
    from inA d obtain B Cs where B: "ready t B (in_right x)" "list_all2 (oready t) Cs (in_others x)" "D = all_docs (A # B # Cs)"
      by auto
    have tT: "t < TERMINATED" using inA ready_bound [OF A] by auto
    obtain q rr where q: "ds_seek_danger ops t (in_right x) = Some (q, rr)" "danger_result t B q" "ready t B rr"
      "t \<in> B \<Longrightarrow> rep B rr" "q = Found \<longleftrightarrow> t \<in> B"
      using seek_danger_ready [OF B(1) assms(2)] by blast
    show ?thesis
    proof (cases "t \<in> B")
      case False
      then obtain b where b: "q = SeekLowerBound b" "danger_bound t b" "\<forall>d\<in>B. b \<le> d"
        using q(2) by (auto simp: danger_result_def)
      have "iready t D (x\<lparr>in_left := l, in_right := rr\<rparr>)"
        unfolding intersection_ready_def using r(3) q(3) B(2,3) by (intro exI [of _ A]) auto
      moreover have "t \<notin> D" "\<forall>d\<in>D. b \<le> d" using False b(3) B(3) by (auto simp: all_docs_def)
      ultimately show ?thesis using r(1) rf q(1) b by (auto simp: intersection_seek_danger_def danger_result_def)
    next
      case inB: True
      then have qf: "q = Found" using q(5) by simp
      obtain ro os where o: "seek_others ops2 t (in_others x) = Some (ro, os)" "list_all2 (oready t) Cs os"
        "if \<forall>C\<in>set Cs. t \<in> C then ro = Found \<and> list_all2 orep Cs os
         else \<exists>b. ro = SeekLowerBound b \<and> danger_bound t b \<and> all_docs Cs \<inter> {t..} \<subseteq> {b..}"
        using others.seek_others_law [OF B(2) assms(2)] by blast
      let ?x = "x\<lparr>in_left := l, in_right := rr, in_others := os\<rparr>"
      have res: "intersection_seek_danger ops ops2 t x = Some (ro, ?x)"
        using r(1) rf q(1) qf o(1) by (simp add: intersection_seek_danger_def)
      have low: "A \<subseteq> {t..}" "B \<subseteq> {t..}" "\<forall>C\<in>set Cs. C \<subseteq> {t..}"
        using ready_bound [OF A] ready_bound [OF B(1)] others.list_ready_bound [OF B(2)] by fastforce+
      show ?thesis
      proof (cases "\<forall>C\<in>set Cs. t \<in> C")
        case True
        then have "ro = Found" "list_all2 orep Cs os" using o(3) by simp_all
        moreover have "t \<in> D" using True inA inB tT B(3) by (simp add: all_docs_def)
        moreover have "irep D ?x"
          unfolding B(3) by (rule irep_aligned(1) [of _ _ _ _ t])
            (use r(4) inA q(4) inB True low \<open>list_all2 orep Cs os\<close> in simp_all)
        ultimately show ?thesis using res by (simp add: danger_result_def)
      next
        case False
        then obtain b where b: "ro = SeekLowerBound b" "danger_bound t b" "all_docs Cs \<inter> {t..} \<subseteq> {b..}"
          using o(3) unfolding if_not_P [OF False] by blast
        have "iready t D ?x"
          unfolding intersection_ready_def using r(3) q(3) o(2) B(3) by (intro exI [of _ A]) auto
        moreover have "t \<notin> D" using False B(3) by (auto simp: all_docs_def)
        moreover have "\<forall>d\<in>D. b \<le> d" using b(3) low(1) B(3) by (auto simp: all_docs_def)
        ultimately show ?thesis using res b by (auto simp: danger_result_def)
      qed
    qed
  qed
qed

lemma irep_bound: "irep D x \<Longrightarrow> D \<subseteq> {..<TERMINATED}"
  unfolding intersection_rep_def using all_docs_bound by auto

end

sublocale intersection_of \<subseteq> inter: docset "intersection_ops estimate ops ops2" "intersection_rep rep orep" "intersection_ready ready oready"
proof
  fix D x
  show "irep D x \<Longrightarrow> D \<subseteq> {..<TERMINATED}" by (rule irep_bound)
  show doc: "ds_doc (intersection_ops estimate ops ops2) x = first_doc D" if "irep D x" for D x
    using that by (cases rule: irep_cases) (auto simp: intersection_ops_def doc_first)
  then have doc': "ds_doc ops (in_left x) = first_doc D" if "irep D x" for D x
    using that by (auto simp: intersection_ops_def)
  show "\<exists>x'. ds_advance (intersection_ops estimate ops ops2) x = Some (ds_doc (intersection_ops estimate ops ops2) x', x') \<and>
      irep (D - {first_doc D}) x'" if "irep D x"
  proof -
    have "D \<inter> {first_doc D + 1..} = D - {first_doc D}"
      using first_doc_le [OF _ irep_bound [OF that]] by (auto simp: Suc_le_eq le_neq_implies_less)
    with intersection_seek_law [OF that, of "first_doc D + 1"] doc show ?thesis
      by (fastforce simp: intersection_ops_def intersection_advance_def doc' [OF that])
  qed
  show "\<exists>x'. ds_seek (intersection_ops estimate ops ops2) t x = Some (ds_doc (intersection_ops estimate ops ops2) x', x') \<and> irep (D \<inter> {t..}) x'"
    if "irep D x" "first_doc D \<le> t" "t \<le> TERMINATED" for t
  proof (cases "t \<le> first_doc D")
    case True
    then have "D \<inter> {t..} = D" using first_doc_le [OF _ irep_bound [OF that(1)]] by fastforce
    then show ?thesis using True that doc' [OF that(1)] by (auto simp: intersection_ops_def intersection_seek_def)
  next
    case False
    with intersection_seek_law [OF that(1,2)] doc show ?thesis
      by (fastforce simp: intersection_ops_def intersection_seek_def doc' [OF that(1)])
  qed
  show "D \<subseteq> {t..<TERMINATED}" if "iready t D x" for t
    using that ready_bound by (fastforce simp: intersection_ready_def all_docs_def)
  show "iready u (D \<inter> {u..}) x" if "iready t D x" "t \<le> u" for t u
  proof -
    from that(1) obtain A where A: "ready t A (in_left x)" and
      d: "A = {} \<and> D = {} \<or>
          (\<exists>B Cs. ready t B (in_right x) \<and> list_all2 (oready t) Cs (in_others x) \<and> D = all_docs (A # B # Cs))"
      unfolding intersection_ready_def by blast
    from d show ?thesis
    proof
      assume "A = {} \<and> D = {}"
      then show ?thesis using ready_mono [OF A that(2)] by (auto simp: intersection_ready_def)
    next
      assume "\<exists>B Cs. ready t B (in_right x) \<and> list_all2 (oready t) Cs (in_others x) \<and> D = all_docs (A # B # Cs)"
      then obtain B Cs where B: "ready t B (in_right x)" "list_all2 (oready t) Cs (in_others x)" "D = all_docs (A # B # Cs)"
        by blast
      show ?thesis unfolding intersection_ready_def B(3) all_docs_restrict [symmetric]
        using ready_mono [OF A that(2)] ready_mono [OF B(1) that(2)] others.list_ready_mono [OF B(2) that(2)] by blast
    qed
  qed
  show "iready t (D \<inter> {t..}) x" if "irep D x" "first_doc D \<le> t" for t
    using that(1)
  proof (cases rule: irep_cases)
    case terminated
    then show ?thesis using rep_ready [OF terminated(1), of t] that(2) by (auto simp: intersection_ready_def)
  next
    case (aligned A B Cs)
    have le: "first_doc A \<le> t" using that(2) aligned(8) by simp
    have "ready t (A \<inter> {t..}) (in_left x)" using rep_ready [OF aligned(1) le] .
    moreover have "ready t (B \<inter> {t..}) (in_right x)" using rep_ready [OF aligned(2), of t] aligned(6) le by simp
    moreover have "list_all2 (oready t) (map (\<lambda>C. C \<inter> {t..}) Cs) (in_others x)"
      using others.list_rep_ready [OF aligned(3), of t] aligned(7) le by simp
    ultimately show ?thesis unfolding intersection_ready_def aligned(4) all_docs_restrict [symmetric] by blast
  qed
  show "\<exists>r x'. ds_seek_danger (intersection_ops estimate ops ops2) t x = Some (r, x') \<and> danger_result t D r \<and>
      (if t \<in> D then irep D x' else iready t D x')" if "iready t D x" "t \<le> TERMINATED" for t
    using intersection_danger_law [OF that] by (simp add: intersection_ops_def)
qed

end
