(* ===== verification/IntersectionCount.thy ===== *)
theory IntersectionCount
  imports Intersection "HOL-Library.Multiset"
begin

text \<open>
  Counting an intersection and the entry points of \<^verbatim>\<open>src/query/intersection.rs\<close>: the dense count
  over blocks of 1024 documents agrees with the number of common documents, and \<open>Intersection::new\<close>
  and \<open>intersect_scorers\<close> build a document set that holds exactly the common documents.
\<close>

section \<open>The dense count\<close>

lemma zip_intersect_map2: "length ts = length us \<Longrightarrow> zip_intersect ts us = map2 tinyset_intersect ts us"
  by (induction ts us rule: list_induct2) auto

lemma and_blocks_elems:
  assumes "length m1 = BLOCK_NUM_TINYBITSETS" "length m2 = BLOCK_NUM_TINYBITSETS"
  shows "buckets_elems (snd (and_blocks_and_return_is_empty m1 m2)) = buckets_elems m1 \<inter> buckets_elems m2"
    and "length (snd (and_blocks_and_return_is_empty m1 m2)) = BLOCK_NUM_TINYBITSETS"
    and "fst (and_blocks_and_return_is_empty m1 m2) \<longleftrightarrow> buckets_elems m1 \<inter> buckets_elems m2 = {}"
proof -
  have zip: "map2 tinyset_intersect m1 m2 = zip_intersect m1 m2" using assms by (simp add: zip_intersect_map2)
  show el: "buckets_elems (snd (and_blocks_and_return_is_empty m1 m2)) = buckets_elems m1 \<inter> buckets_elems m2"
    unfolding and_blocks_and_return_is_empty_def Let_def zip using assms by (simp add: buckets_elems_zip)
  show "length (snd (and_blocks_and_return_is_empty m1 m2)) = BLOCK_NUM_TINYBITSETS"
    using assms by (simp add: and_blocks_and_return_is_empty_def Let_def)
  have "list_all tinyset_is_empty ts \<longleftrightarrow> buckets_elems ts = {}" for ts
  proof -
    have "card (buckets_elems ts) = 0 \<longleftrightarrow> list_all tinyset_is_empty ts"
      unfolding card_buckets_elems by (auto simp: list_all_iff tinyset_len_card is_empty_iff)
    then show ?thesis by simp
  qed
  then show "fst (and_blocks_and_return_is_empty m1 m2) \<longleftrightarrow> buckets_elems m1 \<inter> buckets_elems m2 = {}"
    using el by (simp add: and_blocks_and_return_is_empty_def Let_def)
qed

lemma EMPTY_BLOCK_elems [simp]: "buckets_elems EMPTY_BLOCK = {}" "length EMPTY_BLOCK = BLOCK_NUM_TINYBITSETS"
  by (simp_all add: EMPTY_BLOCK_def)

lemma block_docs_mem: "d \<in> block_docs m X \<longleftrightarrow> d + m \<in> X \<and> d < BLOCK_WINDOW"
proof
  assume "d + m \<in> X \<and> d < BLOCK_WINDOW"
  then show "d \<in> block_docs m X" unfolding block_docs_def by (intro image_eqI [of _ _ "d + m"]) auto
qed (auto simp: block_docs_def)

lemma block_docs_Int: "block_docs m A \<inter> block_docs m B = block_docs m (A \<inter> B)"
  by (auto simp: block_docs_mem)

lemma block_docs_all:
  assumes "A \<subseteq> {..<TERMINATED}"
  shows "{d \<in> block_docs m (A \<inter> B). \<forall>C\<in>set Cs. d \<in> block_docs m C} = block_docs m (all_docs (A # B # Cs))"
  using assms by (auto simp: block_docs_mem all_docs_def)

lemma card_split_window:
  assumes "finite D"
  shows "card (D \<inter> {m..}) = card (block_docs m D) + card (D \<inter> {m + BLOCK_WINDOW..})"
proof -
  have "card (block_docs m D) = card (D \<inter> {m..<m + BLOCK_WINDOW})"
    unfolding block_docs_def by (rule card_image) (auto simp: inj_on_def)
  moreover have "D \<inter> {m..} = (D \<inter> {m..<m + BLOCK_WINDOW}) \<union> (D \<inter> {m + BLOCK_WINDOW..})" by auto
  moreover have "(D \<inter> {m..<m + BLOCK_WINDOW}) \<inter> (D \<inter> {m + BLOCK_WINDOW..}) = {}" by auto
  ultimately show ?thesis using assms by (metis card_Un_disjoint finite_Int)
qed

lemma block_window_pos: "0 < BLOCK_WINDOW"
  by (simp add: BLOCK_WINDOW_def BLOCK_NUM_TINYBITSETS_def)

context docset_seek
begin

text \<open>Filling the block at \<open>m\<close> and moving past it.\<close>

lemma fill_block:
  assumes "rep D s" "first_doc D \<le> m" "m + BLOCK_WINDOW \<le> TERMINATED"
  obtains msk s' where
    "fill_bitset_block ops m EMPTY_BLOCK s = Some (first_doc (D \<inter> {m + BLOCK_WINDOW..}), msk, s')"
    "rep (D \<inter> {m + BLOCK_WINDOW..}) s'" "length msk = BLOCK_NUM_TINYBITSETS" "buckets_elems msk = block_docs m D"
    "m + BLOCK_WINDOW \<le> first_doc (D \<inter> {m + BLOCK_WINDOW..})"
proof -
  have "D \<inter> {m + BLOCK_WINDOW..} \<subseteq> {..<TERMINATED}" using rep_bound [OF assms(1)] by auto
  then have "m + BLOCK_WINDOW \<le> first_doc (D \<inter> {m + BLOCK_WINDOW..})"
    using assms(3) by (rule first_doc_ge) auto
  then show ?thesis using fill_bitset_block_law [OF assms, of EMPTY_BLOCK] that by auto
qed

lemma dense_others_law:
  assumes "list_all2 rep Cs ss" "\<forall>C\<in>set Cs. first_doc C \<le> m" "m + BLOCK_WINDOW \<le> TERMINATED"
    "length msk = BLOCK_NUM_TINYBITSETS"
  defines "rest \<equiv> map (\<lambda>C. C \<inter> {m + BLOCK_WINDOW..}) Cs"
  shows "\<exists>msk' ss'. dense_others ops m nb msk ss =
      Some (Max (insert nb (first_doc ` set rest)), msk', ss') \<and>
    list_all2 rep rest ss' \<and> length msk' = BLOCK_NUM_TINYBITSETS \<and>
    buckets_elems msk' = {d \<in> buckets_elems msk. \<forall>C\<in>set Cs. d \<in> block_docs m C}"
  using assms(1,2,4) unfolding rest_def
proof (induction Cs ss arbitrary: nb msk rule: list_all2_induct)
  case (Cons C Cs s ss)
  obtain om s' where f: "fill_bitset_block ops m EMPTY_BLOCK s = Some (first_doc (C \<inter> {m + BLOCK_WINDOW..}), om, s')"
    "rep (C \<inter> {m + BLOCK_WINDOW..}) s'" "length om = BLOCK_NUM_TINYBITSETS" "buckets_elems om = block_docs m C"
    using fill_block [OF Cons.hyps(1) _ assms(3)] Cons.prems(1) by (metis list.set_intros(1))
  note ab = and_blocks_elems [OF Cons.prems(2) f(3)]
  have "\<forall>C\<in>set Cs. first_doc C \<le> m" using Cons.prems(1) by simp
  from Cons.IH [OF this ab(2), of "max nb (first_doc (C \<inter> {m + BLOCK_WINDOW..}))"]
  obtain msk' ss' where ih: "dense_others ops m (max nb (first_doc (C \<inter> {m + BLOCK_WINDOW..})))
        (snd (and_blocks_and_return_is_empty msk om)) ss =
      Some (Max (insert (max nb (first_doc (C \<inter> {m + BLOCK_WINDOW..}))) (first_doc ` set (map (\<lambda>C. C \<inter> {m + BLOCK_WINDOW..}) Cs))), msk', ss')"
    "list_all2 rep (map (\<lambda>C. C \<inter> {m + BLOCK_WINDOW..}) Cs) ss'" "length msk' = BLOCK_NUM_TINYBITSETS"
    "buckets_elems msk' = {d \<in> buckets_elems (snd (and_blocks_and_return_is_empty msk om)). \<forall>C\<in>set Cs. d \<in> block_docs m C}"
    by blast
  have "Max (insert (max nb a) S) = Max (insert nb (insert a S))" if "finite S" for a and S :: "nat set"
    using that by (cases "S = {}") (auto simp: max.assoc)
  then show ?case using f ih ab(1) by simp
qed simp

end

context intersection_of
begin

lemma count_dense_loop_law:
  assumes "rep A (in_left x)" "rep B (in_right x)" "list_all2 orep Cs (in_others x)"
    "first_doc A \<le> nb" "first_doc B \<le> nb" "\<forall>C\<in>set Cs. first_doc C \<le> nb"
    "\<forall>d \<in> A \<union> B \<union> \<Union> (set Cs). d + BLOCK_WINDOW \<le> TERMINATED" "nb < TERMINATED \<Longrightarrow> nb + BLOCK_WINDOW \<le> TERMINATED"
  shows "\<exists>x'. count_dense_loop ops ops2 n nb x = Some (n + card (all_docs (A # B # Cs) \<inter> {nb..}), x')"
  using assms
proof (induction "TERMINATED - nb" arbitrary: nb n x A B Cs rule: less_induct)
  case less
  show ?case
  proof (cases "nb < TERMINATED")
    case False
    then have "all_docs (A # B # Cs) \<inter> {nb..} = {}" by (auto simp: all_docs_def)
    then show ?thesis using False by (subst count_dense_loop.simps) simp
  next
    case True
    let ?h = "nb + BLOCK_WINDOW"
    note room = less.prems(8) [OF True]
    obtain ml l where l: "fill_bitset_block ops nb EMPTY_BLOCK (in_left x) = Some (first_doc (A \<inter> {?h..}), ml, l)"
      "rep (A \<inter> {?h..}) l" "length ml = BLOCK_NUM_TINYBITSETS" "buckets_elems ml = block_docs nb A" "?h \<le> first_doc (A \<inter> {?h..})"
      using fill_block [OF less.prems(1,4) room] by blast
    obtain mr r where r: "fill_bitset_block ops nb EMPTY_BLOCK (in_right x) = Some (first_doc (B \<inter> {?h..}), mr, r)"
      "rep (B \<inter> {?h..}) r" "length mr = BLOCK_NUM_TINYBITSETS" "buckets_elems mr = block_docs nb B" "?h \<le> first_doc (B \<inter> {?h..})"
      using fill_block [OF less.prems(2,5) room] by blast
    let ?A = "A \<inter> {?h..}" and ?B = "B \<inter> {?h..}"
    define nb1 where "nb1 = max (max nb (first_doc ?A)) (first_doc ?B)"
    define x1 where "x1 = x\<lparr>in_left := l, in_right := r\<rparr>"
    obtain e msk where ab: "and_blocks_and_return_is_empty ml mr = (e, msk)" by force
    have e: "e \<longleftrightarrow> block_docs nb (A \<inter> B) = {}" and msk: "buckets_elems msk = block_docs nb (A \<inter> B)"
      and lm: "length msk = BLOCK_NUM_TINYBITSETS"
      using and_blocks_elems [OF l(3) r(3)] ab l(4) r(4) by (simp_all add: block_docs_Int)
    have docT: "first_doc X + BLOCK_WINDOW \<le> TERMINATED"
      if "X \<subseteq> {..<TERMINATED}" "first_doc X < TERMINATED" "\<forall>d\<in>X. d + BLOCK_WINDOW \<le> TERMINATED" for X
      using that first_doc_in [of X] by (cases "X = {}") auto
    have lowA: "x \<ge> first_doc ?A" if "x \<in> ?A" for x using first_doc_le [OF that rep_bound [OF l(2)]] .
    have lowB: "x \<ge> first_doc ?B" if "x \<in> ?B" for x using first_doc_le [OF that rep_bound [OF r(2)]] .
    have gt1: "nb < nb1" using l(5) block_window_pos by (simp add: nb1_def)
    have room1: "nb1 + BLOCK_WINDOW \<le> TERMINATED" if "nb1 < TERMINATED"
    proof -
      have "nb1 = first_doc ?A \<or> nb1 = first_doc ?B" using l(5) by (auto simp: nb1_def max_def)
      then show ?thesis using docT [of ?A] docT [of ?B] that less.prems(7) rep_bound [OF l(2)] rep_bound [OF r(2)] by auto
    qed
    let ?D = "all_docs (A # B # Cs)"
    show ?thesis
    proof (cases e)
      case True
      have "?D \<inter> {nb..<?h} = {}"
        using True e by (auto simp: all_docs_def block_docs_def)
      then have eq: "?D \<inter> {nb..} = all_docs (?A # ?B # Cs) \<inter> {nb1..}"
        using lowA lowB gt1 by (fastforce simp: all_docs_def nb1_def)
      have "\<exists>x'. count_dense_loop ops ops2 n nb1 x1 = Some (n + card (all_docs (?A # ?B # Cs) \<inter> {nb1..}), x')"
      proof (rule less.hyps)
        show "TERMINATED - nb1 < TERMINATED - nb" using gt1 \<open>nb < TERMINATED\<close> by simp
        show "\<forall>C\<in>set Cs. first_doc C \<le> nb1" using less.prems(6) gt1 by auto
        show "\<forall>d\<in>?A \<union> ?B \<union> \<Union> (set Cs). d + BLOCK_WINDOW \<le> TERMINATED" using less.prems(7) by auto
      qed (use l(2) r(2) less.prems(3) room1 in \<open>auto simp: x1_def nb1_def\<close>)
      then show ?thesis unfolding eq using \<open>nb < TERMINATED\<close> l(1) r(1) ab True
        by (subst count_dense_loop.simps) (simp add: Let_def nb1_def x1_def)
    next
      case False
      let ?Cs = "map (\<lambda>C. C \<inter> {?h..}) Cs"
      define nb2 where "nb2 = Max (insert nb1 (first_doc ` set ?Cs))"
      obtain msk' os where o: "dense_others ops2 nb nb1 msk (in_others x) = Some (nb2, msk', os)"
        "list_all2 orep ?Cs os" "length msk' = BLOCK_NUM_TINYBITSETS"
        "buckets_elems msk' = {d \<in> buckets_elems msk. \<forall>C\<in>set Cs. d \<in> block_docs nb C}"
        using others.dense_others_law [OF less.prems(3,6) room lm, of nb1] unfolding nb2_def by blast
      have el: "buckets_elems msk' = block_docs nb ?D"
        unfolding o(4) msk by (rule block_docs_all [OF rep_bound [OF less.prems(1)]])
      have ge2: "nb1 \<le> nb2" "\<forall>C\<in>set ?Cs. first_doc C \<le> nb2" by (simp_all add: nb2_def)
      have in2: "nb2 \<in> insert nb1 (first_doc ` set ?Cs)" unfolding nb2_def by (rule Max_in) auto
      have room2: "nb2 + BLOCK_WINDOW \<le> TERMINATED" if "nb2 < TERMINATED"
        using in2
      proof
        assume "nb2 = nb1" then show ?thesis using room1 that by simp
      next
        assume "nb2 \<in> first_doc ` set ?Cs"
        then obtain C where C: "C \<in> set ?Cs" "nb2 = first_doc C" by auto
        then show ?thesis using docT [OF others.list_rep_bound [OF o(2) C(1)]] that less.prems(7) by auto
      qed
      have hi: "?D \<inter> {?h..} = all_docs (?A # ?B # ?Cs) \<inter> {nb2..}"
      proof -
        have "x \<ge> nb2" if "x \<in> all_docs (?A # ?B # ?Cs)" for x
        proof -
          have "x \<ge> first_doc C" if "C \<in> set ?Cs" for C
            by (rule first_doc_le [OF _ others.list_rep_bound [OF o(2) that]]) (use \<open>x \<in> _\<close> that in \<open>auto simp: all_docs_def\<close>)
          moreover have "x \<ge> nb1" using that lowA lowB l(5) by (auto simp: all_docs_def nb1_def)
          ultimately show ?thesis using in2 by auto
        qed
        then show ?thesis by (auto simp: all_docs_def)
      qed
      have "finite ?D" using all_docs_bound by (rule finite_docs)
      from card_split_window [OF this, of nb]
      have card: "card (?D \<inter> {nb..}) = sum_list (map tinyset_len msk') + card (all_docs (?A # ?B # ?Cs) \<inter> {nb2..})"
        unfolding card_buckets_elems [symmetric] el hi .
      define x2 where "x2 = x1\<lparr>in_others := os\<rparr>"
      have "\<exists>x'. count_dense_loop ops ops2 (n + sum_list (map tinyset_len msk')) nb2 x2 =
          Some (n + sum_list (map tinyset_len msk') + card (all_docs (?A # ?B # ?Cs) \<inter> {nb2..}), x')"
      proof (rule less.hyps)
        show "TERMINATED - nb2 < TERMINATED - nb" using gt1 ge2(1) \<open>nb < TERMINATED\<close> by simp
        show "\<forall>d\<in>?A \<union> ?B \<union> \<Union> (set ?Cs). d + BLOCK_WINDOW \<le> TERMINATED" using less.prems(7) by auto
        show "first_doc ?A \<le> nb2" "first_doc ?B \<le> nb2" using ge2(1) by (simp_all add: nb1_def)
      qed (use l(2) r(2) o(2) room2 ge2 in \<open>auto simp: x1_def x2_def\<close>)
      then show ?thesis using \<open>nb < TERMINATED\<close> l(1) r(1) ab False o(1) card
        by (subst count_dense_loop.simps) (simp add: Let_def nb1_def [symmetric] x1_def x2_def add.assoc)
    qed
  qed
qed

lemma list_all2_bound:
  assumes "list_all2 R Cs xs" "\<And>C x. R C x \<Longrightarrow> P C" "C \<in> set Cs"
  shows "P C"
  using assms by (auto simp: list_all2_conv_all_nth in_set_conv_nth)

lemma intersection_count_law:
  assumes "irep D x"
    and bounds: "\<And>A s. rep A s \<Longrightarrow> \<forall>d\<in>A. d + BLOCK_WINDOW \<le> TERMINATED"
      "\<And>C s. orep C s \<Longrightarrow> \<forall>d\<in>C. d + BLOCK_WINDOW \<le> TERMINATED"
  shows "map_option fst (intersection_count estimate ops ops2 x) = Some (card D)"
    and "map_option fst (count_including_deleted_dense ops ops2 x) = Some (card D)"
    and "map_option fst (count_including_deleted_sparse estimate ops ops2 x) = Some (card D)"
proof -
  show dense: "map_option fst (count_including_deleted_dense ops ops2 x) = Some (card D)"
    using assms(1)
  proof (cases rule: irep_cases)
    case terminated
    then show ?thesis using doc_first [OF terminated(1)]
      by (simp add: count_including_deleted_dense_def count_dense_loop.simps)
  next
    case (aligned A B Cs)
    have doc: "ds_doc ops (in_left x) = first_doc A" using aligned(1) by (rule doc_first)
    have b: "\<forall>d \<in> A \<union> B \<union> \<Union> (set Cs). d + BLOCK_WINDOW \<le> TERMINATED"
      using bounds(1) [OF aligned(1)] bounds(1) [OF aligned(2)] list_all2_bound [OF aligned(3) bounds(2)] by auto
    have "first_doc A + BLOCK_WINDOW \<le> TERMINATED"
      using b first_doc_in [OF aligned(5) rep_bound [OF aligned(1)]] by auto
    with count_dense_loop_law [OF aligned(1-3), of "first_doc A" 0] aligned(6,7) b
    have "\<exists>x'. count_dense_loop ops ops2 0 (first_doc A) x = Some (card (all_docs (A # B # Cs) \<inter> {first_doc A..}), x')"
      by simp
    moreover have "all_docs (A # B # Cs) \<inter> {first_doc A..} = D" using aligned(4,9) by auto
    ultimately show ?thesis using doc by (auto simp: count_including_deleted_dense_def)
  qed
  show sparse: "map_option fst (count_including_deleted_sparse estimate ops ops2 x) = Some (card D)"
    using inter.count_including_deleted_law [OF assms(1), of estimate]
    by (auto simp: count_including_deleted_sparse_def count_including_deleted_def intersection_ops_def)
  show "map_option fst (intersection_count estimate ops ops2 x) = Some (card D)"
    using dense sparse by (simp add: intersection_count_def)
qed

lemma intersection_doc: "irep D x \<Longrightarrow> ds_doc ops (in_left x) = first_doc D"
  using inter.doc_first [of D x "\<lambda>_. 0"] by (simp add: intersection_ops_def)

lemma intersection_docset:
  "docset (intersection_ops estimate ops ops2) (intersection_rep rep orep) (intersection_ready ready oready)"
  by unfold_locales

end

section \<open>The entry points\<close>

lemma all_docs_set: "set Ds = set Ds' \<Longrightarrow> all_docs Ds = all_docs Ds'"
  by (simp add: all_docs_def)

lemma go_to_first_round_length: "go_to_first_round ops c ss = Some (r, ss') \<Longrightarrow> length ss' = length ss"
  by (induction ss arbitrary: r ss') (auto split: bind_splits if_splits)

lemma go_to_first_loop_length: "go_to_first_loop ops c ss = Some y \<Longrightarrow> length (snd y) = length ss"
proof (rule go_to_first_loop.raw_induct [where P = "\<lambda>ops c ss y. length (snd y) = length ss"])
  fix f ops c ss y
  assume ih: "\<And>ops c ss y. f ops c ss = Some y \<Longrightarrow> length (snd y) = length ss"
    and eq: "go_to_first_round ops c ss \<bind> (\<lambda>(r, ss').
      case r of None \<Rightarrow> Some (c, ss') | Some c' \<Rightarrow> f ops c' ss') = Some y"
  then obtain r ss' where r: "go_to_first_round ops c ss = Some (r, ss')" by (auto split: bind_splits)
  then show "length (snd y) = length ss"
    using eq ih go_to_first_round_length [OF r] by (cases r) auto
qed

lemma go_to_first_length: "go_to_first_doc ops ss = Some (d, ss') \<Longrightarrow> length ss' = length ss"
  using go_to_first_loop_length [of ops _ ss "(d, ss')"] by (auto simp: go_to_first_doc_def split: if_splits)

context docset
begin

text \<open>Documents restricted to a set closed under what the operations do: removal.\<close>

lemma docset_restrict: "docset ops (\<lambda>D s. rep D s \<and> D \<subseteq> S) (\<lambda>t D s. ready t D s \<and> D \<subseteq> S)"
proof unfold_locales
  fix D s t u
  show "D \<subseteq> {..<TERMINATED}" "ds_doc ops s = first_doc D" if "rep D s \<and> D \<subseteq> S"
    using that rep_bound doc_first by blast+
  show "D \<subseteq> {t..<TERMINATED}" if "ready t D s \<and> D \<subseteq> S" using that ready_bound by blast
  show "ready u (D \<inter> {u..}) s \<and> D \<inter> {u..} \<subseteq> S" if "ready t D s \<and> D \<subseteq> S" "t \<le> u"
    using that ready_mono by auto
  show "ready t (D \<inter> {t..}) s \<and> D \<inter> {t..} \<subseteq> S" if "rep D s \<and> D \<subseteq> S" "first_doc D \<le> t"
    using that rep_ready by auto
  show "\<exists>s'. ds_advance ops s = Some (ds_doc ops s', s') \<and> rep (D - {first_doc D}) s' \<and> D - {first_doc D} \<subseteq> S"
    if "rep D s \<and> D \<subseteq> S" using advance_law [of D s] that by blast
  show "\<exists>s'. ds_seek ops t s = Some (ds_doc ops s', s') \<and> rep (D \<inter> {t..}) s' \<and> D \<inter> {t..} \<subseteq> S"
    if "rep D s \<and> D \<subseteq> S" "first_doc D \<le> t" "t \<le> TERMINATED" using seek_law [of D s t] that by blast
  show "\<exists>r s'. ds_seek_danger ops t s = Some (r, s') \<and> danger_result t D r \<and>
      (if t \<in> D then rep D s' \<and> D \<subseteq> S else ready t D s' \<and> D \<subseteq> S)"
    if "ready t D s \<and> D \<subseteq> S" "t \<le> TERMINATED" using danger_law [of t D s] that by (auto split: if_splits)
qed

lemma all_docs_single: "rep D s \<Longrightarrow> all_docs [D] = D"
  using rep_bound [of D s] by (auto simp: all_docs_def)

lemma go_to_first_sorted:
  assumes "list_all2 rep Ds ss" "ss \<noteq> []"
  shows "\<exists>ss' Ds'. go_to_first_doc ops (sort_key f ss) = Some (first_doc (all_docs Ds), ss') \<and>
    length ss' = length ss \<and> list_all2 rep Ds' ss' \<and> all_docs Ds' = all_docs Ds \<and>
    (\<forall>D\<in>set Ds'. first_doc D = first_doc (all_docs Ds))"
proof -
  have "mset (sort_key f ss) = mset ss" by simp
  moreover have "list_all2 rep\<inverse>\<inverse> ss Ds" using assms(1) by (simp add: list.rel_flip)
  ultimately obtain Es where "list_all2 rep\<inverse>\<inverse> (sort_key f ss) Es" "mset Es = mset Ds"
    using list_all2_reorder_left_invariance by blast
  then have Es: "list_all2 rep Es (sort_key f ss)" "mset Es = mset Ds" by (simp_all add: list.rel_flip)
  then have docs: "all_docs Es = all_docs Ds" by (metis all_docs_set set_mset_mset)
  have "Es \<noteq> []" using assms Es by auto
  from go_to_first_doc_law [OF Es(1) this] obtain ss' Ds' where
    g: "go_to_first_doc ops (sort_key f ss) = Some (first_doc (all_docs Ds), ss')" "list_all2 rep Ds' ss'"
      "all_docs Ds' = all_docs Ds" "\<forall>D\<in>set Ds'. first_doc D = first_doc (all_docs Ds)"
    unfolding docs by blast
  moreover have "length ss' = length ss" using go_to_first_length [OF g(1)] by simp
  ultimately show ?thesis by blast
qed

text \<open>What both constructors build: an aligned intersection of all the given sets.\<close>

lemma intersection_build:
  assumes "list_all2 rep Ds ss" "length ss \<ge> 2"
  shows "\<exists>left right others. go_to_first_doc ops (sort_key f ss) =
      Some (first_doc (all_docs Ds), left # right # others) \<and>
    intersection_rep rep rep (all_docs Ds)
      \<lparr>in_left = left, in_right = right, in_others = others, in_segment_num_docs = n\<rparr>"
proof -
  have "ss \<noteq> []" using assms(2) by auto
  from go_to_first_sorted [OF assms(1) this] obtain ss' Ds' where
    g: "go_to_first_doc ops (sort_key f ss) = Some (first_doc (all_docs Ds), ss')" "length ss' = length ss"
      "list_all2 rep Ds' ss'" "all_docs Ds' = all_docs Ds" "\<forall>D\<in>set Ds'. first_doc D = first_doc (all_docs Ds)"
    by blast
  obtain left right others where ss': "ss' = left # right # others"
    using g(2) assms(2) by (cases ss'; cases "tl ss'") auto
  then obtain A B Cs where Ds': "Ds' = A # B # Cs" and r: "rep A left" "rep B right" "list_all2 rep Cs others"
    using g(3) by (auto simp: list_all2_Cons2)
  have "A = {} \<and> all_docs Ds = {} \<or> A \<noteq> {}" using g(4) Ds' by (auto simp: all_docs_def)
  moreover have "first_doc B = first_doc A" "\<forall>C\<in>set Cs. first_doc C = first_doc A" using g(5) Ds' by simp_all
  moreover have "all_docs Ds = all_docs (A # B # Cs)" using g(4) Ds' by simp
  ultimately have "intersection_rep rep rep (all_docs Ds)
      \<lparr>in_left = left, in_right = right, in_others = others, in_segment_num_docs = n\<rparr>"
    unfolding intersection_rep_def intersection.select_convs using r by blast
  then show ?thesis using g(1) unfolding ss' by blast
qed

end

interpretation vec_inter: intersection_of vec_ops vec_rep "valid_ready vec_rep" vec_ops vec_rep "valid_ready vec_rep"
  by unfold_locales

lemma intersection_rep_weaken:
  assumes "intersection_rep (\<lambda>D s. rep D s \<and> P D) (\<lambda>D s. rep D s \<and> P D) D x"
  shows "intersection_rep rep rep D x"
proof -
  obtain A where A: "rep A (in_left x)"
    "A = {} \<and> D = {} \<or> A \<noteq> {} \<and> (\<exists>B Cs. rep B (in_right x) \<and> list_all2 (\<lambda>D s. rep D s \<and> P D) Cs (in_others x) \<and>
        D = all_docs (A # B # Cs) \<and> first_doc B = first_doc A \<and> (\<forall>C\<in>set Cs. first_doc C = first_doc A))"
    using assms unfolding intersection_rep_def by blast
  have "list_all2 rep Cs ss" if "list_all2 (\<lambda>D s. rep D s \<and> P D) Cs ss" for Cs ss
    using that by (rule list_all2_mono) simp
  with A show ?thesis unfolding intersection_rep_def by blast
qed

section \<open>The properties\<close>

text \<open>
  Property C26. Over children that keep the document-set contract, an intersection keeps it as well:
  advancing, seeking and seeking with danger enumerate exactly the documents all children have.
  Building one from two or more children always succeeds, the state built stands on the first common
  document, and counting gives the number of common documents, both by the sparse iteration and by
  the dense blocks (which need the documents to end one block before the sentinel).
\<close>

theorem intersection_correct:
  assumes "docset ops rep ready" "list_all2 rep Ds ss" "length ss \<ge> 2"
    and "\<forall>D\<in>set Ds. \<forall>d\<in>D. d + BLOCK_WINDOW \<le> TERMINATED"
  shows "docset (intersection_ops estimate ops ops) (intersection_rep rep rep) (intersection_ready ready ready) \<and>
    (\<exists>x. intersection_new ops ss n = Some x \<and> intersection_rep rep rep (all_docs Ds) x \<and>
       map_option fst (intersection_count estimate ops ops x) = Some (card (all_docs Ds)) \<and>
       map_option fst (count_including_deleted_dense ops ops x) =
         map_option fst (count_including_deleted_sparse estimate ops ops x))"
proof -
  let ?S = "{d. d + BLOCK_WINDOW \<le> TERMINATED}"
  let ?rep = "\<lambda>D s. rep D s \<and> D \<subseteq> ?S" and ?ready = "\<lambda>t D s. ready t D s \<and> D \<subseteq> ?S"
  have r: "docset ops ?rep ?ready" using assms(1) by (rule docset.docset_restrict)
  have of: "intersection_of ops rep ready ops rep ready" using assms(1) by (simp add: intersection_of_def)
  have of_r: "intersection_of ops ?rep ?ready ops ?rep ?ready" using r by (simp add: intersection_of_def)
  have "list_all2 ?rep Ds ss" using assms(2,4) by (auto simp: list_all2_conv_all_nth)
  from docset.intersection_build [OF r this assms(3), of "ds_cost ops" n]
  obtain x where x: "intersection_new ops ss n = Some x" "intersection_rep ?rep ?rep (all_docs Ds) x"
    using assms(3) by (auto simp: intersection_new_def)
  have "intersection_rep rep rep (all_docs Ds) x" using x(2) by (rule intersection_rep_weaken)
  moreover have "map_option fst (intersection_count estimate ops ops x) = Some (card (all_docs Ds))"
    "map_option fst (count_including_deleted_dense ops ops x) = Some (card (all_docs Ds))"
    "map_option fst (count_including_deleted_sparse estimate ops ops x) = Some (card (all_docs Ds))"
    by (rule intersection_of.intersection_count_law [OF of_r x(2)]; auto)+
  ultimately show ?thesis using x(1) intersection_of.intersection_docset [OF of, of estimate] by auto
qed

theorem intersection_correct_witness:
  "docset vec_ops vec_rep (valid_ready vec_rep) \<and>
   (\<exists>x. intersection_new vec_ops (map (\<lambda>ids. \<lparr>vd_doc_ids = ids, vd_cursor = 0\<rparr>)
     [[2, 4, 7, 9], [1, 4, 9], [4, 5, 9, 11]]) 20 = Some x \<and>
     map_option fst (intersection_count (\<lambda>_. 0) vec_ops vec_ops x) = Some 2)"
proof -
  let ?xss = "[[2, 4, 7, 9], [1, 4, 9], [4, 5, 9, 11]]"
  have d: "docset vec_ops vec_rep (valid_ready vec_rep)" by unfold_locales
  have "all_docs (map set ?xss) = {4, 9}" by (auto simp: all_docs_def TERMINATED_def)
  then show ?thesis
    using intersection_correct [OF d, of "map set ?xss" "map (\<lambda>ids. \<lparr>vd_doc_ids = ids, vd_cursor = 0\<rparr>) ?xss" "\<lambda>_. 0" 20] d
    by (simp add: vec_rep_def TERMINATED_def BLOCK_WINDOW_def BLOCK_NUM_TINYBITSETS_def numeral_2_eq_2) blast
qed

lemma intersect_scorers_law:
  assumes "docset ops rep ready" "list_all2 rep Ds ss"
  shows "case intersect_scorers ops ss n of
      None \<Rightarrow> False
    | Some ScorersEmpty \<Rightarrow> ss = [] \<or> 2 \<le> length ss \<and> all_docs Ds = {}
    | Some (ScorersSingle s) \<Rightarrow> ss = [s] \<and> rep (all_docs Ds) s
    | Some (ScorersIntersection x) \<Rightarrow> 2 \<le> length ss \<and> all_docs Ds \<noteq> {} \<and> intersection_rep rep rep (all_docs Ds) x \<and>
        ds_doc ops (in_left x) = Min (all_docs Ds)"
proof (cases "2 \<le> length ss")
  case True
  have of: "intersection_of ops rep ready ops rep ready" using assms(1) by (simp add: intersection_of_def)
  from docset.intersection_build [OF assms True, of "ds_cost ops" n] obtain left right others where
    b: "go_to_first_doc ops (sort_key (ds_cost ops) ss) = Some (first_doc (all_docs Ds), left # right # others)"
      "intersection_rep rep rep (all_docs Ds)
        \<lparr>in_left = left, in_right = right, in_others = others, in_segment_num_docs = n\<rparr>" (is "intersection_rep _ _ _ ?x")
    by blast
  have "intersect_scorers ops ss n = Some (if all_docs Ds = {} then ScorersEmpty else ScorersIntersection ?x)"
    using b(1) True first_doc_terminated_iff [OF all_docs_bound, of Ds]
    by (auto simp: intersect_scorers_def split: list.splits)
  moreover have "ds_doc ops left = first_doc (all_docs Ds)"
    using intersection_of.intersection_doc [OF of b(2)] by simp
  ultimately show ?thesis using True b(2) by (simp add: first_doc_def)
next
  case False
  then consider "ss = []" | s where "ss = [s]" by (cases ss; cases "tl ss") auto
  then show ?thesis
  proof cases
    case 2
    then obtain D where D: "Ds = [D]" "rep D s" using assms(2) by (auto simp: list_all2_Cons2)
    then have "all_docs Ds = D" using docset.all_docs_single [OF assms(1) D(2)] by simp
    then show ?thesis using 2 D by (simp add: intersect_scorers_def)
  qed (simp add: intersect_scorers_def)
qed

text \<open>
  Property C28. The entry point for conjunctions never fails on valid scorers: no scorer gives the
  empty scorer, one is returned as it is, and two or more give the empty scorer exactly when they have
  no document in common, otherwise an intersection that holds exactly the common documents and
  stands on the first.
\<close>

theorem intersect_scorers_correct:
  assumes "docset ops rep ready" "list_all2 rep Ds ss"
  shows "case intersect_scorers ops ss n of
      None \<Rightarrow> False
    | Some ScorersEmpty \<Rightarrow> ss = [] \<or> 2 \<le> length ss \<and> all_docs Ds = {}
    | Some (ScorersSingle s) \<Rightarrow> ss = [s] \<and> rep (all_docs Ds) s
    | Some (ScorersIntersection x) \<Rightarrow> 2 \<le> length ss \<and> all_docs Ds \<noteq> {} \<and> intersection_rep rep rep (all_docs Ds) x \<and>
        ds_doc ops (in_left x) = Min (all_docs Ds)"
  using assms by (rule intersect_scorers_law)

theorem intersect_scorers_correct_witness:
  "docset vec_ops vec_rep (valid_ready vec_rep) \<and>
   intersect_scorers vec_ops [\<lparr>vd_doc_ids = [2, 4], vd_cursor = 0\<rparr>, \<lparr>vd_doc_ids = [1, 3], vd_cursor = 0\<rparr>] 20 = Some ScorersEmpty \<and>
   (\<exists>x. intersect_scorers vec_ops [\<lparr>vd_doc_ids = [2, 4], vd_cursor = 0\<rparr>, \<lparr>vd_doc_ids = [1, 4], vd_cursor = 0\<rparr>] 20 = Some (ScorersIntersection x) \<and>
     intersection_rep vec_rep vec_rep {4} x)"
proof -
  have d: "docset vec_ops vec_rep (valid_ready vec_rep)" by unfold_locales
  have a: "all_docs [{2, 4}, {1, 3}] = {}" "all_docs [{2, 4}, {1, 4}] = {4}"
    by (auto simp: all_docs_def TERMINATED_def)
  have r: "list_all2 vec_rep [{2, 4}, {1, 3}] [\<lparr>vd_doc_ids = [2, 4], vd_cursor = 0\<rparr>, \<lparr>vd_doc_ids = [1, 3], vd_cursor = 0\<rparr>]"
    "list_all2 vec_rep [{2, 4}, {1, 4}] [\<lparr>vd_doc_ids = [2, 4], vd_cursor = 0\<rparr>, \<lparr>vd_doc_ids = [1, 4], vd_cursor = 0\<rparr>]"
    by (simp_all add: vec_rep_def TERMINATED_def)
  show ?thesis
    using d intersect_scorers_correct [OF d r(1), of 20] intersect_scorers_correct [OF d r(2), of 20]
    unfolding a by (auto split: option.splits intersect_scorers_result.splits)
qed

end
