(* ===== verification/SimpleUnion.thy ===== *)
theory SimpleUnion
  imports LeafDocSets
begin

text \<open>
  \<open>SimpleUnion\<close> of \<^verbatim>\<open>src/query/union/simple_union.rs\<close>: the union that keeps its children side by side,
  and the laws of the smallest document of a union that the other unions share. The \<open>Postings\<close> methods
  of the union (term frequency and positions) are not part of it.
\<close>

section \<open>Definitions\<close>

record 's simple_union =
  su_docsets :: "'s list"
  su_doc :: nat

definition initialize_first_doc_id :: "'s docset_ops \<Rightarrow> 's simple_union \<Rightarrow> 's simple_union" where
  "initialize_first_doc_id ops u =
     u\<lparr>su_doc := foldl (\<lambda>next_doc s. min next_doc (ds_doc ops s)) TERMINATED (su_docsets u)\<rparr>"

definition simple_union_build :: "'s docset_ops \<Rightarrow> 's list \<Rightarrow> 's simple_union" where
  "simple_union_build ops docsets =
     initialize_first_doc_id ops
       \<lparr>su_docsets = filter (\<lambda>s. ds_doc ops s \<noteq> TERMINATED) docsets, su_doc = 0\<rparr>"

fun su_advance_children :: "'s docset_ops \<Rightarrow> nat \<Rightarrow> nat \<Rightarrow> 's list \<Rightarrow> (nat \<times> 's list) option" where
  "su_advance_children ops doc next_doc [] = Some (next_doc, [])"
| "su_advance_children ops doc next_doc (s # ss) =
     (if ds_doc ops s \<le> doc then map_option snd (ds_advance ops s) else Some s) \<bind> (\<lambda>s'.
       su_advance_children ops doc (min next_doc (ds_doc ops s')) ss \<bind> (\<lambda>(n, ss'). Some (n, s' # ss')))"

definition advance_to_next :: "'s docset_ops \<Rightarrow> 's simple_union \<Rightarrow> (nat \<times> 's simple_union) option" where
  "advance_to_next ops u =
     su_advance_children ops (su_doc u) TERMINATED (su_docsets u) \<bind> (\<lambda>(next_doc, ss).
       Some (next_doc, u\<lparr>su_docsets := ss, su_doc := next_doc\<rparr>))"

fun su_seek_children :: "'s docset_ops \<Rightarrow> nat \<Rightarrow> nat \<Rightarrow> 's list \<Rightarrow> (nat \<times> 's list) option" where
  "su_seek_children ops target doc [] = Some (doc, [])"
| "su_seek_children ops target doc (s # ss) =
     (if ds_doc ops s < target then map_option snd (ds_seek ops target s) else Some s) \<bind> (\<lambda>s'.
       su_seek_children ops target (if ds_doc ops s' < doc then ds_doc ops s' else doc) ss
         \<bind> (\<lambda>(n, ss'). Some (n, s' # ss')))"

definition simple_union_seek :: "'s docset_ops \<Rightarrow> nat \<Rightarrow> 's simple_union \<Rightarrow> (nat \<times> 's simple_union) option" where
  "simple_union_seek ops target u =
     su_seek_children ops target TERMINATED (su_docsets u) \<bind> (\<lambda>(doc, ss).
       Some (doc, u\<lparr>su_docsets := ss, su_doc := doc\<rparr>))"

definition simple_union_ops :: "'s docset_ops \<Rightarrow> 's simple_union docset_ops" where
  "simple_union_ops ops =
     \<lparr>ds_doc = su_doc, ds_advance = advance_to_next ops, ds_seek = simple_union_seek ops,
      ds_seek_danger = default_seek_danger su_doc (simple_union_seek ops),
      ds_size_hint = (\<lambda>u. foldl max 0 (map (ds_size_hint ops) (su_docsets u))),
      ds_cost = (\<lambda>u. sum_list (map (ds_cost ops) (su_docsets u)))\<rparr>"

partial_function (option) su_count_loop :: "'s docset_ops \<Rightarrow> nat \<Rightarrow> 's simple_union \<Rightarrow> (nat \<times> 's simple_union) option" where
  "su_count_loop ops count u =
     advance_to_next ops u \<bind> (\<lambda>(doc, u').
       if doc \<noteq> TERMINATED then su_count_loop ops (count + 1) u' else Some (count, u'))"

definition su_count_including_deleted :: "'s docset_ops \<Rightarrow> 's simple_union \<Rightarrow> (nat \<times> 's simple_union) option" where
  "su_count_including_deleted ops u =
     (if su_doc u = TERMINATED then Some (0, u) else su_count_loop ops 1 u)"

section \<open>The smallest document of a union\<close>

lemma first_doc_Un:
  assumes "A \<subseteq> {..<TERMINATED}" "B \<subseteq> {..<TERMINATED}"
  shows "first_doc (A \<union> B) = min (first_doc A) (first_doc B)"
proof (cases "A = {} \<or> B = {}")
  case True
  then show ?thesis using first_doc_bound assms by (auto simp: min_def dest: le_antisym)
next
  case False
  then show ?thesis using finite_docs assms by (simp add: first_doc_def Min_Un)
qed

lemma Union_bound: "\<forall>D\<in>set Ds. D \<subseteq> {..<TERMINATED} \<Longrightarrow> \<Union> (set Ds) \<subseteq> {..<TERMINATED}"
  by auto

context docset_iter
begin

lemma list_rep_bounds: "list_all2 rep Ds ss \<Longrightarrow> \<forall>D\<in>set Ds. D \<subseteq> {..<TERMINATED}"
  using rep_bound by (metis in_set_conv_nth list_all2_nthD)

lemma list_rep_docs: "list_all2 rep Ds ss \<Longrightarrow> map (ds_doc ops) ss = map first_doc Ds"
  by (induction rule: list_all2_induct) (auto simp: doc_first)

lemma fold_min_docs:
  assumes "list_all2 rep Ds ss" "n \<le> TERMINATED"
  shows "foldl (\<lambda>n s. min n (ds_doc ops s)) n ss = min n (first_doc (\<Union> (set Ds)))"
  using assms
proof (induction Ds ss arbitrary: n rule: list_all2_induct)
  case (Cons D Ds s ss)
  note b = rep_bound [OF Cons.hyps(1)] Union_bound [OF list_rep_bounds [OF Cons.hyps(2)]]
  show ?case using Cons.IH [of "min n (first_doc D)"] Cons.prems doc_first [OF Cons.hyps(1)]
    by (simp add: first_doc_Un [OF b] min.assoc)
qed (simp add: min_def)

lemma list_rep_filter:
  assumes "list_all2 rep Ds ss"
  shows "list_all2 rep (filter (\<lambda>D. D \<noteq> {}) Ds) (filter (\<lambda>s. ds_doc ops s \<noteq> TERMINATED) ss)"
  using assms
  by (induction rule: list_all2_induct) (auto simp: doc_first first_doc_terminated_iff [OF rep_bound])

end

section \<open>The union keeps the contract\<close>

definition simple_union_rep :: "(nat set \<Rightarrow> 's \<Rightarrow> bool) \<Rightarrow> nat set \<Rightarrow> 's simple_union \<Rightarrow> bool" where
  "simple_union_rep rep D u \<longleftrightarrow>
     (\<exists>Ds. list_all2 rep Ds (su_docsets u) \<and> D = \<Union> (set Ds) \<and> su_doc u = first_doc D)"

lemma simple_union_repI:
  assumes "list_all2 rep Ds ss" "D = \<Union> (set Ds)" "d = first_doc D"
  shows "simple_union_rep rep D (u\<lparr>su_docsets := ss, su_doc := d\<rparr>)"
  unfolding simple_union_rep_def using assms by (intro exI [of _ Ds]) simp

context docset_seek
begin

lemma su_advance_children_law:
  assumes "list_all2 rep Ds ss" "\<forall>D\<in>set Ds. D \<subseteq> {d..}" "n \<le> TERMINATED"
  shows "\<exists>ss'. su_advance_children ops d n ss = Some (min n (first_doc (\<Union> (set Ds) - {d})), ss') \<and>
    list_all2 rep (map (\<lambda>D. D - {d}) Ds) ss'"
  using assms
proof (induction Ds ss arbitrary: n rule: list_all2_induct)
  case (Cons D Ds s ss)
  note b = rep_bound [OF Cons.hyps(1)] and bs = Union_bound [OF list_rep_bounds [OF Cons.hyps(2)]]
  obtain s' where s': "(if ds_doc ops s \<le> d then map_option snd (ds_advance ops s) else Some s) = Some s'"
    "rep (D - {d}) s'"
  proof (cases "ds_doc ops s \<le> d")
    case True
    then have "D - {first_doc D} = D - {d}"
      using Cons.prems(1) doc_first [OF Cons.hyps(1)] first_doc_in [OF _ b] by (cases "D = {}") force+
    then show ?thesis using True that advance_law [OF Cons.hyps(1)] by auto
  next
    case False
    then have "D - {d} = D" using first_doc_le [OF _ b] doc_first [OF Cons.hyps(1)] by force
    then show ?thesis using False that Cons.hyps(1) by simp
  qed
  have "\<forall>D\<in>set Ds. D \<subseteq> {d..}" "min n (first_doc (D - {d})) \<le> TERMINATED" using Cons.prems by auto
  from Cons.IH [OF this] obtain ss' where
    "su_advance_children ops d (min n (first_doc (D - {d}))) ss =
       Some (min (min n (first_doc (D - {d}))) (first_doc (\<Union> (set Ds) - {d})), ss')"
    "list_all2 rep (map (\<lambda>D. D - {d}) Ds) ss'" by blast
  moreover have "\<Union> (set (D # Ds)) - {d} = (D - {d}) \<union> (\<Union> (set Ds) - {d})" by auto
  moreover have "first_doc ((D - {d}) \<union> (\<Union> (set Ds) - {d})) =
      min (first_doc (D - {d})) (first_doc (\<Union> (set Ds) - {d}))"
    using b bs by (intro first_doc_Un) auto
  ultimately show ?case using s' doc_first [OF s'(2)] by (simp add: min.assoc)
qed simp

lemma seek_child:
  assumes "rep D s" "t \<le> TERMINATED"
  obtains s' where "(if ds_doc ops s < t then map_option snd (ds_seek ops t s) else Some s) = Some s'" "rep (D \<inter> {t..}) s'"
proof (cases "ds_doc ops s < t")
  case True
  then show ?thesis using that seek_law [OF assms(1) _ assms(2)] doc_first [OF assms(1)] by auto
next
  case False
  then have "D \<inter> {t..} = D" using first_doc_le [OF _ rep_bound [OF assms(1)]] doc_first [OF assms(1)] by force
  then show ?thesis using False that assms(1) by simp
qed

lemma su_seek_children_law:
  assumes "list_all2 rep Ds ss" "t \<le> TERMINATED" "n \<le> TERMINATED"
  shows "\<exists>ss'. su_seek_children ops t n ss = Some (min n (first_doc (\<Union> (set Ds) \<inter> {t..})), ss') \<and>
    list_all2 rep (map (\<lambda>D. D \<inter> {t..}) Ds) ss'"
  using assms(1,3)
proof (induction Ds ss arbitrary: n rule: list_all2_induct)
  case (Cons D Ds s ss)
  note b = rep_bound [OF Cons.hyps(1)] and bs = Union_bound [OF list_rep_bounds [OF Cons.hyps(2)]]
  obtain s' where s': "(if ds_doc ops s < t then map_option snd (ds_seek ops t s) else Some s) = Some s'"
    "rep (D \<inter> {t..}) s'"
    using Cons.hyps(1) assms(2) by (rule seek_child)
  have "min n (first_doc (D \<inter> {t..})) \<le> TERMINATED" using Cons.prems by auto
  from Cons.IH [OF this] obtain ss' where
    "su_seek_children ops t (min n (first_doc (D \<inter> {t..}))) ss =
       Some (min (min n (first_doc (D \<inter> {t..}))) (first_doc (\<Union> (set Ds) \<inter> {t..})), ss')"
    "list_all2 rep (map (\<lambda>D. D \<inter> {t..}) Ds) ss'" by blast
  moreover have "\<Union> (set (D # Ds)) \<inter> {t..} = (D \<inter> {t..}) \<union> (\<Union> (set Ds) \<inter> {t..})" by auto
  moreover have "first_doc ((D \<inter> {t..}) \<union> (\<Union> (set Ds) \<inter> {t..})) =
      min (first_doc (D \<inter> {t..})) (first_doc (\<Union> (set Ds) \<inter> {t..}))"
    using b bs by (intro first_doc_Un) auto
  moreover have "(if ds_doc ops s' < n then ds_doc ops s' else n) = min n (first_doc (D \<inter> {t..}))"
    using doc_first [OF s'(2)] by (simp add: min_def)
  ultimately show ?case using s' by (simp add: min.assoc)
qed simp

end

locale simple_union_of = docset_seek

sublocale simple_union_of \<subseteq> simple: docset_iter "simple_union_ops ops" "simple_union_rep rep"
proof
  fix D u
  assume u: "simple_union_rep rep D u"
  then obtain Ds where Ds: "list_all2 rep Ds (su_docsets u)" "D = \<Union> (set Ds)" "su_doc u = first_doc D"
    by (auto simp: simple_union_rep_def)
  show b: "D \<subseteq> {..<TERMINATED}" using Union_bound [OF list_rep_bounds [OF Ds(1)]] Ds(2) by simp
  show "ds_doc (simple_union_ops ops) u = first_doc D" using Ds(3) by (simp add: simple_union_ops_def)
  have "\<forall>E\<in>set Ds. E \<subseteq> {first_doc D..}" using Ds(2) first_doc_le [OF _ b] by auto
  moreover have "D - {first_doc D} \<subseteq> {..<TERMINATED}" using b by auto
  then have "min TERMINATED (first_doc (D - {first_doc D})) = first_doc (D - {first_doc D})"
    using first_doc_bound by (simp add: min_absorb2)
  ultimately obtain ss' where
    "su_advance_children ops (first_doc D) TERMINATED (su_docsets u) =
       Some (first_doc (D - {first_doc D}), ss')" and l: "list_all2 rep (map (\<lambda>E. E - {first_doc D}) Ds) ss'"
    using su_advance_children_law [OF Ds(1) _ order_refl] unfolding Ds(2) [symmetric] by metis
  moreover have "D - {first_doc D} = \<Union> (set (map (\<lambda>E. E - {first_doc D}) Ds))" using Ds(2) by auto
  note simple_union_repI [OF l this refl]
  ultimately show "\<exists>u'. ds_advance (simple_union_ops ops) u = Some (ds_doc (simple_union_ops ops) u', u') \<and>
      simple_union_rep rep (D - {first_doc D}) u'"
    using Ds(3) by (simp add: simple_union_ops_def advance_to_next_def)
qed

sublocale simple_union_of \<subseteq> simple: docset_seek "simple_union_ops ops" "simple_union_rep rep"
proof
  fix D u t
  assume u: "simple_union_rep rep D u" and t: "t \<le> TERMINATED"
  then obtain Ds where Ds: "list_all2 rep Ds (su_docsets u)" "D = \<Union> (set Ds)" "su_doc u = first_doc D"
    by (auto simp: simple_union_rep_def)
  have b: "D \<inter> {t..} \<subseteq> {..<TERMINATED}" using Union_bound [OF list_rep_bounds [OF Ds(1)]] Ds(2) by auto
  then have "min TERMINATED (first_doc (D \<inter> {t..})) = first_doc (D \<inter> {t..})"
    using first_doc_bound by (simp add: min_absorb2)
  then obtain ss' where
    "su_seek_children ops t TERMINATED (su_docsets u) = Some (first_doc (D \<inter> {t..}), ss')"
    and l: "list_all2 rep (map (\<lambda>E. E \<inter> {t..}) Ds) ss'"
    using su_seek_children_law [OF Ds(1) t order_refl] unfolding Ds(2) [symmetric] by metis
  moreover have "D \<inter> {t..} = \<Union> (set (map (\<lambda>E. E \<inter> {t..}) Ds))" using Ds(2) by auto
  note simple_union_repI [OF l this refl]
  ultimately show "\<exists>u'. ds_seek (simple_union_ops ops) t u = Some (ds_doc (simple_union_ops ops) u', u') \<and>
      simple_union_rep rep (D \<inter> {t..}) u'"
    by (simp add: simple_union_ops_def simple_union_seek_def)
qed

sublocale simple_union_of \<subseteq> simple: docset "simple_union_ops ops" "simple_union_rep rep" "valid_ready (simple_union_rep rep)"
  by (rule simple.docset_default) (simp add: simple_union_ops_def)

context simple_union_of
begin

lemma simple_union_build_rep:
  assumes "list_all2 rep Ds ss"
  shows "simple_union_rep rep (\<Union> (set Ds)) (simple_union_build ops ss)"
proof -
  have eq: "\<Union> (set (filter (\<lambda>D. D \<noteq> {}) Ds)) = \<Union> (set Ds)" by auto
  note f = list_rep_filter [OF assms]
  have "first_doc (\<Union> (set Ds)) \<le> TERMINATED"
    by (rule first_doc_bound) (rule Union_bound [OF list_rep_bounds [OF assms]])
  then show ?thesis using f fold_min_docs [OF f order_refl] unfolding eq
    by (auto simp: simple_union_rep_def simple_union_build_def initialize_first_doc_id_def min_absorb2
        intro!: exI [of _ "filter (\<lambda>D. D \<noteq> {}) Ds"])
qed

lemma su_count_loop_law:
  assumes "simple_union_rep rep D u" "D \<noteq> {}"
  shows "\<exists>u'. su_count_loop ops n u = Some (n + card D - 1, u')"
  using assms
proof (induction "card D" arbitrary: D u n rule: less_induct)
  case less
  note b = simple.rep_bound [OF less.prems(1)]
  obtain u' where u': "advance_to_next ops u = Some (first_doc (D - {first_doc D}), u')"
    "simple_union_rep rep (D - {first_doc D}) u'"
    using simple.advance_first [OF less.prems(1)] by (auto simp: simple_union_ops_def)
  have c: "card (D - {first_doc D}) + 1 = card D"
    using first_doc_in [OF less.prems(2) b] finite_docs [OF b] by (metis Suc_eq_plus1 card.remove)
  show ?case
  proof (cases "D - {first_doc D} = {}")
    case True
    then have "card D = 1" using c by (metis add_0 card.empty)
    then show ?thesis using u' unfolding True by (simp add: su_count_loop.simps)
  next
    case False
    from less.hyps [OF _ u'(2) False, of "n + 1"] c obtain u'' where
      "su_count_loop ops (n + 1) u' = Some (n + 1 + card (D - {first_doc D}) - 1, u'')" by auto
    moreover have "first_doc (D - {first_doc D}) \<noteq> TERMINATED"
      using False b by (subst first_doc_terminated_iff) auto
    ultimately show ?thesis using u'(1) c by (subst su_count_loop.simps) (auto simp: algebra_simps)
  qed
qed

lemma su_count_law:
  assumes "simple_union_rep rep D u"
  shows "map_option fst (su_count_including_deleted ops u) = Some (card D)"
proof (cases "D = {}")
  case True
  then show ?thesis using assms by (auto simp: su_count_including_deleted_def simple_union_rep_def)
next
  case False
  then have "su_doc u \<noteq> TERMINATED"
    using simple.doc_first [OF assms] first_doc_terminated_iff [OF simple.rep_bound [OF assms]]
    by (simp add: simple_union_ops_def)
  then show ?thesis using su_count_loop_law [OF assms False, of 1] False
    by (auto simp: su_count_including_deleted_def)
qed

lemma simple_union_docset:
  "docset (simple_union_ops ops) (simple_union_rep rep) (valid_ready (simple_union_rep rep))"
  by unfold_locales

end

interpretation vec_union: simple_union_of vec_ops vec_rep
  by unfold_locales

text \<open>
  Property C7. Over children that iterate and seek correctly, the simple union keeps the whole
  document-set contract and holds exactly the documents some child has, and its own counting loop
  gives their number.
\<close>

theorem simple_union_correct:
  assumes "docset_seek ops rep" "list_all2 rep Ds ss"
  shows "docset (simple_union_ops ops) (simple_union_rep rep) (valid_ready (simple_union_rep rep)) \<and>
    simple_union_rep rep (\<Union> (set Ds)) (simple_union_build ops ss) \<and>
    map_option fst (su_count_including_deleted ops (simple_union_build ops ss)) = Some (card (\<Union> (set Ds)))"
proof -
  have u: "simple_union_of ops rep" using assms(1) by (simp add: simple_union_of_def)
  note b = simple_union_of.simple_union_build_rep [OF u assms(2)]
  show ?thesis using simple_union_of.simple_union_docset [OF u] b simple_union_of.su_count_law [OF u b] by blast
qed

theorem simple_union_correct_witness:
  "docset_seek vec_ops vec_rep \<and>
   map_option fst (su_count_including_deleted vec_ops (simple_union_build vec_ops
     [\<lparr>vd_doc_ids = [2, 4], vd_cursor = 0\<rparr>, \<lparr>vd_doc_ids = [1, 4, 6], vd_cursor = 0\<rparr>])) = Some 4"
proof -
  have d: "docset_seek vec_ops vec_rep" by unfold_locales
  have "list_all2 vec_rep [{2, 4}, {1, 4, 6}]
    [\<lparr>vd_doc_ids = [2, 4], vd_cursor = 0\<rparr>, \<lparr>vd_doc_ids = [1, 4, 6], vd_cursor = 0\<rparr>]"
    by (simp add: vec_rep_def TERMINATED_def)
  moreover have "card (\<Union> (set [{2, 4}, {1, 4, 6 :: nat}])) = 4" by (simp add: insert_commute)
  ultimately show ?thesis using simple_union_correct [OF d] d by metis
qed

end
