(* ===== verification/BufferedUnion.thy ===== *)
theory BufferedUnion
  imports SimpleUnion
begin

text \<open>
  \<open>BufferedUnionScorer\<close> of \<^verbatim>\<open>src/query/union/buffered_union.rs\<close>: the union that loads the next 4096
  document ids of all children into 64 buckets of bits and pops them in order, with its own \<open>seek\<close>,
  \<open>fill_buffer\<close> and counting. The score combiners of the window are not modelled.
\<close>

section \<open>Definitions\<close>

definition HORIZON :: nat where
  "HORIZON = 64 * 64"

definition HORIZON_NUM_TINYBITSETS :: nat where
  "HORIZON_NUM_TINYBITSETS = HORIZON div 64"

record 's buffered_union =
  bu_docsets :: "'s list"
  bu_bitsets :: "tinyset list"
  bu_bucket_idx :: nat
  bu_window_start_doc :: nat
  bu_doc :: nat
  bu_num_docs :: nat

partial_function (option) refill_scorer ::
  "'s docset_ops \<Rightarrow> nat \<Rightarrow> tinyset list \<Rightarrow> 's \<Rightarrow> (tinyset list \<times> 's) option" where
  "refill_scorer ops min_doc bitsets s =
     (if ds_doc ops s \<ge> min_doc + HORIZON then Some (bitsets, s)
      else
        ds_advance ops s \<bind> (\<lambda>(_, s').
          refill_scorer ops min_doc (block_insert (ds_doc ops s - min_doc) bitsets) s'))"

fun refill_scorers :: "'s docset_ops \<Rightarrow> nat \<Rightarrow> tinyset list \<Rightarrow> 's list \<Rightarrow> (tinyset list \<times> 's list) option" where
  "refill_scorers ops min_doc bitsets [] = Some (bitsets, [])"
| "refill_scorers ops min_doc bitsets (s # ss) =
     refill_scorer ops min_doc bitsets s \<bind> (\<lambda>(bitsets', s').
       refill_scorers ops min_doc bitsets' ss \<bind> (\<lambda>(bitsets'', ss'). Some (bitsets'', s' # ss')))"

definition refill :: "'s docset_ops \<Rightarrow> nat \<Rightarrow> tinyset list \<Rightarrow> 's list \<Rightarrow> (tinyset list \<times> 's list) option" where
  "refill ops min_doc bitsets ss =
     refill_scorers ops min_doc bitsets ss \<bind> (\<lambda>(bitsets', ss').
       Some (bitsets', filter (\<lambda>s. ds_doc ops s \<noteq> TERMINATED) ss'))"

definition bu_refill :: "'s docset_ops \<Rightarrow> 's buffered_union \<Rightarrow> (bool \<times> 's buffered_union) option" where
  "bu_refill ops u =
     (if bu_docsets u = [] then Some (False, u)
      else
        (let min_doc = Min (set (map (ds_doc ops) (bu_docsets u)))
         in refill ops min_doc (bu_bitsets u) (bu_docsets u) \<bind> (\<lambda>(bitsets, ss).
              Some (True, u\<lparr>bu_docsets := ss, bu_bitsets := bitsets, bu_bucket_idx := 0,
                bu_window_start_doc := min_doc, bu_doc := min_doc\<rparr>))))"

function advance_buffered :: "'s buffered_union \<Rightarrow> bool \<times> 's buffered_union" where
  "advance_buffered u =
     (let idx = bu_bucket_idx u
      in if idx < HORIZON_NUM_TINYBITSETS then
           (case tinyset_pop_lowest (bu_bitsets u ! idx) of
              (Some val, t) \<Rightarrow>
                (True, u\<lparr>bu_bitsets := (bu_bitsets u)[idx := t],
                         bu_doc := bu_window_start_doc u + (val + idx * 64)\<rparr>)
            | (None, _) \<Rightarrow> advance_buffered (u\<lparr>bu_bucket_idx := idx + 1\<rparr>))
         else (False, u))"
  by pat_completeness auto
termination
  by (relation "measure (\<lambda>u. HORIZON_NUM_TINYBITSETS - bu_bucket_idx u)") auto

declare advance_buffered.simps [simp del]

partial_function (option) bu_advance :: "'s docset_ops \<Rightarrow> 's buffered_union \<Rightarrow> (nat \<times> 's buffered_union) option" where
  "bu_advance ops u =
     (let (found, u') = advance_buffered u
      in if found then Some (bu_doc u', u')
         else
           bu_refill ops u' \<bind> (\<lambda>(more, u'').
             if more then bu_advance ops u''
             else Some (TERMINATED, u''\<lparr>bu_doc := TERMINATED\<rparr>)))"

definition buffered_union_build :: "'s docset_ops \<Rightarrow> 's list \<Rightarrow> nat \<Rightarrow> 's buffered_union option" where
  "buffered_union_build ops docsets num_docs =
     (let u = \<lparr>bu_docsets = filter (\<lambda>s. ds_doc ops s \<noteq> TERMINATED) docsets,
               bu_bitsets = replicate HORIZON_NUM_TINYBITSETS tinyset_empty,
               bu_bucket_idx = HORIZON_NUM_TINYBITSETS, bu_window_start_doc = 0, bu_doc = 0,
               bu_num_docs = num_docs\<rparr>
      in bu_refill ops u \<bind> (\<lambda>(more, u').
           if more then map_option snd (bu_advance ops u') else Some (u'\<lparr>bu_doc := TERMINATED\<rparr>)))"

text \<open>The loop over the bits of one bucket: true when the buffer is full and a document is left over.\<close>

partial_function (option) bu_drain ::
  "tinyset \<Rightarrow> nat list \<Rightarrow> 's buffered_union \<Rightarrow> (bool \<times> nat list \<times> 's buffered_union) option" where
  "bu_drain t buffer u =
     (case tinyset_pop_lowest t of
        (None, _) \<Rightarrow> Some (False, buffer, u)
      | (Some val, t') \<Rightarrow>
          (let idx = bu_bucket_idx u;
               u' = u\<lparr>bu_doc := bu_window_start_doc u + (val + idx * 64)\<rparr>
           in if length buffer \<ge> COLLECT_BLOCK_BUFFER_LEN
              then Some (True, buffer, u'\<lparr>bu_bitsets := (bu_bitsets u')[idx := t']\<rparr>)
              else bu_drain t' (buffer @ [bu_doc u']) u'))"

partial_function (option) bu_fill_loop ::
  "'s docset_ops \<Rightarrow> nat list \<Rightarrow> 's buffered_union \<Rightarrow> (nat list \<times> 's buffered_union) option" where
  "bu_fill_loop ops buffer u =
     (let idx = bu_bucket_idx u
      in if idx < HORIZON_NUM_TINYBITSETS then
           bu_drain (bu_bitsets u ! idx) buffer u \<bind> (\<lambda>(full, buffer', u').
             if full then Some (buffer', u')
             else bu_fill_loop ops buffer'
                    (u'\<lparr>bu_bitsets := (bu_bitsets u')[idx := tinyset_empty], bu_bucket_idx := idx + 1\<rparr>))
         else
           bu_refill ops u \<bind> (\<lambda>(more, u').
             if more then bu_fill_loop ops buffer u' else Some (buffer, u'\<lparr>bu_doc := TERMINATED\<rparr>)))"

definition bu_fill_buffer :: "'s docset_ops \<Rightarrow> 's buffered_union \<Rightarrow> (nat list \<times> 's buffered_union) option" where
  "bu_fill_buffer ops u =
     (if bu_doc u = TERMINATED then Some ([], u) else bu_fill_loop ops [bu_doc u] u)"

definition clear_range :: "nat \<Rightarrow> nat \<Rightarrow> tinyset list \<Rightarrow> tinyset list option" where
  "clear_range a b ts =
     (if a \<le> b \<and> b \<le> length ts then Some (take a ts @ replicate (b - a) tinyset_empty @ drop b ts) else None)"

fun bu_seek_docsets :: "'s docset_ops \<Rightarrow> nat \<Rightarrow> 's list \<Rightarrow> 's list option" where
  "bu_seek_docsets ops target [] = Some []"
| "bu_seek_docsets ops target (s # ss) =
     (if ds_doc ops s < target then map_option snd (ds_seek ops target s) else Some s) \<bind> (\<lambda>s'.
       bu_seek_docsets ops target ss \<bind> (\<lambda>ss'. Some (s' # ss')))"

definition bu_seek :: "'s docset_ops \<Rightarrow> nat \<Rightarrow> 's buffered_union \<Rightarrow> (nat \<times> 's buffered_union) option" where
  "bu_seek ops target u =
     (if bu_doc u \<ge> target then Some (bu_doc u, u)
      else
        (let gap = target - bu_window_start_doc u
         in if gap < HORIZON then
              (let new_bucket_idx = gap div 64
               in clear_range (bu_bucket_idx u) new_bucket_idx (bu_bitsets u) \<bind> (\<lambda>bitsets.
                    seek_loop (bu_advance ops) target (bu_doc u)
                      (u\<lparr>bu_bitsets := bitsets, bu_bucket_idx := new_bucket_idx\<rparr>)))
            else
              bu_seek_docsets ops target (bu_docsets u) \<bind> (\<lambda>ss.
                bu_refill ops
                  (u\<lparr>bu_docsets := filter (\<lambda>s. ds_doc ops s \<noteq> TERMINATED) ss,
                     bu_bitsets := map (\<lambda>_. tinyset_empty) (bu_bitsets u)\<rparr>) \<bind> (\<lambda>(more, u').
                  if more then bu_advance ops u' else Some (TERMINATED, u'\<lparr>bu_doc := TERMINATED\<rparr>)))))"

partial_function (option) bu_count_loop :: "'s docset_ops \<Rightarrow> nat \<Rightarrow> 's buffered_union \<Rightarrow> (nat \<times> 's buffered_union) option" where
  "bu_count_loop ops count u =
     bu_refill ops u \<bind> (\<lambda>(more, u').
       if more then
         bu_count_loop ops (count + sum_list (map tinyset_len (bu_bitsets u')))
           (u'\<lparr>bu_bitsets := map (\<lambda>_. tinyset_empty) (bu_bitsets u')\<rparr>)
       else Some (count, u'\<lparr>bu_bucket_idx := HORIZON_NUM_TINYBITSETS\<rparr>))"

definition bu_count_including_deleted :: "'s docset_ops \<Rightarrow> 's buffered_union \<Rightarrow> (nat \<times> 's buffered_union) option" where
  "bu_count_including_deleted ops u =
     (if bu_doc u = TERMINATED then Some (0, u)
      else if bu_bucket_idx u \<le> length (bu_bitsets u) then
        bu_count_loop ops (sum_list (map tinyset_len (drop (bu_bucket_idx u) (bu_bitsets u))) + 1)
          (u\<lparr>bu_bitsets := map (\<lambda>_. tinyset_empty) (bu_bitsets u)\<rparr>)
      else None)"

text \<open>The size estimate of a union is floating-point and an argument.\<close>

definition buffered_union_ops ::
  "('s buffered_union \<Rightarrow> nat) \<Rightarrow> 's docset_ops \<Rightarrow> 's buffered_union docset_ops" where
  "buffered_union_ops estimate ops =
     \<lparr>ds_doc = bu_doc, ds_advance = bu_advance ops, ds_seek = bu_seek ops,
      ds_seek_danger = default_seek_danger bu_doc (bu_seek ops),
      ds_size_hint = estimate,
      ds_cost = (\<lambda>u. sum_list (map (ds_cost ops) (bu_docsets u)))\<rparr>"

section \<open>Buckets\<close>

lemma horizon_simps: "HORIZON = 4096" "HORIZON_NUM_TINYBITSETS = 64"
  by (simp_all add: HORIZON_def HORIZON_NUM_TINYBITSETS_def)

lemma buckets_elems_set:
  assumes "i < length ts"
  shows "buckets_elems (ts[i := t]) = {x \<in> buckets_elems ts. x div 64 \<noteq> i} \<union> (\<lambda>v. v + i * 64) ` tinyset_elems t"
proof (rule set_eqI)
  fix x
  have "x \<in> (\<lambda>v. v + i * 64) ` tinyset_elems t \<longleftrightarrow> x div 64 = i \<and> x mod 64 \<in> tinyset_elems t"
  proof
    assume "x div 64 = i \<and> x mod 64 \<in> tinyset_elems t"
    then show "x \<in> (\<lambda>v. v + i * 64) ` tinyset_elems t"
      by (intro image_eqI [of _ _ "x mod 64"]) (auto simp: mod_div_mult_eq)
  qed (use tinyset_elems_less [of _ t] in fastforce)
  then show "x \<in> buckets_elems (ts[i := t]) \<longleftrightarrow> x \<in> {x \<in> buckets_elems ts. x div 64 \<noteq> i} \<union> (\<lambda>v. v + i * 64) ` tinyset_elems t"
    using assms by (cases "x div 64 = i") (auto simp: buckets_elems_def)
qed

lemma buckets_elems_nth:
  assumes "i < length ts"
  shows "buckets_elems ts = {x \<in> buckets_elems ts. x div 64 \<noteq> i} \<union> (\<lambda>v. v + i * 64) ` tinyset_elems (ts ! i)"
  using buckets_elems_set [OF assms, of "ts ! i"] by simp

lemma buckets_pop:
  assumes "i < length ts" "tinyset_elems (ts ! i) \<noteq> {}" "\<forall>e\<in>buckets_elems ts. i * 64 \<le> e"
    and "tinyset_elems t = tinyset_elems (ts ! i) - {Min (tinyset_elems (ts ! i))}"
  shows "Min (buckets_elems ts) = Min (tinyset_elems (ts ! i)) + i * 64"
    and "buckets_elems (ts[i := t]) = buckets_elems ts - {Min (buckets_elems ts)}"
proof -
  let ?m = "Min (tinyset_elems (ts ! i))"
  have m: "?m \<in> tinyset_elems (ts ! i)" using assms(2) by (intro Min_in) auto
  have in_B: "?m + i * 64 \<in> buckets_elems ts" using m by (subst buckets_elems_nth [OF assms(1)]) auto
  have le: "?m + i * 64 \<le> x" if "x \<in> buckets_elems ts" for x
  proof (cases "x div 64 = i")
    case True
    then have "x mod 64 \<in> tinyset_elems (ts ! i)" using that by (auto simp: buckets_elems_def)
    then have "?m \<le> x mod 64" by simp
    then show ?thesis using True by (metis add_le_cancel_right mod_div_mult_eq)
  next
    case False
    have "i \<le> x div 64" using assms(3) that by (simp add: less_eq_div_iff_mult_less_eq)
    then have "(i + 1) * 64 \<le> x" using False by (simp add: less_eq_div_iff_mult_less_eq [symmetric])
    then show ?thesis using tinyset_elems_less [OF m] by simp
  qed
  show eq: "Min (buckets_elems ts) = ?m + i * 64" using in_B le by (intro Min_eqI) auto
  have "(\<lambda>v. v + i * 64) ` (tinyset_elems (ts ! i) - {?m}) = (\<lambda>v. v + i * 64) ` tinyset_elems (ts ! i) - {?m + i * 64}"
    by auto
  moreover have "(?m + i * 64) div 64 = i" using tinyset_elems_less [OF m] by simp
  ultimately show "buckets_elems (ts[i := t]) = buckets_elems ts - {Min (buckets_elems ts)}"
    unfolding eq assms(4) buckets_elems_set [OF assms(1)] by (subst (2) buckets_elems_nth [OF assms(1)]) auto
qed

lemma buckets_bucket_empty:
  assumes "i < length ts" "tinyset_elems (ts ! i) = {}" "\<forall>e\<in>buckets_elems ts. i * 64 \<le> e"
  shows "\<forall>e\<in>buckets_elems ts. (i + 1) * 64 \<le> e"
proof
  fix e assume e: "e \<in> buckets_elems ts"
  then have "e div 64 \<noteq> i" using assms(2) by (auto simp: buckets_elems_def)
  moreover have "i \<le> e div 64" using assms(3) e by (simp add: less_eq_div_iff_mult_less_eq)
  ultimately show "(i + 1) * 64 \<le> e" by (simp add: less_eq_div_iff_mult_less_eq [symmetric])
qed

lemma buckets_elems_map_empty [simp]: "buckets_elems (map (\<lambda>_. tinyset_empty) ts) = {}"
  by (simp add: map_replicate_const)

lemma buckets_elems_clear_range:
  assumes "clear_range a b ts = Some ts'"
  shows "length ts' = length ts" "buckets_elems ts' = {e \<in> buckets_elems ts. \<not> (a \<le> e div 64 \<and> e div 64 < b)}"
proof -
  have ab: "a \<le> b" "b \<le> length ts" and ts': "ts' = take a ts @ replicate (b - a) tinyset_empty @ drop b ts"
    using assms by (auto simp: clear_range_def split: if_splits)
  show len: "length ts' = length ts" using ab ts' by simp
  have "ts' ! i = (if a \<le> i \<and> i < b then tinyset_empty else ts ! i)" if "i < length ts" for i
    using ab that unfolding ts' by (auto simp: nth_append)
  then show "buckets_elems ts' = {e \<in> buckets_elems ts. \<not> (a \<le> e div 64 \<and> e div 64 < b)}"
    using len by (auto simp: buckets_elems_def elems_empty split: if_splits)
qed

section \<open>The representation\<close>

text \<open>
  The documents still to come: those in the window at or after the current bucket, and those the
  children hold, all beyond the window. Exhausted children have been dropped.
\<close>

definition bu_pend :: "(nat set \<Rightarrow> 's \<Rightarrow> bool) \<Rightarrow> nat set \<Rightarrow> 's buffered_union \<Rightarrow> bool" where
  "bu_pend rep P u \<longleftrightarrow>
     length (bu_bitsets u) = HORIZON_NUM_TINYBITSETS \<and> bu_bucket_idx u \<le> HORIZON_NUM_TINYBITSETS \<and>
     (\<forall>e\<in>buckets_elems (bu_bitsets u). bu_bucket_idx u * 64 \<le> e) \<and>
     (\<forall>d\<in>P. d + HORIZON \<le> TERMINATED) \<and>
     (\<exists>Ds. list_all2 rep Ds (bu_docsets u) \<and> {} \<notin> set Ds \<and>
        \<Union> (set Ds) \<subseteq> {bu_window_start_doc u + HORIZON..} \<and>
        P = (\<lambda>e. bu_window_start_doc u + e) ` buckets_elems (bu_bitsets u) \<union> \<Union> (set Ds))"

text \<open>A valid state stands on a document of the current bucket before all others to come.\<close>

definition bu_rep :: "(nat set \<Rightarrow> 's \<Rightarrow> bool) \<Rightarrow> nat set \<Rightarrow> 's buffered_union \<Rightarrow> bool" where
  "bu_rep rep D u \<longleftrightarrow>
     (\<exists>P. bu_pend rep P u \<and>
        (D = {} \<and> P = {} \<and> bu_doc u = TERMINATED \<or>
         D = insert (bu_doc u) P \<and> (\<forall>p\<in>P. bu_doc u < p) \<and> bu_doc u + HORIZON \<le> TERMINATED \<and>
         bu_window_start_doc u \<le> bu_doc u \<and> bu_bucket_idx u < HORIZON_NUM_TINYBITSETS \<and>
         (bu_doc u - bu_window_start_doc u) div 64 = bu_bucket_idx u))"

lemma bu_pendI:
  assumes "length (bu_bitsets u) = HORIZON_NUM_TINYBITSETS" "bu_bucket_idx u \<le> HORIZON_NUM_TINYBITSETS"
    "\<forall>e\<in>buckets_elems (bu_bitsets u). bu_bucket_idx u * 64 \<le> e" "\<forall>d\<in>P. d + HORIZON \<le> TERMINATED"
    "list_all2 rep Ds (bu_docsets u)" "{} \<notin> set Ds" "\<Union> (set Ds) \<subseteq> {bu_window_start_doc u + HORIZON..}"
    "P = (\<lambda>e. bu_window_start_doc u + e) ` buckets_elems (bu_bitsets u) \<union> \<Union> (set Ds)"
  shows "bu_pend rep P u"
  unfolding bu_pend_def using assms by blast

lemma bu_pendE:
  assumes "bu_pend rep P u"
  obtains Ds where "length (bu_bitsets u) = HORIZON_NUM_TINYBITSETS" "bu_bucket_idx u \<le> HORIZON_NUM_TINYBITSETS"
    "\<forall>e\<in>buckets_elems (bu_bitsets u). bu_bucket_idx u * 64 \<le> e" "\<forall>d\<in>P. d + HORIZON \<le> TERMINATED"
    "list_all2 rep Ds (bu_docsets u)" "{} \<notin> set Ds" "\<Union> (set Ds) \<subseteq> {bu_window_start_doc u + HORIZON..}"
    "P = (\<lambda>e. bu_window_start_doc u + e) ` buckets_elems (bu_bitsets u) \<union> \<Union> (set Ds)"
  using assms unfolding bu_pend_def by blast

lemma bu_pend_bound:
  assumes "bu_pend rep P u"
  shows "P \<subseteq> {..<TERMINATED}"
proof -
  have "\<forall>d\<in>P. d + HORIZON \<le> TERMINATED" using assms by (simp add: bu_pend_def)
  then show ?thesis by (fastforce simp: horizon_simps)
qed

lemma bu_pend_doc [simp]: "bu_pend rep P (u\<lparr>bu_doc := d\<rparr>) = bu_pend rep P u"
  by (simp add: bu_pend_def)

lemma bu_rep_bound: "bu_rep rep D u \<Longrightarrow> D \<subseteq> {..<TERMINATED}"
  using bu_pend_bound by (fastforce simp: bu_rep_def horizon_simps)

lemma bu_rep_first: "bu_rep rep D u \<Longrightarrow> bu_doc u = first_doc D"
proof -
  assume a: "bu_rep rep D u"
  note b = bu_rep_bound [OF a]
  from a consider "D = {}" "bu_doc u = TERMINATED" | P where "D = insert (bu_doc u) P" "\<forall>p\<in>P. bu_doc u < p"
    unfolding bu_rep_def by blast
  then show ?thesis
  proof cases
    case 2
    then have "x \<in> D \<Longrightarrow> bu_doc u \<le> x" for x by auto
    then show ?thesis using first_doc_eqI [of "bu_doc u" D] b 2(1) by simp
  qed simp
qed

lemma bu_rep_pend: "bu_rep rep D u \<Longrightarrow> bu_pend rep (D - {first_doc D}) u"
proof -
  assume a: "bu_rep rep D u"
  from a obtain P where P: "bu_pend rep P u" "D = {} \<and> P = {} \<or> D = insert (bu_doc u) P \<and> (\<forall>p\<in>P. bu_doc u < p)"
    unfolding bu_rep_def by blast
  then have "D - {bu_doc u} = P" by auto
  then show ?thesis using P(1) bu_rep_first [OF a] by simp
qed

text \<open>Popping the next document of the window.\<close>

lemma advance_buffered_law:
  assumes "length (bu_bitsets u) = HORIZON_NUM_TINYBITSETS" "bu_bucket_idx u \<le> HORIZON_NUM_TINYBITSETS"
    and "\<forall>e\<in>buckets_elems (bu_bitsets u). bu_bucket_idx u * 64 \<le> e"
  shows "if buckets_elems (bu_bitsets u) = {}
    then advance_buffered u = (False, u\<lparr>bu_bucket_idx := HORIZON_NUM_TINYBITSETS\<rparr>)
    else \<exists>ts. advance_buffered u =
        (True, u\<lparr>bu_bitsets := ts, bu_bucket_idx := Min (buckets_elems (bu_bitsets u)) div 64,
           bu_doc := bu_window_start_doc u + Min (buckets_elems (bu_bitsets u))\<rparr>) \<and>
      length ts = HORIZON_NUM_TINYBITSETS \<and>
      buckets_elems ts = buckets_elems (bu_bitsets u) - {Min (buckets_elems (bu_bitsets u))}"
  using assms
proof (induction u rule: advance_buffered.induct)
  case (1 u)
  let ?i = "bu_bucket_idx u" and ?ts = "bu_bitsets u"
  show ?case
  proof (cases "?i < HORIZON_NUM_TINYBITSETS")
    case False
    then have i: "?i = HORIZON_NUM_TINYBITSETS" using "1.prems"(2) by simp
    have "buckets_elems ?ts = {}"
      using "1.prems"(1,3) buckets_elems_less [of _ ?ts] unfolding i by (fastforce simp: mult.commute)
    then show ?thesis using False i by (simp add: advance_buffered.simps)
  next
    case True
    then have il: "?i < length ?ts" using "1.prems"(1) by simp
    show ?thesis
    proof (cases "tinyset_elems (?ts ! ?i) = {}")
      case empty: True
      then have pop: "tinyset_pop_lowest (?ts ! ?i) = (None, ?ts ! ?i)" by simp
      let ?u = "u\<lparr>bu_bucket_idx := ?i + 1\<rparr>"
      have "advance_buffered u = advance_buffered ?u"
        using True pop by (subst advance_buffered.simps) (simp add: Let_def)
      moreover have "\<forall>e\<in>buckets_elems (bu_bitsets ?u). bu_bucket_idx ?u * 64 \<le> e"
        using buckets_bucket_empty [OF il empty "1.prems"(3)] by simp
      note "1.IH" [OF refl True pop [symmetric] refl _ _ this]
      ultimately show ?thesis using True "1.prems"(1) by (simp split: if_splits)
    next
      case False
      let ?p = "tinyset_pop_lowest (?ts ! ?i)"
      note pop = pop_lowest_Min [OF False]
      note bp = buckets_pop [OF il False "1.prems"(3) pop(2)]
      have "buckets_elems ?ts \<noteq> {}" using False buckets_elems_nth [OF il] by blast
      moreover have lt: "Min (tinyset_elems (?ts ! ?i)) < 64" using tinyset_elems_less [OF Min_in [OF finite_tinyset_elems False]] .
      then have idx: "Min (buckets_elems ?ts) div 64 = ?i" using bp(1) by simp
      have "advance_buffered u = (True, u\<lparr>bu_bitsets := ?ts[?i := snd ?p],
          bu_doc := bu_window_start_doc u + (Min (tinyset_elems (?ts ! ?i)) + ?i * 64)\<rparr>)"
        using True pop(1) by (subst advance_buffered.simps) (auto simp: Let_def split: prod.splits)
      then have "advance_buffered u = (True, u\<lparr>bu_bitsets := ?ts[?i := snd ?p],
          bu_bucket_idx := Min (buckets_elems ?ts) div 64, bu_doc := bu_window_start_doc u + Min (buckets_elems ?ts)\<rparr>)"
        unfolding bp(1) using lt by (cases u) simp
      moreover have "length (?ts[?i := snd ?p]) = HORIZON_NUM_TINYBITSETS" using "1.prems"(1) by simp
      ultimately show ?thesis using bp(2) by (simp only: if_False) blast
    qed
  qed
qed

section \<open>Refilling the window\<close>

locale buffered_union_of = docset_seek +
  assumes short: "rep D s \<Longrightarrow> d \<in> D \<Longrightarrow> d + HORIZON \<le> TERMINATED"
begin

lemma refill_scorer_law:
  assumes "rep E s" "E \<subseteq> {m..}" "m + HORIZON \<le> TERMINATED" "length ts = HORIZON_NUM_TINYBITSETS"
  shows "\<exists>ts' s'. refill_scorer ops m ts s = Some (ts', s') \<and> rep (E \<inter> {m + HORIZON..}) s' \<and>
    length ts' = HORIZON_NUM_TINYBITSETS \<and>
    buckets_elems ts' = buckets_elems ts \<union> (\<lambda>d. d - m) ` (E \<inter> {..<m + HORIZON})"
  using assms(1,2,4)
proof (induction "card E" arbitrary: E s ts rule: less_induct)
  case less
  note b = rep_bound [OF less.prems(1)]
  let ?d = "first_doc E"
  have doc: "ds_doc ops s = ?d" using less.prems(1) by (rule doc_first)
  show ?case
  proof (cases "m + HORIZON \<le> ?d")
    case True
    then have "E \<inter> {m + HORIZON..} = E" "E \<inter> {..<m + HORIZON} = {}" using first_doc_le [OF _ b] by force+
    then show ?thesis using True doc less.prems by (simp add: refill_scorer.simps)
  next
    case False
    then have ne: "E \<noteq> {}" using assms(3) by auto
    note d = first_doc_in [OF ne b]
    have dm: "m \<le> ?d" using d less.prems(2) by auto
    obtain s' where s': "ds_advance ops s = Some (first_doc (E - {?d}), s')" "rep (E - {?d}) s'"
      using less.prems(1) by (rule advance_first)
    have lt: "(?d - m) div 64 < length ts"
      using False dm less.prems(3) by (simp add: horizon_simps less_mult_imp_div_less)
    let ?ts = "block_insert (?d - m) ts"
    have ins: "buckets_elems ?ts = insert (?d - m) (buckets_elems ts)" "length ?ts = HORIZON_NUM_TINYBITSETS"
      using lt less.prems(3) by (simp_all add: block_insert_def insert_mut_iff(2) buckets_elems_update)
    have "card (E - {?d}) < card E" using d finite_docs [OF b] by (intro psubset_card_mono) auto
    moreover have "E - {?d} \<subseteq> {m..}" using less.prems(2) by auto
    ultimately obtain ts' s'' where r: "refill_scorer ops m ?ts s' = Some (ts', s'')"
      "rep ((E - {?d}) \<inter> {m + HORIZON..}) s''" "length ts' = HORIZON_NUM_TINYBITSETS"
      "buckets_elems ts' = buckets_elems ?ts \<union> (\<lambda>d. d - m) ` ((E - {?d}) \<inter> {..<m + HORIZON})"
      using less.hyps s'(2) ins(2) by blast
    have "(E - {?d}) \<inter> {m + HORIZON..} = E \<inter> {m + HORIZON..}" using False by auto
    moreover have "insert ?d ((E - {?d}) \<inter> {..<m + HORIZON}) = E \<inter> {..<m + HORIZON}" using False d by auto
    then have "insert (?d - m) ((\<lambda>d. d - m) ` ((E - {?d}) \<inter> {..<m + HORIZON})) = (\<lambda>d. d - m) ` (E \<inter> {..<m + HORIZON})"
      by (metis image_insert)
    ultimately show ?thesis using r ins(1) False doc s'(1)
      by (intro exI [of _ ts'] exI [of _ s'']) (auto simp: refill_scorer.simps [of ops m ts s])
  qed
qed

lemma refill_scorers_law:
  assumes "list_all2 rep Ds ss" "\<Union> (set Ds) \<subseteq> {m..}" "m + HORIZON \<le> TERMINATED"
    and "length ts = HORIZON_NUM_TINYBITSETS"
  shows "\<exists>ts' ss'. refill_scorers ops m ts ss = Some (ts', ss') \<and>
    list_all2 rep (map (\<lambda>E. E \<inter> {m + HORIZON..}) Ds) ss' \<and> length ts' = HORIZON_NUM_TINYBITSETS \<and>
    buckets_elems ts' = buckets_elems ts \<union> (\<lambda>d. d - m) ` (\<Union> (set Ds) \<inter> {..<m + HORIZON})"
  using assms(1,2,4)
proof (induction Ds ss arbitrary: ts rule: list_all2_induct)
  case (Cons E Ds s ss)
  have "E \<subseteq> {m..}" "\<Union> (set Ds) \<subseteq> {m..}" using Cons.prems(1) by auto
  obtain ts' s' where r: "refill_scorer ops m ts s = Some (ts', s')" "rep (E \<inter> {m + HORIZON..}) s'"
    "length ts' = HORIZON_NUM_TINYBITSETS"
    "buckets_elems ts' = buckets_elems ts \<union> (\<lambda>d. d - m) ` (E \<inter> {..<m + HORIZON})"
    using refill_scorer_law [OF Cons.hyps(1) \<open>E \<subseteq> {m..}\<close> assms(3) Cons.prems(2)] by blast
  obtain ts'' ss' where i: "refill_scorers ops m ts' ss = Some (ts'', ss')"
    "list_all2 rep (map (\<lambda>E. E \<inter> {m + HORIZON..}) Ds) ss'" "length ts'' = HORIZON_NUM_TINYBITSETS"
    "buckets_elems ts'' = buckets_elems ts' \<union> (\<lambda>d. d - m) ` (\<Union> (set Ds) \<inter> {..<m + HORIZON})"
    using Cons.IH [OF \<open>\<Union> (set Ds) \<subseteq> {m..}\<close> r(3)] by blast
  have "refill_scorers ops m ts (s # ss) = Some (ts'', s' # ss')" using r(1) i(1) by simp
  moreover have "\<Union> (set (E # Ds)) \<inter> {..<m + HORIZON} = (E \<inter> {..<m + HORIZON}) \<union> (\<Union> (set Ds) \<inter> {..<m + HORIZON})"
    by auto
  ultimately show ?case using r(2,4) i(2,3,4) by (simp only: image_Un) (simp add: Un_assoc)
qed simp

lemma bu_refill_core:
  assumes Ds: "length (bu_bitsets u) = HORIZON_NUM_TINYBITSETS"
    "\<forall>d\<in>P. d + HORIZON \<le> TERMINATED" "list_all2 rep Ds (bu_docsets u)" "{} \<notin> set Ds"
    "P = \<Union> (set Ds)" and e: "buckets_elems (bu_bitsets u) = {}"
  shows "if P = {} then bu_docsets u = [] \<and> bu_refill ops u = Some (False, u)
    else \<exists>u'. bu_refill ops u = Some (True, u') \<and> bu_pend rep P u' \<and> buckets_elems (bu_bitsets u') \<noteq> {} \<and>
      bu_bucket_idx u' = 0"
proof (cases "P = {}")
    case True
    then have "Ds = []" using Ds(4,5) by (cases Ds) auto
    then show ?thesis using True Ds(3) by (simp add: bu_refill_def)
  next
    case False
    then have "Ds \<noteq> []" "bu_docsets u \<noteq> []" using Ds(3,5) by auto
    let ?m = "Min (set (map (ds_doc ops) (bu_docsets u)))"
    have b: "P \<subseteq> {..<TERMINATED}" using Union_bound [OF list_rep_bounds [OF Ds(3)]] Ds(5) by simp
    have m_eq: "?m = first_doc P"
    proof -
      have "first_doc P \<in> P" using False b by (rule first_doc_in)
      then obtain E where E: "E \<in> set Ds" "first_doc P \<in> E" using Ds(5) by auto
      have le: "first_doc P \<le> first_doc F" if "F \<in> set Ds" for F
        using that Ds(4,5) first_doc_in [of F] first_doc_le [OF _ b] list_rep_bounds [OF Ds(3)] by blast
      have "first_doc E \<le> first_doc P" using E list_rep_bounds [OF Ds(3)] by (intro first_doc_le) auto
      then have "first_doc E = first_doc P" using le [OF E(1)] by simp
      then show ?thesis unfolding list_rep_docs [OF Ds(3)] set_map
        using E(1) le by (intro Min_eqI) (auto intro: rev_image_eqI)
    qed
    note mP = first_doc_in [OF False b]
    have ge: "\<Union> (set Ds) \<subseteq> {?m..}" using first_doc_le [OF _ b] unfolding m_eq Ds(5) by auto
    have mT: "?m + HORIZON \<le> TERMINATED" unfolding m_eq using Ds(2) mP by blast
    obtain ts' ss' where r: "refill_scorers ops ?m (bu_bitsets u) (bu_docsets u) = Some (ts', ss')"
      "list_all2 rep (map (\<lambda>E. E \<inter> {?m + HORIZON..}) Ds) ss'" "length ts' = HORIZON_NUM_TINYBITSETS"
      "buckets_elems ts' = (\<lambda>d. d - ?m) ` (P \<inter> {..<?m + HORIZON})"
      using refill_scorers_law [OF Ds(3) ge mT Ds(1)] unfolding e Ds(5) by auto
    let ?Es = "filter (\<lambda>E. E \<noteq> {}) (map (\<lambda>E. E \<inter> {?m + HORIZON..}) Ds)"
    let ?u = "u\<lparr>bu_docsets := filter (\<lambda>s. ds_doc ops s \<noteq> TERMINATED) ss', bu_bitsets := ts', bu_bucket_idx := 0,
      bu_window_start_doc := ?m, bu_doc := ?m\<rparr>"
    have "bu_refill ops u = Some (True, ?u)"
      using \<open>bu_docsets u \<noteq> []\<close> r(1) by (simp add: bu_refill_def refill_def Let_def)
    moreover have "(\<lambda>e. ?m + e) ` ((\<lambda>d. d - ?m) ` (P \<inter> {..<?m + HORIZON})) = P \<inter> {..<?m + HORIZON}"
      using ge unfolding Ds(5) [symmetric] image_image by (force simp: image_iff)
    moreover have Es: "\<Union> (set ?Es) = P \<inter> {?m + HORIZON..}" unfolding Ds(5) by auto
    moreover have "P = (P \<inter> {..<?m + HORIZON}) \<union> (P \<inter> {?m + HORIZON..})" by auto
    moreover have "{} \<notin> set ?Es" by simp
    ultimately have "bu_pend rep P ?u"
      using list_rep_filter [OF r(2)] r(3,4) Ds(2)
      by (intro bu_pendI [of _ _ _ ?Es]) (auto simp del: set_filter set_map)
    moreover have "buckets_elems ts' \<noteq> {}" using r(4) mP m_eq by (auto simp: horizon_simps)
    ultimately show ?thesis using False \<open>bu_refill ops u = Some (True, ?u)\<close> by auto
qed

lemma bu_refill_law:
  assumes "bu_pend rep P u" "buckets_elems (bu_bitsets u) = {}"
  shows "if P = {} then bu_docsets u = [] \<and> bu_refill ops u = Some (False, u)
    else \<exists>u'. bu_refill ops u = Some (True, u') \<and> bu_pend rep P u' \<and> buckets_elems (bu_bitsets u') \<noteq> {} \<and>
      bu_bucket_idx u' = 0"
proof -
  from assms(1) obtain Ds where "length (bu_bitsets u) = HORIZON_NUM_TINYBITSETS"
    "\<forall>d\<in>P. d + HORIZON \<le> TERMINATED" "list_all2 rep Ds (bu_docsets u)" "{} \<notin> set Ds"
    "P = \<Union> (set Ds)"
    by (rule bu_pendE) (simp add: assms(2))
  then show ?thesis using assms(2) by (rule bu_refill_core)
qed

section \<open>Iteration and seeking\<close>

lemma bu_advance_found:
  assumes "bu_pend rep P u" "buckets_elems (bu_bitsets u) \<noteq> {}"
  shows "\<exists>u'. bu_advance ops u = Some (bu_doc u', u') \<and> bu_rep rep P u'"
proof -
  let ?B = "buckets_elems (bu_bitsets u)" and ?ws = "bu_window_start_doc u"
  from assms(1) obtain Ds where Ds: "length (bu_bitsets u) = HORIZON_NUM_TINYBITSETS"
    "bu_bucket_idx u \<le> HORIZON_NUM_TINYBITSETS" "\<forall>e\<in>?B. bu_bucket_idx u * 64 \<le> e"
    "\<forall>d\<in>P. d + HORIZON \<le> TERMINATED" "list_all2 rep Ds (bu_docsets u)" "{} \<notin> set Ds"
    "\<Union> (set Ds) \<subseteq> {?ws + HORIZON..}" "P = (\<lambda>e. ?ws + e) ` ?B \<union> \<Union> (set Ds)"
    by (rule bu_pendE)
  obtain ts where a: "advance_buffered u =
      (True, u\<lparr>bu_bitsets := ts, bu_bucket_idx := Min ?B div 64, bu_doc := ?ws + Min ?B\<rparr>)" (is "_ = (True, ?u)")
    and ts: "length ts = HORIZON_NUM_TINYBITSETS" "buckets_elems ts = ?B - {Min ?B}"
    using advance_buffered_law [OF Ds(1-3)] assms(2) by auto
  note mB = Min_in [OF finite_buckets_elems assms(2)]
  have m_lt: "Min ?B < HORIZON" using buckets_elems_less [OF mB] Ds(1) by (simp add: horizon_simps)
  have lt: "Min ?B < e" if "e \<in> ?B - {Min ?B}" for e
    using that by (simp add: Min_le order_neq_le_trans)
  let ?P = "(\<lambda>e. ?ws + e) ` (?B - {Min ?B}) \<union> \<Union> (set Ds)"
  have P: "P = insert (?ws + Min ?B) ?P" using mB Ds(8) by auto
  have idx: "Min ?B div 64 * 64 \<le> e" if "e \<in> ?B - {Min ?B}" for e
    using lt [OF that] div_times_less_eq_dividend [of "Min ?B" 64] by linarith
  have "bu_pend rep ?P ?u"
    using ts Ds(4-7) P idx m_lt by (intro bu_pendI [of _ _ _ Ds]) (auto simp: horizon_simps)
  moreover have "\<forall>p\<in>?P. ?ws + Min ?B < p" using lt m_lt Ds(7) by fastforce
  moreover have "?ws + Min ?B + HORIZON \<le> TERMINATED" using Ds(4) P by blast
  ultimately have "bu_rep rep P ?u" unfolding bu_rep_def
    using P m_lt by (intro exI [of _ ?P]) (auto simp: horizon_simps)
  then show ?thesis using a by (subst bu_advance.simps) simp
qed

lemma bu_advance_law:
  assumes "bu_pend rep P u"
  shows "\<exists>u'. bu_advance ops u = Some (bu_doc u', u') \<and> bu_rep rep P u'"
proof (cases "buckets_elems (bu_bitsets u) = {}")
  case False
  then show ?thesis using bu_advance_found [OF assms] by blast
next
  case True
  let ?u = "u\<lparr>bu_bucket_idx := HORIZON_NUM_TINYBITSETS\<rparr>"
  have a: "advance_buffered u = (False, ?u)"
    using advance_buffered_law [of u] assms True by (simp add: bu_pend_def)
  have p: "bu_pend rep P ?u" using assms True by (simp add: bu_pend_def)
  have e: "buckets_elems (bu_bitsets ?u) = {}" using True by simp
  show ?thesis
  proof (cases "P = {}")
    case empty: True
    then have "bu_refill ops ?u = Some (False, ?u)" using bu_refill_law [OF p e] by simp
    moreover have "bu_rep rep P (?u\<lparr>bu_doc := TERMINATED\<rparr>)" using p empty by (auto simp: bu_rep_def)
    ultimately show ?thesis using a by (subst bu_advance.simps) simp
  next
    case False
    then obtain u' where u': "bu_refill ops ?u = Some (True, u')" "bu_pend rep P u'" "buckets_elems (bu_bitsets u') \<noteq> {}"
      using bu_refill_law [OF p e] by auto
    then show ?thesis using a bu_advance_found [OF u'(2,3)] by (subst bu_advance.simps) simp
  qed
qed

lemma bu_seek_docsets_law:
  assumes "list_all2 rep Ds ss" "t \<le> TERMINATED"
  shows "\<exists>ss'. bu_seek_docsets ops t ss = Some ss' \<and> list_all2 rep (map (\<lambda>D. D \<inter> {t..}) Ds) ss'"
  using assms(1)
proof (induction Ds ss rule: list_all2_induct)
  case (Cons D Ds s ss)
  obtain s' where s': "(if ds_doc ops s < t then map_option snd (ds_seek ops t s) else Some s) = Some s'"
    "rep (D \<inter> {t..}) s'"
    using Cons.hyps(1) assms(2) by (rule seek_child)
  obtain ss' where "bu_seek_docsets ops t ss = Some ss'" "list_all2 rep (map (\<lambda>D. D \<inter> {t..}) Ds) ss'"
    using Cons.IH by blast
  with s' show ?case by (intro exI [of _ "s' # ss'"]) simp
qed simp

end

sublocale buffered_union_of \<subseteq> buffered: docset_iter "buffered_union_ops estimate ops" "bu_rep rep"
proof
  fix D u
  assume u: "bu_rep rep D u"
  show "D \<subseteq> {..<TERMINATED}" using u by (rule bu_rep_bound)
  show "ds_doc (buffered_union_ops estimate ops) u = first_doc D"
    using bu_rep_first [OF u] by (simp add: buffered_union_ops_def)
  show "\<exists>u'. ds_advance (buffered_union_ops estimate ops) u = Some (ds_doc (buffered_union_ops estimate ops) u', u') \<and>
      bu_rep rep (D - {first_doc D}) u'"
    using bu_advance_law [OF bu_rep_pend [OF u]] by (simp add: buffered_union_ops_def)
qed

context buffered_union_of
begin

text \<open>Seeking inside the window drops the buckets before the target's and pops from there.\<close>

lemma bu_seek_near:
  assumes "bu_rep rep D u" "bu_doc u < t" "t \<le> TERMINATED" "t - bu_window_start_doc u < HORIZON"
  shows "\<exists>u'. bu_seek ops t u = Some (bu_doc u', u') \<and> bu_rep rep (D \<inter> {t..}) u'"
proof -
  let ?ws = "bu_window_start_doc u" and ?B = "buckets_elems (bu_bitsets u)" and ?n = "(t - bu_window_start_doc u) div 64"
  from assms(1,2,3) obtain P where P: "bu_pend rep P u" "D = insert (bu_doc u) P" "?ws \<le> bu_doc u"
    "(bu_doc u - ?ws) div 64 = bu_bucket_idx u"
    unfolding bu_rep_def by auto
  from P(1) obtain Ds where Ds: "length (bu_bitsets u) = HORIZON_NUM_TINYBITSETS"
    "\<forall>e\<in>?B. bu_bucket_idx u * 64 \<le> e" "\<forall>d\<in>P. d + HORIZON \<le> TERMINATED" "list_all2 rep Ds (bu_docsets u)"
    "{} \<notin> set Ds" "\<Union> (set Ds) \<subseteq> {?ws + HORIZON..}" "P = (\<lambda>e. ?ws + e) ` ?B \<union> \<Union> (set Ds)"
    by (rule bu_pendE)
  have n: "bu_bucket_idx u \<le> ?n" "?n < HORIZON_NUM_TINYBITSETS"
    using P(3,4) assms(2,4) by (auto simp: horizon_simps intro: div_le_mono)
  then obtain ts where c: "clear_range (bu_bucket_idx u) ?n (bu_bitsets u) = Some ts"
    using Ds(1) by (simp add: clear_range_def)
  have ts: "length ts = HORIZON_NUM_TINYBITSETS" "buckets_elems ts = {e \<in> ?B. ?n * 64 \<le> e}"
  proof -
    show "length ts = HORIZON_NUM_TINYBITSETS" using buckets_elems_clear_range(1) [OF c] Ds(1) by simp
    have "bu_bucket_idx u \<le> e div 64" if "e \<in> ?B" for e using Ds(2) that by (simp add: less_eq_div_iff_mult_less_eq)
    then show "buckets_elems ts = {e \<in> ?B. ?n * 64 \<le> e}"
      unfolding buckets_elems_clear_range(2) [OF c] by (auto simp: less_eq_div_iff_mult_less_eq [symmetric] not_less)
  qed
  let ?u = "u\<lparr>bu_bitsets := ts, bu_bucket_idx := ?n\<rparr>"
  let ?P = "(\<lambda>e. ?ws + e) ` {e \<in> ?B. ?n * 64 \<le> e} \<union> \<Union> (set Ds)"
  have "bu_pend rep ?P ?u" using ts n(2) Ds(3-7) by (intro bu_pendI [of _ _ _ Ds]) auto
  from bu_advance_law [OF this] obtain u1 where u1: "bu_advance ops ?u = Some (bu_doc u1, u1)" "bu_rep rep ?P u1" by blast
  have "?n * 64 \<le> t - ?ws" by simp
  then have "?ws + ?n * 64 \<le> t" using P(3) assms(2) by linarith
  then have "?P \<inter> {t..} = D \<inter> {t..}" using P(2) Ds(7) assms(2) by auto
  moreover have "seek_loop (bu_advance ops) t (bu_doc u) ?u = seek_loop (bu_advance ops) t (bu_doc u1) u1"
    using u1(1) assms(2) by (subst seek_loop.simps) simp
  moreover have "\<exists>u'. seek_loop (bu_advance ops) t (first_doc ?P) u1 = Some (first_doc (?P \<inter> {t..}), u') \<and> bu_rep rep (?P \<inter> {t..}) u'"
    using buffered.seek_loop_law [OF u1(2) assms(3), of "\<lambda>_. 0"] by (simp add: buffered_union_ops_def)
  ultimately have "\<exists>u'. seek_loop (bu_advance ops) t (bu_doc u) ?u = Some (first_doc (D \<inter> {t..}), u') \<and> bu_rep rep (D \<inter> {t..}) u'"
    using bu_rep_first [OF u1(2)] by simp
  then obtain u' where u': "seek_loop (bu_advance ops) t (bu_doc u) ?u = Some (first_doc (D \<inter> {t..}), u')"
    "bu_rep rep (D \<inter> {t..}) u'" by blast
  then show ?thesis using c assms(2,4) bu_rep_first [OF u'(2)] by (intro exI [of _ u']) (simp add: bu_seek_def Let_def)
qed

text \<open>Seeking beyond the window empties it, seeks the children and loads a new window.\<close>

lemma bu_seek_far:
  assumes "bu_rep rep D u" "bu_doc u < t" "t \<le> TERMINATED" "\<not> t - bu_window_start_doc u < HORIZON"
  shows "\<exists>u'. bu_seek ops t u = Some (bu_doc u', u') \<and> bu_rep rep (D \<inter> {t..}) u'"
proof -
  let ?ws = "bu_window_start_doc u" and ?B = "buckets_elems (bu_bitsets u)"
  from assms(1,2,3) obtain P where P: "bu_pend rep P u" "D = insert (bu_doc u) P" unfolding bu_rep_def by auto
  from P(1) obtain Ds where Ds: "length (bu_bitsets u) = HORIZON_NUM_TINYBITSETS"
    "bu_bucket_idx u \<le> HORIZON_NUM_TINYBITSETS"
    "\<forall>d\<in>P. d + HORIZON \<le> TERMINATED" "list_all2 rep Ds (bu_docsets u)"
    "{} \<notin> set Ds" "\<Union> (set Ds) \<subseteq> {?ws + HORIZON..}" "P = (\<lambda>e. ?ws + e) ` ?B \<union> \<Union> (set Ds)"
    by (rule bu_pendE)
  obtain ss where ss: "bu_seek_docsets ops t (bu_docsets u) = Some ss" "list_all2 rep (map (\<lambda>D. D \<inter> {t..}) Ds) ss"
    using bu_seek_docsets_law [OF Ds(4) assms(3)] by blast
  let ?u = "u\<lparr>bu_docsets := filter (\<lambda>s. ds_doc ops s \<noteq> TERMINATED) ss, bu_bitsets := map (\<lambda>_. tinyset_empty) (bu_bitsets u)\<rparr>"
  let ?Es = "filter (\<lambda>E. E \<noteq> {}) (map (\<lambda>D. D \<inter> {t..}) Ds)"
  have "?ws + e < t" if "e \<in> ?B" for e
    using buckets_elems_less [OF that] Ds(1) assms(4) by (simp add: horizon_simps)
  then have "D \<inter> {t..} = \<Union> (set Ds) \<inter> {t..}" unfolding P(2) Ds(7) using assms(2) by fastforce
  also have "\<dots> = \<Union> (set ?Es)" by auto
  finally have eq: "D \<inter> {t..} = \<Union> (set ?Es)" .
  have pend: "bu_pend rep (D \<inter> {t..}) ?u"
  proof (rule bu_pendI [of _ _ _ ?Es])
    show "\<forall>d\<in>D \<inter> {t..}. d + HORIZON \<le> TERMINATED" using P(2) Ds(3) assms(2) by auto
    show "\<Union> (set ?Es) \<subseteq> {bu_window_start_doc ?u + HORIZON..}" using Ds(6) by auto
    show "list_all2 rep ?Es (bu_docsets ?u)" using list_rep_filter [OF ss(2)] by simp
  qed (use Ds(1,2) eq in \<open>auto simp: map_replicate_const\<close>)
  have e: "buckets_elems (bu_bitsets ?u) = {}" by simp
  show ?thesis
  proof (cases "D \<inter> {t..} = {}")
    case True
    then have "bu_refill ops ?u = Some (False, ?u)"
      using bu_refill_law [OF pend e] by (auto simp only: simp_thms if_True)
    moreover have "bu_rep rep {} (?u\<lparr>bu_doc := TERMINATED\<rparr>)" using pend True by (auto simp: bu_rep_def)
    ultimately show ?thesis using assms(2,4) ss(1) unfolding True by (simp add: bu_seek_def Let_def)
  next
    case False
    then obtain u' where u': "bu_refill ops ?u = Some (True, u')" "bu_pend rep (D \<inter> {t..}) u'"
      using bu_refill_law [OF pend e] by auto
    then show ?thesis using bu_advance_law [OF u'(2)] assms(2,4) ss(1) by (simp add: bu_seek_def Let_def)
  qed
qed

end

sublocale buffered_union_of \<subseteq> buffered: docset_seek "buffered_union_ops estimate ops" "bu_rep rep"
proof
  fix D u t
  assume u: "bu_rep rep D u" and t: "t \<le> TERMINATED"
  show "\<exists>u'. ds_seek (buffered_union_ops estimate ops) t u = Some (ds_doc (buffered_union_ops estimate ops) u', u') \<and>
      bu_rep rep (D \<inter> {t..}) u'"
  proof (cases "bu_doc u < t")
    case True
    then show ?thesis using bu_seek_near [OF u _ t] bu_seek_far [OF u _ t] by (auto simp: buffered_union_ops_def)
  next
    case False
    then have "D \<inter> {t..} = D" using bu_rep_first [OF u] first_doc_le [OF _ bu_rep_bound [OF u]] by force
    then show ?thesis using False u by (simp add: buffered_union_ops_def bu_seek_def)
  qed
qed

sublocale buffered_union_of \<subseteq> buffered: docset "buffered_union_ops estimate ops" "bu_rep rep" "valid_ready (bu_rep rep)"
  by (rule buffered.docset_default) (simp add: buffered_union_ops_def)

section \<open>Filling a buffer\<close>

lemma sorted_list_first:
  assumes "finite A" "A \<noteq> {}"
  shows "sorted_list_of_set A = Min A # sorted_list_of_set (A - {Min A})"
  using assms by (simp add: sorted_list_of_set_nonempty)

lemma sorted_list_Un:
  assumes "finite A" "finite B" "\<And>a b. a \<in> A \<Longrightarrow> b \<in> B \<Longrightarrow> a < (b :: nat)"
  shows "sorted_list_of_set (A \<union> B) = sorted_list_of_set A @ sorted_list_of_set B"
proof (rule sorted_distinct_set_unique)
  show "sorted (sorted_list_of_set A @ sorted_list_of_set B)"
    using assms by (auto simp: sorted_append intro: less_imp_le)
  show "distinct (sorted_list_of_set A @ sorted_list_of_set B)" using assms by fastforce
qed (use assms in auto)

lemma sorted_list_image:
  assumes "finite A" "\<And>a b. a < b \<Longrightarrow> f a < (f b :: nat)"
  shows "sorted_list_of_set (f ` A) = map f (sorted_list_of_set (A :: nat set))"
proof (rule sorted_distinct_set_unique)
  have "inj f" using assms(2) by (intro linorder_injI) (metis less_irrefl)
  then show "distinct (map f (sorted_list_of_set A))" by (simp add: distinct_map inj_on_def)
  have "f a \<le> f b" if "a \<le> b" for a b using assms(2) [of a b] that by (metis le_less)
  then show "sorted (map f (sorted_list_of_set A))"
    by (simp add: sorted_map sorted_wrt_mono_rel [OF _ sorted_sorted_list_of_set])
qed (use assms(1) in auto)

text \<open>One bucket: its documents in order go to the buffer until it is full.\<close>

lemma bu_doc_update_id: "u\<lparr>bu_doc := bu_doc u\<rparr> = u"
  by simp

lemma bu_drain_law:
  assumes "length buffer \<le> COLLECT_BLOCK_BUFFER_LEN" "bu_window_start_doc u = ws" "bu_bucket_idx u = idx"
  shows "if length buffer + tinyset_len t \<le> COLLECT_BLOCK_BUFFER_LEN
    then \<exists>d. bu_drain t buffer u =
      Some (False, buffer @ map (\<lambda>v. ws + (v + idx * 64)) (sorted_list_of_set (tinyset_elems t)), u\<lparr>bu_doc := d\<rparr>)
    else \<exists>xs v t'. sorted_list_of_set (tinyset_elems t) = xs @ v # sorted_list_of_set (tinyset_elems t') \<and>
      length buffer + length xs = COLLECT_BLOCK_BUFFER_LEN \<and>
      bu_drain t buffer u = Some (True, buffer @ map (\<lambda>v. ws + (v + idx * 64)) xs,
        u\<lparr>bu_doc := ws + (v + idx * 64), bu_bitsets := (bu_bitsets u)[idx := t']\<rparr>)"
  using assms
proof (induction "tinyset_len t" arbitrary: t buffer u rule: less_induct)
  case less
  let ?E = "tinyset_elems t" and ?f = "\<lambda>v. ws + (v + idx * 64)"
  show ?case
  proof (cases "?E = {}")
    case True
    then show ?thesis using less.prems
      by (simp add: tinyset_len_card bu_drain.simps) (metis bu_doc_update_id)
  next
    case False
    obtain t' where t': "tinyset_pop_lowest t = (Some (Min ?E), t')" "tinyset_elems t' = ?E - {Min ?E}"
      using pop_lowest_Min [OF False] by (cases "tinyset_pop_lowest t") auto
    note sl = sorted_list_first [OF finite_tinyset_elems False, folded t'(2)]
    have len: "tinyset_len t = Suc (tinyset_len t')"
      using False t'(2) by (simp add: tinyset_len_card card_Suc_Diff1 card_gt_0_iff)
    show ?thesis
    proof (cases "length buffer \<ge> COLLECT_BLOCK_BUFFER_LEN")
      case True
      then show ?thesis using less.prems t'(1) len sl
        by (intro if_not_P [THEN iffD2, OF _ exI [of _ "[]"]]) (auto simp: bu_drain.simps Let_def)
    next
      case room: False
      let ?u = "u\<lparr>bu_doc := ?f (Min ?E)\<rparr>" and ?b = "buffer @ [?f (Min ?E)]"
      have step: "bu_drain t buffer u = bu_drain t' ?b ?u"
        using room less.prems(2,3) t'(1) by (subst bu_drain.simps) (simp add: Let_def)
      have "tinyset_len t' < tinyset_len t" "length ?b \<le> COLLECT_BLOCK_BUFFER_LEN"
        "bu_window_start_doc ?u = ws" "bu_bucket_idx ?u = idx" using len room less.prems by auto
      note ih = less.hyps [OF this]
      show ?thesis
      proof (cases "length buffer + tinyset_len t \<le> COLLECT_BLOCK_BUFFER_LEN")
        case True
        then show ?thesis using ih unfolding step sl len by auto
      next
        case full: False
        then obtain xs v t'' where "sorted_list_of_set (tinyset_elems t') = xs @ v # sorted_list_of_set (tinyset_elems t'')"
          "length ?b + length xs = COLLECT_BLOCK_BUFFER_LEN"
          "bu_drain t' ?b ?u = Some (True, ?b @ map ?f xs, ?u\<lparr>bu_doc := ?f v, bu_bitsets := (bu_bitsets ?u)[idx := t'']\<rparr>)"
          using ih len by auto
        then show ?thesis using full unfolding step sl
          by (simp only: if_False) (intro exI [of _ "Min ?E # xs"] exI [of _ v] exI [of _ t''], simp)
      qed
    qed
  qed
qed

text \<open>The documents of the current bucket come first; what replaces them keeps the rest in place.\<close>

lemma bu_bucket_split:
  fixes u :: "'s buffered_union"
  defines "f \<equiv> \<lambda>v. bu_window_start_doc u + (v + bu_bucket_idx u * 64)"
  defines "E \<equiv> tinyset_elems (bu_bitsets u ! bu_bucket_idx u)"
  assumes "bu_pend rep P u" "bu_bucket_idx u < HORIZON_NUM_TINYBITSETS"
  shows "f ` E \<subseteq> P"
    and "\<And>x y. x \<in> f ` E \<Longrightarrow> y \<in> P - f ` E \<Longrightarrow> x < y"
    and "tinyset_elems t \<subseteq> E \<Longrightarrow>
      bu_pend rep (f ` tinyset_elems t \<union> (P - f ` E)) (u\<lparr>bu_bitsets := (bu_bitsets u)[bu_bucket_idx u := t]\<rparr>)"
proof -
  let ?ws = "bu_window_start_doc u" and ?i = "bu_bucket_idx u" and ?ts = "bu_bitsets u"
  from assms(3) obtain Ds where Ds: "length ?ts = HORIZON_NUM_TINYBITSETS" "\<forall>e\<in>buckets_elems ?ts. ?i * 64 \<le> e"
    "\<forall>d\<in>P. d + HORIZON \<le> TERMINATED" "list_all2 rep Ds (bu_docsets u)" "{} \<notin> set Ds"
    "\<Union> (set Ds) \<subseteq> {?ws + HORIZON..}" "P = (\<lambda>e. ?ws + e) ` buckets_elems ?ts \<union> \<Union> (set Ds)"
    by (rule bu_pendE)
  have il: "?i < length ?ts" using assms(4) Ds(1) by simp
  let ?R = "{x \<in> buckets_elems ?ts. x div 64 \<noteq> ?i}"
  have ts: "buckets_elems ?ts = ?R \<union> (\<lambda>v. v + ?i * 64) ` E" unfolding E_def by (rule buckets_elems_nth [OF il])
  have f: "f ` A = (\<lambda>e. ?ws + e) ` ((\<lambda>v. v + ?i * 64) ` A)" for A by (auto simp: f_def image_image)
  have R: "(?i + 1) * 64 \<le> x" if "x \<in> ?R" for x
  proof -
    have "?i \<le> x div 64" using that Ds(2) by (auto simp: less_eq_div_iff_mult_less_eq)
    then have "?i + 1 \<le> x div 64" using that by auto
    then show ?thesis by (simp only: less_eq_div_iff_mult_less_eq)
  qed
  have H: "(?i + 1) * 64 \<le> HORIZON" using assms(4) by (simp add: horizon_simps)
  show sub: "f ` E \<subseteq> P" unfolding Ds(7) f using ts by blast
  have lt: "x < ?ws + (?i + 1) * 64" if "x \<in> f ` E" for x
    using that tinyset_elems_less unfolding f_def E_def by fastforce
  have rest: "?ws + (?i + 1) * 64 \<le> y" if "y \<in> (\<lambda>e. ?ws + e) ` ?R \<union> \<Union> (set Ds)" for y
    using that R Ds(6) H by fastforce
  have eq: "P - f ` E = (\<lambda>e. ?ws + e) ` ?R \<union> \<Union> (set Ds)"
  proof -
    have "P = f ` E \<union> ((\<lambda>e. ?ws + e) ` ?R \<union> \<Union> (set Ds))" unfolding Ds(7) f by (subst ts) (auto simp: image_Un)
    moreover have "f ` E \<inter> ((\<lambda>e. ?ws + e) ` ?R \<union> \<Union> (set Ds)) = {}" using lt rest by (meson disjoint_iff leD)
    ultimately show ?thesis by blast
  qed
  show "x < y" if "x \<in> f ` E" "y \<in> P - f ` E" for x y
    using lt [OF that(1)] rest [of y] that(2) unfolding eq by linarith
  show "bu_pend rep (f ` tinyset_elems t \<union> (P - f ` E)) (u\<lparr>bu_bitsets := ?ts[?i := t]\<rparr>)"
    if t: "tinyset_elems t \<subseteq> E"
  proof (rule bu_pendI [of _ _ _ Ds])
    note set = buckets_elems_set [OF il, of t]
    show "\<forall>d\<in>f ` tinyset_elems t \<union> (P - f ` E). d + HORIZON \<le> TERMINATED" using Ds(3) sub t by blast
    show "\<forall>e\<in>buckets_elems (bu_bitsets (u\<lparr>bu_bitsets := ?ts[?i := t]\<rparr>)). bu_bucket_idx (u\<lparr>bu_bitsets := ?ts[?i := t]\<rparr>) * 64 \<le> e"
      using Ds(2) by (auto simp: set)
    show "f ` tinyset_elems t \<union> (P - f ` E) = (\<lambda>e. bu_window_start_doc (u\<lparr>bu_bitsets := ?ts[?i := t]\<rparr>) + e) `
        buckets_elems (bu_bitsets (u\<lparr>bu_bitsets := ?ts[?i := t]\<rparr>)) \<union> \<Union> (set Ds)"
      unfolding eq unfolding f by (simp add: set image_Un Un_ac)
  qed (use Ds assms(4) in auto)
qed

lemma bu_next_bucket:
  assumes "bu_pend rep P u" "bu_bucket_idx u < HORIZON_NUM_TINYBITSETS"
    "tinyset_elems (bu_bitsets u ! bu_bucket_idx u) = {}"
  shows "bu_pend rep P (u\<lparr>bu_bucket_idx := bu_bucket_idx u + 1\<rparr>)"
  using assms buckets_bucket_empty [of "bu_bucket_idx u" "bu_bitsets u"] by (simp add: bu_pend_def)

lemma bu_pend_update_doc:
  "bu_pend rep P (u\<lparr>bu_doc := d, bu_bitsets := ts\<rparr>) = bu_pend rep P (u\<lparr>bu_bitsets := ts\<rparr>)"
  "bu_pend rep P (u\<lparr>bu_doc := d, bu_bitsets := ts, bu_bucket_idx := i\<rparr>) = bu_pend rep P (u\<lparr>bu_bitsets := ts, bu_bucket_idx := i\<rparr>)"
  by (simp_all add: bu_pend_def)

lemma bu_pend_window:
  assumes "bu_pend rep P u"
  shows "P \<inter> {bu_window_start_doc u + HORIZON..} \<union> (\<lambda>e. bu_window_start_doc u + e) ` buckets_elems (bu_bitsets u) = P"
    and "e \<in> buckets_elems (bu_bitsets u) \<Longrightarrow> bu_window_start_doc u + e \<in> P - {bu_window_start_doc u + HORIZON..}"
proof -
  let ?ws = "bu_window_start_doc u" and ?B = "buckets_elems (bu_bitsets u)"
  from assms obtain Ds where Ds: "length (bu_bitsets u) = HORIZON_NUM_TINYBITSETS"
    "\<Union> (set Ds) \<subseteq> {?ws + HORIZON..}" "P = (\<lambda>e. ?ws + e) ` ?B \<union> \<Union> (set Ds)"
    by (rule bu_pendE)
  have lt: "e < HORIZON" if "e \<in> ?B" for e using buckets_elems_less [OF that] Ds(1) by (simp add: horizon_simps)
  then show "e \<in> ?B \<Longrightarrow> ?ws + e \<in> P - {?ws + HORIZON..}" using Ds(3) by force
  show "P \<inter> {?ws + HORIZON..} \<union> (\<lambda>e. ?ws + e) ` ?B = P"
    unfolding Ds(3) using lt Ds(2) by fastforce
qed

lemma bu_pend_empty_window:
  assumes "bu_pend rep P u" "\<not> bu_bucket_idx u < HORIZON_NUM_TINYBITSETS"
  shows "buckets_elems (bu_bitsets u) = {}"
proof -
  from assms(1) obtain Ds where "length (bu_bitsets u) = HORIZON_NUM_TINYBITSETS"
    "bu_bucket_idx u \<le> HORIZON_NUM_TINYBITSETS" "\<forall>e\<in>buckets_elems (bu_bitsets u). bu_bucket_idx u * 64 \<le> e"
    by (rule bu_pendE)
  then show ?thesis using assms(2) buckets_elems_less [of _ "bu_bitsets u"] by (fastforce simp: mult.commute)
qed

context buffered_union_of
begin

lemma bu_fill_loop_law:
  assumes "bu_pend rep P u" "length buffer \<le> COLLECT_BLOCK_BUFFER_LEN"
  shows "\<exists>u'. bu_fill_loop ops buffer u =
      Some (buffer @ take (COLLECT_BLOCK_BUFFER_LEN - length buffer) (sorted_list_of_set P), u') \<and>
    bu_rep rep (set (drop (COLLECT_BLOCK_BUFFER_LEN - length buffer) (sorted_list_of_set P))) u'"
  using assms
proof (induction "65 * card (P \<inter> {bu_window_start_doc u + HORIZON..}) + (HORIZON_NUM_TINYBITSETS - bu_bucket_idx u)"
    arbitrary: P u buffer rule: less_induct)
  case less
  let ?ws = "bu_window_start_doc u" and ?i = "bu_bucket_idx u" and ?ts = "bu_bitsets u"
  let ?k = "COLLECT_BLOCK_BUFFER_LEN - length buffer"
  note fin = finite_docs [OF bu_pend_bound [OF less.prems(1)]]
  show ?case
  proof (cases "?i < HORIZON_NUM_TINYBITSETS")
    case True
    let ?f = "\<lambda>v. ?ws + (v + ?i * 64)" and ?E = "tinyset_elems (?ts ! ?i)"
    note split = bu_bucket_split [OF less.prems(1) True]
    let ?R = "P - ?f ` ?E"
    have mono: "sorted_list_of_set (?f ` A) = map ?f (sorted_list_of_set A)" if "finite A" for A
      using that by (intro sorted_list_image) auto
    have "P = ?f ` ?E \<union> ?R" using split(1) by blast
    then have list: "sorted_list_of_set P = map ?f (sorted_list_of_set ?E) @ sorted_list_of_set ?R"
      using sorted_list_Un [of "?f ` ?E" ?R] split(2) fin mono [OF finite_tinyset_elems] by auto
    note drain = bu_drain_law [where u = u and t = "?ts ! ?i", OF less.prems(2) refl refl]
    have len: "length (sorted_list_of_set ?E) = tinyset_len (?ts ! ?i)" by (simp add: tinyset_len_card)
    show ?thesis
    proof (cases "length buffer + tinyset_len (?ts ! ?i) \<le> COLLECT_BLOCK_BUFFER_LEN")
      case fits: True
      then obtain d where d: "bu_drain (?ts ! ?i) buffer u =
          Some (False, buffer @ map ?f (sorted_list_of_set ?E), u\<lparr>bu_doc := d\<rparr>)"
        using drain by auto
      let ?b = "buffer @ map ?f (sorted_list_of_set ?E)"
      let ?u = "u\<lparr>bu_doc := d, bu_bitsets := ?ts[?i := tinyset_empty], bu_bucket_idx := ?i + 1\<rparr>"
      have "bu_pend rep ?R (u\<lparr>bu_bitsets := ?ts[?i := tinyset_empty]\<rparr>)"
        using split(3) [of tinyset_empty] by (simp add: elems_empty)
      from bu_next_bucket [OF this] have p: "bu_pend rep ?R ?u"
        using True less.prems(1) by (simp add: bu_pend_update_doc elems_empty bu_pend_def)
      have lb: "length ?b \<le> COLLECT_BLOCK_BUFFER_LEN" using fits len by simp
      have "card (?R \<inter> {?ws + HORIZON..}) \<le> card (P \<inter> {?ws + HORIZON..})" using fin by (intro card_mono) auto
      then have "65 * card (?R \<inter> {bu_window_start_doc ?u + HORIZON..}) + (HORIZON_NUM_TINYBITSETS - bu_bucket_idx ?u)
          < 65 * card (P \<inter> {?ws + HORIZON..}) + (HORIZON_NUM_TINYBITSETS - ?i)"
        using True by simp
      from less.hyps [OF this p lb] obtain u' where
        u': "bu_fill_loop ops ?b ?u = Some (?b @ take (COLLECT_BLOCK_BUFFER_LEN - length ?b) (sorted_list_of_set ?R), u')"
          "bu_rep rep (set (drop (COLLECT_BLOCK_BUFFER_LEN - length ?b) (sorted_list_of_set ?R))) u'" by blast
      have "?k - tinyset_len (?ts ! ?i) = COLLECT_BLOCK_BUFFER_LEN - length ?b" "tinyset_len (?ts ! ?i) \<le> ?k"
        using fits len by auto
      then have "?b @ take (COLLECT_BLOCK_BUFFER_LEN - length ?b) (sorted_list_of_set ?R) = buffer @ take ?k (sorted_list_of_set P)"
        "drop (COLLECT_BLOCK_BUFFER_LEN - length ?b) (sorted_list_of_set ?R) = drop ?k (sorted_list_of_set P)"
        unfolding list using len by simp_all
      moreover have "bu_fill_loop ops buffer u = bu_fill_loop ops ?b ?u"
        using True d by (subst bu_fill_loop.simps) (simp add: Let_def)
      ultimately show ?thesis using u' by (intro exI [of _ u']) simp
    next
      case full: False
      then obtain xs v t' where x: "sorted_list_of_set ?E = xs @ v # sorted_list_of_set (tinyset_elems t')"
        "length buffer + length xs = COLLECT_BLOCK_BUFFER_LEN"
        "bu_drain (?ts ! ?i) buffer u = Some (True, buffer @ map ?f xs, u\<lparr>bu_doc := ?f v, bu_bitsets := ?ts[?i := t']\<rparr>)"
        using drain by auto
      let ?u = "u\<lparr>bu_doc := ?f v, bu_bitsets := ?ts[?i := t']\<rparr>"
      have k: "?k = length (map ?f xs)" using x(2) by simp
      have elems: "insert v (tinyset_elems t') \<subseteq> ?E" "\<forall>w\<in>tinyset_elems t'. v < w"
      proof -
        have "set (sorted_list_of_set ?E) = set (xs @ v # sorted_list_of_set (tinyset_elems t'))" using x(1) by simp
        then show "insert v (tinyset_elems t') \<subseteq> ?E" by auto
        have "sorted_wrt (<) (xs @ v # sorted_list_of_set (tinyset_elems t'))"
          unfolding x(1) [symmetric] by simp
        then show "\<forall>w\<in>tinyset_elems t'. v < w" by (simp add: sorted_wrt_append)
      qed
      have take: "take ?k (sorted_list_of_set P) = map ?f xs"
        and drop: "drop ?k (sorted_list_of_set P) = ?f v # map ?f (sorted_list_of_set (tinyset_elems t')) @ sorted_list_of_set ?R"
        unfolding list x(1) k by simp_all
      let ?P = "?f ` tinyset_elems t' \<union> ?R"
      have "set (drop ?k (sorted_list_of_set P)) = insert (?f v) ?P" unfolding drop using fin by auto
      moreover have "bu_rep rep (insert (?f v) ?P) ?u"
        unfolding bu_rep_def
      proof (intro exI [of _ ?P] conjI disjI2)
        show "bu_pend rep ?P ?u" using split(3) [of t'] elems(1) by (simp add: bu_pend_update_doc)
        show "\<forall>p\<in>?P. bu_doc ?u < p" using elems split(2) [of "?f v"] by auto
        have "?f v \<in> P" using elems(1) split(1) by blast
        then show "bu_doc ?u + HORIZON \<le> TERMINATED" using less.prems(1) by (auto simp: bu_pend_def)
        have "v < 64" using elems(1) tinyset_elems_less by blast
        then show "(bu_doc ?u - bu_window_start_doc ?u) div 64 = bu_bucket_idx ?u" by simp
      qed (use True in auto)
      moreover have "bu_fill_loop ops buffer u = Some (buffer @ map ?f xs, ?u)"
        using True x(3) by (subst bu_fill_loop.simps) (simp add: Let_def)
      ultimately show ?thesis unfolding take by (intro exI [of _ ?u]) simp
    qed
  next
    case False
    note e = bu_pend_empty_window [OF less.prems(1) False]
    note ref = bu_refill_law [OF less.prems(1) e]
    show ?thesis
    proof (cases "P = {}")
      case True
      then have r: "bu_refill ops u = Some (False, u)" using ref by simp
      have "bu_rep rep {} (u\<lparr>bu_doc := TERMINATED\<rparr>)" using less.prems(1) True by (auto simp: bu_rep_def)
      then show ?thesis using False r unfolding True
        by (subst bu_fill_loop.simps) (simp add: Let_def)
    next
      case ne: False
      then obtain u' where u': "bu_refill ops u = Some (True, u')" "bu_pend rep P u'" "buckets_elems (bu_bitsets u') \<noteq> {}"
        "bu_bucket_idx u' = 0"
        using ref by auto
      obtain e' where e': "e' \<in> buckets_elems (bu_bitsets u')" using u'(3) by blast
      have "P \<inter> {?ws + HORIZON..} = P" using bu_pend_window(1) [OF less.prems(1)] unfolding e by auto
      moreover have "card (P \<inter> {bu_window_start_doc u' + HORIZON..}) < card P"
        using fin bu_pend_window(2) [OF u'(2) e'] by (intro psubset_card_mono) blast+
      ultimately have "65 * card (P \<inter> {bu_window_start_doc u' + HORIZON..}) + (HORIZON_NUM_TINYBITSETS - bu_bucket_idx u')
          < 65 * card (P \<inter> {?ws + HORIZON..}) + (HORIZON_NUM_TINYBITSETS - ?i)"
        using u'(4) by (simp add: horizon_simps)
      from less.hyps [OF this u'(2) less.prems(2)] show ?thesis
        using False u'(1) by (subst bu_fill_loop.simps) (simp add: Let_def)
    qed
  qed
qed

lemma bu_fill_buffer_law:
  assumes "bu_rep rep D u"
  shows "\<exists>u'. bu_fill_buffer ops u = Some (take 64 (sorted_list_of_set D), u') \<and>
    bu_rep rep (set (drop 64 (sorted_list_of_set D))) u'"
proof (cases "D = {}")
  case True
  then show ?thesis using assms bu_rep_first [OF assms] by (simp add: bu_fill_buffer_def)
next
  case False
  note b = bu_rep_bound [OF assms]
  have l: "sorted_list_of_set D = bu_doc u # sorted_list_of_set (D - {first_doc D})"
    using sorted_list_first [OF finite_docs [OF b] False] bu_rep_first [OF assms] False by (simp add: first_doc_def)
  have "bu_doc u \<noteq> TERMINATED" using bu_rep_first [OF assms] first_doc_terminated_iff [OF b] False by simp
  then show ?thesis
    using bu_fill_loop_law [OF bu_rep_pend [OF assms], of "[bu_doc u]"]
    by (simp add: bu_fill_buffer_def COLLECT_BLOCK_BUFFER_LEN_def l take_Cons' drop_Cons')
qed

section \<open>Counting\<close>

lemma bu_pend_clear:
  assumes "bu_pend rep P u"
  shows "bu_pend rep (P \<inter> {bu_window_start_doc u + HORIZON..}) (u\<lparr>bu_bitsets := map (\<lambda>_. tinyset_empty) (bu_bitsets u)\<rparr>)"
    and "card P = card (P \<inter> {bu_window_start_doc u + HORIZON..}) + card (buckets_elems (bu_bitsets u))"
proof -
  let ?ws = "bu_window_start_doc u" and ?B = "buckets_elems (bu_bitsets u)"
  from assms obtain Ds where Ds: "length (bu_bitsets u) = HORIZON_NUM_TINYBITSETS"
    "bu_bucket_idx u \<le> HORIZON_NUM_TINYBITSETS" "\<forall>d\<in>P. d + HORIZON \<le> TERMINATED" "list_all2 rep Ds (bu_docsets u)"
    "{} \<notin> set Ds" "\<Union> (set Ds) \<subseteq> {?ws + HORIZON..}" "P = (\<lambda>e. ?ws + e) ` ?B \<union> \<Union> (set Ds)"
    by (rule bu_pendE)
  have lt: "e < HORIZON" if "e \<in> ?B" for e using buckets_elems_less [OF that] Ds(1) by (simp add: horizon_simps)
  have eq: "P \<inter> {?ws + HORIZON..} = \<Union> (set Ds)" unfolding Ds(7) using lt Ds(6) by fastforce
  show "bu_pend rep (P \<inter> {?ws + HORIZON..}) (u\<lparr>bu_bitsets := map (\<lambda>_. tinyset_empty) (bu_bitsets u)\<rparr>)"
    unfolding eq using Ds by (intro bu_pendI [of _ _ _ Ds]) auto
  have "card ((\<lambda>e. ?ws + e) ` ?B) = card ?B" by (rule card_image) simp
  moreover have "(\<lambda>e. ?ws + e) ` ?B \<inter> \<Union> (set Ds) = {}" using lt Ds(6) by fastforce
  moreover have "finite P" by (rule finite_docs [OF bu_pend_bound [OF assms]])
  then have "finite (\<Union> (set Ds))" unfolding Ds(7) by blast
  ultimately show "card P = card (P \<inter> {?ws + HORIZON..}) + card ?B"
    unfolding eq unfolding Ds(7) by (subst card_Un_disjoint) auto
qed

lemma bu_count_loop_law:
  assumes "bu_pend rep P u" "buckets_elems (bu_bitsets u) = {}"
  shows "map_option fst (bu_count_loop ops n u) = Some (n + card P)"
  using assms
proof (induction "card P" arbitrary: P u n rule: less_induct)
  case less
  show ?case
  proof (cases "P = {}")
    case True
    then show ?thesis using bu_refill_law [OF less.prems] by (subst bu_count_loop.simps) simp
  next
    case False
    then obtain u' where u': "bu_refill ops u = Some (True, u')" "bu_pend rep P u'" "buckets_elems (bu_bitsets u') \<noteq> {}"
      using bu_refill_law [OF less.prems] by auto
    note cl = bu_pend_clear [OF u'(2)]
    have "card (buckets_elems (bu_bitsets u')) > 0" using u'(3) by (simp add: card_gt_0_iff)
    with cl(2) have "card (P \<inter> {bu_window_start_doc u' + HORIZON..}) < card P" by simp
    from less.hyps [OF this cl(1), of "n + sum_list (map tinyset_len (bu_bitsets u'))"] show ?thesis
      using u'(1) cl(2) by (subst bu_count_loop.simps) (simp add: card_buckets_elems algebra_simps)
  qed
qed

lemma bu_count_law:
  assumes "bu_rep rep D u"
  shows "map_option fst (bu_count_including_deleted ops u) = Some (card D)"
proof (cases "D = {}")
  case True
  then show ?thesis using bu_rep_first [OF assms] by (simp add: bu_count_including_deleted_def)
next
  case False
  note b = bu_rep_bound [OF assms]
  note p = bu_rep_pend [OF assms]
  note cl = bu_pend_clear [OF p]
  have doc: "bu_doc u \<noteq> TERMINATED" using bu_rep_first [OF assms] first_doc_terminated_iff [OF b] False by simp
  have "card D = card (D - {first_doc D}) + 1"
    using first_doc_in [OF False b] finite_docs [OF b] by (metis Suc_eq_plus1 card.remove)
  moreover have "sum_list (map tinyset_len (drop (bu_bucket_idx u) (bu_bitsets u))) = card (buckets_elems (bu_bitsets u))"
  proof -
    have "tinyset_len t = 0" if t: "t \<in> set (take (bu_bucket_idx u) (bu_bitsets u))" for t
    proof -
      obtain i where i: "i < bu_bucket_idx u" "i < length (bu_bitsets u)" "t = bu_bitsets u ! i"
        using t by (auto simp: in_set_conv_nth)
      have "v + i * 64 \<in> buckets_elems (bu_bitsets u)" if "v \<in> tinyset_elems t" for v
        using that i(3) by (subst buckets_elems_nth [OF i(2)]) auto
      moreover have "\<not> bu_bucket_idx u * 64 \<le> v + i * 64" if "v \<in> tinyset_elems t" for v
        using tinyset_elems_less [OF that] i(1) by linarith
      moreover have "\<forall>e\<in>buckets_elems (bu_bitsets u). bu_bucket_idx u * 64 \<le> e" using p by (simp add: bu_pend_def)
      ultimately have "tinyset_elems t = {}" by blast
      then show ?thesis by (simp add: tinyset_len_card)
    qed
    then have "sum_list (map tinyset_len (take (bu_bucket_idx u) (bu_bitsets u))) = 0" by simp
    then show ?thesis unfolding card_buckets_elems
      by (metis add_0 append_take_drop_id map_append sum_list_append)
  qed
  moreover have "bu_bucket_idx u \<le> length (bu_bitsets u)" using p by (simp add: bu_pend_def)
  ultimately show ?thesis
    using doc cl(2) bu_count_loop_law [OF cl(1), of "Suc (card (buckets_elems (bu_bitsets u)))"]
    by (simp add: bu_count_including_deleted_def add.commute)
qed

lemma buffered_union_build_law:
  assumes "list_all2 rep Ds ss"
  shows "\<exists>u. buffered_union_build ops ss n = Some u \<and> bu_rep rep (\<Union> (set Ds)) u"
proof -
  let ?P = "\<Union> (set Ds)"
  let ?u = "\<lparr>bu_docsets = filter (\<lambda>s. ds_doc ops s \<noteq> TERMINATED) ss,
     bu_bitsets = replicate HORIZON_NUM_TINYBITSETS tinyset_empty, bu_bucket_idx = HORIZON_NUM_TINYBITSETS,
     bu_window_start_doc = 0, bu_doc = 0, bu_num_docs = n\<rparr>"
  have eq: "\<Union> (set Ds) = \<Union> (set (filter (\<lambda>D. D \<noteq> {}) Ds))" by auto
  have "d + HORIZON \<le> TERMINATED" if "d \<in> ?P" for d
  proof -
    from that obtain i where "i < length Ds" "d \<in> Ds ! i" by (auto simp: in_set_conv_nth)
    then show ?thesis using short list_all2_nthD [OF assms] by blast
  qed
  then have r: "if ?P = {} then bu_docsets ?u = [] \<and> bu_refill ops ?u = Some (False, ?u)
    else \<exists>u'. bu_refill ops ?u = Some (True, u') \<and> bu_pend rep ?P u' \<and> buckets_elems (bu_bitsets u') \<noteq> {} \<and>
      bu_bucket_idx u' = 0"
    using list_rep_filter [OF assms] eq by (intro bu_refill_core) auto
  show ?thesis
  proof (cases "?P = {}")
    case True
    then have "bu_docsets ?u = []" "bu_refill ops ?u = Some (False, ?u)" using r by (auto simp only: if_True simp_thms)
    moreover from this(1) have "bu_rep rep {} (?u\<lparr>bu_doc := TERMINATED\<rparr>)" by (simp add: bu_rep_def bu_pend_def)
    ultimately show ?thesis unfolding True by (simp add: buffered_union_build_def Let_def)
  next
    case False
    then obtain u' where u': "bu_refill ops ?u = Some (True, u')" "bu_pend rep ?P u'"
      using r unfolding if_not_P [OF False] by blast
    then show ?thesis using bu_advance_law [OF u'(2)] by (auto simp: buffered_union_build_def Let_def)
  qed
qed

lemma buffered_union_docset:
  "docset (buffered_union_ops estimate ops) (bu_rep rep) (valid_ready (bu_rep rep))"
  by unfold_locales

end

section \<open>The properties\<close>

context docset_seek
begin

lemma docset_seek_restrict: "docset_seek ops (\<lambda>D s. rep D s \<and> D \<subseteq> S)"
proof unfold_locales
  fix D s t
  show "D \<subseteq> {..<TERMINATED}" "ds_doc ops s = first_doc D" if "rep D s \<and> D \<subseteq> S"
    using that rep_bound doc_first by blast+
  show "\<exists>s'. ds_advance ops s = Some (ds_doc ops s', s') \<and> rep (D - {first_doc D}) s' \<and> D - {first_doc D} \<subseteq> S"
    if "rep D s \<and> D \<subseteq> S" using advance_law [of D s] that by blast
  show "\<exists>s'. ds_seek ops t s = Some (ds_doc ops s', s') \<and> rep (D \<inter> {t..}) s' \<and> D \<inter> {t..} \<subseteq> S"
    if "rep D s \<and> D \<subseteq> S" "first_doc D \<le> t" "t \<le> TERMINATED" using seek_law [of D s t] that by blast
qed

lemma buffered_union_restrict:
  "buffered_union_of ops (\<lambda>D s. rep D s \<and> D \<subseteq> {d. d + HORIZON \<le> TERMINATED})"
  using docset_seek_restrict by (auto simp: buffered_union_of_def buffered_union_of_axioms_def)

end

interpretation vec_buffered: buffered_union_of vec_ops "\<lambda>D s. vec_rep D s \<and> D \<subseteq> {d. d + HORIZON \<le> TERMINATED}"
  by (rule vec_seek.buffered_union_restrict)

text \<open>
  Property C4. Over children whose documents end one window before the sentinel, building the
  buffered union always succeeds and the union keeps the whole document-set contract for exactly the
  documents some child has: advancing, seeking inside and beyond the window. In every valid state its
  own \<open>fill_buffer\<close> returns the same documents as the one-by-one default, and its own counting
  loop returns their number.
\<close>

theorem buffered_union_correct:
  assumes "docset_seek ops rep" "\<forall>D s. rep D s \<longrightarrow> (\<forall>d\<in>D. d + HORIZON \<le> TERMINATED)"
  shows "docset (buffered_union_ops estimate ops) (bu_rep rep) (valid_ready (bu_rep rep)) \<and>
    (\<forall>Ds ss. list_all2 rep Ds ss \<longrightarrow>
       (\<exists>u. buffered_union_build ops ss n = Some u \<and> bu_rep rep (\<Union> (set Ds)) u)) \<and>
    (\<forall>D u. bu_rep rep D u \<longrightarrow>
       map_option fst (bu_fill_buffer ops u) = map_option fst (fill_buffer (buffered_union_ops estimate ops) u) \<and>
       map_option fst (bu_fill_buffer ops u) = Some (take 64 (sorted_list_of_set D)) \<and>
       map_option fst (bu_count_including_deleted ops u) = Some (card D))"
proof -
  have u: "buffered_union_of ops rep"
    using assms by (simp add: buffered_union_of_def buffered_union_of_axioms_def)
  have d: "docset (buffered_union_ops estimate ops) (bu_rep rep) (valid_ready (bu_rep rep))"
    using u by (rule buffered_union_of.buffered_union_docset)
  then have i: "docset_iter (buffered_union_ops estimate ops) (bu_rep rep)"
    by (simp add: docset_def docset_seek_def)
  have f: "map_option fst (bu_fill_buffer ops v) = Some (take 64 (sorted_list_of_set D))"
    "map_option fst (fill_buffer (buffered_union_ops estimate ops) v) = Some (take 64 (sorted_list_of_set D))"
    if "bu_rep rep D v" for D v
    using buffered_union_of.bu_fill_buffer_law [OF u that] docset_iter.fill_buffer_law [OF i that] by auto
  show ?thesis
  proof (intro conjI allI impI)
    show "docset (buffered_union_ops estimate ops) (bu_rep rep) (valid_ready (bu_rep rep))" by (rule d)
  qed (simp_all add: f buffered_union_of.buffered_union_build_law [OF u] buffered_union_of.bu_count_law [OF u])
qed

theorem buffered_union_correct_witness:
  "\<exists>u. buffered_union_build vec_ops
      [\<lparr>vd_doc_ids = [2, 9000], vd_cursor = 0\<rparr>, \<lparr>vd_doc_ids = [1, 2, 70], vd_cursor = 0\<rparr>] 10000 = Some u \<and>
     map_option fst (bu_fill_buffer vec_ops u) = Some [1, 2, 70, 9000] \<and>
     map_option fst (bu_count_including_deleted vec_ops u) = Some 4"
proof -
  let ?rep = "\<lambda>D s. vec_rep D s \<and> D \<subseteq> {d. d + HORIZON \<le> TERMINATED}"
  have d: "docset_seek vec_ops ?rep" by (rule vec_seek.docset_seek_restrict)
  have short: "\<forall>D s. ?rep D s \<longrightarrow> (\<forall>d\<in>D. d + HORIZON \<le> TERMINATED)" by blast
  note c = buffered_union_correct [OF d short, of "\<lambda>_. 0" 10000]
  let ?ss = "[\<lparr>vd_doc_ids = [2, 9000], vd_cursor = 0\<rparr>, \<lparr>vd_doc_ids = [1, 2, 70], vd_cursor = 0\<rparr>]"
  have l: "list_all2 ?rep [{2, 9000}, {1, 2, 70}] ?ss"
    by (simp add: vec_rep_def TERMINATED_def horizon_simps)
  obtain u where u: "buffered_union_build vec_ops ?ss 10000 = Some u" "bu_rep ?rep (\<Union> (set [{2, 9000}, {1, 2, 70}])) u"
    using c [THEN conjunct2, THEN conjunct1, THEN spec, THEN spec, THEN mp, OF l] by (elim exE conjE)
  have eq: "\<Union> (set [{2, 9000}, {1, 2, 70}]) = {1, 2, 70, 9000 :: nat}" by auto
  have "sorted_list_of_set {1, 2, 70, 9000 :: nat} = [1, 2, 70, 9000]"
    by (rule sorted_distinct_set_unique) auto
  then show ?thesis
    using u(1) c [THEN conjunct2, THEN conjunct2, THEN spec, THEN spec, THEN mp, OF u(2)] unfolding eq by auto
qed

end
