(* ===== verification/SetBlocks.thy ===== *)
theory SetBlocks
  imports TinySet
begin

text \<open>
  The two encodings of a block of up to 65536 row ids of the optional column index
  (\<^verbatim>\<open>columnar/src/column_index/optional_index/\<close>): the contract of the \<open>Set\<close> trait (\<^verbatim>\<open>set.rs\<close>) as a
  locale, and the sparse block (\<^verbatim>\<open>set_block/sparse.rs\<close>), a sorted array of \<open>u16\<close> searched by binary and
  exponential search. Elements and ranks are \<open>nat\<close> below 65536. Reads the source does without a
  bounds check are \<open>None\<close> when out of bounds.
\<close>

section \<open>The sparse block\<close>

text \<open>\<open>slice::binary_search\<close> of a sorted slice without duplicates: the position, or the insertion point.\<close>

definition binary_search_slice :: "nat list \<Rightarrow> nat \<Rightarrow> nat + nat" where
  "binary_search_slice vals target =
     (let i = length (takeWhile (\<lambda>v. v < target) vals)
      in if i < length vals \<and> vals ! i = target then Inr i else Inl i)"

definition sparse_serialize :: "nat list \<Rightarrow> u8 list" where
  "sparse_serialize els = concat (map (le_bytes 2) els)"

definition sparse_num_vals :: "u8 list \<Rightarrow> nat" where
  "sparse_num_vals data = (length data div 2) mod 65536"

definition sparse_value_at :: "u8 list \<Rightarrow> nat \<Rightarrow> nat option" where
  "sparse_value_at data idx =
     (if 2 * idx + 2 \<le> length data then Some (le_nat (take 2 (drop (2 * idx) data))) else None)"

definition sparse_vals :: "u8 list \<Rightarrow> nat list" where
  "sparse_vals data = map (\<lambda>i. le_nat (take 2 (drop (2 * i) data))) [0..<length data div 2]"

definition sparse_binary_search :: "u8 list \<Rightarrow> nat \<Rightarrow> nat + nat" where
  "sparse_binary_search data target = binary_search_slice (sparse_vals data) target"

definition sparse_range :: "u8 list \<Rightarrow> nat \<Rightarrow> nat \<Rightarrow> u8 list option" where
  "sparse_range data start stop =
     (if start * 2 \<le> stop * 2 \<and> stop * 2 \<le> length data
      then Some (take (stop * 2 - start * 2) (drop (start * 2) data)) else None)"

function exponential_probe :: "u8 list \<Rightarrow> nat \<Rightarrow> nat \<Rightarrow> nat \<Rightarrow> nat \<Rightarrow> (nat \<times> nat) option" where
  "exponential_probe data target left right step =
     (let probe = left + step - 1
      in if step = 0 \<or> probe \<ge> right then Some (left, right)
         else sparse_value_at data probe \<bind> (\<lambda>v.
                if v \<ge> target then Some (left, probe + 1)
                else exponential_probe data target (probe + 1) right (step * 2)))"
  by pat_completeness auto
termination
  by (relation "measure (\<lambda>(_, _, left, right, _). right - left)") auto

declare exponential_probe.simps [simp del]

definition exponential_search :: "u8 list \<Rightarrow> nat \<Rightarrow> (nat + nat) option" where
  "exponential_search data target =
     exponential_probe data target 0 (sparse_num_vals data) 1 \<bind> (\<lambda>(left, right).
       sparse_range data left right \<bind> (\<lambda>sub.
         Some (case sparse_binary_search sub target of
                 Inr i \<Rightarrow> Inr (left + i) | Inl i \<Rightarrow> Inl (left + i))))"

definition sparse_contains :: "u8 list \<Rightarrow> nat \<Rightarrow> bool option" where
  "sparse_contains data el = Some (case sparse_binary_search data el of Inr _ \<Rightarrow> True | Inl _ \<Rightarrow> False)"

definition sparse_rank_if_exists :: "u8 list \<Rightarrow> nat \<Rightarrow> nat option option" where
  "sparse_rank_if_exists data el =
     Some (case sparse_binary_search data el of Inr i \<Rightarrow> Some (i mod 65536) | Inl _ \<Rightarrow> None)"

definition sparse_rank :: "u8 list \<Rightarrow> nat \<Rightarrow> nat option" where
  "sparse_rank data el = Some ((case sparse_binary_search data el of Inr i \<Rightarrow> i | Inl i \<Rightarrow> i) mod 65536)"

definition sparse_select :: "u8 list \<Rightarrow> nat \<Rightarrow> nat option" where
  "sparse_select data rank =
     (if rank * 2 + 2 \<le> length data then Some (le_nat (take 2 (drop (rank * 2) data))) else None)"

lemma dropWhile_Cons_length: "dropWhile P els = needle # rest \<Longrightarrow> length rest < length els"
  using length_dropWhile_le [of P els] by simp

text \<open>The lookup of several sorted elements with a cursor; the callback's calls are the result.\<close>

function sparse_rank_batch :: "u8 list \<Rightarrow> nat \<Rightarrow> nat list \<Rightarrow> (nat \<times> nat) list option" where
  "sparse_rank_batch data candidate_rank els =
     (if candidate_rank < sparse_num_vals data then
        sparse_value_at data candidate_rank \<bind> (\<lambda>candidate.
          case dropWhile (\<lambda>needle. needle < candidate) els of
            [] \<Rightarrow> Some []
          | needle # rest \<Rightarrow>
              if candidate = needle then
                sparse_rank_batch data candidate_rank rest \<bind> (\<lambda>out. Some ((needle, candidate_rank mod 65536) # out))
              else if candidate_rank + 1 \<ge> sparse_num_vals data then Some []
              else sparse_value_at data (candidate_rank + 1) \<bind> (\<lambda>candidate'.
                if candidate' \<ge> needle then
                  sparse_rank_batch data (candidate_rank + 1) rest \<bind> (\<lambda>out.
                    Some (if candidate' = needle then (needle, (candidate_rank + 1) mod 65536) # out else out))
                else
                  (let left = candidate_rank + 1 + 1;
                       gap_bound = candidate_rank + 1 + (needle - candidate') + 1;
                       right = min gap_bound (sparse_num_vals data)
                   in sparse_range data left right \<bind> (\<lambda>sub. exponential_search sub needle \<bind> (\<lambda>r.
                        case r of
                          Inr rel_rank \<Rightarrow>
                            sparse_rank_batch data (left + rel_rank) rest \<bind> (\<lambda>out.
                              Some ((needle, (left + rel_rank) mod 65536) # out))
                        | Inl rel_rank \<Rightarrow> sparse_rank_batch data (left + rel_rank) rest)))))
      else Some [])"
  by pat_completeness auto
termination
  by (relation "measure (\<lambda>(_, _, els). length els)") (auto dest: dropWhile_Cons_length)

declare sparse_rank_batch.simps [simp del]

section \<open>The contract of a set\<close>

definition strict_u16s :: "nat list \<Rightarrow> bool" where
  "strict_u16s xs \<longleftrightarrow> sorted_wrt (<) xs \<and> (\<forall>x\<in>set xs. x < 65536)"

definition rank_of :: "nat list \<Rightarrow> nat \<Rightarrow> nat" where
  "rank_of xs el = length (filter (\<lambda>x. x < el) xs)"

locale set_reader =
  fixes contains :: "'r \<Rightarrow> nat \<Rightarrow> bool option"
    and rank :: "'r \<Rightarrow> nat \<Rightarrow> nat option"
    and rank_if_exists :: "'r \<Rightarrow> nat \<Rightarrow> nat option option"
    and select :: "'r \<Rightarrow> nat \<Rightarrow> nat option"
    and repr :: "nat list \<Rightarrow> 'r \<Rightarrow> bool"
  assumes repr_strict: "repr xs r \<Longrightarrow> strict_u16s xs"
    and contains_law: "repr xs r \<Longrightarrow> el < 65536 \<Longrightarrow> contains r el = Some (el \<in> set xs)"
    and rank_law: "repr xs r \<Longrightarrow> el < 65536 \<Longrightarrow> rank r el = Some (rank_of xs el)"
    and rank_if_exists_law: "repr xs r \<Longrightarrow> el < 65536 \<Longrightarrow>
      rank_if_exists r el = Some (if el \<in> set xs then Some (rank_of xs el) else None)"
    and select_law: "repr xs r \<Longrightarrow> i < length xs \<Longrightarrow> select r i = Some (xs ! i)"

section \<open>Ranks in strictly sorted lists\<close>

lemma rank_of_le: "rank_of xs t \<le> length xs"
  by (simp add: rank_of_def)

lemma takeWhile_filter_sorted:
  "sorted_wrt (<) xs \<Longrightarrow> takeWhile (\<lambda>v. v < t) xs = filter (\<lambda>v. v < t) (xs :: nat list)"
  by (induction xs) (auto intro!: filter_False [symmetric])

lemma rank_of_takeWhile: "sorted_wrt (<) xs \<Longrightarrow> length (takeWhile (\<lambda>v. v < t) xs) = rank_of xs t"
  by (simp add: takeWhile_filter_sorted rank_of_def)

lemma nth_less_rank:
  assumes "sorted_wrt (<) xs" "i < length xs"
  shows "xs ! i < t \<longleftrightarrow> i < rank_of xs t"
proof
  assume "xs ! i < t"
  show "i < rank_of xs t"
  proof (rule ccontr)
    assume "\<not> i < rank_of xs t"
    then have r: "rank_of xs t \<le> i" by simp
    then have "\<not> xs ! rank_of xs t < t"
      using assms nth_length_takeWhile [of "\<lambda>v. v < t" xs] by (simp add: rank_of_takeWhile)
    moreover have "xs ! rank_of xs t \<le> xs ! i"
      using r assms by (cases "rank_of xs t = i") (auto simp: sorted_wrt_iff_nth_less less_imp_le)
    ultimately show False using \<open>xs ! i < t\<close> by simp
  qed
next
  assume "i < rank_of xs t"
  then have i: "i < length (takeWhile (\<lambda>v. v < t) xs)" using assms(1) by (simp add: rank_of_takeWhile)
  then have "takeWhile (\<lambda>v. v < t) xs ! i < t" using nth_mem set_takeWhileD by metis
  then show "xs ! i < t" using takeWhile_nth [OF i] by simp
qed

lemma rank_of_eqI:
  assumes "sorted_wrt (<) xs" "k \<le> length xs" "\<And>i. i < k \<Longrightarrow> xs ! i < t" "k < length xs \<Longrightarrow> t \<le> xs ! k"
  shows "rank_of xs t = k"
proof (rule antisym)
  show "k \<le> rank_of xs t"
  proof (cases k)
    case (Suc j)
    then show ?thesis using assms(2,3) nth_less_rank [OF assms(1), of j t] by simp
  qed simp
  show "rank_of xs t \<le> k"
  proof (cases "k < length xs")
    case True
    then show ?thesis using assms(4) nth_less_rank [OF assms(1) True, of t] by simp
  qed (use rank_of_le [of xs t] in simp)
qed

lemma rank_of_nth: "sorted_wrt (<) xs \<Longrightarrow> i < length xs \<Longrightarrow> rank_of xs (xs ! i) = i"
  by (rule rank_of_eqI) (auto simp: sorted_wrt_iff_nth_less)

lemma rank_of_mem:
  assumes "sorted_wrt (<) xs"
  shows "t \<in> set xs \<longleftrightarrow> rank_of xs t < length xs \<and> xs ! rank_of xs t = t"
proof
  assume "t \<in> set xs"
  then obtain i where "i < length xs" "xs ! i = t" by (auto simp: in_set_conv_nth)
  then show "rank_of xs t < length xs \<and> xs ! rank_of xs t = t" using rank_of_nth [OF assms] by auto
qed (metis nth_mem)

lemma binary_search_slice_strict:
  assumes "sorted_wrt (<) xs"
  shows "binary_search_slice xs t = (if t \<in> set xs then Inr (rank_of xs t) else Inl (rank_of xs t))"
  using rank_of_mem [OF assms, of t] by (auto simp: binary_search_slice_def rank_of_takeWhile [OF assms] Let_def)

lemma rank_of_less_bound:
  assumes "strict_u16s xs" "t < 65536"
  shows "rank_of xs t < 65536"
proof -
  have "sorted_wrt (<) xs" using assms(1) by (simp add: strict_u16s_def)
  then have "distinct xs" by (simp add: strict_sorted_iff)
  then have "rank_of xs t = card (set (filter (\<lambda>x. x < t) xs))" unfolding rank_of_def by (subst distinct_card) simp_all
  also have "\<dots> \<le> card {..<t}" by (rule card_mono) auto
  finally show ?thesis using assms(2) by simp
qed

lemma strict_u16s_length: "strict_u16s xs \<Longrightarrow> length xs \<le> 65536"
proof -
  assume "strict_u16s xs"
  then have "distinct xs" "set xs \<subseteq> {..<65536}" by (auto simp: strict_u16s_def strict_sorted_iff)
  then show ?thesis using card_mono [of "{..<65536}" "set xs"] by (simp add: distinct_card)
qed

context set_reader
begin

text \<open>Select inverts rank on the elements, and rank inverts select on the positions.\<close>

lemma select_rank:
  assumes "repr xs r" "el \<in> set xs"
  shows "rank r el \<bind> select r = Some el"
proof -
  have s: "sorted_wrt (<) xs" "el < 65536" using repr_strict [OF assms(1)] assms(2) by (auto simp: strict_u16s_def)
  then show ?thesis
    using assms rank_law [OF assms(1) s(2)] select_law [OF assms(1)] rank_of_mem [OF s(1), of el] by simp
qed

lemma rank_select:
  assumes "repr xs r" "i < length xs"
  shows "select r i \<bind> rank r = Some i"
proof -
  have s: "sorted_wrt (<) xs" "xs ! i < 65536" using repr_strict [OF assms(1)] assms(2) by (auto simp: strict_u16s_def)
  then show ?thesis
    using select_law [OF assms] rank_law [OF assms(1) s(2)] rank_of_nth [OF s(1) assms(2)] by simp
qed

end

lemma strict_sorted_gap:
  assumes "sorted_wrt (<) xs" "i + k < length xs"
  shows "xs ! i + k \<le> (xs ! (i + k) :: nat)"
  using assms(2)
proof (induction k)
  case (Suc k)
  then have "xs ! (i + k) < xs ! (i + Suc k)" using assms(1) by (simp add: sorted_wrt_iff_nth_less)
  then show ?case using Suc by simp
qed simp

text \<open>A search in a slice that is known to contain the insertion point.\<close>

lemma rank_of_slice:
  assumes "sorted_wrt (<) xs" "l \<le> rank_of xs t" "rank_of xs t \<le> r" "r \<le> length xs"
  shows "rank_of (take (r - l) (drop l xs)) t = rank_of xs t - l"
    and "t \<in> set (take (r - l) (drop l xs)) \<longleftrightarrow> t \<in> set xs \<and> rank_of xs t < r"
proof -
  let ?s = "take (r - l) (drop l xs)"
  have s: "sorted_wrt (<) ?s" using assms(1) by (simp add: sorted_wrt_take sorted_wrt_drop)
  have lr: "l \<le> r" using assms(2,3) by simp
  have nth: "?s ! i = xs ! (l + i)" if "i < r - l" for i using that assms(4) lr by simp
  show eq: "rank_of ?s t = rank_of xs t - l"
  proof (rule rank_of_eqI [OF s])
    show "?s ! i < t" if "i < rank_of xs t - l" for i
      using that assms nth [of i] nth_less_rank [OF assms(1), of "l + i" t] by simp
    show "t \<le> ?s ! (rank_of xs t - l)" if "rank_of xs t - l < length ?s"
      using that assms nth [of "rank_of xs t - l"] nth_less_rank [OF assms(1), of "rank_of xs t" t]
      by (simp add: not_less)
  qed (use assms in auto)
  have len: "length ?s = r - l" using assms(4) lr by simp
  show "t \<in> set ?s \<longleftrightarrow> t \<in> set xs \<and> rank_of xs t < r"
    unfolding rank_of_mem [OF s, of t] rank_of_mem [OF assms(1), of t] eq len
    using assms nth [of "rank_of xs t - l"] by auto
qed

section \<open>The sparse block keeps the contract\<close>

definition sparse_repr :: "nat list \<Rightarrow> u8 list \<Rightarrow> bool" where
  "sparse_repr xs data \<longleftrightarrow> strict_u16s xs \<and> length xs < 65536 \<and> data = sparse_serialize xs"

lemma length_sparse_serialize: "length (sparse_serialize xs) = 2 * length xs"
  by (induction xs) (auto simp: sparse_serialize_def)

lemma sparse_serialize_drop: "drop (2 * i) (sparse_serialize xs) = sparse_serialize (drop i xs)"
proof (induction xs arbitrary: i)
  case (Cons x xs)
  show ?case
  proof (cases i)
    case (Suc j)
    then have "drop (2 * i) (sparse_serialize (x # xs)) = drop (2 * j) (sparse_serialize xs)"
      by (simp add: sparse_serialize_def)
    then show ?thesis using Cons.IH [of j] Suc by simp
  qed simp
qed (simp add: sparse_serialize_def)

lemma sparse_serialize_take: "take (2 * i) (sparse_serialize xs) = sparse_serialize (take i xs)"
proof (induction xs arbitrary: i)
  case (Cons x xs)
  show ?case
  proof (cases i)
    case (Suc j)
    then have "take (2 * i) (sparse_serialize (x # xs)) = le_bytes 2 x @ take (2 * j) (sparse_serialize xs)"
      by (simp add: sparse_serialize_def)
    then show ?thesis using Cons.IH [of j] Suc by (simp add: sparse_serialize_def)
  qed (simp add: sparse_serialize_def)
qed (simp add: sparse_serialize_def)

lemma sparse_nth:
  assumes "i < length xs" "xs ! i < 65536"
  shows "le_nat (take 2 (drop (2 * i) (sparse_serialize xs))) = xs ! i"
proof -
  have "drop (2 * i) (sparse_serialize xs) = le_bytes 2 (xs ! i) @ sparse_serialize (drop (Suc i) xs)"
    using assms(1) by (simp add: sparse_serialize_drop Cons_nth_drop_Suc [symmetric])
      (simp add: sparse_serialize_def)
  then show ?thesis using assms(2) by (simp add: le_nat_le_bytes_id)
qed

lemma sparse_reprD:
  assumes "sparse_repr xs data"
  shows "sorted_wrt (<) xs" "length data = 2 * length xs" "sparse_num_vals data = length xs" "sparse_vals data = xs"
    and "i < length xs \<Longrightarrow> sparse_value_at data i = Some (xs ! i)"
    and "sparse_binary_search data t = (if t \<in> set xs then Inr (rank_of xs t) else Inl (rank_of xs t))"
proof -
  have xs: "strict_u16s xs" "length xs < 65536" and data: "data = sparse_serialize xs"
    using assms by (auto simp: sparse_repr_def)
  show s: "sorted_wrt (<) xs" using xs(1) by (simp add: strict_u16s_def)
  show len: "length data = 2 * length xs" using data by (simp add: length_sparse_serialize)
  then show "sparse_num_vals data = length xs" using xs(2) by (simp add: sparse_num_vals_def)
  have nth: "le_nat (take 2 (drop (2 * i) data)) = xs ! i" if "i < length xs" for i
    unfolding data using that xs(1) by (intro sparse_nth) (auto simp: strict_u16s_def)
  then show vals: "sparse_vals data = xs"
    using len by (intro nth_equalityI) (auto simp: sparse_vals_def)
  show "i < length xs \<Longrightarrow> sparse_value_at data i = Some (xs ! i)"
    using len nth by (simp add: sparse_value_at_def)
  show "sparse_binary_search data t = (if t \<in> set xs then Inr (rank_of xs t) else Inl (rank_of xs t))"
    by (simp add: sparse_binary_search_def vals binary_search_slice_strict [OF s])
qed

lemma sparse_range_repr:
  assumes "sparse_repr xs data" "a \<le> b" "b \<le> length xs"
  shows "\<exists>sub. sparse_range data a b = Some sub \<and> sparse_repr (take (b - a) (drop a xs)) sub"
proof -
  have xs: "strict_u16s xs" "length xs < 65536" "data = sparse_serialize xs"
    using assms(1) by (auto simp: sparse_repr_def)
  have "take (b * 2 - a * 2) (drop (a * 2) data) = sparse_serialize (take (b - a) (drop a xs))"
    unfolding xs(3) using sparse_serialize_drop [of a xs] sparse_serialize_take [of "b - a" "drop a xs"]
    by (simp add: mult.commute [of _ 2] diff_mult_distrib2 [symmetric])
  moreover have "strict_u16s (take (b - a) (drop a xs))"
    using xs(1) by (auto simp: strict_u16s_def sorted_wrt_take sorted_wrt_drop dest!: in_set_takeD in_set_dropD)
  ultimately show ?thesis
    using assms(2,3) xs(2) length_sparse_serialize [of xs] unfolding xs(3) by (simp add: sparse_range_def sparse_repr_def)
qed

interpretation sparse: set_reader sparse_contains sparse_rank sparse_rank_if_exists sparse_select sparse_repr
proof
  fix xs data el i
  assume r: "sparse_repr xs data"
  note d = sparse_reprD [OF r]
  show st: "strict_u16s xs" using r by (simp add: sparse_repr_def)
  show "sparse_contains data el = Some (el \<in> set xs)" by (simp add: sparse_contains_def d(6))
  show "sparse_select data i = Some (xs ! i)" if "i < length xs"
    using that d(2) d(5) [of i] by (simp add: sparse_select_def sparse_value_at_def mult.commute [of _ 2] split: if_splits)
  assume "el < 65536"
  then have "rank_of xs el < 65536" using rank_of_less_bound [OF st] by simp
  then show "sparse_rank data el = Some (rank_of xs el)"
    "sparse_rank_if_exists data el = Some (if el \<in> set xs then Some (rank_of xs el) else None)"
    by (simp_all add: sparse_rank_def sparse_rank_if_exists_def d(6))
qed

section \<open>Exponential search and the batch lookup\<close>

text \<open>The probes keep the insertion point between their bounds.\<close>

lemma exponential_probe_law:
  assumes "sparse_repr xs data" "l \<le> rank_of xs t" "rank_of xs t \<le> r" "r \<le> length xs" "step > 0"
    and "t \<in> set xs \<longrightarrow> rank_of xs t < r"
  shows "\<exists>l' r'. exponential_probe data t l r step = Some (l', r') \<and> l' \<le> rank_of xs t \<and> rank_of xs t \<le> r' \<and>
    r' \<le> length xs \<and> (t \<in> set xs \<longrightarrow> rank_of xs t < r')"
  using assms(2-6)
proof (induction "r - l" arbitrary: l r step rule: less_induct)
  case less
  note d = sparse_reprD [OF assms(1)]
  let ?p = "l + step - 1"
  show ?case
  proof (cases "?p \<ge> r")
    case True
    then show ?thesis using less.prems by (subst exponential_probe.simps) (simp add: Let_def)
  next
    case False
    then have p: "?p < length xs" "l \<le> ?p" "?p < r" using less.prems(3,4) by auto
    show ?thesis
    proof (cases "xs ! ?p \<ge> t")
      case True
      then have "rank_of xs t \<le> ?p" using nth_less_rank [OF d(1) p(1), of t] by simp
      then show ?thesis using True False p less.prems d(5) [OF p(1)]
        by (subst exponential_probe.simps) (auto simp: Let_def)
    next
      case gt: False
      then have "?p + 1 \<le> rank_of xs t" using nth_less_rank [OF d(1) p(1), of t] by simp
      moreover have "r - (?p + 1) < r - l" using p by simp
      ultimately show ?thesis
        using less.hyps [of r "?p + 1" "step * 2"] less.prems gt False d(5) [OF p(1)]
        by (subst exponential_probe.simps) (simp add: Let_def)
    qed
  qed
qed

lemma exponential_search_law:
  assumes "sparse_repr xs data"
  shows "exponential_search data t = Some (sparse_binary_search data t)"
proof -
  note d = sparse_reprD [OF assms]
  have "t \<in> set xs \<longrightarrow> rank_of xs t < length xs" using rank_of_mem [OF d(1)] by blast
  then obtain l r where p: "exponential_probe data t 0 (sparse_num_vals data) 1 = Some (l, r)"
    "l \<le> rank_of xs t" "rank_of xs t \<le> r" "r \<le> length xs" "t \<in> set xs \<longrightarrow> rank_of xs t < r"
    using exponential_probe_law [OF assms, of 0 t "length xs" 1] rank_of_le [of xs t] unfolding d(3) by auto
  have "l \<le> r" using p(2,3) by simp
  from sparse_range_repr [OF assms this p(4)] obtain sub where
    sub: "sparse_range data l r = Some sub" "sparse_repr (take (r - l) (drop l xs)) sub" by blast
  show ?thesis
    using p(1) sub(1) sparse_reprD(6) [OF sub(2), of t] d(6) [of t] rank_of_slice [OF d(1) p(2-4)] p(2,5)
    by (auto simp: exponential_search_def)
qed

definition batch_spec :: "nat list \<Rightarrow> nat list \<Rightarrow> (nat \<times> nat) list" where
  "batch_spec xs els = map (\<lambda>e. (e, rank_of xs e)) (filter (\<lambda>e. e \<in> set xs) els)"

lemma batch_spec_Cons: "batch_spec xs (e # els) = (if e \<in> set xs then (e, rank_of xs e) # batch_spec xs els else batch_spec xs els)"
  by (simp add: batch_spec_def)

lemma batch_spec_dropWhile:
  assumes "\<And>e. e \<in> set els \<Longrightarrow> P e \<Longrightarrow> e \<notin> set xs"
  shows "batch_spec xs (dropWhile P els) = batch_spec xs els"
  using assms by (induction els) (auto simp: batch_spec_def)

text \<open>
  The cursor invariant: every value before the candidate is below every needle left. A batch lookup
  of sorted needles then reports exactly the needles present, duplicates included, with their ranks,
  and reads only inside the block.
\<close>

lemma sparse_rank_batch_law:
  assumes "sparse_repr xs data" "sorted els" "c \<le> length xs" "\<forall>e\<in>set els. \<forall>i<c. xs ! i < e"
  shows "sparse_rank_batch data c els = Some (batch_spec xs els)"
  using assms(2-4)
proof (induction "length els" arbitrary: els c rule: less_induct)
  case less
  note d = sparse_reprD [OF assms(1)]
  have len: "length xs < 65536" using assms(1) by (simp add: sparse_repr_def)
  show ?case
  proof (cases "c < length xs")
    case False
    then have "e \<notin> set xs" if "e \<in> set els" for e
      using less.prems(2,3) that by (metis in_set_conv_nth less_irrefl less_le_trans linorder_not_less)
    then show ?thesis using False d(3) by (simp add: sparse_rank_batch.simps batch_spec_def filter_empty_conv)
  next
    case True
    let ?P = "\<lambda>needle. needle < xs ! c"
    have rank_c: "rank_of xs e = c" if "e \<in> set els" "e \<le> xs ! c" for e
      using that less.prems(3) by (intro rank_of_eqI [OF d(1) less.prems(2)]) auto
    have dropped: "batch_spec xs (dropWhile ?P els) = batch_spec xs els"
    proof (rule batch_spec_dropWhile)
      fix e assume e: "e \<in> set els" "?P e"
      then show "e \<notin> set xs" using rank_c [OF e(1)] rank_of_mem [OF d(1), of e] by auto
    qed
    note unf = sparse_rank_batch.simps [of data c els]
    show ?thesis
    proof (cases "dropWhile ?P els")
      case Nil
      then show ?thesis using True d(3) d(5) [OF True] dropped unf
        by (simp add: batch_spec_def del: dropWhile_eq_Nil_conv)
    next
      case (Cons needle rest)
      have mem: "needle \<in> set els" "set rest \<subseteq> set els" "length rest < length els"
        using Cons dropWhile_Cons_length [OF Cons] set_dropWhileD [of _ ?P els] by (auto simp: Cons)
      have ge: "xs ! c \<le> needle"
        using Cons hd_dropWhile [of ?P els] by (simp add: not_less)
      have s: "sorted (needle # rest)" using less.prems(1) sorted_dropWhile [of els ?P] Cons by simp
      have rec: "sparse_rank_batch data k rest = Some (batch_spec xs rest)"
        if "k \<le> length xs" "\<And>i. i < k \<Longrightarrow> xs ! i < needle" for k
        using that s mem(3) by (intro less.hyps) (auto intro: less_le_trans)
      note goal = dropped [unfolded Cons batch_spec_Cons]
      show ?thesis
      proof (cases "xs ! c = needle")
        case eq: True
        have "\<And>i. i < c \<Longrightarrow> xs ! i < needle" using less.prems(3) mem(1) by blast
        then show ?thesis
          using rec [of c] True d(3) d(5) [OF True] eq rank_c [OF mem(1)] len goal nth_mem [OF True] unf Cons
          by (simp add: less_imp_le)
      next
        case neq: False
        then have c_lt: "xs ! c < needle" using ge by simp
        then have rank: "c + 1 \<le> rank_of xs needle" using nth_less_rank [OF d(1) True, of needle] by simp
        show ?thesis
        proof (cases "c + 1 < length xs")
          case False
          then have "rank_of xs e = length xs" if "e \<in> set (needle # rest)" for e
            using that s c_lt rank_of_le [of xs e] nth_less_rank [OF d(1) True, of e] True by force
          then have "batch_spec xs (needle # rest) = []"
            using rank_of_mem [OF d(1)] by (auto simp: batch_spec_def filter_empty_conv)
          then show ?thesis using True False d(3) d(5) [OF True] neq unf Cons dropped [unfolded Cons] by simp
        next
          case c1: True
          let ?v = "xs ! (c + 1)"
          have before: "xs ! i < needle" if "i < rank_of xs needle" for i
            using that nth_less_rank [OF d(1), of i needle] rank_of_le [of xs needle] by simp
          show ?thesis
          proof (cases "needle \<le> ?v")
            case le: True
            then have r: "rank_of xs needle = c + 1" using rank nth_less_rank [OF d(1) c1, of needle] by simp
            then have "needle \<in> set xs \<longleftrightarrow> ?v = needle" using rank_of_mem [OF d(1), of needle] c1 by simp
            then show ?thesis
              using rec [of "c + 1"] before r c1 True d(3) d(5) [OF True] d(5) [OF c1] neq le len goal unf Cons
              by (auto split: if_splits)
          next
            case gt: False
            let ?l = "c + 1 + 1" and ?g = "c + 1 + (needle - ?v) + 1"
            let ?r = "min ?g (length xs)"
            have l: "?l \<le> rank_of xs needle" using gt nth_less_rank [OF d(1) c1, of needle] by simp
            have gap: "rank_of xs needle < ?g"
            proof (rule ccontr)
              assume "\<not> rank_of xs needle < ?g"
              then have "?g - 1 < rank_of xs needle" by simp
              then have "xs ! (?g - 1) < needle" by (rule before)
              moreover have "?g - 1 < length xs" using \<open>?g - 1 < rank_of xs needle\<close> rank_of_le [of xs needle] by simp
              then have "?v + (needle - ?v) \<le> xs ! (c + 1 + (needle - ?v))"
                by (intro strict_sorted_gap [OF d(1)]) simp
              ultimately show False using gt by simp
            qed
            have lr: "?l \<le> ?r" using l gap rank_of_le [of xs needle] by simp
            from sparse_range_repr [OF assms(1) lr] obtain sub where
              sub: "sparse_range data ?l ?r = Some sub" "sparse_repr (take (?r - ?l) (drop ?l xs)) sub" by auto
            have rr: "rank_of xs needle \<le> ?r" using gap rank_of_le [of xs needle] by simp
            have in_r: "needle \<in> set xs \<longrightarrow> rank_of xs needle < ?r" using gap rank_of_mem [OF d(1), of needle] by simp
            note slice = rank_of_slice [OF d(1) l rr min.cobounded2]
            have ex: "exponential_search sub needle =
                Some (if needle \<in> set xs then Inr (rank_of xs needle - ?l) else Inl (rank_of xs needle - ?l))"
              using exponential_search_law [OF sub(2)] sparse_reprD(6) [OF sub(2), of needle] slice in_r by auto
            have bk: "?l + (rank_of xs needle - ?l) = rank_of xs needle" using l by simp
            have rl: "rank_of xs needle < 65536" using rank_of_le [of xs needle] len by simp
            have "sparse_rank_batch data c els =
                (case (if needle \<in> set xs then Inr (rank_of xs needle - ?l) else Inl (rank_of xs needle - ?l)) of
                   Inr rel_rank \<Rightarrow> sparse_rank_batch data (?l + rel_rank) rest \<bind> (\<lambda>out.
                     Some ((needle, (?l + rel_rank) mod 65536) # out))
                 | Inl rel_rank \<Rightarrow> sparse_rank_batch data (?l + rel_rank) rest)"
              unfolding unf using True c1 d(3) d(5) [OF True] d(5) [OF c1] neq gt Cons sub(1) ex
              by (simp add: Let_def)
            then have "sparse_rank_batch data c els =
                (if needle \<in> set xs
                 then sparse_rank_batch data (rank_of xs needle) rest \<bind> (\<lambda>out. Some ((needle, rank_of xs needle mod 65536) # out))
                 else sparse_rank_batch data (rank_of xs needle) rest)"
              by (cases "needle \<in> set xs") (simp_all only: if_True if_False sum.case bk)
            moreover have "sparse_rank_batch data (rank_of xs needle) rest = Some (batch_spec xs rest)"
              using rank_of_le before by (rule rec)
            ultimately show ?thesis using rl goal by (simp split: if_splits)
          qed
        qed
      qed
    qed
  qed
qed

text \<open>
  Property C6. In a sparse block of sorted distinct values, exponential search returns exactly what
  binary search returns, and the batch lookup with its moving cursor, its look at the next value and
  its bounded search returns for sorted needles (duplicates included) exactly what looking each one up
  alone returns, in order, without reading outside the block.
\<close>

theorem sparse_batch_equiv:
  assumes "strict_u16s xs" "length xs < 65536" "sorted els" "\<forall>e\<in>set els. e < 65536"
  shows "sparse_rank_batch (sparse_serialize xs) 0 els =
      Some (concat (map (\<lambda>e. case sparse_rank_if_exists (sparse_serialize xs) e of
        Some (Some r) \<Rightarrow> [(e, r)] | _ \<Rightarrow> []) els)) \<and>
    exponential_search (sparse_serialize xs) t = Some (sparse_binary_search (sparse_serialize xs) t)"
proof -
  have r: "sparse_repr xs (sparse_serialize xs)" using assms(1,2) by (simp add: sparse_repr_def)
  have "sparse_rank_batch (sparse_serialize xs) 0 els = Some (batch_spec xs els)"
    by (rule sparse_rank_batch_law [OF r assms(3)]) auto
  moreover have "batch_spec xs es = concat (map (\<lambda>e. case sparse_rank_if_exists (sparse_serialize xs) e of
      Some (Some r) \<Rightarrow> [(e, r)] | _ \<Rightarrow> []) es)" if "\<forall>e\<in>set es. e < 65536" for es
    using that by (induction es) (auto simp: batch_spec_def sparse.rank_if_exists_law [OF r])
  ultimately show ?thesis using assms(4) exponential_search_law [OF r] by simp
qed

theorem sparse_batch_equiv_witness:
  "sparse_rank_batch (sparse_serialize [3, 7, 8, 40, 41, 90]) 0 [1, 7, 7, 41, 100] = Some [(7, 1), (7, 1), (41, 4)]"
proof -
  have s: "strict_u16s [3, 7, 8, 40, 41, 90]" by (simp add: strict_u16s_def)
  show ?thesis
    using sparse_batch_equiv [OF s, of "[1, 7, 7, 41, 100]" 0] sparse.rank_if_exists_law [of "[3, 7, 8, 40, 41, 90]"] s
    by (simp add: sparse_repr_def rank_of_def)
qed

end
