(* ===== verification/DenseBlock.thy ===== *)
theory DenseBlock
  imports SetBlocks
begin

text \<open>
  The dense block of the optional column index (\<^verbatim>\<open>set_block/dense.rs\<close>): 1024 mini blocks of ten bytes, a
  64-bit vector and the number of elements before it. The writer, membership, rank, select and the
  select cursor, all at the byte level.
\<close>

section \<open>Definitions\<close>

definition get_bit_at :: "u64 \<Rightarrow> nat \<Rightarrow> bool" where
  "get_bit_at input n \<longleftrightarrow> input AND push_bit (n mod 64) 1 \<noteq> 0"

definition set_bit_at :: "u64 \<Rightarrow> nat \<Rightarrow> u64" where
  "set_bit_at input n = input OR push_bit (n mod 64) 1"

definition ELEMENTS_PER_MINI_BLOCK :: nat where
  "ELEMENTS_PER_MINI_BLOCK = 64"

definition MINI_BLOCK_NUM_BYTES :: nat where
  "MINI_BLOCK_NUM_BYTES = 8 + 2"

definition ELEMENTS_PER_BLOCK :: nat where
  "ELEMENTS_PER_BLOCK = 65536"

definition DENSE_BLOCK_NUM_BYTES :: nat where
  "DENSE_BLOCK_NUM_BYTES = (ELEMENTS_PER_BLOCK div ELEMENTS_PER_MINI_BLOCK) * MINI_BLOCK_NUM_BYTES"

definition rank_u64 :: "u64 \<Rightarrow> nat \<Rightarrow> nat" where
  "rank_u64 bitvec el = count_ones (bitvec AND (push_bit (el mod 64) 1 - 1))"

fun select_u64 :: "u64 \<Rightarrow> nat \<Rightarrow> nat" where
  "select_u64 bitvec 0 = trailing_zeros bitvec"
| "select_u64 bitvec (Suc rank) = select_u64 (bitvec AND (bitvec - 1)) rank"

record dense_mini_block =
  mb_bitvec :: u64
  mb_rank :: nat

definition mini_block_from_bytes :: "u8 list \<Rightarrow> dense_mini_block" where
  "mini_block_from_bytes data =
     \<lparr>mb_bitvec = u64_from_le_bytes (take 8 data), mb_rank = le_nat (drop 8 data)\<rparr>"

definition mini_block_to_bytes :: "dense_mini_block \<Rightarrow> u8 list" where
  "mini_block_to_bytes mb = u64_to_le_bytes (mb_bitvec mb) @ le_bytes 2 (mb_rank mb)"

definition dense_open :: "u8 list \<Rightarrow> u8 list option" where
  "dense_open data = (if length data = DENSE_BLOCK_NUM_BYTES then Some data else None)"

definition mini_block :: "u8 list \<Rightarrow> nat \<Rightarrow> dense_mini_block option" where
  "mini_block data mini_block_id =
     (let start = mini_block_id * MINI_BLOCK_NUM_BYTES
      in if start + MINI_BLOCK_NUM_BYTES \<le> length data
         then Some (mini_block_from_bytes (take MINI_BLOCK_NUM_BYTES (drop start data))) else None)"

definition iter_miniblocks :: "u8 list \<Rightarrow> nat \<Rightarrow> (nat \<times> dense_mini_block) list" where
  "iter_miniblocks data from_block_id =
     map (\<lambda>i. (i, mini_block_from_bytes (take MINI_BLOCK_NUM_BYTES (drop (i * MINI_BLOCK_NUM_BYTES) data))))
       [from_block_id..<length data div MINI_BLOCK_NUM_BYTES]"

definition find_miniblock_containing_rank :: "u8 list \<Rightarrow> nat \<Rightarrow> nat \<Rightarrow> nat option" where
  "find_miniblock_containing_rank data rank from_block_id =
     (let ids = map fst (takeWhile (\<lambda>(_, mb). mb_rank mb \<le> rank) (iter_miniblocks data from_block_id))
      in if ids = [] then None else Some (last ids))"

definition dense_contains :: "u8 list \<Rightarrow> nat \<Rightarrow> bool option" where
  "dense_contains data el =
     mini_block data (el div ELEMENTS_PER_MINI_BLOCK) \<bind> (\<lambda>mb.
       Some (get_bit_at (mb_bitvec mb) (el mod ELEMENTS_PER_MINI_BLOCK)))"

definition dense_rank_if_exists :: "u8 list \<Rightarrow> nat \<Rightarrow> nat option option" where
  "dense_rank_if_exists data el =
     mini_block data (el div ELEMENTS_PER_MINI_BLOCK) \<bind> (\<lambda>mb.
       let pos = el mod ELEMENTS_PER_MINI_BLOCK;
           rank = (mb_rank mb + rank_u64 (mb_bitvec mb) pos) mod 65536
       in Some (if get_bit_at (mb_bitvec mb) pos then Some rank else None))"

definition dense_rank :: "u8 list \<Rightarrow> nat \<Rightarrow> nat option" where
  "dense_rank data el =
     mini_block data (el div ELEMENTS_PER_MINI_BLOCK) \<bind> (\<lambda>mb.
       Some ((mb_rank mb + rank_u64 (mb_bitvec mb) (el mod ELEMENTS_PER_MINI_BLOCK)) mod 65536))"

text \<open>The cursor is the mini block of the last hit; it is returned with the element.\<close>

definition dense_cursor_select :: "u8 list \<Rightarrow> nat \<Rightarrow> nat \<Rightarrow> (nat \<times> nat) option" where
  "dense_cursor_select data block_id rank =
     find_miniblock_containing_rank data rank block_id \<bind> (\<lambda>id.
     mini_block data id \<bind> (\<lambda>mb.
       Some (id * ELEMENTS_PER_MINI_BLOCK + select_u64 (mb_bitvec mb) (rank - mb_rank mb), id)))"

definition dense_select :: "u8 list \<Rightarrow> nat \<Rightarrow> nat option" where
  "dense_select data rank =
     find_miniblock_containing_rank data rank 0 \<bind> (\<lambda>id.
     mini_block data id \<bind> (\<lambda>mb.
       Some (id * ELEMENTS_PER_MINI_BLOCK + select_u64 (mb_bitvec mb) (rank - mb_rank mb))))"

record dense_writer =
  dw_before :: nat
  dw_block :: u64
  dw_block_id :: nat
  dw_out :: "u8 list"

definition dense_flush :: "dense_writer \<Rightarrow> dense_writer" where
  "dense_flush w =
     \<lparr>dw_before = (dw_before w + count_ones (dw_block w)) mod 65536, dw_block = 0, dw_block_id = dw_block_id w + 1,
      dw_out = dw_out w @ mini_block_to_bytes \<lparr>mb_bitvec = dw_block w, mb_rank = dw_before w\<rparr>\<rparr>"

function dense_flush_to :: "nat \<Rightarrow> dense_writer \<Rightarrow> dense_writer" where
  "dense_flush_to block_id w = (if block_id > dw_block_id w then dense_flush_to block_id (dense_flush w) else w)"
  by pat_completeness auto
termination
  by (relation "measure (\<lambda>(b, w). b - dw_block_id w)") (auto simp: dense_flush_def)

declare dense_flush_to.simps [simp del]

definition dense_push :: "dense_writer \<Rightarrow> nat \<Rightarrow> dense_writer" where
  "dense_push w el =
     (let w' = dense_flush_to (el div ELEMENTS_PER_MINI_BLOCK) w
      in w'\<lparr>dw_block := set_bit_at (dw_block w') (el mod ELEMENTS_PER_MINI_BLOCK)\<rparr>)"

definition serialize_dense_codec :: "nat list \<Rightarrow> u8 list" where
  "serialize_dense_codec els =
     dw_out (dense_flush_to (65535 div ELEMENTS_PER_MINI_BLOCK + 1)
       (foldl dense_push \<lparr>dw_before = 0, dw_block = 0, dw_block_id = 0, dw_out = []\<rparr> els))"

section \<open>Bits of one mini block\<close>

lemma get_bit_at_iff: "n < 64 \<Longrightarrow> get_bit_at w n \<longleftrightarrow> n \<in> tinyset_elems w"
proof -
  assume "n < 64"
  then have "get_bit_at w n \<longleftrightarrow> tinyset_contains w n"
    by (simp add: get_bit_at_def tinyset_contains_def tinyset_is_empty_def tinyset_intersect_def tinyset_singleton_def)
  then show ?thesis using \<open>n < 64\<close> by (simp add: contains_iff)
qed

lemma elems_set_bit_at: "n < 64 \<Longrightarrow> tinyset_elems (set_bit_at w n) = insert n (tinyset_elems w)"
proof -
  assume "n < 64"
  then have "set_bit_at w n = tinyset_insert w n"
    by (simp add: set_bit_at_def tinyset_insert_def tinyset_union_def tinyset_singleton_def)
  then show ?thesis using \<open>n < 64\<close> by (simp add: elems_insert)
qed

lemma rank_u64_card:
  assumes "el < 64"
  shows "rank_u64 w el = card {x \<in> tinyset_elems w. x < el}"
proof -
  have "w AND (push_bit (el mod 64) 1 - 1) = tinyset_intersect w (tinyset_range_lower el)"
    by (simp add: tinyset_intersect_def tinyset_range_lower_def)
  then have "rank_u64 w el = card (tinyset_elems (tinyset_intersect w (tinyset_range_lower el)))"
    by (simp add: rank_u64_def tinyset_len_card [symmetric] tinyset_len_def)
  also have "tinyset_elems (tinyset_intersect w (tinyset_range_lower el)) = {x \<in> tinyset_elems w. x < el}"
    using assms by (auto simp: elems_intersect elems_range_lower)
  finally show ?thesis .
qed

lemma select_u64_law:
  assumes "e \<in> tinyset_elems w" "card {x \<in> tinyset_elems w. x < e} = i"
  shows "select_u64 w i = e"
  using assms
proof (induction i arbitrary: w)
  case 0
  then have "{x \<in> tinyset_elems w. x < e} = {}" by simp
  then have "Min (tinyset_elems w) = e" using 0 by (intro Min_eqI) (auto simp: not_less)
  moreover have "w \<noteq> 0" using 0(1) by (auto simp: tinyset_elems_def)
  ultimately show ?case using trailing_zeros_Min [of w] by (simp add: tinyset_elems_def)
next
  case (Suc i)
  have ne: "tinyset_elems w \<noteq> {}" "w \<noteq> 0" using Suc.prems(1) by (auto simp: tinyset_elems_def)
  let ?m = "Min (tinyset_elems w)"
  have cl: "tinyset_elems (w AND (w - 1)) = tinyset_elems w - {?m}"
    using pop_lowest_Min(2) [OF ne(1)] ne by (simp add: tinyset_pop_lowest_def is_empty_iff)
  obtain x where "x \<in> tinyset_elems w" "x < e" using Suc.prems(2) by (metis (no_types, lifting) Collect_empty_eq card.empty nat.distinct(1))
  then have m: "?m < e" "?m \<in> tinyset_elems w" 
    using Min_le [of "tinyset_elems w" x] Min_in [OF _ ne(1)] by (auto intro: le_less_trans simp del: Min_le)
  have "{x \<in> tinyset_elems w. x < e} = insert ?m {x \<in> tinyset_elems (w AND (w - 1)). x < e}" using cl m by auto
  then have "card {x \<in> tinyset_elems (w AND (w - 1)). x < e} = i" using Suc.prems(2) cl by simp
  then show ?case using Suc.IH [of "w AND (w - 1)"] Suc.prems(1) cl m by simp
qed

section \<open>What the writer writes\<close>

definition bucket_word :: "nat list \<Rightarrow> nat \<Rightarrow> u64" where
  "bucket_word xs k = foldl set_bit_at 0 (map (\<lambda>e. e mod 64) (filter (\<lambda>e. e div 64 = k) xs))"

definition bucket_bytes :: "nat list \<Rightarrow> nat \<Rightarrow> u8 list" where
  "bucket_bytes xs k = mini_block_to_bytes \<lparr>mb_bitvec = bucket_word xs k, mb_rank = rank_of xs (64 * k) mod 65536\<rparr>"

lemma elems_bucket_word: "tinyset_elems (bucket_word xs k) = {e mod 64 | e. e \<in> set xs \<and> e div 64 = k}"
proof (induction xs rule: rev_induct)
  case (snoc x xs)
  show ?case
  proof (cases "x div 64 = k")
    case True
    then have eq: "tinyset_elems (bucket_word (xs @ [x]) k) = insert (x mod 64) (tinyset_elems (bucket_word xs k))"
      by (simp add: bucket_word_def elems_set_bit_at)
    show ?thesis unfolding eq snoc using True by auto
  next
    case False
    then have eq: "bucket_word (xs @ [x]) k = bucket_word xs k" by (simp add: bucket_word_def)
    show ?thesis unfolding eq snoc using False by auto
  qed
qed (simp add: bucket_word_def tinyset_elems_def)

lemma rank_of_card: "sorted_wrt (<) xs \<Longrightarrow> rank_of xs t = card {x \<in> set xs. x < t}"
proof -
  assume "sorted_wrt (<) xs"
  then have "distinct xs" by (simp add: strict_sorted_iff)
  then have "length (filter (\<lambda>x. x < t) xs) = card (set (filter (\<lambda>x. x < t) xs))" by (subst distinct_card) simp_all
  then show ?thesis by (simp add: rank_of_def)
qed

text \<open>Inside a mini block, positions count the elements from its start on.\<close>

lemma card_bucket_less:
  assumes "sorted_wrt (<) xs" "p \<le> 64"
  shows "rank_of xs (64 * k) + card {x \<in> tinyset_elems (bucket_word xs k). x < p} = rank_of xs (64 * k + p)"
proof -
  let ?A = "{x \<in> set xs. x < 64 * k}" and ?B = "{x \<in> set xs. 64 * k \<le> x \<and> x < 64 * k + p}"
  have "{x \<in> tinyset_elems (bucket_word xs k). x < p} = (\<lambda>x. x - 64 * k) ` ?B"
  proof (rule set_eqI)
    fix y
    have "(\<exists>e. y = e mod 64 \<and> e \<in> set xs \<and> e div 64 = k) \<and> y < p \<longleftrightarrow> y < p \<and> 64 * k + y \<in> set xs"
    proof
      assume "(\<exists>e. y = e mod 64 \<and> e \<in> set xs \<and> e div 64 = k) \<and> y < p"
      then obtain e where "y = e mod 64" "e \<in> set xs" "e div 64 = k" "y < p" by blast
      moreover from this have "64 * k + y = e" by (metis mult_div_mod_eq)
      ultimately show "y < p \<and> 64 * k + y \<in> set xs" by simp
    next
      assume "y < p \<and> 64 * k + y \<in> set xs"
      then show "(\<exists>e. y = e mod 64 \<and> e \<in> set xs \<and> e div 64 = k) \<and> y < p"
        using assms(2) by (intro conjI exI [of _ "64 * k + y"]) auto
    qed
    moreover have "y \<in> (\<lambda>x. x - 64 * k) ` ?B \<longleftrightarrow> y < p \<and> 64 * k + y \<in> set xs"
      by (force simp: image_iff)
    ultimately show "y \<in> {x \<in> tinyset_elems (bucket_word xs k). x < p} \<longleftrightarrow> y \<in> (\<lambda>x. x - 64 * k) ` ?B"
      by (simp add: elems_bucket_word)
  qed
  moreover have "inj_on (\<lambda>x. x - 64 * k) ?B" by (rule inj_onI) auto
  ultimately have "card {x \<in> tinyset_elems (bucket_word xs k). x < p} = card ?B" by (simp add: card_image)
  moreover have "{x \<in> set xs. x < 64 * k + p} = ?A \<union> ?B" by auto
  moreover have "card (?A \<union> ?B) = card ?A + card ?B" by (rule card_Un_disjoint) auto
  ultimately show ?thesis by (simp add: rank_of_card [OF assms(1)])
qed

lemma count_ones_bucket:
  assumes "sorted_wrt (<) xs"
  shows "rank_of xs (64 * k) + count_ones (bucket_word xs k) = rank_of xs (64 * Suc k)"
proof -
  have "{x \<in> tinyset_elems (bucket_word xs k). x < 64} = tinyset_elems (bucket_word xs k)"
    using tinyset_elems_less by auto
  then show ?thesis
    using card_bucket_less [OF assms, of 64 k] tinyset_len_card [of "bucket_word xs k"]
    by (simp add: tinyset_len_def add.commute)
qed

definition dense_inv :: "nat list \<Rightarrow> nat \<Rightarrow> dense_writer \<Rightarrow> bool" where
  "dense_inv ys k w \<longleftrightarrow>
     dw_before w = rank_of ys (64 * k) mod 65536 \<and> dw_block w = bucket_word ys k \<and> dw_block_id w = k \<and>
     dw_out w = concat (map (bucket_bytes ys) [0..<k])"

lemma dense_flush_inv:
  assumes "dense_inv ys k w" "sorted_wrt (<) ys" "\<forall>y\<in>set ys. y div 64 \<le> k"
  shows "dense_inv ys (Suc k) (dense_flush w)"
proof -
  have "filter (\<lambda>e. e div 64 = Suc k) ys = []" using assms(3) by (auto simp: filter_empty_conv)
  then have "bucket_word ys (Suc k) = 0" by (simp add: bucket_word_def)
  moreover have "(rank_of ys (64 * k) mod 65536 + count_ones (bucket_word ys k)) mod 65536 = rank_of ys (64 * Suc k) mod 65536"
    using count_ones_bucket [OF assms(2), of k] by (metis mod_add_left_eq)
  ultimately show ?thesis using assms(1) by (simp add: dense_inv_def dense_flush_def bucket_bytes_def)
qed

lemma dense_flush_to_inv:
  assumes "dense_inv ys k w" "sorted_wrt (<) ys" "\<forall>y\<in>set ys. y div 64 \<le> k" "k \<le> b"
  shows "dense_inv ys b (dense_flush_to b w)"
  using assms
proof (induction "b - k" arbitrary: k w)
  case 0
  then show ?case by (subst dense_flush_to.simps) (simp add: dense_inv_def)
next
  case (Suc n)
  have lt: "k < b" using Suc.hyps(2) by simp
  have "dense_inv ys b (dense_flush_to b (dense_flush w))"
    using Suc.hyps(2) dense_flush_inv [OF Suc.prems(1-3)] Suc.prems(2,3) lt by (intro Suc.hyps(1) [of "Suc k"]) auto
  moreover have "dw_block_id w = k" using Suc.prems(1) by (simp add: dense_inv_def)
  ultimately show ?case using lt by (subst dense_flush_to.simps) simp
qed

lemma dense_push_inv:
  assumes "dense_inv ys k w" "sorted_wrt (<) (ys @ [e])" "\<forall>y\<in>set ys. y div 64 \<le> k" "k \<le> e div 64"
  shows "dense_inv (ys @ [e]) (e div 64) (dense_push w e)"
proof -
  let ?b = "e div 64" and ?w = "dense_flush_to (e div 64) w"
  have s: "sorted_wrt (<) ys" using assms(2) by (simp add: sorted_wrt_append)
  have inv: "dense_inv ys ?b ?w" using assms(1) s assms(3,4) by (rule dense_flush_to_inv)
  have rank: "rank_of (ys @ [e]) (64 * k) = rank_of ys (64 * k)" if "k \<le> ?b" for k
  proof -
    have "64 * k \<le> e" using that by (simp add: less_eq_div_iff_mult_less_eq mult.commute)
    then show ?thesis by (simp add: rank_of_def)
  qed
  have word: "bucket_word (ys @ [e]) k = bucket_word ys k" if "k < ?b" for k
    using that by (simp add: bucket_word_def)
  have last: "bucket_word (ys @ [e]) ?b = set_bit_at (bucket_word ys ?b) (e mod 64)" by (simp add: bucket_word_def)
  have m: "map (bucket_bytes (ys @ [e])) [0..<?b] = map (bucket_bytes ys) [0..<?b]"
    using rank word by (auto simp: bucket_bytes_def)
  show ?thesis using inv rank [of ?b] last unfolding dense_inv_def m
    by (simp add: dense_push_def Let_def ELEMENTS_PER_MINI_BLOCK_def)
qed

lemma dense_fold_inv:
  assumes "sorted_wrt (<) xs"
  shows "\<exists>k. dense_inv xs k (foldl dense_push \<lparr>dw_before = 0, dw_block = 0, dw_block_id = 0, dw_out = []\<rparr> xs) \<and>
    (\<forall>x\<in>set xs. x div 64 \<le> k) \<and> (k = 0 \<or> (\<exists>x\<in>set xs. k = x div 64))"
  using assms
proof (induction xs rule: rev_induct)
  case Nil
  then show ?case by (intro exI [of _ 0]) (simp add: dense_inv_def rank_of_def bucket_word_def)
next
  case (snoc e ys)
  let ?w = "foldl dense_push \<lparr>dw_before = 0, dw_block = 0, dw_block_id = 0, dw_out = []\<rparr> ys"
  have s: "sorted_wrt (<) ys" and lt: "\<forall>y\<in>set ys. y < e" using snoc.prems by (auto simp: sorted_wrt_append)
  from snoc.IH [OF s] obtain k where k: "dense_inv ys k ?w" "\<forall>x\<in>set ys. x div 64 \<le> k" "k = 0 \<or> (\<exists>x\<in>set ys. k = x div 64)"
    by blast
  have "k \<le> e div 64" using k(3) lt by (auto simp: div_le_mono less_imp_le)
  then have "dense_inv (ys @ [e]) (e div 64) (dense_push ?w e)" by (rule dense_push_inv [OF k(1) snoc.prems k(2)])
  moreover have "\<forall>x\<in>set (ys @ [e]). x div 64 \<le> e div 64" using lt by (auto simp: div_le_mono less_imp_le)
  ultimately show ?case by (intro exI [of _ "e div 64"]) auto
qed

lemma serialize_dense_blocks:
  assumes "strict_u16s xs"
  shows "serialize_dense_codec xs = concat (map (bucket_bytes xs) [0..<1024])"
proof -
  have s: "sorted_wrt (<) xs" using assms by (simp add: strict_u16s_def)
  obtain k where k: "dense_inv xs k (foldl dense_push \<lparr>dw_before = 0, dw_block = 0, dw_block_id = 0, dw_out = []\<rparr> xs)"
    "\<forall>x\<in>set xs. x div 64 \<le> k" "k = 0 \<or> (\<exists>x\<in>set xs. k = x div 64)"
    using dense_fold_inv [OF s] by blast
  have "k \<le> 1024" using k(3) assms by (auto simp: strict_u16s_def)
  from dense_flush_to_inv [OF k(1) s k(2) this] show ?thesis
    by (simp add: serialize_dense_codec_def dense_inv_def ELEMENTS_PER_MINI_BLOCK_def)
qed

section \<open>The dense block keeps the contract\<close>

definition dense_repr :: "nat list \<Rightarrow> u8 list \<Rightarrow> bool" where
  "dense_repr xs data \<longleftrightarrow> strict_u16s xs \<and> data = serialize_dense_codec xs"

lemmas dense_consts = ELEMENTS_PER_MINI_BLOCK_def MINI_BLOCK_NUM_BYTES_def ELEMENTS_PER_BLOCK_def DENSE_BLOCK_NUM_BYTES_def

lemma mini_block_bytes_roundtrip: "mb_rank mb < 65536 \<Longrightarrow> mini_block_from_bytes (mini_block_to_bytes mb) = mb"
  by (simp add: mini_block_from_bytes_def mini_block_to_bytes_def le_nat_le_bytes_id del: le_bytes.simps)

lemma length_bucket_bytes [simp]: "length (bucket_bytes xs k) = 10"
  by (simp add: bucket_bytes_def mini_block_to_bytes_def)

lemma take_drop_concat_uniform:
  assumes "\<forall>x\<in>set xss. length x = n" "i < length xss"
  shows "take n (drop (i * n) (concat xss)) = xss ! i"
  using assms
proof (induction xss arbitrary: i)
  case (Cons x xss)
  then show ?case by (cases i) auto
qed simp

lemma dense_length:
  assumes "dense_repr xs data"
  shows "length data = DENSE_BLOCK_NUM_BYTES"
proof -
  have "length (concat (map (bucket_bytes xs) [0..<1024])) = 10 * length (map (bucket_bytes xs) [0..<1024])"
    by (rule concat_length_uniform) auto
  then show ?thesis using assms serialize_dense_blocks by (simp add: dense_repr_def dense_consts)
qed

lemma rank_bucket_less:
  assumes "sorted_wrt (<) xs" "k < 1024"
  shows "rank_of xs (64 * k) < 65536"
proof -
  have "rank_of xs (64 * k) = card {x \<in> set xs. x < 64 * k}" by (rule rank_of_card [OF assms(1)])
  also have "\<dots> \<le> card {..<64 * k}" by (rule card_mono) auto
  finally show ?thesis using assms(2) by simp
qed

lemma dense_chunk:
  assumes "dense_repr xs data" "k < 1024"
  shows "mini_block_from_bytes (take 10 (drop (k * 10) data)) =
      \<lparr>mb_bitvec = bucket_word xs k, mb_rank = rank_of xs (64 * k)\<rparr>"
proof -
  have xs: "strict_u16s xs" "sorted_wrt (<) xs" using assms(1) by (auto simp: dense_repr_def strict_u16s_def)
  have "take 10 (drop (k * 10) data) = map (bucket_bytes xs) [0..<1024] ! k"
    using assms serialize_dense_blocks [OF xs(1)] unfolding dense_repr_def
    by (simp only:) (intro take_drop_concat_uniform, auto)
  then show ?thesis using assms(2) rank_bucket_less [OF xs(2) assms(2)]
    by (simp add: bucket_bytes_def mini_block_bytes_roundtrip)
qed

lemma mini_block_law:
  assumes "dense_repr xs data" "k < 1024"
  shows "mini_block data k = Some \<lparr>mb_bitvec = bucket_word xs k, mb_rank = rank_of xs (64 * k)\<rparr>"
  using dense_chunk [OF assms] dense_length [OF assms(1)] assms(2) by (simp add: mini_block_def Let_def dense_consts)

lemma rank_in_bucket:
  assumes "sorted_wrt (<) xs"
  shows "rank_of xs (64 * (el div 64)) + rank_u64 (bucket_word xs (el div 64)) (el mod 64) = rank_of xs el"
  using card_bucket_less [OF assms, of "el mod 64" "el div 64"] by (simp add: rank_u64_card)

lemma mem_bucket: "el mod 64 \<in> tinyset_elems (bucket_word xs (el div 64)) \<longleftrightarrow> el \<in> set xs"
  unfolding elems_bucket_word mem_Collect_eq by (metis div_mult_mod_eq)

lemma strict_u16s_nth:
  assumes "strict_u16s xs" "i < length xs"
  shows "xs ! i < 65536" "xs ! i div 64 < 1024"
  using assms by (auto simp: strict_u16s_def intro: less_mult_imp_div_less)

text \<open>The search for a rank, from any mini block at or before its element, ends on its element's.\<close>

lemma find_miniblock_law:
  assumes "dense_repr xs data" "i < length xs" "from_id \<le> xs ! i div 64"
  shows "find_miniblock_containing_rank data i from_id = Some (xs ! i div 64)"
proof -
  have xs: "strict_u16s xs" "sorted_wrt (<) xs" using assms(1) by (auto simp: dense_repr_def strict_u16s_def)
  let ?k = "xs ! i div 64"
  have k: "?k < 1024" using xs(1) assms(2) by (rule strict_u16s_nth)
  have le: "rank_of xs (64 * j) \<le> i \<longleftrightarrow> j \<le> ?k" for j
  proof -
    have "i < rank_of xs (64 * j) \<longleftrightarrow> xs ! i < 64 * j" using nth_less_rank [OF xs(2) assms(2)] by simp
    also have "\<dots> \<longleftrightarrow> ?k < j" by (simp add: div_less_iff_less_mult mult.commute)
    finally show ?thesis by auto
  qed
  have "iter_miniblocks data from_id =
      map (\<lambda>j. (j, \<lparr>mb_bitvec = bucket_word xs j, mb_rank = rank_of xs (64 * j)\<rparr>)) [from_id..<1024]"
    using dense_chunk [OF assms(1)] dense_length [OF assms(1)] by (simp add: iter_miniblocks_def dense_consts)
  then have "map fst (takeWhile (\<lambda>(_, mb). mb_rank mb \<le> i) (iter_miniblocks data from_id)) =
      takeWhile (\<lambda>j. j \<le> ?k) [from_id..<1024]"
    by (simp add: takeWhile_map comp_def le case_prod_unfold del: upt_rec_numeral)
  also have "\<dots> = [from_id..<Suc ?k]"
  proof -
    have "[from_id..<1024] = [from_id..<Suc ?k] @ [Suc ?k..<1024]"
      using upt_add_eq_append [of from_id "Suc ?k" "1024 - Suc ?k"] assms(3) k by (simp del: upt_rec_numeral)
    moreover have "takeWhile (\<lambda>j. j \<le> ?k) ([from_id..<Suc ?k] @ [Suc ?k..<1024]) =
        [from_id..<Suc ?k] @ takeWhile (\<lambda>j. j \<le> ?k) [Suc ?k..<1024]"
      by (rule takeWhile_append2) auto
    moreover have "takeWhile (\<lambda>j. j \<le> ?k) [Suc ?k..<1024] = []"
      by (cases "Suc ?k < 1024") (simp_all add: upt_conv_Cons del: upt_rec_numeral upt.simps)
    ultimately show ?thesis by (simp del: upt_rec_numeral upt.simps)
  qed
  finally show ?thesis using assms(3)
    by (simp only: find_miniblock_containing_rank_def Let_def) simp
qed

lemma select_in_bucket:
  assumes "strict_u16s xs" "i < length xs"
  shows "xs ! i div 64 * 64 + select_u64 (bucket_word xs (xs ! i div 64)) (i - rank_of xs (64 * (xs ! i div 64))) = xs ! i"
proof -
  have s: "sorted_wrt (<) xs" using assms(1) by (simp add: strict_u16s_def)
  let ?k = "xs ! i div 64" and ?e = "xs ! i mod 64"
  have "?e \<in> tinyset_elems (bucket_word xs ?k)" using mem_bucket [of "xs ! i" xs] assms(2) by simp
  moreover have "card {x \<in> tinyset_elems (bucket_word xs ?k). x < ?e} = i - rank_of xs (64 * ?k)"
    using card_bucket_less [OF s, of ?e ?k] rank_of_nth [OF s assms(2)] by simp
  ultimately have "select_u64 (bucket_word xs ?k) (i - rank_of xs (64 * ?k)) = ?e" by (rule select_u64_law)
  then show ?thesis by simp
qed

lemma dense_cursor_select_law:
  assumes "dense_repr xs data" "i < length xs" "from_id \<le> xs ! i div 64"
  shows "dense_cursor_select data from_id i = Some (xs ! i, xs ! i div 64)"
proof -
  have xs: "strict_u16s xs" using assms(1) by (simp add: dense_repr_def)
  have "xs ! i div 64 < 1024" using xs assms(2) by (rule strict_u16s_nth)
  then show ?thesis
    using find_miniblock_law [OF assms] mini_block_law [OF assms(1)] select_in_bucket [OF xs assms(2)]
    by (simp add: dense_cursor_select_def dense_consts)
qed

interpretation dense: set_reader dense_contains dense_rank dense_rank_if_exists dense_select dense_repr
proof
  fix xs data and el i :: nat
  assume r: "dense_repr xs data"
  show st: "strict_u16s xs" using r by (simp add: dense_repr_def)
  then have s: "sorted_wrt (<) xs" by (simp add: strict_u16s_def)
  show "dense_select data i = Some (xs ! i)" if "i < length xs"
    using dense_cursor_select_law [OF r that, of 0]
    by (auto simp: dense_cursor_select_def dense_select_def bind_eq_Some_conv)
  assume el: "el < 65536"
  then have mb: "mini_block data (el div 64) = Some \<lparr>mb_bitvec = bucket_word xs (el div 64), mb_rank = rank_of xs (64 * (el div 64))\<rparr>"
    using mini_block_law [OF r, of "el div 64"] by simp
  have bit: "get_bit_at (bucket_word xs (el div 64)) (el mod 64) \<longleftrightarrow> el \<in> set xs"
    using get_bit_at_iff [of "el mod 64"] mem_bucket by simp
  have rank: "(rank_of xs (64 * (el div 64)) + rank_u64 (bucket_word xs (el div 64)) (el mod 64)) mod 65536 = rank_of xs el"
    using rank_in_bucket [OF s, of el] rank_of_less_bound [OF st el] by simp
  show "dense_contains data el = Some (el \<in> set xs)"
    using mb bit by (simp add: dense_contains_def dense_consts)
  show "dense_rank data el = Some (rank_of xs el)"
    using mb rank by (simp add: dense_rank_def dense_consts)
  show "dense_rank_if_exists data el = Some (if el \<in> set xs then Some (rank_of xs el) else None)"
    using mb bit rank by (simp add: dense_rank_if_exists_def dense_consts Let_def)
qed

end
