(* ===== verification/OptionalIndex.thy ===== *)
theory OptionalIndex
  imports DenseBlock Serialize
begin

text \<open>
  \<open>OptionalIndex\<close> of \<^verbatim>\<open>columnar/src/column_index/optional_index/mod.rs\<close>: the set of documents that have a
  value, cut into blocks of 65536 ids stored sparse or dense. The writer and the opener at the byte
  level, membership, rank, select with and without cursor, the batch lookup and the search for the
  next document with a value. A slice out of range or a failed assertion is \<open>None\<close>.
\<close>

section \<open>Definitions\<close>

definition DENSE_BLOCK_THRESHOLD :: nat where
  "DENSE_BLOCK_THRESHOLD = DENSE_BLOCK_NUM_BYTES div 2"

datatype block_variant = VariantDense | VariantSparse nat

definition num_bytes_in_block :: "block_variant \<Rightarrow> nat" where
  "num_bytes_in_block v = (case v of VariantDense \<Rightarrow> DENSE_BLOCK_NUM_BYTES | VariantSparse num_vals \<Rightarrow> num_vals * 2)"

record block_meta =
  bm_non_null_rows_before_block :: nat
  bm_start_byte_offset :: nat
  bm_block_variant :: block_variant

record optional_index =
  oi_num_docs :: nat
  oi_num_non_null_docs :: nat
  oi_block_data :: "u8 list"
  oi_block_metas :: "block_meta list"

text \<open>The upper and the lower 16 bits of a row id.\<close>

definition row_addr_from_row_id :: "nat \<Rightarrow> nat \<times> nat" where
  "row_addr_from_row_id row_id = (row_id div ELEMENTS_PER_BLOCK mod 65536, row_id mod ELEMENTS_PER_BLOCK)"

datatype set_block = BlockDense "u8 list" | BlockSparse "u8 list"

definition slice_bytes :: "u8 list \<Rightarrow> nat \<Rightarrow> nat \<Rightarrow> u8 list option" where
  "slice_bytes bytes start len = (if start + len \<le> length bytes then Some (take len (drop start bytes)) else None)"

definition oi_block :: "optional_index \<Rightarrow> block_meta \<Rightarrow> set_block option" where
  "oi_block oi m =
     (case bm_block_variant m of
        VariantDense \<Rightarrow>
          slice_bytes (oi_block_data oi) (bm_start_byte_offset m) DENSE_BLOCK_NUM_BYTES \<bind> (\<lambda>data.
            dense_open data \<bind> (\<lambda>d. Some (BlockDense d)))
      | VariantSparse num_vals \<Rightarrow>
          slice_bytes (oi_block_data oi) (bm_start_byte_offset m) (num_vals * 2) \<bind> (\<lambda>data. Some (BlockSparse data)))"

definition block_contains :: "set_block \<Rightarrow> nat \<Rightarrow> bool option" where
  "block_contains b el = (case b of BlockDense d \<Rightarrow> dense_contains d el | BlockSparse d \<Rightarrow> sparse_contains d el)"

definition block_rank :: "set_block \<Rightarrow> nat \<Rightarrow> nat option" where
  "block_rank b el = (case b of BlockDense d \<Rightarrow> dense_rank d el | BlockSparse d \<Rightarrow> sparse_rank d el)"

definition block_rank_if_exists :: "set_block \<Rightarrow> nat \<Rightarrow> nat option option" where
  "block_rank_if_exists b el =
     (case b of BlockDense d \<Rightarrow> dense_rank_if_exists d el | BlockSparse d \<Rightarrow> sparse_rank_if_exists d el)"

definition block_select :: "set_block \<Rightarrow> nat \<Rightarrow> nat option" where
  "block_select b rank = (case b of BlockDense d \<Rightarrow> dense_select d rank | BlockSparse d \<Rightarrow> sparse_select d rank)"

definition get_meta :: "optional_index \<Rightarrow> nat \<Rightarrow> block_meta option" where
  "get_meta oi b = (if b < length (oi_block_metas oi) then Some (oi_block_metas oi ! b) else None)"

definition oi_contains :: "optional_index \<Rightarrow> nat \<Rightarrow> bool option" where
  "oi_contains oi row_id =
     (let (block_id, in_block_row_id) = row_addr_from_row_id row_id
      in get_meta oi block_id \<bind> (\<lambda>m. oi_block oi m \<bind> (\<lambda>b. block_contains b in_block_row_id)))"

definition oi_rank :: "optional_index \<Rightarrow> nat \<Rightarrow> nat option" where
  "oi_rank oi doc_id =
     (if doc_id \<ge> oi_num_docs oi then Some (oi_num_non_null_docs oi)
      else
        (let (block_id, in_block_row_id) = row_addr_from_row_id doc_id
         in get_meta oi block_id \<bind> (\<lambda>m. oi_block oi m \<bind> (\<lambda>b. block_rank b in_block_row_id \<bind> (\<lambda>r.
              Some (bm_non_null_rows_before_block m + r))))))"

definition oi_rank_if_exists :: "optional_index \<Rightarrow> nat \<Rightarrow> nat option option" where
  "oi_rank_if_exists oi doc_id =
     (let (block_id, in_block_row_id) = row_addr_from_row_id doc_id
      in case get_meta oi block_id of
           None \<Rightarrow> Some None
         | Some m \<Rightarrow> oi_block oi m \<bind> (\<lambda>b. block_rank_if_exists b in_block_row_id \<bind> (\<lambda>r.
             Some (map_option (\<lambda>r. bm_non_null_rows_before_block m + r) r))))"

fun find_block_in :: "nat \<Rightarrow> nat \<Rightarrow> block_meta list \<Rightarrow> nat option" where
  "find_block_in dense_idx block_pos [] = None"
| "find_block_in dense_idx block_pos (m # ms) =
     (if bm_non_null_rows_before_block m > dense_idx then Some (block_pos - 1)
      else find_block_in dense_idx (block_pos + 1) ms)"

definition find_block :: "optional_index \<Rightarrow> nat \<Rightarrow> nat \<Rightarrow> nat" where
  "find_block oi dense_idx start_block_pos =
     (let len = length (oi_block_metas oi) mod 65536
      in case find_block_in dense_idx start_block_pos (drop start_block_pos (take len (oi_block_metas oi))) of
           Some b \<Rightarrow> b
         | None \<Rightarrow> len - 1)"

definition oi_select :: "optional_index \<Rightarrow> nat \<Rightarrow> nat option" where
  "oi_select oi rank =
     (let block_pos = find_block oi rank 0
      in get_meta oi block_pos \<bind> (\<lambda>m. oi_block oi m \<bind> (\<lambda>b.
           block_select b ((rank - bm_non_null_rows_before_block m) mod 65536) \<bind> (\<lambda>e.
             Some (block_pos * ELEMENTS_PER_BLOCK + e)))))"

datatype block_select_cursor = CursorDense "u8 list" nat | CursorSparse "u8 list"

definition block_cursor_select :: "block_select_cursor \<Rightarrow> nat \<Rightarrow> (nat \<times> block_select_cursor) option" where
  "block_cursor_select c rank =
     (case c of
        CursorDense d block_id \<Rightarrow> map_option (\<lambda>(e, id). (e, CursorDense d id)) (dense_cursor_select d block_id rank)
      | CursorSparse d \<Rightarrow> map_option (\<lambda>e. (e, CursorSparse d)) (sparse_select d rank))"

record oi_cursor =
  oc_block_cursor :: block_select_cursor
  oc_block_id :: nat
  oc_end_rank :: nat
  oc_doc_idx_start :: nat
  oc_rows_before :: nat

definition select_cursor :: oi_cursor where
  "select_cursor = \<lparr>oc_block_cursor = CursorSparse [], oc_block_id = 0, oc_end_rank = 0,
     oc_doc_idx_start = 0, oc_rows_before = 0\<rparr>"

definition search_and_load_block :: "optional_index \<Rightarrow> nat \<Rightarrow> oi_cursor \<Rightarrow> oi_cursor option" where
  "search_and_load_block oi rank c =
     (if rank < oc_end_rank c then Some c
      else
        (let b = find_block oi rank (oc_block_id c)
         in get_meta oi b \<bind> (\<lambda>m. oi_block oi m \<bind> (\<lambda>blk.
              Some \<lparr>oc_block_cursor = (case blk of BlockDense d \<Rightarrow> CursorDense d 0 | BlockSparse d \<Rightarrow> CursorSparse d),
                    oc_block_id = b,
                    oc_end_rank = (case get_meta oi (b + 1) of Some m' \<Rightarrow> bm_non_null_rows_before_block m' | None \<Rightarrow> 2 ^ 32 - 1),
                    oc_doc_idx_start = b * ELEMENTS_PER_BLOCK,
                    oc_rows_before = bm_non_null_rows_before_block m\<rparr>))))"

definition oi_cursor_select :: "optional_index \<Rightarrow> oi_cursor \<Rightarrow> nat \<Rightarrow> (nat \<times> oi_cursor) option" where
  "oi_cursor_select oi c rank =
     search_and_load_block oi rank c \<bind> (\<lambda>c'.
     block_cursor_select (oc_block_cursor c') ((rank - oc_rows_before c') mod 65536) \<bind> (\<lambda>(e, bc).
       Some (e + oc_doc_idx_start c', c'\<lparr>oc_block_cursor := bc\<rparr>)))"

fun select_all :: "optional_index \<Rightarrow> oi_cursor \<Rightarrow> nat list \<Rightarrow> nat list option" where
  "select_all oi c [] = Some []"
| "select_all oi c (rank # ranks) =
     oi_cursor_select oi c rank \<bind> (\<lambda>(e, c'). select_all oi c' ranks \<bind> (\<lambda>es. Some (e # es)))"

definition select_batch :: "optional_index \<Rightarrow> nat list \<Rightarrow> nat list option" where
  "select_batch oi ranks = select_all oi select_cursor ranks"

definition iter_non_null_docs :: "optional_index \<Rightarrow> nat list option" where
  "iter_non_null_docs oi = select_all oi select_cursor [0..<oi_num_non_null_docs oi]"

text \<open>The scan of a dense block from a position on.\<close>

fun dense_scan :: "u8 list \<Rightarrow> nat list \<Rightarrow> nat option option" where
  "dense_scan d [] = Some None"
| "dense_scan d (i # is) = dense_contains d i \<bind> (\<lambda>c. if c then Some (Some i) else dense_scan d is)"

fun next_non_null_blocks :: "optional_index \<Rightarrow> nat \<Rightarrow> nat \<Rightarrow> nat list \<Rightarrow> nat option option" where
  "next_non_null_blocks oi target first_block [] = Some None"
| "next_non_null_blocks oi target first_block (block_id # bs) =
     (let block_start = block_id * ELEMENTS_PER_BLOCK;
          in_block_start = (if block_id = first_block then (target - block_start) mod 65536 else 0)
      in get_meta oi block_id \<bind> (\<lambda>m. oi_block oi m \<bind> (\<lambda>blk.
           case blk of
             BlockSparse d \<Rightarrow>
               sparse_rank d in_block_start \<bind> (\<lambda>rank.
                 let end_rank = (case get_meta oi (block_id + 1) of
                       Some m' \<Rightarrow> bm_non_null_rows_before_block m' | None \<Rightarrow> oi_num_non_null_docs oi)
                 in if bm_non_null_rows_before_block m + rank < end_rank
                    then sparse_select d rank \<bind> (\<lambda>e. Some (Some (block_start + e)))
                    else next_non_null_blocks oi target first_block bs)
           | BlockDense d \<Rightarrow>
               dense_scan d [in_block_start..<min (oi_num_docs oi - block_start) ELEMENTS_PER_BLOCK] \<bind> (\<lambda>r.
                 case r of
                   Some i \<Rightarrow> Some (Some (block_start + i))
                 | None \<Rightarrow> next_non_null_blocks oi target first_block bs))))"

definition next_non_null_doc :: "optional_index \<Rightarrow> nat \<Rightarrow> nat option option" where
  "next_non_null_doc oi target =
     (if target \<ge> oi_num_docs oi then Some None
      else
        (let first_block = fst (row_addr_from_row_id target)
         in next_non_null_blocks oi target first_block
              [first_block..<length (oi_block_metas oi) mod 65536]))"

fun dense_batch :: "u8 list \<Rightarrow> nat list \<Rightarrow> (nat \<times> nat) list option" where
  "dense_batch d [] = Some []"
| "dense_batch d (e # es) =
     dense_rank_if_exists d e \<bind> (\<lambda>r. dense_batch d es \<bind> (\<lambda>out.
       Some (case r of Some row \<Rightarrow> (e, row) # out | None \<Rightarrow> out)))"

definition block_rank_batch :: "set_block \<Rightarrow> nat list \<Rightarrow> (nat \<times> nat) list option" where
  "block_rank_batch b els = (case b of BlockDense d \<Rightarrow> dense_batch d els | BlockSparse d \<Rightarrow> sparse_rank_batch d 0 els)"

fun oi_rank_each :: "optional_index \<Rightarrow> nat list \<Rightarrow> (nat \<times> nat) list option" where
  "oi_rank_each oi [] = Some []"
| "oi_rank_each oi (d # ds) =
     oi_rank_if_exists oi d \<bind> (\<lambda>r. oi_rank_each oi ds \<bind> (\<lambda>out.
       Some (case r of Some row \<Rightarrow> (d, row) # out | None \<Rightarrow> out)))"

function oi_rank_by_block :: "optional_index \<Rightarrow> nat list \<Rightarrow> (nat \<times> nat) list option" where
  "oi_rank_by_block oi doc_ids =
     (case doc_ids of
        [] \<Rightarrow> Some []
      | d # ds \<Rightarrow>
          let block_id = fst (row_addr_from_row_id d);
              same = d # takeWhile (\<lambda>e. fst (row_addr_from_row_id e) = block_id) ds;
              rest = dropWhile (\<lambda>e. fst (row_addr_from_row_id e) = block_id) ds
          in (case get_meta oi block_id of
                None \<Rightarrow> Some []
              | Some m \<Rightarrow> oi_block oi m \<bind> (\<lambda>b.
                  block_rank_batch b (map (\<lambda>e. snd (row_addr_from_row_id e)) same) \<bind> (\<lambda>hits.
                    Some (map (\<lambda>(e, r). (block_id * ELEMENTS_PER_BLOCK + e, bm_non_null_rows_before_block m + r)) hits))))
             \<bind> (\<lambda>out. oi_rank_by_block oi rest \<bind> (\<lambda>out'. Some (out @ out'))))"
  by pat_completeness auto
termination
  by (relation "measure (\<lambda>(_, ds). length ds)") (auto simp: length_dropWhile_le le_imp_less_Suc)

declare oi_rank_by_block.simps [simp del]

definition rank_if_exists_batch :: "optional_index \<Rightarrow> nat list \<Rightarrow> (nat \<times> nat) list option" where
  "rank_if_exists_batch oi doc_ids = (if \<not> sorted doc_ids then oi_rank_each oi doc_ids else oi_rank_by_block oi doc_ids)"

section \<open>Writing and opening\<close>

definition is_sparse :: "nat \<Rightarrow> bool" where
  "is_sparse num_rows_in_block \<longleftrightarrow> num_rows_in_block < DENSE_BLOCK_THRESHOLD"

definition serialize_optional_index_block :: "nat list \<Rightarrow> u8 list" where
  "serialize_optional_index_block block_els =
     (if is_sparse (length block_els) then sparse_serialize block_els else serialize_dense_codec block_els)"

record serialized_block_meta =
  sm_block_id :: nat
  sm_num_non_null_rows :: nat

definition block_meta_to_bytes :: "serialized_block_meta \<Rightarrow> u8 list option" where
  "block_meta_to_bytes m =
     (if sm_num_non_null_rows m > 0
      then Some (le_bytes 2 (sm_block_id m) @ le_bytes 2 ((sm_num_non_null_rows m - 1) mod 65536)) else None)"

definition block_meta_from_bytes :: "u8 list \<Rightarrow> serialized_block_meta" where
  "block_meta_from_bytes bytes =
     \<lparr>sm_block_id = le_nat (take 2 bytes), sm_num_non_null_rows = le_nat (drop 2 bytes) + 1\<rparr>"

record oi_writer =
  ow_current_block_id :: nat
  ow_current_block :: "nat list"
  ow_metadata :: "serialized_block_meta list"
  ow_out :: "u8 list"

definition ow_close_block :: "oi_writer \<Rightarrow> oi_writer" where
  "ow_close_block w =
     w\<lparr>ow_out := ow_out w @ serialize_optional_index_block (ow_current_block w),
       ow_metadata := ow_metadata w @
         [\<lparr>sm_block_id = ow_current_block_id w, sm_num_non_null_rows = length (ow_current_block w)\<rparr>]\<rparr>"

definition ow_push :: "oi_writer \<Rightarrow> nat \<Rightarrow> oi_writer" where
  "ow_push w idx =
     (let (block_id, in_block_row_id) = row_addr_from_row_id idx;
          w' = (if ow_current_block_id w \<noteq> block_id
                then (ow_close_block w)\<lparr>ow_current_block := [], ow_current_block_id := block_id\<rparr> else w)
      in w'\<lparr>ow_current_block := ow_current_block w' @ [in_block_row_id]\<rparr>)"

definition serialize_optional_index :: "nat list \<Rightarrow> nat \<Rightarrow> u8 list option" where
  "serialize_optional_index non_null_rows num_rows =
     vint_serialize (word_of_nat num_rows) \<bind> (\<lambda>header.
       case non_null_rows of
         [] \<Rightarrow> Some (header @ le_bytes 2 0)
       | idx # rows \<Rightarrow>
           let (block_id, in_block_row_id) = row_addr_from_row_id idx;
               w = ow_close_block (foldl ow_push
                     \<lparr>ow_current_block_id = block_id, ow_current_block = [in_block_row_id], ow_metadata = [],
                      ow_out = []\<rparr> rows)
           in map_opt block_meta_to_bytes (ow_metadata w) \<bind> (\<lambda>metas.
                Some (header @ ow_out w @ concat metas @ le_bytes 2 (length (ow_metadata w) mod 65536))))"

definition vec_resize :: "nat \<Rightarrow> 'a \<Rightarrow> 'a list \<Rightarrow> 'a list" where
  "vec_resize n x v = take n v @ replicate (n - length v) x"

record meta_reader =
  mr_metas :: "block_meta list"
  mr_start_byte_offset :: nat
  mr_non_null_rows_before :: nat

definition read_block_meta :: "meta_reader \<Rightarrow> u8 list \<Rightarrow> meta_reader" where
  "read_block_meta r bytes =
     (let sm = block_meta_from_bytes bytes;
          empty = \<lparr>bm_non_null_rows_before_block = mr_non_null_rows_before r,
                   bm_start_byte_offset = mr_start_byte_offset r, bm_block_variant = VariantSparse 0\<rparr>;
          variant = (if is_sparse (sm_num_non_null_rows sm) then VariantSparse (sm_num_non_null_rows sm mod 65536)
                     else VariantDense)
      in \<lparr>mr_metas = vec_resize (sm_block_id sm) empty (mr_metas r) @ [empty\<lparr>bm_block_variant := variant\<rparr>],
          mr_start_byte_offset = mr_start_byte_offset r + num_bytes_in_block variant,
          mr_non_null_rows_before = mr_non_null_rows_before r + sm_num_non_null_rows sm\<rparr>)"

definition deserialize_optional_index_block_metadatas :: "u8 list \<Rightarrow> nat \<Rightarrow> block_meta list \<times> nat" where
  "deserialize_optional_index_block_metadatas data num_rows =
     (let chunks = map (\<lambda>i. take 4 (drop (4 * i) data)) [0..<length data div 4];
          r = foldl read_block_meta \<lparr>mr_metas = [], mr_start_byte_offset = 0, mr_non_null_rows_before = 0\<rparr> chunks
      in (vec_resize ((num_rows + ELEMENTS_PER_BLOCK - 1) div ELEMENTS_PER_BLOCK)
            \<lparr>bm_non_null_rows_before_block = mr_non_null_rows_before r,
             bm_start_byte_offset = mr_start_byte_offset r, bm_block_variant = VariantSparse 0\<rparr> (mr_metas r),
          mr_non_null_rows_before r))"

definition rsplit_bytes :: "u8 list \<Rightarrow> nat \<Rightarrow> (u8 list \<times> u8 list) option" where
  "rsplit_bytes bytes n =
     (if n \<le> length bytes then Some (take (length bytes - n) bytes, drop (length bytes - n) bytes) else None)"

definition open_optional_index :: "u8 list \<Rightarrow> (io_error + optional_index) option" where
  "open_optional_index bytes =
     rsplit_bytes bytes 2 \<bind> (\<lambda>(bytes', num_bytes).
       case vint_deserialize bytes' of
         Inl err \<Rightarrow> Some (Inl err)
       | Inr (num_docs, body) \<Rightarrow>
           rsplit_bytes body (le_nat num_bytes * 4) \<bind> (\<lambda>(block_data, meta_bytes).
             let n = unat num_docs mod 2 ^ 32;
                 (metas, num_non_null) = deserialize_optional_index_block_metadatas meta_bytes n
             in Some (Inr \<lparr>oi_num_docs = n, oi_num_non_null_docs = num_non_null, oi_block_data = block_data,
                  oi_block_metas = metas\<rparr>)))"

end
