(* ===== verification/OptionalIndexRead.thy ===== *)
theory OptionalIndexRead
  imports OptionalIndex
begin

text \<open>
  What the operations of \<open>OptionalIndex\<close> return when its blocks and their metadata describe a sorted list
  of row ids: membership, rank, select, the select cursor, the batch lookup and the next document
  with a value, each equal to its definition on the list.
\<close>

section \<open>Blocks\<close>

definition in_block :: "nat list \<Rightarrow> nat \<Rightarrow> nat list" where
  "in_block xs b = map (\<lambda>x. x mod 65536) (filter (\<lambda>x. x div 65536 = b) xs)"

definition block_repr :: "nat list \<Rightarrow> set_block \<Rightarrow> bool" where
  "block_repr xs blk = (case blk of BlockDense d \<Rightarrow> dense_repr xs d | BlockSparse d \<Rightarrow> sparse_repr xs d)"

interpretation blk: set_reader block_contains block_rank block_rank_if_exists block_select block_repr
proof
  fix xs r and el i :: nat
  assume r: "block_repr xs r"
  show "strict_u16s xs"
    using r dense.repr_strict sparse.repr_strict by (cases r) (auto simp: block_repr_def)
  show "block_select r i = Some (xs ! i)" if "i < length xs"
    using r that dense.select_law sparse.select_law by (cases r) (auto simp: block_repr_def block_select_def)
  assume "el < 65536"
  then show "block_contains r el = Some (el \<in> set xs)" "block_rank r el = Some (rank_of xs el)"
    "block_rank_if_exists r el = Some (if el \<in> set xs then Some (rank_of xs el) else None)"
    using r
    by (cases r; simp add: block_repr_def block_contains_def block_rank_def block_rank_if_exists_def
        dense.contains_law dense.rank_law dense.rank_if_exists_law
        sparse.contains_law sparse.rank_law sparse.rank_if_exists_law)+
qed

lemma rank_split:
  assumes "e \<le> 65536"
  shows "rank_of xs (b * 65536) + rank_of (in_block xs b) e = rank_of xs (b * 65536 + e)"
proof (induction xs)
  case (Cons x xs)
  have "x < b * 65536 + e \<longleftrightarrow> x < b * 65536 \<or> x div 65536 = b \<and> x mod 65536 < e"
  proof (cases "x div 65536 = b")
    case True
    then have "x = b * 65536 + x mod 65536" by (metis div_mult_mod_eq)
    then show ?thesis using True by (metis add_less_cancel_left not_add_less1)
  next
    case False
    then consider "x div 65536 < b" | "b < x div 65536" by linarith
    then show ?thesis
    proof cases
      case 1
      then have "x < b * 65536" by (simp add: div_less_iff_less_mult)
      then show ?thesis by simp
    next
      case 2
      then have "(b + 1) * 65536 \<le> x" by (simp add: less_eq_div_iff_mult_less_eq [symmetric])
      then show ?thesis using False assms by simp
    qed
  qed
  moreover have "\<not> (x < b * 65536 \<and> x div 65536 = b)" by (auto simp: div_less_iff_less_mult [symmetric])
  ultimately show ?case using Cons by (auto simp: rank_of_def in_block_def)
qed (simp add: rank_of_def in_block_def)

lemma in_block_less: "\<forall>e\<in>set (in_block xs b). e < 65536"
  by (auto simp: in_block_def)

lemma length_in_block: "rank_of xs (b * 65536) + length (in_block xs b) = rank_of xs (Suc b * 65536)"
proof -
  have "rank_of (in_block xs b) 65536 = length (in_block xs b)" using in_block_less [of xs b] by (simp add: rank_of_def)
  then show ?thesis using rank_split [of 65536 xs b] by (simp add: add.commute)
qed

lemma mem_in_block: "x mod 65536 \<in> set (in_block xs (x div 65536)) \<longleftrightarrow> x \<in> set xs"
  by (auto simp: in_block_def image_iff) (metis div_mult_mod_eq)

lemma mem_in_block_add:
  assumes "e < 65536"
  shows "e \<in> set (in_block xs b) \<longleftrightarrow> b * 65536 + e \<in> set xs"
  using mem_in_block [of "b * 65536 + e" xs] assms by simp

lemma strict_in_block:
  assumes "sorted_wrt (<) xs"
  shows "strict_u16s (in_block xs b)"
proof -
  have "sorted_wrt (<) (filter (\<lambda>x. x div 65536 = b) xs)" using assms by (rule sorted_wrt_filter)
  then have "sorted_wrt (<) (in_block xs b)"
    unfolding in_block_def sorted_wrt_map
  proof (rule sorted_wrt_mono_rel [rotated])
    fix x y assume "x \<in> set (filter (\<lambda>x. x div 65536 = b) xs)" "y \<in> set (filter (\<lambda>x. x div 65536 = b) xs)" "x < y"
    then have "x div 65536 = y div 65536" "x < y" by auto
    then show "x mod 65536 < y mod 65536" by (metis add_less_cancel_left div_mult_mod_eq)
  qed
  then show ?thesis using in_block_less by (auto simp: strict_u16s_def)
qed

lemma rank_of_all: "\<forall>x\<in>set xs. x < t \<Longrightarrow> rank_of xs t = length xs"
  by (simp add: rank_of_def)

lemma rank_of_mono: "s \<le> t \<Longrightarrow> rank_of xs s \<le> rank_of xs t"
  by (induction xs) (auto simp: rank_of_def)

lemma nth_in_block:
  assumes "sorted_wrt (<) xs" "i < length xs"
  shows "rank_of xs (xs ! i div 65536 * 65536) \<le> i"
    and "i - rank_of xs (xs ! i div 65536 * 65536) < length (in_block xs (xs ! i div 65536))"
    and "in_block xs (xs ! i div 65536) ! (i - rank_of xs (xs ! i div 65536 * 65536)) = xs ! i mod 65536"
proof -
  let ?b = "xs ! i div 65536" and ?e = "xs ! i mod 65536"
  have "rank_of xs (?b * 65536) + rank_of (in_block xs ?b) ?e = i"
    using rank_split [of ?e xs ?b] rank_of_nth [OF assms] by simp
  then have r: "rank_of (in_block xs ?b) ?e = i - rank_of xs (?b * 65536)" and le: "rank_of xs (?b * 65536) \<le> i" by auto
  show "rank_of xs (?b * 65536) \<le> i" by (rule le)
  have "?e \<in> set (in_block xs ?b)" using mem_in_block assms(2) by simp
  moreover have "sorted_wrt (<) (in_block xs ?b)" using strict_in_block [OF assms(1)] by (simp add: strict_u16s_def)
  ultimately show "i - rank_of xs (?b * 65536) < length (in_block xs ?b)"
    "in_block xs ?b ! (i - rank_of xs (?b * 65536)) = ?e"
    using rank_of_mem [of "in_block xs ?b" ?e] unfolding r by auto
qed

lemma block_of_rank:
  assumes "sorted_wrt (<) xs" "i < length xs"
  shows "rank_of xs (b * 65536) \<le> i \<longleftrightarrow> b \<le> xs ! i div 65536"
proof -
  have "i < rank_of xs (b * 65536) \<longleftrightarrow> xs ! i < b * 65536" using nth_less_rank [OF assms] by simp
  also have "\<dots> \<longleftrightarrow> xs ! i div 65536 < b" by (simp add: div_less_iff_less_mult)
  finally show ?thesis by auto
qed

section \<open>The index\<close>

definition oi_repr :: "nat list \<Rightarrow> optional_index \<Rightarrow> bool" where
  "oi_repr xs oi \<longleftrightarrow>
     sorted_wrt (<) xs \<and> (\<forall>x\<in>set xs. x < oi_num_docs oi) \<and> oi_num_docs oi \<le> 65535 * 65536 \<and>
     oi_num_non_null_docs oi = length xs \<and>
     length (oi_block_metas oi) = (oi_num_docs oi + ELEMENTS_PER_BLOCK - 1) div ELEMENTS_PER_BLOCK \<and>
     (\<forall>b<length (oi_block_metas oi).
        bm_non_null_rows_before_block (oi_block_metas oi ! b) = rank_of xs (b * 65536) \<and>
        (\<exists>blk. oi_block oi (oi_block_metas oi ! b) = Some blk \<and> block_repr (in_block xs b) blk))"

lemma oi_reprD:
  assumes "oi_repr xs oi"
  shows "sorted_wrt (<) xs" "\<forall>x\<in>set xs. x < oi_num_docs oi" "oi_num_non_null_docs oi = length xs"
    and "length (oi_block_metas oi) < 65536"
    and "d < oi_num_docs oi \<Longrightarrow> d div 65536 < length (oi_block_metas oi)"
    and "length (oi_block_metas oi) \<le> d div 65536 \<Longrightarrow> d \<notin> set xs"
    and "rank_of xs (length (oi_block_metas oi) * 65536) = length xs"
proof -
  let ?n = "oi_num_docs oi" and ?l = "length (oi_block_metas oi)"
  have n: "?n \<le> 65535 * 65536" "?l = (?n + 65535) div 65536" and xs: "\<forall>x\<in>set xs. x < ?n"
    using assms by (auto simp: oi_repr_def ELEMENTS_PER_BLOCK_def)
  show "sorted_wrt (<) xs" "\<forall>x\<in>set xs. x < ?n" "oi_num_non_null_docs oi = length xs"
    using assms by (auto simp: oi_repr_def)
  show "?l < 65536" unfolding n(2) using n(1) by (intro less_mult_imp_div_less) simp
  have le: "?n \<le> ?l * 65536" unfolding n(2) using div_mult_mod_eq [of "?n + 65535" 65536] mod_less_divisor [of 65536 "?n + 65535"] by linarith
  show lt: "d div 65536 < ?l" if "d < ?n" for d
    using that le by (intro less_mult_imp_div_less) simp
  show "d \<notin> set xs" if "?l \<le> d div 65536" for d using that lt xs by fastforce
  show "rank_of xs (?l * 65536) = length xs" using xs le by (intro rank_of_all) fastforce
qed

lemma oi_meta:
  assumes "oi_repr xs oi" "b < length (oi_block_metas oi)"
  obtains m blk where "get_meta oi b = Some m" "bm_non_null_rows_before_block m = rank_of xs (b * 65536)"
    "oi_block oi m = Some blk" "block_repr (in_block xs b) blk"
  using assms by (auto simp: oi_repr_def get_meta_def)

lemma row_addr: "d < 2 ^ 32 \<Longrightarrow> row_addr_from_row_id d = (d div 65536, d mod 65536)"
proof -
  assume "d < 2 ^ 32"
  then have "d div 65536 < 65536" by (intro less_mult_imp_div_less) simp
  then show ?thesis by (simp add: row_addr_from_row_id_def ELEMENTS_PER_BLOCK_def)
qed

lemma oi_docs_bound: "oi_repr xs oi \<Longrightarrow> d < oi_num_docs oi \<Longrightarrow> d < 2 ^ 32"
  by (simp add: oi_repr_def)

lemma oi_contains_law:
  assumes "oi_repr xs oi" "d < oi_num_docs oi"
  shows "oi_contains oi d = Some (d \<in> set xs)"
proof -
  obtain m blk where m: "get_meta oi (d div 65536) = Some m" "oi_block oi m = Some blk" "block_repr (in_block xs (d div 65536)) blk"
    using oi_reprD(5) [OF assms] by (rule oi_meta [OF assms(1)])
  then show ?thesis using row_addr [OF oi_docs_bound [OF assms]] blk.contains_law [OF m(3), of "d mod 65536"] mem_in_block
    by (simp add: oi_contains_def)
qed

lemma oi_rank_law:
  assumes "oi_repr xs oi"
  shows "oi_rank oi d = Some (rank_of xs d)"
proof (cases "d < oi_num_docs oi")
  case False
  then have "rank_of xs d = length xs" using oi_reprD(2) [OF assms] by (intro rank_of_all) fastforce
  then show ?thesis using False oi_reprD(3) [OF assms] by (simp add: oi_rank_def)
next
  case True
  obtain m blk where m: "get_meta oi (d div 65536) = Some m" "bm_non_null_rows_before_block m = rank_of xs (d div 65536 * 65536)"
    "oi_block oi m = Some blk" "block_repr (in_block xs (d div 65536)) blk"
    using oi_reprD(5) [OF assms True] by (rule oi_meta [OF assms])
  then show ?thesis using True row_addr [OF oi_docs_bound [OF assms True]] blk.rank_law [OF m(4), of "d mod 65536"]
      rank_split [of "d mod 65536" xs "d div 65536"]
    by (simp add: oi_rank_def)
qed

lemma oi_rank_if_exists_law:
  assumes "oi_repr xs oi" "d < 2 ^ 32"
  shows "oi_rank_if_exists oi d = Some (if d \<in> set xs then Some (rank_of xs d) else None)"
proof (cases "d div 65536 < length (oi_block_metas oi)")
  case False
  then have "d \<notin> set xs" using oi_reprD(6) [OF assms(1)] by simp
  then show ?thesis using False row_addr [OF assms(2)] by (simp add: oi_rank_if_exists_def get_meta_def)
next
  case True
  obtain m blk where m: "get_meta oi (d div 65536) = Some m" "bm_non_null_rows_before_block m = rank_of xs (d div 65536 * 65536)"
    "oi_block oi m = Some blk" "block_repr (in_block xs (d div 65536)) blk"
    using True by (rule oi_meta [OF assms(1)])
  then show ?thesis using row_addr [OF assms(2)] blk.rank_if_exists_law [OF m(4), of "d mod 65536"]
      rank_split [of "d mod 65536" xs "d div 65536"] mem_in_block [of d xs]
    by (simp add: oi_rank_if_exists_def)
qed

section \<open>Select\<close>

lemma find_block_in_law:
  assumes "\<And>j. j < length ms \<Longrightarrow> bm_non_null_rows_before_block (ms ! j) > idx \<longleftrightarrow> b < pos + j" "pos \<le> b + 1"
  shows "find_block_in idx pos ms = (if b + 1 < pos + length ms then Some b else None)"
  using assms
proof (induction ms arbitrary: pos)
  case (Cons m ms)
  have m: "bm_non_null_rows_before_block m > idx \<longleftrightarrow> b < pos" using Cons.prems(1) [of 0] by simp
  show ?case
  proof (cases "b < pos")
    case True
    then show ?thesis using m Cons.prems(2) by simp
  next
    case False
    then have "find_block_in idx (pos + 1) ms = (if b + 1 < pos + 1 + length ms then Some b else None)"
      using Cons.prems(1) by (intro Cons.IH) (fastforce, simp)
    then show ?thesis using False m by simp
  qed
qed (use assms in simp)

lemma find_block_law:
  assumes "oi_repr xs oi" "i < length xs" "start \<le> xs ! i div 65536"
  shows "find_block oi i start = xs ! i div 65536"
proof -
  let ?l = "length (oi_block_metas oi)" and ?b = "xs ! i div 65536" and ?ms = "drop start (oi_block_metas oi)"
  note d = oi_reprD [OF assms(1)]
  have "xs ! i < oi_num_docs oi" using d(2) assms(2) by simp
  then have b: "?b < ?l" by (rule d(5))
  have "find_block_in i start ?ms = (if ?b + 1 < start + length ?ms then Some ?b else None)"
  proof (rule find_block_in_law)
    fix j assume "j < length ?ms"
    then have "bm_non_null_rows_before_block (?ms ! j) = rank_of xs ((start + j) * 65536)"
      using assms(1) by (simp add: oi_repr_def)
    then show "bm_non_null_rows_before_block (?ms ! j) > i \<longleftrightarrow> ?b < start + j"
      using block_of_rank [OF d(1) assms(2), of "start + j"] by auto
  qed (use assms(3) in simp)
  then show ?thesis using d(4) b assms(3) by (auto simp: find_block_def Let_def)
qed

lemma oi_select_law:
  assumes "oi_repr xs oi" "i < length xs"
  shows "oi_select oi i = Some (xs ! i)"
proof -
  let ?b = "xs ! i div 65536"
  note d = oi_reprD [OF assms(1)]
  have "?b < length (oi_block_metas oi)" using d(2) assms(2) by (intro d(5)) simp
  then obtain m blk where m: "get_meta oi ?b = Some m" "bm_non_null_rows_before_block m = rank_of xs (?b * 65536)"
    "oi_block oi m = Some blk" "block_repr (in_block xs ?b) blk"
    by (rule oi_meta [OF assms(1)])
  note nb = nth_in_block [OF d(1) assms(2)]
  have "length (in_block xs ?b) \<le> 65536" by (rule strict_u16s_length [OF strict_in_block [OF d(1)]])
  then have "(i - rank_of xs (?b * 65536)) mod 65536 = i - rank_of xs (?b * 65536)" using nb(2) by simp
  then show ?thesis
    using find_block_law [OF assms, of 0] m blk.select_law [OF m(4) nb(2)] nb(3)
    by (simp add: oi_select_def ELEMENTS_PER_BLOCK_def Let_def)
qed

section \<open>The select cursor\<close>

text \<open>
  After a hit at rank \<open>lo\<close> the cursor serves every rank from \<open>lo\<close> on: its block is at or before the block
  of the rank, and as long as it covers ranks beyond \<open>lo\<close> it is loaded from that block, with the mini
  block of a dense one not past the element.
\<close>

definition cursor_ok :: "nat list \<Rightarrow> optional_index \<Rightarrow> nat \<Rightarrow> oi_cursor \<Rightarrow> bool" where
  "cursor_ok xs oi lo c \<longleftrightarrow>
     (let b = oc_block_id c
      in (\<forall>r. lo \<le> r \<and> r < length xs \<longrightarrow> b \<le> xs ! r div 65536) \<and>
         (lo < oc_end_rank c \<longrightarrow>
            b < length (oi_block_metas oi) \<and> oc_rows_before c = rank_of xs (b * 65536) \<and>
            oc_doc_idx_start c = b * 65536 \<and>
            (b + 1 < length (oi_block_metas oi) \<longrightarrow> oc_end_rank c = rank_of xs ((b + 1) * 65536)) \<and>
            (case oc_block_cursor c of
               CursorDense d mb \<Rightarrow> dense_repr (in_block xs b) d \<and>
                 (\<forall>r. lo \<le> r \<and> r < length xs \<and> xs ! r div 65536 = b \<longrightarrow> mb \<le> xs ! r mod 65536 div 64)
             | CursorSparse d \<Rightarrow> sparse_repr (in_block xs b) d)))"

lemma cursor_ok_start: "cursor_ok xs oi lo select_cursor"
  by (simp add: cursor_ok_def select_cursor_def Let_def)

lemma search_and_load_law:
  assumes "oi_repr xs oi" "cursor_ok xs oi lo c" "lo \<le> i" "i < length xs"
  shows "\<exists>c'. search_and_load_block oi i c = Some c' \<and> cursor_ok xs oi i c' \<and>
    oc_block_id c' = xs ! i div 65536 \<and> i < oc_end_rank c'"
proof -
  note d = oi_reprD [OF assms(1)]
  have start: "oc_block_id c \<le> xs ! i div 65536" using assms(2-4) by (auto simp: cursor_ok_def Let_def)
  have bl: "xs ! i div 65536 < length (oi_block_metas oi)" using d(2) assms(4) by (intro d(5)) simp
  show ?thesis
  proof (cases "i < oc_end_rank c")
    case True
    let ?b = "oc_block_id c"
    have "?b = xs ! i div 65536"
    proof (cases "?b + 1 < length (oi_block_metas oi)")
      case next_block: True
      then have "oc_end_rank c = rank_of xs ((?b + 1) * 65536)"
        using assms(2,3) True by (auto simp: cursor_ok_def Let_def)
      then have "\<not> ?b + 1 \<le> xs ! i div 65536" using block_of_rank [OF d(1) assms(4), of "?b + 1"] True by simp
      then show ?thesis using start by simp
    qed (use start bl in simp)
    moreover have "cursor_ok xs oi i c"
      using assms(2,3) True by (auto simp: cursor_ok_def Let_def split: block_select_cursor.splits)
    ultimately show ?thesis using True by (simp add: search_and_load_block_def)
  next
    case False
    let ?b = "xs ! i div 65536"
    obtain m blk where m: "get_meta oi ?b = Some m" "bm_non_null_rows_before_block m = rank_of xs (?b * 65536)"
      "oi_block oi m = Some blk" "block_repr (in_block xs ?b) blk"
      using bl by (rule oi_meta [OF assms(1)])
    let ?c = "\<lparr>oc_block_cursor = (case blk of BlockDense d \<Rightarrow> CursorDense d 0 | BlockSparse d \<Rightarrow> CursorSparse d),
      oc_block_id = ?b,
      oc_end_rank = (case get_meta oi (?b + 1) of Some m' \<Rightarrow> bm_non_null_rows_before_block m' | None \<Rightarrow> 2 ^ 32 - 1),
      oc_doc_idx_start = ?b * 65536, oc_rows_before = rank_of xs (?b * 65536)\<rparr>"
    have load: "search_and_load_block oi i c = Some ?c"
      using False m(1-3) find_block_law [OF assms(1,4) start]
      by (simp add: search_and_load_block_def Let_def ELEMENTS_PER_BLOCK_def)
    have next_meta: "oc_end_rank ?c = rank_of xs ((?b + 1) * 65536)" if "?b + 1 < length (oi_block_metas oi)"
      using that assms(1) by (simp add: get_meta_def oi_repr_def)
    have mono: "?b \<le> xs ! r div 65536" if "i \<le> r" "r < length xs" for r
      using that block_of_rank [OF d(1) that(2), of ?b] nth_in_block(1) [OF d(1) assms(4)] by simp
    have "length xs < 2 ^ 32 - 1"
    proof -
      have "distinct xs" "set xs \<subseteq> {..<oi_num_docs oi}" using d(1,2) by (auto simp: strict_sorted_iff)
      then have "length xs \<le> oi_num_docs oi" using card_mono [of "{..<oi_num_docs oi}" "set xs"] by (simp add: distinct_card)
      then show ?thesis using assms(1) by (simp add: oi_repr_def)
    qed
    then have "i < oc_end_rank ?c"
      using next_meta block_of_rank [OF d(1) assms(4), of "?b + 1"] assms(4)
      by (cases "?b + 1 < length (oi_block_metas oi)") (auto simp: get_meta_def)
    moreover have "cursor_ok xs oi i ?c"
      using mono bl next_meta m(4) by (auto simp: cursor_ok_def Let_def block_repr_def split: set_block.splits)
    ultimately show ?thesis using load by auto
  qed
qed

lemma oi_cursor_select_law:
  assumes "oi_repr xs oi" "cursor_ok xs oi lo c" "lo \<le> i" "i < length xs"
  shows "\<exists>c'. oi_cursor_select oi c i = Some (xs ! i, c') \<and> cursor_ok xs oi i c'"
proof -
  note d = oi_reprD [OF assms(1)]
  let ?b = "xs ! i div 65536" and ?e = "xs ! i mod 65536"
  obtain c' where c': "search_and_load_block oi i c = Some c'" "cursor_ok xs oi i c'" "oc_block_id c' = ?b" "i < oc_end_rank c'"
    using search_and_load_law [OF assms] by blast
  then have v: "oc_rows_before c' = rank_of xs (?b * 65536)" "oc_doc_idx_start c' = ?b * 65536"
    by (auto simp: cursor_ok_def Let_def)
  note nb = nth_in_block [OF d(1) assms(4)]
  have "length (in_block xs ?b) \<le> 65536" by (rule strict_u16s_length [OF strict_in_block [OF d(1)]])
  then have idx: "(i - rank_of xs (?b * 65536)) mod 65536 = i - rank_of xs (?b * 65536)" using nb(2) by simp
  show ?thesis
  proof (cases "oc_block_cursor c'")
    case (CursorSparse data)
    then have "sparse_repr (in_block xs ?b) data" using c' by (auto simp: cursor_ok_def Let_def)
    from sparse.select_law [OF this nb(2)] have "oi_cursor_select oi c i = Some (xs ! i, c')"
      using c'(1) v idx nb(3) CursorSparse by (simp add: oi_cursor_select_def block_cursor_select_def)
    then show ?thesis using c'(2) by blast
  next
    case (CursorDense data mb)
    then have r: "dense_repr (in_block xs ?b) data" and mb: "mb \<le> ?e div 64"
      using c' assms(4) by (auto simp: cursor_ok_def Let_def)
    let ?c = "c'\<lparr>oc_block_cursor := CursorDense data (?e div 64)\<rparr>"
    have "dense_cursor_select data mb (i - rank_of xs (?b * 65536)) = Some (?e, ?e div 64)"
      using dense_cursor_select_law [OF r nb(2), of mb] mb unfolding nb(3) by simp
    then have "oi_cursor_select oi c i = Some (xs ! i, ?c)"
      using c'(1) v idx CursorDense by (simp add: oi_cursor_select_def block_cursor_select_def)
    moreover have "?e div 64 \<le> xs ! r mod 65536 div 64" if "i \<le> r" "r < length xs" "xs ! r div 65536 = ?b" for r
    proof -
      have "xs ! i \<le> xs ! r" using that d(1) by (cases "i = r") (auto simp: sorted_wrt_iff_nth_less less_imp_le)
      then have "?e \<le> xs ! r mod 65536" using that(3) by (metis add_le_cancel_left div_mult_mod_eq)
      then show ?thesis by (rule div_le_mono)
    qed
    then have "cursor_ok xs oi i ?c" using c'(2,3,4) r by (auto simp: cursor_ok_def Let_def)
    ultimately show ?thesis by blast
  qed
qed

lemma select_all_law:
  assumes "oi_repr xs oi" "cursor_ok xs oi lo c" "sorted ranks" "\<forall>r\<in>set ranks. lo \<le> r \<and> r < length xs"
  shows "select_all oi c ranks = Some (map (\<lambda>r. xs ! r) ranks)"
  using assms(2-4)
proof (induction ranks arbitrary: lo c)
  case (Cons r ranks)
  then obtain c' where c': "oi_cursor_select oi c r = Some (xs ! r, c')" "cursor_ok xs oi r c'"
    using oi_cursor_select_law [OF assms(1) Cons.prems(1), of r] by auto
  have "select_all oi c' ranks = Some (map (\<lambda>r. xs ! r) ranks)"
    using Cons.prems by (intro Cons.IH [OF c'(2)]) auto
  then show ?case using c'(1) by simp
qed simp

lemma select_batch_law:
  assumes "oi_repr xs oi" "sorted ranks" "\<forall>r\<in>set ranks. r < length xs"
  shows "select_batch oi ranks = Some (map (\<lambda>r. xs ! r) ranks)"
  unfolding select_batch_def using select_all_law [OF assms(1) cursor_ok_start [of xs oi 0] assms(2)] assms(3) by simp

lemma iter_non_null_docs_law:
  assumes "oi_repr xs oi"
  shows "iter_non_null_docs oi = Some xs"
  using select_batch_law [OF assms, of "[0..<length xs]"] oi_reprD(3) [OF assms]
  by (simp add: iter_non_null_docs_def select_batch_def map_nth)

section \<open>The next document with a value\<close>

lemma dense_scan_law:
  assumes "dense_repr ys d" "\<forall>i\<in>set is. i < 65536"
  shows "dense_scan d is = Some (List.find (\<lambda>i. i \<in> set ys) is)"
  using assms(2)
proof (induction "is")
  case (Cons i "is")
  then show ?case using dense.contains_law [OF assms(1), of i] by simp
qed simp

lemma find_upt:
  assumes "sorted_wrt (<) ys" "a \<le> b" "\<forall>y\<in>set ys. y < b"
  shows "List.find (\<lambda>i. i \<in> set ys) [a..<b] = (if rank_of ys a < length ys then Some (ys ! rank_of ys a) else None)"
proof (cases "rank_of ys a < length ys")
  case True
  let ?e = "ys ! rank_of ys a"
  have e: "a \<le> ?e" "?e < b" using nth_less_rank [OF assms(1) True, of a] assms(3) True by auto
  have none: "i \<notin> set ys" if "a \<le> i" "i < ?e" for i
  proof
    assume "i \<in> set ys"
    then have i: "rank_of ys i < length ys" "ys ! rank_of ys i = i" using rank_of_mem [OF assms(1)] by blast+
    have "rank_of ys a \<le> rank_of ys i" using that(1) by (rule rank_of_mono)
    then have "?e \<le> ys ! rank_of ys i" using assms(1) i(1)
      by (cases "rank_of ys a = rank_of ys i") (auto simp: sorted_wrt_iff_nth_less less_imp_le)
    then show False using i(2) that(2) by simp
  qed
  have "List.find (\<lambda>i. i \<in> set ys) [a..<b] = Some ?e"
    unfolding find_Some_iff
    using e none True by (intro exI [of _ "?e - a"]) auto
  then show ?thesis using True by simp
next
  case False
  have "i \<notin> set ys" if "a \<le> i" for i
  proof
    assume "i \<in> set ys"
    then have "rank_of ys i < length ys" using rank_of_mem [OF assms(1)] by blast
    then show False using False rank_of_mono [OF that, of ys] by simp
  qed
  then show ?thesis using False by (auto simp: find_None_iff)
qed

text \<open>One block: its part from the given position on, or nothing.\<close>

lemma next_in_block:
  assumes "sorted_wrt (<) xs" "e \<le> 65536" "rank_of xs (b * 65536 + e) = \<rho>"
  shows "rank_of (in_block xs b) e < length (in_block xs b) \<longleftrightarrow> \<rho> < rank_of xs (Suc b * 65536)"
    and "\<rho> < rank_of xs (Suc b * 65536) \<Longrightarrow> b * 65536 + in_block xs b ! rank_of (in_block xs b) e = xs ! \<rho>"
    and "\<not> \<rho> < rank_of xs (Suc b * 65536) \<Longrightarrow> rank_of xs (Suc b * 65536) = \<rho>"
proof -
  have s: "rank_of xs (b * 65536) + rank_of (in_block xs b) e = \<rho>" using rank_split [OF assms(2), of xs b] assms(3) by simp
  have l: "rank_of xs (b * 65536) + length (in_block xs b) = rank_of xs (Suc b * 65536)" by (rule length_in_block)
  show lt: "rank_of (in_block xs b) e < length (in_block xs b) \<longleftrightarrow> \<rho> < rank_of xs (Suc b * 65536)" using s l by linarith
  show "rank_of xs (Suc b * 65536) = \<rho>" if "\<not> \<rho> < rank_of xs (Suc b * 65536)"
    using that s l rank_of_le [of "in_block xs b" e] by linarith
  assume less: "\<rho> < rank_of xs (Suc b * 65536)"
  then have \<rho>: "\<rho> < length xs" using rank_of_le [of xs "Suc b * 65536"] by simp
  have "xs ! \<rho> < Suc b * 65536" using nth_less_rank [OF assms(1) \<rho>] less by simp
  then have "xs ! \<rho> div 65536 < Suc b" by (rule less_mult_imp_div_less)
  moreover have "b \<le> xs ! \<rho> div 65536" using block_of_rank [OF assms(1) \<rho>, of b] s by simp
  ultimately have b: "xs ! \<rho> div 65536 = b" by simp
  have "in_block xs b ! (\<rho> - rank_of xs (b * 65536)) = xs ! \<rho> mod 65536" using nth_in_block(3) [OF assms(1) \<rho>] b by simp
  moreover have "\<rho> - rank_of xs (b * 65536) = rank_of (in_block xs b) e" using s by simp
  ultimately show "b * 65536 + in_block xs b ! rank_of (in_block xs b) e = xs ! \<rho>" using b by (metis div_mult_mod_eq)
qed

lemma next_non_null_blocks_law:
  assumes "oi_repr xs oi" "t < oi_num_docs oi" "t div 65536 \<le> b" "b \<le> length (oi_block_metas oi)"
    and "rank_of xs (max t (b * 65536)) = rank_of xs t"
  shows "next_non_null_blocks oi t (t div 65536) [b..<length (oi_block_metas oi)] =
    Some (if rank_of xs t < length xs then Some (xs ! rank_of xs t) else None)"
  using assms(3-5)
proof (induction "length (oi_block_metas oi) - b" arbitrary: b)
  case 0
  then have "b = length (oi_block_metas oi)" by simp
  moreover have "max t (length (oi_block_metas oi) * 65536) = length (oi_block_metas oi) * 65536"
    using oi_reprD(5) [OF assms(1,2)] by (simp add: div_less_iff_less_mult less_imp_le)
  ultimately have "rank_of xs t = length xs" using 0 oi_reprD(7) [OF assms(1)] by simp
  then show ?case using \<open>b = _\<close> by simp
next
  case (Suc k)
  note d = oi_reprD [OF assms(1)]
  let ?l = "length (oi_block_metas oi)" and ?\<rho> = "rank_of xs t"
  have b: "b < ?l" using Suc.hyps(2) by simp
  define e where "e = (if b = t div 65536 then (t - b * 65536) mod 65536 else 0)"
  have te: "max t (b * 65536) = b * 65536 + e" and e: "e < 65536"
  proof -
    show "max t (b * 65536) = b * 65536 + e"
    proof (cases "b = t div 65536")
      case True
      then have "t - b * 65536 = t mod 65536" by (simp add: minus_div_mult_eq_mod)
      then show ?thesis using True e_def div_mult_mod_eq [of t 65536] by simp
    next
      case False
      then have "t div 65536 < b" using Suc.prems(1) by simp
      then show ?thesis using False e_def by (simp add: div_less_iff_less_mult)
    qed
    have "(t - b * 65536) mod 65536 < 65536" by (rule mod_less_divisor) simp
    then show "e < 65536"
      unfolding e_def by (cases "b = t div 65536") (simp_all only: simp_thms if_True if_False zero_less_numeral)
  qed
  have \<rho>: "rank_of xs (b * 65536 + e) = ?\<rho>" using Suc.prems(3) te by simp
  note nb = next_in_block [OF d(1) less_imp_le [OF e] \<rho>]
  obtain m blk where m: "get_meta oi b = Some m" "bm_non_null_rows_before_block m = rank_of xs (b * 65536)"
    "oi_block oi m = Some blk" "block_repr (in_block xs b) blk"
    using b by (rule oi_meta [OF assms(1)])
  have rest: "next_non_null_blocks oi t (t div 65536) [Suc b..<?l] = Some (if ?\<rho> < length xs then Some (xs ! ?\<rho>) else None)"
    if "\<not> ?\<rho> < rank_of xs (Suc b * 65536)"
  proof (rule Suc.hyps(1))
    have "t \<le> Suc b * 65536" using te e by simp
    then show "rank_of xs (max t (Suc b * 65536)) = ?\<rho>" using nb(3) [OF that] by (simp add: max_absorb2)
  qed (use Suc.hyps(2) Suc.prems(1) b in auto)
  have hit: "?\<rho> < length xs" if "?\<rho> < rank_of xs (Suc b * 65536)" using that rank_of_le [of xs "Suc b * 65536"] by simp
  have upt: "[b..<?l] = b # [Suc b..<?l]" using b by (rule upt_conv_Cons)
  note unf = next_non_null_blocks.simps(2) [of oi t "t div 65536" b "[Suc b..<?l]", folded upt]
  show ?case
  proof (cases blk)
    case (BlockSparse data)
    then have r: "sparse_repr (in_block xs b) data" using m(4) by (simp add: block_repr_def)
    have "(case get_meta oi (b + 1) of Some m' \<Rightarrow> bm_non_null_rows_before_block m' | None \<Rightarrow> oi_num_non_null_docs oi) =
        rank_of xs (Suc b * 65536)"
    proof (cases "Suc b < ?l")
      case True
      then show ?thesis using assms(1) by (simp add: get_meta_def oi_repr_def)
    next
      case False
      then have "Suc b = ?l" using b by simp
      then show ?thesis using d(3,7) by (simp add: get_meta_def)
    qed
    moreover have "rank_of xs (b * 65536) + rank_of (in_block xs b) e = ?\<rho>"
      using rank_split [OF less_imp_le [OF e], of xs b] \<rho> by simp
    ultimately have "next_non_null_blocks oi t (t div 65536) [b..<?l] =
        (if ?\<rho> < rank_of xs (Suc b * 65536)
         then sparse_select data (rank_of (in_block xs b) e) \<bind> (\<lambda>e. Some (Some (b * 65536 + e)))
         else next_non_null_blocks oi t (t div 65536) [Suc b..<?l])"
      unfolding unf using m(1-3) BlockSparse sparse.rank_law [OF r e]
      by (simp add: Let_def ELEMENTS_PER_BLOCK_def e_def [symmetric])
    then show ?thesis using rest hit nb sparse.select_law [OF r] by simp
  next
    case (BlockDense data)
    then have r: "dense_repr (in_block xs b) data" using m(4) by (simp add: block_repr_def)
    let ?h = "min (oi_num_docs oi - b * 65536) 65536"
    have lt: "y < ?h" if "y \<in> set (in_block xs b)" for y
      using that in_block_less [of xs b] mem_in_block_add [of y xs b] d(2) by fastforce
    have s: "sorted_wrt (<) (in_block xs b)" using strict_in_block [OF d(1)] by (simp add: strict_u16s_def)
    have find: "List.find (\<lambda>i. i \<in> set (in_block xs b)) [e..<?h] =
        (if rank_of (in_block xs b) e < length (in_block xs b) then Some (in_block xs b ! rank_of (in_block xs b) e) else None)"
    proof (cases "e \<le> ?h")
      case True
      then show ?thesis using s lt by (intro find_upt) auto
    next
      case False
      then have "\<forall>y\<in>set (in_block xs b). y < e" using lt by fastforce
      moreover have nil: "[e..<?h] = []" using False by (intro upt_conv_Nil) linarith
      ultimately show ?thesis using rank_of_all [of "in_block xs b" e] unfolding nil by simp
    qed
    have "next_non_null_blocks oi t (t div 65536) [b..<?l] =
        (case List.find (\<lambda>i. i \<in> set (in_block xs b)) [e..<?h] of
           Some i \<Rightarrow> Some (Some (b * 65536 + i)) | None \<Rightarrow> next_non_null_blocks oi t (t div 65536) [Suc b..<?l])"
      unfolding unf using m(1-3) BlockDense dense_scan_law [OF r, of "[e..<?h]"]
      by (simp add: Let_def ELEMENTS_PER_BLOCK_def e_def [symmetric])
    then show ?thesis using rest hit nb unfolding find by auto
  qed
qed

lemma next_non_null_doc_law:
  assumes "oi_repr xs oi"
  shows "next_non_null_doc oi t = Some (if rank_of xs t < length xs then Some (xs ! rank_of xs t) else None)"
proof (cases "t < oi_num_docs oi")
  case False
  then have "rank_of xs t = length xs" using oi_reprD(2) [OF assms] by (intro rank_of_all) fastforce
  then show ?thesis using False by (simp add: next_non_null_doc_def)
next
  case True
  have "max t (t div 65536 * 65536) = t" by (simp add: max_absorb1)
  then show ?thesis
    using True next_non_null_blocks_law [OF assms True order_refl] oi_reprD(4) [OF assms] oi_reprD(5) [OF assms True] row_addr [OF oi_docs_bound [OF assms True]]
    by (simp add: next_non_null_doc_def)
qed

section \<open>The batch lookup\<close>

lemma dense_batch_law:
  assumes "dense_repr ys d" "\<forall>e\<in>set els. e < 65536"
  shows "dense_batch d els = Some (batch_spec ys els)"
  using assms(2)
proof (induction els)
  case (Cons e els)
  then show ?case using dense.rank_if_exists_law [OF assms(1), of e] by (simp add: batch_spec_Cons)
qed (simp add: batch_spec_def)

lemma block_rank_batch_law:
  assumes "block_repr ys blk" "\<forall>e\<in>set els. e < 65536" "sorted els"
  shows "block_rank_batch blk els = Some (batch_spec ys els)"
proof (cases blk)
  case (BlockDense d)
  then show ?thesis using assms dense_batch_law by (simp add: block_repr_def block_rank_batch_def)
next
  case (BlockSparse d)
  then show ?thesis using assms sparse_rank_batch_law [of ys d els 0] by (simp add: block_repr_def block_rank_batch_def)
qed

lemma batch_spec_append: "batch_spec xs (ds @ es) = batch_spec xs ds @ batch_spec xs es"
  by (simp add: batch_spec_def)

lemma batch_spec_in_block:
  assumes "\<forall>d\<in>set ds. d div 65536 = b"
  shows "map (\<lambda>(e, r). (b * 65536 + e, rank_of xs (b * 65536) + r)) (batch_spec (in_block xs b) (map (\<lambda>d. d mod 65536) ds)) =
    batch_spec xs ds"
  using assms
proof (induction ds)
  case (Cons d ds)
  then have d: "d div 65536 = b" "b * 65536 + d mod 65536 = d" by (auto simp: div_mult_mod_eq)
  then have "rank_of xs (b * 65536) + rank_of (in_block xs b) (d mod 65536) = rank_of xs d"
    using rank_split [of "d mod 65536" xs b] by simp
  then show ?case using Cons mem_in_block [of d xs] d by (auto simp: batch_spec_Cons)
qed (simp add: batch_spec_def)

lemma oi_rank_each_law:
  assumes "oi_repr xs oi" "\<forall>d\<in>set ds. d < 2 ^ 32"
  shows "oi_rank_each oi ds = Some (batch_spec xs ds)"
  using assms(2)
proof (induction ds)
  case (Cons d ds)
  then show ?case using oi_rank_if_exists_law [OF assms(1), of d] by (simp add: batch_spec_Cons)
qed (simp add: batch_spec_def)

lemma oi_rank_by_block_law:
  assumes "oi_repr xs oi" "\<forall>d\<in>set ds. d < 2 ^ 32" "sorted ds"
  shows "oi_rank_by_block oi ds = Some (batch_spec xs ds)"
  using assms(2,3)
proof (induction "length ds" arbitrary: ds rule: less_induct)
  case less
  show ?case
  proof (cases ds)
    case Nil
    then show ?thesis by (simp add: oi_rank_by_block.simps batch_spec_def)
  next
    case (Cons d es)
    let ?b = "d div 65536" and ?P = "\<lambda>e. fst (row_addr_from_row_id e) = d div 65536"
    let ?same = "d # takeWhile ?P es" and ?rest = "dropWhile ?P es"
    have bound: "\<forall>e\<in>set es. e < 2 ^ 32" "d < 2 ^ 32" using less.prems(1) Cons by auto
    have same: "\<forall>e\<in>set ?same. e div 65536 = ?b \<and> e < 2 ^ 32"
      using bound row_addr by (auto dest: set_takeWhileD)
    have rest: "oi_rank_by_block oi ?rest = Some (batch_spec xs ?rest)"
      using less.prems Cons set_dropWhileD [of _ ?P es] length_dropWhile_le [of ?P es]
      by (intro less.hyps) (auto simp: sorted_dropWhile le_imp_less_Suc)
    have "batch_spec xs ds = batch_spec xs (?same @ ?rest)" using Cons by simp
    also have "\<dots> = batch_spec xs ?same @ batch_spec xs ?rest" by (rule batch_spec_append)
    finally have split: "batch_spec xs ds = batch_spec xs ?same @ batch_spec xs ?rest" .
    have unf: "oi_rank_by_block oi ds =
        (case get_meta oi ?b of
           None \<Rightarrow> Some []
         | Some m \<Rightarrow> oi_block oi m \<bind> (\<lambda>b.
             block_rank_batch b (map (\<lambda>e. snd (row_addr_from_row_id e)) ?same) \<bind> (\<lambda>hits.
               Some (map (\<lambda>(e, r). (?b * 65536 + e, bm_non_null_rows_before_block m + r)) hits))))
        \<bind> (\<lambda>out. oi_rank_by_block oi ?rest \<bind> (\<lambda>out'. Some (out @ out')))"
      using Cons row_addr [OF bound(2)] by (subst oi_rank_by_block.simps) (simp add: Let_def ELEMENTS_PER_BLOCK_def cong: option.case_cong)
    show ?thesis
    proof (cases "?b < length (oi_block_metas oi)")
      case False
      then have "\<forall>e\<in>set ?same. e \<notin> set xs" using same oi_reprD(6) [OF assms(1)] by (metis not_less)
      then have "batch_spec xs ?same = []" by (simp only: batch_spec_def filter_False list.map)
      moreover have "get_meta oi ?b = None" using False by (simp add: get_meta_def)
      ultimately show ?thesis unfolding unf split rest by simp
    next
      case True
      obtain m blk where m: "get_meta oi ?b = Some m" "bm_non_null_rows_before_block m = rank_of xs (?b * 65536)"
        "oi_block oi m = Some blk" "block_repr (in_block xs ?b) blk"
        using True by (rule oi_meta [OF assms(1)])
      have els: "map (\<lambda>e. snd (row_addr_from_row_id e)) ?same = map (\<lambda>e. e mod 65536) ?same"
      proof (rule map_cong [OF refl])
        fix e assume "e \<in> set ?same"
        then have "e < 2 ^ 32" using same by blast
        then show "snd (row_addr_from_row_id e) = e mod 65536" by (simp add: row_addr)
      qed
      have "sorted ?same" using less.prems(2) Cons sorted_takeWhile [of es ?P] set_takeWhileD [of _ ?P es] by simp
      then have "sorted (map (\<lambda>e. e mod 65536) ?same)"
        unfolding sorted_map
      proof (rule sorted_wrt_mono_rel [rotated])
        fix x y assume "x \<in> set ?same" "y \<in> set ?same" "x \<le> y"
        moreover from this have "x div 65536 = ?b" "y div 65536 = ?b" using same by blast+
        ultimately show "x mod 65536 \<le> y mod 65536" by (metis add_le_cancel_left div_mult_mod_eq)
      qed
      then have "block_rank_batch blk (map (\<lambda>e. e mod 65536) ?same) =
          Some (batch_spec (in_block xs ?b) (map (\<lambda>e. e mod 65536) ?same))"
        by (intro block_rank_batch_law [OF m(4)]) auto
      moreover have "map (\<lambda>(e, r). (?b * 65536 + e, rank_of xs (?b * 65536) + r))
          (batch_spec (in_block xs ?b) (map (\<lambda>e. e mod 65536) ?same)) = batch_spec xs ?same"
        using same by (intro batch_spec_in_block) blast
      ultimately show ?thesis unfolding unf els split m(1) option.case m(3) rest using m(2) by simp
    qed
  qed
qed

lemma rank_if_exists_batch_law:
  assumes "oi_repr xs oi" "\<forall>d\<in>set ds. d < 2 ^ 32"
  shows "rank_if_exists_batch oi ds = Some (batch_spec xs ds)"
  using oi_rank_each_law [OF assms] oi_rank_by_block_law [OF assms] by (simp add: rank_if_exists_batch_def)

end
