(* ===== verification/OptionalIndexWrite.thy ===== *)
theory OptionalIndexWrite
  imports OptionalIndexRead
begin

text \<open>
  The round trip of \<open>OptionalIndex\<close>: the bytes \<open>serialize_optional_index\<close> writes for a strictly
  increasing list of row ids open to an index that represents the list, so that every reading operation
  answers from it. The invariant of the writer describes the blocks closed so far, the one of the
  metadata reader the table of blocks rebuilt so far, with the blocks nobody wrote filled in.
\<close>

section \<open>Blocks of the list\<close>

definition block_bytes :: "nat list \<Rightarrow> nat \<Rightarrow> u8 list" where
  "block_bytes xs b = serialize_optional_index_block (in_block xs b)"

definition data_before :: "nat list \<Rightarrow> nat \<Rightarrow> u8 list" where
  "data_before xs n = concat (map (block_bytes xs) [0..<n])"

definition metas_before :: "nat list \<Rightarrow> nat \<Rightarrow> serialized_block_meta list" where
  "metas_before xs n =
     map (\<lambda>b. \<lparr>sm_block_id = b, sm_num_non_null_rows = length (in_block xs b)\<rparr>) (filter (\<lambda>b. in_block xs b \<noteq> []) [0..<n])"

definition meta_of :: "nat list \<Rightarrow> nat \<Rightarrow> block_meta" where
  "meta_of xs b =
     \<lparr>bm_non_null_rows_before_block = rank_of xs (b * 65536), bm_start_byte_offset = length (data_before xs b),
      bm_block_variant = (if is_sparse (length (in_block xs b)) then VariantSparse (length (in_block xs b)) else VariantDense)\<rparr>"

lemma threshold: "DENSE_BLOCK_THRESHOLD = 5120"
  by (simp add: DENSE_BLOCK_THRESHOLD_def dense_consts)

lemma block_bytes_empty: "in_block xs b = [] \<Longrightarrow> block_bytes xs b = []"
  by (simp add: block_bytes_def serialize_optional_index_block_def is_sparse_def threshold sparse_serialize_def)

lemma data_before_Suc: "data_before xs (Suc n) = data_before xs n @ block_bytes xs n"
  by (simp add: data_before_def)

lemma metas_before_Suc:
  "metas_before xs (Suc n) = metas_before xs n @
     (if in_block xs n = [] then [] else [\<lparr>sm_block_id = n, sm_num_non_null_rows = length (in_block xs n)\<rparr>])"
  by (simp add: metas_before_def)

lemma before_extend:
  assumes "n \<le> m" "\<And>b. n \<le> b \<Longrightarrow> in_block xs b = []"
  shows "data_before xs m = data_before xs n" "metas_before xs m = metas_before xs n"
  using assms(1) by (induction rule: dec_induct) (simp_all add: data_before_Suc metas_before_Suc block_bytes_empty assms(2))

lemma in_block_snoc: "in_block (xs @ [x]) b = in_block xs b @ (if x div 65536 = b then [x mod 65536] else [])"
  by (simp add: in_block_def)

lemma before_snoc:
  assumes "n \<le> x div 65536"
  shows "data_before (xs @ [x]) n = data_before xs n" "metas_before (xs @ [x]) n = metas_before xs n"
  using assms
  by (induction n) (simp_all add: data_before_Suc metas_before_Suc block_bytes_def in_block_snoc, simp_all add: data_before_def metas_before_def)

lemma in_block_beyond:
  assumes "\<forall>x\<in>set xs. x div 65536 < n" "n \<le> b"
  shows "in_block xs b = []"
  using assms by (fastforce simp: in_block_def filter_empty_conv)

lemma map_opt_append: "map_opt f (xs @ ys) = map_opt f xs \<bind> (\<lambda>as. map_opt f ys \<bind> (\<lambda>bs. Some (as @ bs)))"
proof (induction xs)
  case Nil
  show ?case by (cases "map_opt f ys") simp_all
next
  case (Cons x xs)
  then show ?case by (cases "f x"; cases "map_opt f xs"; cases "map_opt f ys") simp_all
qed

lemma find_rank:
  assumes "sorted_wrt (<) xs"
  shows "find (\<lambda>x. t \<le> x) xs = (if rank_of xs t < length xs then Some (xs ! rank_of xs t) else None)"
  using assms
proof (induction xs)
  case (Cons x xs)
  show ?case
  proof (cases "t \<le> x")
    case True
    then have "filter (\<lambda>y. y < t) xs = []" using Cons.prems by (auto simp: filter_empty_conv)
    then show ?thesis using True by (simp add: rank_of_def)
  next
    case False
    then show ?thesis using Cons by (simp add: rank_of_def)
  qed
qed (simp add: rank_of_def)

lemma before_nil: "data_before [] n = []" "metas_before [] n = []"
  by (induction n) (simp_all add: data_before_Suc metas_before_Suc block_bytes_empty in_block_def,
    simp_all add: data_before_def metas_before_def)

section \<open>The writer\<close>

definition writer_ok :: "nat list \<Rightarrow> oi_writer \<Rightarrow> bool" where
  "writer_ok xs w \<longleftrightarrow>
     (let c = ow_current_block_id w
      in (\<forall>x\<in>set xs. x div 65536 \<le> c) \<and> in_block xs c \<noteq> [] \<and> ow_current_block w = in_block xs c \<and>
         ow_out w = data_before xs c \<and> ow_metadata w = metas_before xs c)"

lemma writer_ok_start:
  "writer_ok [x] \<lparr>ow_current_block_id = x div 65536, ow_current_block = [x mod 65536], ow_metadata = [], ow_out = []\<rparr>"
proof -
  have b: "data_before [x] (x div 65536) = []" "metas_before [x] (x div 65536) = []"
    using before_snoc [of "x div 65536" x "[]"] by (simp_all add: before_nil)
  have i: "in_block [x] (x div 65536) = [x mod 65536]" by (simp add: in_block_def)
  show ?thesis unfolding writer_ok_def Let_def oi_writer.select_convs b i by simp
qed

lemma writer_ok_close:
  assumes "writer_ok xs w"
  shows "ow_out (ow_close_block w) = data_before xs (Suc (ow_current_block_id w))"
    "ow_metadata (ow_close_block w) = metas_before xs (Suc (ow_current_block_id w))"
  using assms
  by (simp_all add: writer_ok_def ow_close_block_def data_before_Suc metas_before_Suc block_bytes_def Let_def)

lemma writer_ok_push:
  assumes "writer_ok xs w" "x < 2 ^ 32" "\<forall>y\<in>set xs. y < x"
  shows "writer_ok (xs @ [x]) (ow_push w x)"
proof -
  let ?c = "ow_current_block_id w" and ?b = "x div 65536"
  note w = assms(1) [unfolded writer_ok_def Let_def]
  note addr = row_addr [OF assms(2)]
  from w have "in_block xs ?c \<noteq> []" by blast
  then obtain y where "y \<in> set xs" "y div 65536 = ?c" by (auto simp: in_block_def filter_empty_conv)
  moreover from this have "y \<le> x" using assms(3) by (meson less_imp_le)
  ultimately have le: "?c \<le> ?b" using div_le_mono by metis
  have bound: "\<forall>z\<in>set (xs @ [x]). z div 65536 \<le> ?b" using w le by fastforce
  show ?thesis
  proof (cases "?c = ?b")
    case True
    then show ?thesis using w bound addr before_snoc [of ?c x xs]
      by (simp add: writer_ok_def ow_push_def in_block_snoc Let_def)
  next
    case False
    then have gt: "Suc ?c \<le> ?b" using le by simp
    have beyond: "in_block xs b = []" if "Suc ?c \<le> b" for b
      using w that by (intro in_block_beyond [of _ "Suc ?c"]) (auto simp: less_Suc_eq_le)
    have "data_before (xs @ [x]) ?b = data_before xs (Suc ?c)" "metas_before (xs @ [x]) ?b = metas_before xs (Suc ?c)"
      using before_snoc [of ?b x xs] before_extend [OF gt beyond] by simp_all
    then show ?thesis using False bound addr gt beyond [OF gt] writer_ok_close [OF assms(1)]
      by (simp add: writer_ok_def ow_push_def in_block_snoc Let_def)
  qed
qed

lemma writer_ok_fold:
  assumes "writer_ok xs w" "sorted_wrt (<) (xs @ ys)" "\<forall>y\<in>set ys. y < 2 ^ 32"
  shows "writer_ok (xs @ ys) (foldl ow_push w ys)"
  using assms
proof (induction ys arbitrary: xs w)
  case (Cons y ys)
  have "writer_ok (xs @ [y]) (ow_push w y)"
    using Cons.prems by (intro writer_ok_push) (auto simp: sorted_wrt_append)
  then show ?case using Cons.IH [of "xs @ [y]" "ow_push w y"] Cons.prems(2,3) by simp
qed simp

text \<open>What the writer emits: the non-empty blocks, then their metadata and its length.\<close>

lemma serialize_bytes:
  assumes "sorted_wrt (<) xs" "\<forall>x\<in>set xs. x < num_rows" "num_rows \<le> N * 65536" "N < 65536"
  shows "serialize_optional_index xs num_rows =
     map_opt block_meta_to_bytes (metas_before xs N) \<bind> (\<lambda>metas.
       Some (vint_bytes (word_of_nat num_rows :: u64) @ data_before xs N @ concat metas @ le_bytes 2 (length (metas_before xs N) mod 65536)))"
proof (cases xs)
  case Nil
  then show ?thesis using before_nil [of N] by (simp add: serialize_optional_index_def vint_serialize_def vint_serialize_into_total del: le_bytes.simps)
next
  case (Cons x ys)
  have lt: "\<forall>y\<in>set xs. y < N * 65536" using assms(2,3) less_le_trans [of _ num_rows "N * 65536"] by blast
  have "N * 65536 \<le> (2 :: nat) ^ 32" using assms(4) by simp
  then have lt32: "\<forall>y\<in>set xs. y < 2 ^ 32" using lt less_le_trans [of _ "N * 65536" "2 ^ 32"] by blast
  let ?init = "\<lparr>ow_current_block_id = x div 65536, ow_current_block = [x mod 65536], ow_metadata = [], ow_out = []\<rparr>"
  let ?w = "foldl ow_push ?init ys"
  have start: "writer_ok [x] ?init" by (rule writer_ok_start)
  have ok: "writer_ok xs ?w" using writer_ok_fold [OF start, of ys] assms(1) lt32 Cons by simp
  let ?c = "ow_current_block_id ?w"
  have "in_block xs ?c \<noteq> []" using ok by (simp add: writer_ok_def Let_def)
  then obtain y where "y \<in> set xs" "y div 65536 = ?c" by (auto simp: in_block_def filter_empty_conv)
  moreover from this(1) have "y div 65536 < N" using lt by (intro less_mult_imp_div_less) blast
  ultimately have c: "Suc ?c \<le> N" by simp
  have "in_block xs b = []" if "Suc ?c \<le> b" for b
    using ok that by (intro in_block_beyond [of _ "Suc ?c"]) (auto simp: writer_ok_def Let_def less_Suc_eq_le)
  note ext = before_extend [OF c this]
  have "x < 2 ^ 32" using lt32 Cons by simp
  note addr = row_addr [OF this]
  show ?thesis
    using writer_ok_close [OF ok] ext addr Cons
    by (simp add: serialize_optional_index_def vint_serialize_def vint_serialize_into_total Let_def del: le_bytes.simps)
qed

section \<open>The metadata reader\<close>

definition empty_meta :: "meta_reader \<Rightarrow> block_meta" where
  "empty_meta r = \<lparr>bm_non_null_rows_before_block = mr_non_null_rows_before r,
     bm_start_byte_offset = mr_start_byte_offset r, bm_block_variant = VariantSparse 0\<rparr>"

definition reader_ok :: "nat list \<Rightarrow> nat \<Rightarrow> meta_reader \<Rightarrow> bool" where
  "reader_ok xs n r \<longleftrightarrow>
     length (mr_metas r) \<le> n \<and> vec_resize n (empty_meta r) (mr_metas r) = map (meta_of xs) [0..<n] \<and>
     mr_start_byte_offset r = length (data_before xs n) \<and> mr_non_null_rows_before r = rank_of xs (n * 65536)"

lemma rows_step: "rank_of xs (Suc n * 65536) = rank_of xs (n * 65536) + length (in_block xs n)"
  using length_in_block [of xs n] by simp

lemma reader_ok_skip:
  assumes "reader_ok xs n r" "in_block xs n = []"
  shows "reader_ok xs (Suc n) r"
proof -
  have "vec_resize (Suc n) (empty_meta r) (mr_metas r) = vec_resize n (empty_meta r) (mr_metas r) @ [empty_meta r]"
    using assms(1) by (simp add: reader_ok_def vec_resize_def Suc_diff_le replicate_append_same)
  moreover have "empty_meta r = meta_of xs n"
    using assms by (simp add: reader_ok_def empty_meta_def meta_of_def is_sparse_def threshold)
  ultimately show ?thesis
    using assms rows_step [of xs n] by (simp add: reader_ok_def data_before_Suc block_bytes_empty)
qed

lemma meta_bytes:
  assumes "n < 65536" "in_block xs n \<noteq> []" "sorted_wrt (<) xs"
  shows "\<exists>bytes. block_meta_to_bytes \<lparr>sm_block_id = n, sm_num_non_null_rows = length (in_block xs n)\<rparr> = Some bytes \<and>
    length bytes = 4 \<and>
    block_meta_from_bytes bytes = \<lparr>sm_block_id = n, sm_num_non_null_rows = length (in_block xs n)\<rparr>"
proof -
  have "length (in_block xs n) \<le> 65536" by (rule strict_u16s_length [OF strict_in_block [OF assms(3)]])
  moreover have "0 < length (in_block xs n)" using assms(2) by simp
  ultimately have l: "length (in_block xs n) - 1 < 65536" "length (in_block xs n) - 1 + 1 = length (in_block xs n)" by simp_all
  then show ?thesis using assms(1,2)
    by (simp add: block_meta_to_bytes_def block_meta_from_bytes_def le_nat_le_bytes_id del: le_bytes.simps)
qed

lemma length_block_bytes:
  assumes "sorted_wrt (<) xs"
  shows "length (block_bytes xs n) = num_bytes_in_block (bm_block_variant (meta_of xs n))"
  using dense_length [of "in_block xs n" "serialize_dense_codec (in_block xs n)"] strict_in_block [OF assms, of n]
  by (auto simp: block_bytes_def serialize_optional_index_block_def meta_of_def num_bytes_in_block_def length_sparse_serialize
      dense_repr_def)

lemma reader_ok_read:
  assumes "reader_ok xs n r" "sorted_wrt (<) xs"
    and "block_meta_from_bytes bytes = \<lparr>sm_block_id = n, sm_num_non_null_rows = length (in_block xs n)\<rparr>"
  shows "reader_ok xs (Suc n) (read_block_meta r bytes)"
proof -
  let ?l = "length (in_block xs n)"
  have mod: "is_sparse ?l \<Longrightarrow> ?l mod 65536 = ?l" by (simp add: is_sparse_def threshold)
  have "mr_metas (read_block_meta r bytes) = map (meta_of xs) [0..<Suc n]"
    using assms(1,3) mod by (auto simp: reader_ok_def read_block_meta_def empty_meta_def meta_of_def Let_def)
  moreover have "mr_start_byte_offset (read_block_meta r bytes) = length (data_before xs (Suc n))"
    using assms(1,3) mod length_block_bytes [OF assms(2), of n]
    by (auto simp: reader_ok_def read_block_meta_def meta_of_def Let_def data_before_Suc)
  moreover have "mr_non_null_rows_before (read_block_meta r bytes) = rank_of xs (Suc n * 65536)"
    using assms(1,3) rows_step [of xs n] by (simp add: reader_ok_def read_block_meta_def Let_def)
  ultimately show ?thesis by (simp add: reader_ok_def vec_resize_def)
qed

lemma reader_ok_fold:
  assumes "sorted_wrt (<) xs" "n \<le> 65536"
  shows "\<exists>chunks. map_opt block_meta_to_bytes (metas_before xs n) = Some chunks \<and> (\<forall>c\<in>set chunks. length c = 4) \<and>
    length chunks = length (metas_before xs n) \<and>
    reader_ok xs n (foldl read_block_meta \<lparr>mr_metas = [], mr_start_byte_offset = 0, mr_non_null_rows_before = 0\<rparr> chunks)"
  using assms(2)
proof (induction n)
  case 0
  show ?case by (simp add: metas_before_def reader_ok_def vec_resize_def data_before_def rank_of_def)
next
  case (Suc n)
  then obtain chunks where c: "map_opt block_meta_to_bytes (metas_before xs n) = Some chunks" "\<forall>c\<in>set chunks. length c = 4"
    "length chunks = length (metas_before xs n)"
    "reader_ok xs n (foldl read_block_meta \<lparr>mr_metas = [], mr_start_byte_offset = 0, mr_non_null_rows_before = 0\<rparr> chunks)"
    by fastforce
  show ?case
  proof (cases "in_block xs n = []")
    case True
    then show ?thesis using c reader_ok_skip [OF c(4) True] by (intro exI [of _ chunks]) (simp add: metas_before_Suc)
  next
    case False
    obtain bytes where b: "block_meta_to_bytes \<lparr>sm_block_id = n, sm_num_non_null_rows = length (in_block xs n)\<rparr> = Some bytes"
      "length bytes = 4" "block_meta_from_bytes bytes = \<lparr>sm_block_id = n, sm_num_non_null_rows = length (in_block xs n)\<rparr>"
      using meta_bytes [of n xs] Suc.prems False assms(1) by auto
    have "map_opt block_meta_to_bytes (metas_before xs (Suc n)) = Some (chunks @ [bytes])"
      using c(1) b(1) False by (simp add: metas_before_Suc map_opt_append)
    then show ?thesis using c b False reader_ok_read [OF c(4) assms(1) b(3)]
      by (intro exI [of _ "chunks @ [bytes]"]) (simp add: metas_before_Suc)
  qed
qed

lemma chunks_of_concat:
  assumes "\<forall>c\<in>set chunks. length c = 4"
  shows "map (\<lambda>i. take 4 (drop (4 * i) (concat chunks))) [0..<length (concat chunks) div 4] = chunks"
proof -
  have "length (concat chunks) = 4 * length chunks" using assms by (rule concat_length_uniform)
  then show ?thesis using assms take_drop_concat_uniform [of chunks 4]
    by (intro nth_equalityI) (simp_all add: mult.commute)
qed

section \<open>The round trip\<close>

lemma length_metas_before: "length (metas_before xs n) \<le> n"
  using length_filter_le [of "\<lambda>b. in_block xs b \<noteq> []" "[0..<n]"] by (simp add: metas_before_def)

lemma written_block:
  assumes "sorted_wrt (<) xs" "b < n" "oi_block_data oi = data_before xs n"
  shows "\<exists>blk. oi_block oi (meta_of xs b) = Some blk \<and> block_repr (in_block xs b) blk"
proof -
  have "[0..<n] = [0..<b] @ b # [Suc b..<n]" using assms(2) upt_add_eq_append [of 0 b "n - b"] by (simp add: upt_conv_Cons)
  then have "data_before xs n = data_before xs b @ block_bytes xs b @ concat (map (block_bytes xs) [Suc b..<n])"
    by (simp add: data_before_def)
  then have slice: "slice_bytes (data_before xs n) (length (data_before xs b)) (length (block_bytes xs b)) = Some (block_bytes xs b)"
    by (simp add: slice_bytes_def)
  note len = length_block_bytes [OF assms(1), of b] and st = strict_in_block [OF assms(1), of b]
  show ?thesis
  proof (cases "is_sparse (length (in_block xs b))")
    case True
    then show ?thesis using slice len st assms(3)
      by (simp add: oi_block_def meta_of_def num_bytes_in_block_def block_repr_def sparse_repr_def is_sparse_def threshold
          block_bytes_def serialize_optional_index_block_def)
  next
    case False
    then show ?thesis using slice len st assms(3)
      by (simp add: oi_block_def meta_of_def num_bytes_in_block_def block_repr_def dense_repr_def dense_open_def
          block_bytes_def serialize_optional_index_block_def)
  qed
qed

lemma written_repr:
  assumes "sorted_wrt (<) xs" "\<forall>x\<in>set xs. x < num_rows" "num_rows \<le> 65535 * 65536"
  shows "oi_repr xs \<lparr>oi_num_docs = num_rows, oi_num_non_null_docs = length xs,
    oi_block_data = data_before xs ((num_rows + 65535) div 65536),
    oi_block_metas = map (meta_of xs) [0..<(num_rows + 65535) div 65536]\<rparr>"
    (is "oi_repr xs ?oi")
proof -
  have "\<exists>blk. oi_block ?oi (meta_of xs b) = Some blk \<and> block_repr (in_block xs b) blk"
    if "b < (num_rows + 65535) div 65536" for b
    by (rule written_block [OF assms(1) that]) simp
  moreover have "bm_non_null_rows_before_block (meta_of xs b) = rank_of xs (b * 65536)" for b by (simp add: meta_of_def)
  ultimately show ?thesis using assms by (simp add: oi_repr_def ELEMENTS_PER_BLOCK_def)
qed

lemma open_serialized:
  assumes "sorted_wrt (<) xs" "\<forall>x\<in>set xs. x < num_rows" "num_rows \<le> 65535 * 65536"
  shows "\<exists>bytes oi. serialize_optional_index xs num_rows = Some bytes \<and> open_optional_index bytes = Some (Inr oi) \<and>
    oi_repr xs oi \<and> oi_num_docs oi = num_rows"
proof -
  let ?N = "(num_rows + 65535) div 65536"
  have N: "num_rows \<le> ?N * 65536" "?N < 65536"
  proof -
    show "num_rows \<le> ?N * 65536"
      using div_mult_mod_eq [of "num_rows + 65535" 65536] mod_less_divisor [of 65536 "num_rows + 65535"] by linarith
    show "?N < 65536" using assms(3) by (intro less_mult_imp_div_less) simp
  qed
  obtain chunks where c: "map_opt block_meta_to_bytes (metas_before xs ?N) = Some chunks" "\<forall>c\<in>set chunks. length c = 4"
    "length chunks = length (metas_before xs ?N)"
    "reader_ok xs ?N (foldl read_block_meta \<lparr>mr_metas = [], mr_start_byte_offset = 0, mr_non_null_rows_before = 0\<rparr> chunks)"
    using reader_ok_fold [OF assms(1), of ?N] N(2) by auto
  let ?k = "length (metas_before xs ?N)"
  let ?bytes = "vint_bytes (word_of_nat num_rows :: u64) @ data_before xs ?N @ concat chunks @ le_bytes 2 (?k mod 65536)"
  let ?oi = "\<lparr>oi_num_docs = num_rows, oi_num_non_null_docs = length xs, oi_block_data = data_before xs ?N,
    oi_block_metas = map (meta_of xs) [0..<?N]\<rparr>"
  have "serialize_optional_index xs num_rows = Some ?bytes"
    using serialize_bytes [OF assms(1,2) N] c(1) by simp
  moreover have "open_optional_index ?bytes = Some (Inr ?oi)"
  proof -
    have k: "?k < 65536" using length_metas_before N(2) by (rule le_less_trans)
    have r1: "rsplit_bytes ?bytes 2 = Some (vint_bytes (word_of_nat num_rows :: u64) @ data_before xs ?N @ concat chunks, le_bytes 2 ?k)"
      using k by (simp add: rsplit_bytes_def del: le_bytes.simps)
    have lc: "length (concat chunks) = ?k * 4" using concat_length_uniform [OF c(2)] c(3) by simp
    have le: "le_nat (le_bytes 2 ?k) = ?k" using k by (simp add: le_nat_le_bytes_id del: le_bytes.simps)
    have r2: "rsplit_bytes (data_before xs ?N @ concat chunks) (?k * 4) = Some (data_before xs ?N, concat chunks)"
      using lc by (simp add: rsplit_bytes_def)
    have n: "unat (word_of_nat num_rows :: u64) mod 2 ^ 32 = num_rows"
      using assms(3) by (simp add: unsigned_of_nat take_bit_nat_eq_self)
    have "\<forall>x\<in>set xs. x < ?N * 65536" using assms(2) N(1) less_le_trans [of _ num_rows "?N * 65536"] by blast
    then have rows: "rank_of xs (?N * 65536) = length xs" by (rule rank_of_all)
    have num_blocks: "(num_rows + ELEMENTS_PER_BLOCK - 1) div ELEMENTS_PER_BLOCK = ?N"
      by (simp add: ELEMENTS_PER_BLOCK_def add.commute)
    let ?r = "foldl read_block_meta \<lparr>mr_metas = [], mr_start_byte_offset = 0, mr_non_null_rows_before = 0\<rparr> chunks"
    have read: "vec_resize ?N (empty_meta ?r) (mr_metas ?r) = map (meta_of xs) [0..<?N]" "mr_non_null_rows_before ?r = length xs"
      using c(4) rows by (simp_all only: reader_ok_def)
    have d: "deserialize_optional_index_block_metadatas (concat chunks) num_rows = (map (meta_of xs) [0..<?N], length xs)"
      unfolding deserialize_optional_index_block_metadatas_def chunks_of_concat [OF c(2)] num_blocks Let_def
        empty_meta_def [symmetric] read by (rule refl)
    show ?thesis unfolding open_optional_index_def r1
      by (simp add: vint_deserialize_bytes le r2 n [simplified] d Let_def del: le_bytes.simps)
  qed
  moreover have "oi_repr xs ?oi" using assms by (intro written_repr)
  ultimately show ?thesis by (intro exI [of _ ?bytes] exI [of _ ?oi]) simp
qed


text \<open>
  Property C3. The round trip of the optional index: for every strictly increasing list of row ids below
  \<open>num_rows\<close>, the bytes written open again to an index with the same number of rows and of rows
  with a value, in which membership, rank, rank of an existing row, select and the iteration over the rows
  are those of the list. The bound is the number of rows of 65535 blocks, the number of blocks being kept
  in 16 bits.
\<close>

theorem optional_index_roundtrip:
  assumes "sorted_wrt (<) rows" "\<forall>x\<in>set rows. x < num_rows" "num_rows \<le> 65535 * 65536"
  shows "\<exists>bytes oi. serialize_optional_index rows num_rows = Some bytes \<and> open_optional_index bytes = Some (Inr oi) \<and>
    oi_num_docs oi = num_rows \<and> oi_num_non_null_docs oi = length rows \<and>
    (\<forall>d<num_rows. oi_contains oi d = Some (d \<in> set rows)) \<and>
    (\<forall>d. oi_rank oi d = Some (length (filter (\<lambda>x. x < d) rows))) \<and>
    (\<forall>d<2 ^ 32. oi_rank_if_exists oi d =
       Some (if d \<in> set rows then Some (length (filter (\<lambda>x. x < d) rows)) else None)) \<and>
    (\<forall>i<length rows. oi_select oi i = Some (rows ! i)) \<and>
    iter_non_null_docs oi = Some rows"
proof -
  obtain bytes oi where o: "serialize_optional_index rows num_rows = Some bytes" "open_optional_index bytes = Some (Inr oi)"
    "oi_repr rows oi" "oi_num_docs oi = num_rows"
    using open_serialized [OF assms] by blast
  note laws = oi_contains_law [OF o(3)] oi_rank_law [OF o(3)] oi_rank_if_exists_law [OF o(3)] oi_select_law [OF o(3)]
    iter_non_null_docs_law [OF o(3)] oi_reprD(3) [OF o(3)]
  show ?thesis
    using o(1,2,4) laws by (intro exI [of _ bytes] exI [of _ oi]) (simp add: rank_of_def)
qed

theorem optional_index_roundtrip_witness:
  "\<exists>bytes oi. serialize_optional_index [3, 70000] 140000 = Some bytes \<and> open_optional_index bytes = Some (Inr oi) \<and>
    oi_contains oi 70000 = Some True \<and> oi_contains oi 70001 = Some False \<and> oi_rank oi 70000 = Some 1 \<and>
    oi_select oi 1 = Some 70000 \<and> iter_non_null_docs oi = Some [3, 70000]"
proof -
  have witness_rows: "sorted_wrt (<) [3, 70000 :: nat]" "\<forall>x\<in>set [3, 70000 :: nat]. x < 140000" "(140000 :: nat) \<le> 65535 * 65536"
    by simp_all
  obtain bytes oi where o: "serialize_optional_index [3, 70000] 140000 = Some bytes" "open_optional_index bytes = Some (Inr oi)"
    "\<forall>d<140000. oi_contains oi d = Some (d \<in> set [3, 70000])"
    "\<forall>d. oi_rank oi d = Some (length (filter (\<lambda>x. x < d) [3, 70000]))"
    "\<forall>i<length [3, 70000 :: nat]. oi_select oi i = Some ([3, 70000] ! i)"
    "iter_non_null_docs oi = Some [3, 70000]"
    using optional_index_roundtrip [of "[3, 70000]" 140000, OF witness_rows] by (elim exE conjE) (rule that)
  have "oi_contains oi 70000 = Some True" "oi_contains oi 70001 = Some False" "oi_rank oi 70000 = Some 1"
    "oi_select oi 1 = Some 70000"
    using o(3) [rule_format, of 70000] o(3) [rule_format, of 70001] o(4) [rule_format, of 70000] o(5) [rule_format, of 1]
    by simp_all
  then show ?thesis using o(1,2,6) by (intro exI [of _ bytes] exI [of _ oi]) simp
qed

text \<open>
  Property C5. The batch operations of the optional index agree with the single ones: on an index opened
  from the bytes written for a list of rows, \<open>select_batch\<close> with its cursor returns the rows of an increasing
  sequence of ranks, the batch rank lookup returns the documents that have a value with their rank
  in the order asked for, sorted or not, and \<open>next_non_null_doc\<close> returns the first row at or after its target.
\<close>

theorem optional_index_batch:
  assumes "sorted_wrt (<) rows" "\<forall>x\<in>set rows. x < num_rows" "num_rows \<le> 65535 * 65536"
    and "sorted ranks" "\<forall>r\<in>set ranks. r < length rows" "\<forall>d\<in>set docs. d < 2 ^ 32"
  shows "\<exists>bytes oi. serialize_optional_index rows num_rows = Some bytes \<and> open_optional_index bytes = Some (Inr oi) \<and>
    select_batch oi ranks = Some (map (\<lambda>r. rows ! r) ranks) \<and>
    rank_if_exists_batch oi docs =
      Some (map (\<lambda>d. (d, length (filter (\<lambda>x. x < d) rows))) (filter (\<lambda>d. d \<in> set rows) docs)) \<and>
    next_non_null_doc oi target = Some (find (\<lambda>x. target \<le> x) rows)"
proof -
  obtain bytes oi where o: "serialize_optional_index rows num_rows = Some bytes" "open_optional_index bytes = Some (Inr oi)"
    "oi_repr rows oi" "oi_num_docs oi = num_rows"
    using open_serialized [OF assms(1-3)] by blast
  note laws = select_batch_law [OF o(3) assms(4,5)] rank_if_exists_batch_law [OF o(3) assms(6)]
    next_non_null_doc_law [OF o(3), of target, folded find_rank [OF assms(1), of target]]
  show ?thesis
    using o(1,2) laws by (intro exI [of _ bytes] exI [of _ oi]) (simp add: batch_spec_def rank_of_def)
qed

theorem optional_index_batch_witness:
  "\<exists>bytes oi. serialize_optional_index [3, 70000] 140000 = Some bytes \<and> open_optional_index bytes = Some (Inr oi) \<and>
    select_batch oi [0, 1] = Some [3, 70000] \<and> rank_if_exists_batch oi [70000, 5, 3] = Some [(70000, 1), (3, 0)] \<and>
    next_non_null_doc oi 4 = Some (Some 70000)"
  using optional_index_batch [of "[3, 70000]" 140000 "[0, 1]" "[70000, 5, 3]" 4] by simp

end
