(* ===== verification/Disjunction.thy ===== *)
theory Disjunction
  imports SimpleUnion "HOL-Library.Multiset"
begin

text \<open>
  \<open>Disjunction\<close> of \<^verbatim>\<open>src/query/disjunction.rs\<close>: the documents that at least a given number of children
  match, enumerated by popping the children from a heap keyed by their current document. The heap of the
  standard library is a list from which \<open>heap_pop\<close> removes a child with the least document. Scores are left out.
\<close>

section \<open>Definitions\<close>

record 's scorer_wrapper =
  sw_scorer :: 's
  sw_current_doc :: nat

definition wrapper_new :: "'s docset_ops \<Rightarrow> 's \<Rightarrow> 's scorer_wrapper" where
  "wrapper_new ops s = \<lparr>sw_scorer = s, sw_current_doc = ds_doc ops s\<rparr>"

definition wrapper_advance :: "'s docset_ops \<Rightarrow> 's scorer_wrapper \<Rightarrow> (nat \<times> 's scorer_wrapper) option" where
  "wrapper_advance ops w =
     ds_advance ops (sw_scorer w) \<bind> (\<lambda>(doc_id, s). Some (doc_id, \<lparr>sw_scorer = s, sw_current_doc = doc_id\<rparr>))"

definition wrapper_seek :: "'s docset_ops \<Rightarrow> nat \<Rightarrow> 's scorer_wrapper \<Rightarrow> (nat \<times> 's scorer_wrapper) option" where
  "wrapper_seek ops target w =
     ds_seek ops target (sw_scorer w) \<bind> (\<lambda>(doc_id, s). Some (doc_id, \<lparr>sw_scorer = s, sw_current_doc = doc_id\<rparr>))"

definition wrapper_seek_danger ::
  "'s docset_ops \<Rightarrow> nat \<Rightarrow> 's scorer_wrapper \<Rightarrow> (seek_danger_result \<times> 's scorer_wrapper) option" where
  "wrapper_seek_danger ops target w =
     ds_seek_danger ops target (sw_scorer w) \<bind> (\<lambda>(result, s).
       Some (result, \<lparr>sw_scorer = s, sw_current_doc = (if result = Found then target else sw_current_doc w)\<rparr>))"

definition wrapper_ops :: "'s docset_ops \<Rightarrow> 's scorer_wrapper docset_ops" where
  "wrapper_ops ops =
     \<lparr>ds_doc = sw_current_doc, ds_advance = wrapper_advance ops, ds_seek = wrapper_seek ops,
      ds_seek_danger = wrapper_seek_danger ops, ds_size_hint = (\<lambda>w. ds_size_hint ops (sw_scorer w)),
      ds_cost = (\<lambda>w. ds_cost ops (sw_scorer w))\<rparr>"

fun heap_pop :: "'s scorer_wrapper list \<Rightarrow> ('s scorer_wrapper \<times> 's scorer_wrapper list) option" where
  "heap_pop [] = None"
| "heap_pop (w # ws) =
     (case heap_pop ws of
        None \<Rightarrow> Some (w, [])
      | Some (v, vs) \<Rightarrow> if sw_current_doc w \<le> sw_current_doc v then Some (w, ws) else Some (v, w # vs))"

record 's disjunction =
  dj_chains :: "'s scorer_wrapper list"
  dj_minimum_matches_required :: nat
  dj_current_doc :: nat

partial_function (option) dj_advance_loop ::
  "'s docset_ops \<Rightarrow> nat \<Rightarrow> nat \<Rightarrow> nat \<Rightarrow> 's scorer_wrapper list \<Rightarrow> (nat \<times> 's scorer_wrapper list) option" where
  "dj_advance_loop ops minimum num current heap =
     (case heap_pop heap of
        None \<Rightarrow> Some (if num < minimum then TERMINATED else current, [])
      | Some (candidate, rest) \<Rightarrow>
          let next = sw_current_doc candidate
          in if next = TERMINATED then dj_advance_loop ops minimum num current rest
             else if current \<noteq> next \<and> num \<ge> minimum then Some (current, candidate # rest)
             else wrapper_advance ops candidate \<bind> (\<lambda>(_, candidate').
                    dj_advance_loop ops minimum (if current \<noteq> next then 1 else num + 1) next (candidate' # rest)))"

definition dj_advance :: "'s docset_ops \<Rightarrow> 's disjunction \<Rightarrow> (nat \<times> 's disjunction) option" where
  "dj_advance ops d =
     dj_advance_loop ops (dj_minimum_matches_required d) 0 (dj_current_doc d) (dj_chains d) \<bind> (\<lambda>(doc, heap).
       Some (doc, d\<lparr>dj_current_doc := doc, dj_chains := heap\<rparr>))"

definition disjunction_new :: "'s docset_ops \<Rightarrow> 's list \<Rightarrow> nat \<Rightarrow> 's disjunction option" where
  "disjunction_new ops docsets minimum =
     (let d = \<lparr>dj_chains = map (wrapper_new ops) docsets, dj_minimum_matches_required = minimum,
               dj_current_doc = TERMINATED\<rparr>
      in if minimum > length (dj_chains d) then Some d else map_option snd (dj_advance ops d))"

definition disjunction_ops :: "'s docset_ops \<Rightarrow> 's disjunction docset_ops" where
  "disjunction_ops ops =
     \<lparr>ds_doc = dj_current_doc, ds_advance = dj_advance ops,
      ds_seek = default_seek dj_current_doc (dj_advance ops),
      ds_seek_danger = default_seek_danger dj_current_doc (default_seek dj_current_doc (dj_advance ops)),
      ds_size_hint = (\<lambda>d. foldl max 0 (map (ds_size_hint (wrapper_ops ops)) (dj_chains d))),
      ds_cost = (\<lambda>d. foldl max 0 (map (ds_cost (wrapper_ops ops)) (dj_chains d)))\<rparr>"

section \<open>The wrapper\<close>

definition wrapper_rep :: "(nat set \<Rightarrow> 's \<Rightarrow> bool) \<Rightarrow> nat set \<Rightarrow> 's scorer_wrapper \<Rightarrow> bool" where
  "wrapper_rep rep D w \<longleftrightarrow> rep D (sw_scorer w) \<and> sw_current_doc w = first_doc D"

definition wrapper_ready :: "(nat \<Rightarrow> nat set \<Rightarrow> 's \<Rightarrow> bool) \<Rightarrow> nat \<Rightarrow> nat set \<Rightarrow> 's scorer_wrapper \<Rightarrow> bool" where
  "wrapper_ready ready t D w \<longleftrightarrow> ready t D (sw_scorer w)"

locale disjunction_of = docset_iter

sublocale disjunction_of \<subseteq> wrap: docset_iter "wrapper_ops ops" "wrapper_rep rep"
proof
  fix D w
  assume w: "wrapper_rep rep D w"
  then have r: "rep D (sw_scorer w)" by (simp add: wrapper_rep_def)
  show "D \<subseteq> {..<TERMINATED}" using r by (rule rep_bound)
  show "ds_doc (wrapper_ops ops) w = first_doc D" using w by (simp add: wrapper_rep_def wrapper_ops_def)
  obtain s' where "ds_advance ops (sw_scorer w) = Some (first_doc (D - {first_doc D}), s')" "rep (D - {first_doc D}) s'"
    using r by (rule advance_first)
  then show "\<exists>w'. ds_advance (wrapper_ops ops) w = Some (ds_doc (wrapper_ops ops) w', w') \<and>
      wrapper_rep rep (D - {first_doc D}) w'"
    by (simp add: wrapper_ops_def wrapper_advance_def wrapper_rep_def)
qed

locale wrapper_of = docset

sublocale wrapper_of \<subseteq> disjunction_of ..

sublocale wrapper_of \<subseteq> wrap: docset "wrapper_ops ops" "wrapper_rep rep" "wrapper_ready ready"
proof unfold_locales
  fix D w and t u :: nat
  show "\<exists>w'. ds_seek (wrapper_ops ops) t w = Some (ds_doc (wrapper_ops ops) w', w') \<and> wrapper_rep rep (D \<inter> {t..}) w'"
    if w: "wrapper_rep rep D w" "first_doc D \<le> t" "t \<le> TERMINATED"
  proof -
    have "rep D (sw_scorer w)" using w(1) by (simp add: wrapper_rep_def)
    then obtain s' where "ds_seek ops t (sw_scorer w) = Some (first_doc (D \<inter> {t..}), s')" "rep (D \<inter> {t..}) s'"
      using w(2,3) by (rule seek_first)
    then show ?thesis by (simp add: wrapper_ops_def wrapper_seek_def wrapper_rep_def)
  qed
  show "D \<subseteq> {t..<TERMINATED}" if "wrapper_ready ready t D w" using that ready_bound by (auto simp: wrapper_ready_def)
  show "wrapper_ready ready u (D \<inter> {u..}) w" if "wrapper_ready ready t D w" "t \<le> u"
    using that ready_mono by (simp add: wrapper_ready_def)
  show "wrapper_ready ready t (D \<inter> {t..}) w" if "wrapper_rep rep D w" "first_doc D \<le> t"
    using that rep_ready by (simp add: wrapper_ready_def wrapper_rep_def)
  show "\<exists>r w'. ds_seek_danger (wrapper_ops ops) t w = Some (r, w') \<and> danger_result t D r \<and>
      (if t \<in> D then wrapper_rep rep D w' else wrapper_ready ready t D w')"
    if w: "wrapper_ready ready t D w" "t \<le> TERMINATED"
  proof -
    have rd: "ready t D (sw_scorer w)" using w(1) by (simp add: wrapper_ready_def)
    obtain r s' where r: "ds_seek_danger ops t (sw_scorer w) = Some (r, s')" "danger_result t D r" "ready t D s'"
      "t \<in> D \<Longrightarrow> rep D s'" "r = Found \<longleftrightarrow> t \<in> D"
      using rd w(2) by (rule seek_danger_ready) blast
    have "D \<subseteq> {t..}" using ready_bound [OF rd] by auto
    then have "first_doc D = t" if "t \<in> D" using rep_ready_same(2) [OF r(4) [OF that] that] by simp
    then show ?thesis using r by (auto simp: wrapper_ops_def wrapper_seek_danger_def wrapper_rep_def wrapper_ready_def)
  qed
qed

section \<open>Counting matches\<close>

text \<open>The number of children that have a document, and the documents with at least \<open>m\<close>.\<close>

definition matches :: "nat set list \<Rightarrow> nat \<Rightarrow> nat" where
  "matches Ds d = length (filter (\<lambda>D. d \<in> D) Ds)"

definition at_least :: "nat \<Rightarrow> nat set list \<Rightarrow> nat set" where
  "at_least m Ds = {d. m \<le> matches Ds d}"

lemma matches_Cons: "matches (D # Ds) d = (if d \<in> D then 1 else 0) + matches Ds d"
  by (simp add: matches_def)

lemma matches_mset: "mset Ds = mset Es \<Longrightarrow> matches Ds = matches Es"
  by (metis (no_types, lifting) ext matches_def mset_filter size_mset)

lemma matches_pos: "0 < matches Ds d \<Longrightarrow> \<exists>D\<in>set Ds. d \<in> D"
  by (auto simp: matches_def filter_empty_conv)

lemma matches_0: "\<forall>D\<in>set Ds. d \<notin> D \<Longrightarrow> matches Ds d = 0"
  by (simp add: matches_def)

lemma heap_pop_None: "heap_pop ws = None \<longleftrightarrow> ws = []"
  by (cases ws) (auto split: option.splits)

lemma heap_pop_min: "heap_pop ws = Some (v, vs) \<Longrightarrow> \<forall>w\<in>set ws. sw_current_doc v \<le> sw_current_doc w"
proof (induction ws arbitrary: v vs)
  case (Cons w ws)
  show ?case
  proof (cases "heap_pop ws")
    case None
    then have "ws = []" by (simp add: heap_pop_None)
    then show ?thesis using Cons.prems by simp
  next
    case (Some p)
    then obtain u us where p: "heap_pop ws = Some (u, us)" by (cases p) simp
    show ?thesis using Cons.prems Cons.IH [OF p] p by (auto split: if_splits)
  qed
qed simp

lemma heap_pop_law:
  assumes "list_all2 R Ds ws"
  shows "case heap_pop ws of
      None \<Rightarrow> ws = [] \<and> Ds = []
    | Some (c, rest) \<Rightarrow> (\<exists>D Es. R D c \<and> list_all2 R Es rest \<and> mset Ds = mset (D # Es)) \<and>
        (\<forall>w\<in>set rest. sw_current_doc c \<le> sw_current_doc w) \<and> length ws = Suc (length rest)"
  using assms
proof (induction Ds ws rule: list_all2_induct)
  case (Cons D Ds w ws)
  show ?case
  proof (cases "heap_pop ws")
    case None
    then show ?thesis using Cons by (auto intro!: exI [of _ D])
  next
    case (Some p)
    obtain v vs where p: "p = (v, vs)" by fastforce
    with Some Cons.IH obtain E Es where E: "R E v" "list_all2 R Es vs" "mset Ds = mset (E # Es)"
      "\<forall>w\<in>set vs. sw_current_doc v \<le> sw_current_doc w" "length ws = Suc (length vs)" by auto
    show ?thesis
    proof (cases "sw_current_doc w \<le> sw_current_doc v")
      case True
      have "\<forall>x\<in>set ws. sw_current_doc v \<le> sw_current_doc x"
        using heap_pop_min Some p by blast
      then have "\<forall>x\<in>set ws. sw_current_doc w \<le> sw_current_doc x" using True by (meson order_trans)
      then show ?thesis using Some p True Cons.hyps by auto
    next
      case False
      have "list_all2 R (D # Es) (w # vs)" "mset (D # Ds) = mset (E # D # Es)" using Cons.hyps(1) E(2,3) by simp_all
      then have "\<exists>E Es. R E v \<and> list_all2 R Es (w # vs) \<and> mset (D # Ds) = mset (E # Es)"
        using E(1) by (intro exI [of _ E] exI [of _ "D # Es"]) simp
      then show ?thesis using Some p False E(4,5) by simp
    qed
  qed
qed simp

section \<open>The disjunction keeps the contract\<close>

definition disjunction_rep :: "(nat set \<Rightarrow> 's \<Rightarrow> bool) \<Rightarrow> nat set \<Rightarrow> 's disjunction \<Rightarrow> bool" where
  "disjunction_rep rep D d \<longleftrightarrow>
     (\<exists>Ds. list_all2 (wrapper_rep rep) Ds (dj_chains d) \<and> 0 < dj_minimum_matches_required d \<and>
        (let rest = at_least (dj_minimum_matches_required d) Ds; cur = dj_current_doc d
         in if cur = TERMINATED then D = {} \<and> rest = {}
            else cur < TERMINATED \<and> D = insert cur rest \<and> (\<forall>E\<in>set Ds. E \<subseteq> {cur<..})))"

text \<open>The matches of the current document already counted, and the documents still to be found.\<close>

definition pending :: "nat \<Rightarrow> nat \<Rightarrow> nat \<Rightarrow> nat set list \<Rightarrow> nat set" where
  "pending m num cur Ds = {d. m \<le> (if d = cur then num else 0) + matches Ds d}"

definition loop_result :: "nat \<Rightarrow> nat set \<Rightarrow> nat \<Rightarrow> nat set list \<Rightarrow> bool" where
  "loop_result m P doc Es \<longleftrightarrow>
     doc = first_doc P \<and> at_least m Es = P - {doc} \<and> (P \<noteq> {} \<longrightarrow> (\<forall>E\<in>set Es. E \<subseteq> {doc<..}))"

lemma pending_cong: "(\<And>d. (if d = cur then num else 0) + matches Ds d = (if d = cur' then num' else 0) + matches Es d) \<Longrightarrow>
    pending m num cur Ds = pending m num' cur' Es"
  by (simp add: pending_def)

lemma at_least_bound:
  assumes "0 < m" "\<forall>D\<in>set Ds. D \<subseteq> S"
  shows "at_least m Ds \<subseteq> S"
proof
  fix d assume "d \<in> at_least m Ds"
  then have "0 < matches Ds d" using assms(1) by (simp add: at_least_def)
  then show "d \<in> S" using matches_pos assms(2) by blast
qed

context disjunction_of
begin

lemma wrapper_pop:
  assumes "list_all2 (wrapper_rep rep) Ds ws" "ws \<noteq> []"
  obtains c rest D Es where "heap_pop ws = Some (c, rest)" "wrapper_rep rep D c" "list_all2 (wrapper_rep rep) Es rest"
    "matches Ds = matches (D # Es)" "set Ds = set (D # Es)" "\<forall>E\<in>set Ds. E \<subseteq> {first_doc D..}" "length ws = Suc (length rest)"
    "length Ds = Suc (length Es)"
    "sum_list (map card Ds) = sum_list (map card (D # Es))"
proof -
  obtain c rest where c: "heap_pop ws = Some (c, rest)" using assms(2) heap_pop_None by fastforce
  with heap_pop_law [OF assms(1)] obtain D Es where D: "wrapper_rep rep D c" "list_all2 (wrapper_rep rep) Es rest"
    "mset Ds = mset (D # Es)" "\<forall>w\<in>set rest. sw_current_doc c \<le> sw_current_doc w" "length ws = Suc (length rest)"
    by auto
  have "E \<subseteq> {first_doc D..}" if E: "E \<in> set Es" for E
  proof -
    obtain i where i: "i < length Es" "E = Es ! i" using E by (auto simp: in_set_conv_nth)
    then have r: "wrapper_rep rep E (rest ! i)" "rest ! i \<in> set rest"
      using D(2) by (auto simp: list_all2_conv_all_nth)
    then have "first_doc D \<le> first_doc E" using D(1,4) by (auto simp: wrapper_rep_def)
    then show ?thesis using first_doc_le [OF _ wrap.rep_bound [OF r(1)]] by force
  qed
  moreover have "D \<subseteq> {first_doc D..}" using first_doc_le [OF _ wrap.rep_bound [OF D(1)]] by auto
  moreover have "set Ds = set (D # Es)" using D(3) by (rule mset_eq_setD)
  moreover have "sum_list (map card Ds) = sum_list (map card (D # Es))"
    using D(3) by (metis mset_map sum_mset_sum_list)
  moreover have "length Ds = Suc (length Es)" using D(3) by (metis length_Cons mset_eq_length)
  ultimately show ?thesis using that [OF c D(1,2) matches_mset [OF D(3)]] D(5) by simp
qed

lemma dj_advance_loop_law:
  assumes "list_all2 (wrapper_rep rep) Ds ws" "0 < m" "0 < num \<Longrightarrow> cur < TERMINATED \<and> (\<forall>E\<in>set Ds. E \<subseteq> {cur..})"
  shows "\<exists>doc ws' Es. dj_advance_loop ops m num cur ws = Some (doc, ws') \<and> list_all2 (wrapper_rep rep) Es ws' \<and>
    loop_result m (pending m num cur Ds) doc Es"
  using assms(1,3)
proof (induction "sum_list (map card Ds) + length Ds" arbitrary: Ds ws num cur rule: less_induct)
  case less
  note inv = less.prems(2)
  show ?case
  proof (cases "ws = []")
    case True
    then have [simp]: "Ds = []" using less.prems(1) by simp
    have "pending m num cur Ds = (if num < m then {} else {cur})"
      using assms(2) by (auto simp: pending_def matches_def split: if_splits)
    moreover have "at_least m [] = {}" using assms(2) by (simp add: at_least_def matches_def)
    moreover have "first_doc {cur} = cur" by (simp add: first_doc_def)
    ultimately show ?thesis using True
      by (auto simp: dj_advance_loop.simps loop_result_def intro!: exI [of _ "[]"])
  next
    case False
    obtain c rest D Es where c: "heap_pop ws = Some (c, rest)" "wrapper_rep rep D c" "list_all2 (wrapper_rep rep) Es rest"
      and m: "matches Ds = matches (D # Es)" "set Ds = set (D # Es)"
      and ge: "\<forall>E\<in>set Ds. E \<subseteq> {first_doc D..}"
      and len: "length Ds = Suc (length Es)" "sum_list (map card Ds) = sum_list (map card (D # Es))"
      using less.prems(1) False by (rule wrapper_pop) blast
    note b = wrap.rep_bound [OF c(2)]
    have doc: "sw_current_doc c = first_doc D" using c(2) by (simp add: wrapper_rep_def)
    show ?thesis
    proof (cases "D = {}")
      case True
      have "pending m num cur Es = pending m num cur Ds" using m(1) True by (simp add: pending_def matches_Cons)
      moreover have "\<exists>doc ws' Fs. dj_advance_loop ops m num cur rest = Some (doc, ws') \<and> list_all2 (wrapper_rep rep) Fs ws' \<and>
          loop_result m (pending m num cur Es) doc Fs"
        using len m(2) inv by (intro less.hyps c(3)) auto
      ultimately show ?thesis using c(1) doc True by (simp add: dj_advance_loop.simps [of ops m num cur ws])
    next
      case ne: False
      have d: "first_doc D \<in> D" using ne b by (rule first_doc_in)
      then have dT: "first_doc D \<noteq> TERMINATED" using b by auto
      show ?thesis
      proof (cases "cur \<noteq> first_doc D \<and> num \<ge> m")
        case True
        then have pos: "0 < num" using assms(2) by simp
        then have lt: "cur < first_doc D" using inv m(2) d True by fastforce
        then have none: "matches Ds cur = 0" using ge by (intro matches_0) fastforce
        have out: "\<forall>E\<in>set Ds. E \<subseteq> {cur<..}" using ge lt by fastforce
        have sub: "pending m num cur Ds \<subseteq> insert cur (at_least m Ds)"
          by (auto simp: pending_def at_least_def)
        have al: "at_least m Ds \<subseteq> {cur<..<TERMINATED}"
          using out wrap.list_rep_bounds [OF less.prems(1)] by (intro at_least_bound [OF assms(2)]) fastforce
        have P: "pending m num cur Ds = insert cur (at_least m Ds)"
          using True al sub by (auto simp: pending_def at_least_def)
        have "first_doc (pending m num cur Ds) = cur"
          unfolding P using al inv pos by (intro first_doc_eqI) auto
        then have "loop_result m (pending m num cur Ds) cur Ds"
          using P out al by (auto simp: loop_result_def)
        moreover have "at_least m (D # Es) = at_least m Ds" using m(1) by (simp add: at_least_def)
        ultimately have "loop_result m (pending m num cur Ds) cur (D # Es)"
          using m(2) by (simp add: loop_result_def)
        then show ?thesis using True c doc dT
          by (intro exI [of _ cur] exI [of _ "c # rest"] exI [of _ "D # Es"]) (simp add: dj_advance_loop.simps [of ops m num cur ws])
      next
        case step: False
        let ?n = "if cur \<noteq> first_doc D then 1 else num + 1" and ?E = "D - {first_doc D}"
        obtain c' where c': "wrapper_advance ops c = Some (first_doc ?E, c')" "wrapper_rep rep ?E c'"
          using wrap.advance_first [OF c(2)] by (auto simp: wrapper_ops_def)
        have P: "pending m ?n (first_doc D) (?E # Es) = pending m num cur Ds"
        proof (cases "cur = first_doc D")
          case True
          then show ?thesis using d m(1) by (intro pending_cong) (simp add: matches_Cons)
        next
          case False
          have "d' \<in> pending m ?n (first_doc D) (?E # Es) \<longleftrightarrow> d' \<in> at_least m Ds" for d'
            using False d m(1) by (simp add: pending_def at_least_def matches_Cons)
          moreover have "d' \<in> pending m num cur Ds \<longleftrightarrow> d' \<in> at_least m Ds" for d'
          proof (cases "d' = cur \<and> 0 < num")
            case True
            then have "cur < first_doc D" using False inv m(2) d by fastforce
            then have "matches Ds cur = 0" using ge by (intro matches_0) fastforce
            then show ?thesis using True step False assms(2) by (simp add: pending_def at_least_def)
          qed (auto simp: pending_def at_least_def)
          ultimately show ?thesis by blast
        qed
        have fin: "card ?E < card D" using d finite_docs [OF b] by (intro psubset_card_mono) auto
        have "\<exists>doc ws' Fs. dj_advance_loop ops m ?n (first_doc D) (c' # rest) = Some (doc, ws') \<and>
            list_all2 (wrapper_rep rep) Fs ws' \<and> loop_result m (pending m ?n (first_doc D) (?E # Es)) doc Fs"
        proof (rule less.hyps)
          show "sum_list (map card (?E # Es)) + length (?E # Es) < sum_list (map card Ds) + length Ds"
            using fin len by simp
          show "list_all2 (wrapper_rep rep) (?E # Es) (c' # rest)" using c' c(3) by simp
          show "first_doc D < TERMINATED \<and> (\<forall>F\<in>set (?E # Es). F \<subseteq> {first_doc D..})" using d b ge m(2) by auto
        qed
        then show ?thesis unfolding P using c(1) doc dT step c'(1)
          by (simp add: dj_advance_loop.simps [of ops m num cur ws] split: if_splits)
      qed
    qed
  qed
qed

lemma loop_result_rep:
  assumes "list_all2 (wrapper_rep rep) Es ws" "loop_result m P doc Es" "0 < m" "P \<subseteq> {..<TERMINATED}"
  shows "disjunction_rep rep P (d\<lparr>dj_current_doc := doc, dj_chains := ws, dj_minimum_matches_required := m\<rparr>)"
proof (cases "P = {}")
  case True
  then show ?thesis using assms by (auto simp: disjunction_rep_def loop_result_def intro!: exI [of _ Es])
next
  case False
  then have "first_doc P \<in> P" using assms(4) by (rule first_doc_in)
  then show ?thesis using assms False by (auto simp: disjunction_rep_def loop_result_def Let_def intro!: exI [of _ Es])
qed

lemma dj_advance_law:
  assumes "list_all2 (wrapper_rep rep) Ds (dj_chains d)" "0 < dj_minimum_matches_required d"
  shows "\<exists>d'. dj_advance ops d = Some (dj_current_doc d', d') \<and>
    disjunction_rep rep (at_least (dj_minimum_matches_required d) Ds) d'"
proof -
  let ?m = "dj_minimum_matches_required d" and ?P = "at_least (dj_minimum_matches_required d) Ds"
  have P: "pending ?m 0 (dj_current_doc d) Ds = ?P" by (simp add: pending_def at_least_def)
  obtain doc ws' Es where r: "dj_advance_loop ops ?m 0 (dj_current_doc d) (dj_chains d) = Some (doc, ws')"
    "list_all2 (wrapper_rep rep) Es ws'" "loop_result ?m ?P doc Es"
    using dj_advance_loop_law [OF assms, of 0 "dj_current_doc d"] unfolding P by auto
  have "?P \<subseteq> {..<TERMINATED}" using wrap.list_rep_bounds [OF assms(1)] by (rule at_least_bound [OF assms(2)])
  from loop_result_rep [OF r(2,3) assms(2) this, of d] show ?thesis using r(1) by (simp add: dj_advance_def)
qed

end

sublocale disjunction_of \<subseteq> dj: docset_iter "disjunction_ops ops" "disjunction_rep rep"
proof
  fix D d
  assume d: "disjunction_rep rep D d"
  then obtain Ds where Ds: "list_all2 (wrapper_rep rep) Ds (dj_chains d)" "0 < dj_minimum_matches_required d"
    and cur: "if dj_current_doc d = TERMINATED then D = {} \<and> at_least (dj_minimum_matches_required d) Ds = {}
      else dj_current_doc d < TERMINATED \<and> D = insert (dj_current_doc d) (at_least (dj_minimum_matches_required d) Ds) \<and>
        (\<forall>E\<in>set Ds. E \<subseteq> {dj_current_doc d<..})"
    by (auto simp: disjunction_rep_def Let_def)
  let ?P = "at_least (dj_minimum_matches_required d) Ds" and ?c = "dj_current_doc d"
  have P: "?P \<subseteq> {..<TERMINATED}" using wrap.list_rep_bounds [OF Ds(1)] by (rule at_least_bound [OF Ds(2)])
  then show b: "D \<subseteq> {..<TERMINATED}" using cur by (auto split: if_splits)
  have f: "?c = first_doc D \<and> D - {first_doc D} = ?P"
  proof (cases "?c = TERMINATED")
    case False
    then have "?P \<subseteq> {?c<..}" using cur by (intro at_least_bound [OF Ds(2)]) simp
    moreover from this have "first_doc D = ?c" using cur False b by (intro first_doc_eqI) auto
    ultimately show ?thesis using cur False by auto
  qed (use cur in simp)
  then show "ds_doc (disjunction_ops ops) d = first_doc D" by (simp add: disjunction_ops_def)
  show "\<exists>d'. ds_advance (disjunction_ops ops) d = Some (ds_doc (disjunction_ops ops) d', d') \<and>
      disjunction_rep rep (D - {first_doc D}) d'"
    using dj_advance_law [OF Ds] f by (simp add: disjunction_ops_def)
qed

sublocale disjunction_of \<subseteq> dj: docset_seek "disjunction_ops ops" "disjunction_rep rep"
  by (rule dj.docset_seek_default) (simp add: disjunction_ops_def)

sublocale disjunction_of \<subseteq> dj: docset "disjunction_ops ops" "disjunction_rep rep" "valid_ready (disjunction_rep rep)"
  by (rule dj.docset_default) (simp add: disjunction_ops_def)

context disjunction_of
begin

lemma disjunction_new_rep:
  assumes "list_all2 rep Ds ss" "0 < m"
  shows "\<exists>d. disjunction_new ops ss m = Some d \<and> disjunction_rep rep (at_least m Ds) d"
proof -
  have w: "list_all2 (wrapper_rep rep) Ds (map (wrapper_new ops) ss)"
    using assms(1) by (simp add: list_all2_conv_all_nth wrapper_rep_def wrapper_new_def doc_first)
  let ?d = "\<lparr>dj_chains = map (wrapper_new ops) ss, dj_minimum_matches_required = m, dj_current_doc = TERMINATED\<rparr>"
  show ?thesis
  proof (cases "m > length ss")
    case True
    have "matches Ds x < m" for x
      using True list_all2_lengthD [OF assms(1)] length_filter_le [of "\<lambda>D. x \<in> D" Ds] by (simp add: matches_def)
    then have "at_least m Ds = {}" by (auto simp: at_least_def not_le)
    then show ?thesis using True w assms(2) by (auto simp: disjunction_new_def disjunction_rep_def)
  next
    case False
    then show ?thesis using dj_advance_law [of Ds ?d] w assms(2) by (auto simp: disjunction_new_def)
  qed
qed

lemma disjunction_docset:
  "docset (disjunction_ops ops) (disjunction_rep rep) (valid_ready (disjunction_rep rep))"
  by unfold_locales

end

interpretation vec_disjunction: disjunction_of vec_ops vec_rep
  by unfold_locales

interpretation vec_wrapper: wrapper_of vec_ops vec_rep "valid_ready vec_rep"
  by unfold_locales

text \<open>
  Property C8. Over children that iterate correctly, the disjunction with a minimum number of matches
  returns from its constructor and from every advance, keeps the whole document-set contract, and holds
  exactly the documents that at least the required number of children have.
\<close>

theorem disjunction_correct:
  assumes "docset_iter ops rep" "list_all2 rep Ds ss" "0 < minimum"
  shows "docset (disjunction_ops ops) (disjunction_rep rep) (valid_ready (disjunction_rep rep)) \<and>
    (\<exists>d. disjunction_new ops ss minimum = Some d \<and>
       disjunction_rep rep {doc. minimum \<le> length (filter (\<lambda>D. doc \<in> D) Ds)} d)"
proof -
  have u: "disjunction_of ops rep" using assms(1) by (simp add: disjunction_of_def)
  show ?thesis
    using disjunction_of.disjunction_docset [OF u] disjunction_of.disjunction_new_rep [OF u assms(2,3)]
    unfolding at_least_def matches_def by blast
qed

theorem disjunction_correct_witness:
  "docset_iter vec_ops vec_rep \<and>
   (\<exists>d. disjunction_new vec_ops [\<lparr>vd_doc_ids = [2, 4], vd_cursor = 0\<rparr>, \<lparr>vd_doc_ids = [1, 4, 6], vd_cursor = 0\<rparr>] 2 = Some d \<and>
      dj_current_doc d = 4)"
proof -
  have i: "docset_iter vec_ops vec_rep" by unfold_locales
  have l: "list_all2 vec_rep [{2, 4}, {1, 4, 6}]
    [\<lparr>vd_doc_ids = [2, 4], vd_cursor = 0\<rparr>, \<lparr>vd_doc_ids = [1, 4, 6], vd_cursor = 0\<rparr>]"
    by (simp add: vec_rep_def TERMINATED_def)
  have D: "{doc. 2 \<le> length (filter (\<lambda>D. doc \<in> D) [{2, 4}, {1, 4, 6 :: nat}])} = {4}" by auto
  from disjunction_correct [OF i l, of 2]
  obtain d where "disjunction_new vec_ops [\<lparr>vd_doc_ids = [2, 4], vd_cursor = 0\<rparr>, \<lparr>vd_doc_ids = [1, 4, 6], vd_cursor = 0\<rparr>] 2 = Some d"
    "disjunction_rep vec_rep {4} d" unfolding D by auto
  moreover from this(2) have "dj_current_doc d = 4"
    by (auto simp: disjunction_rep_def Let_def at_least_def split: if_splits dest: vec_disjunction.dj.doc_first)
  ultimately show ?thesis using i by blast
qed

end
