(* ===== verification/Scorers.thy ===== *)
theory Scorers
  imports Disjunction
begin

text \<open>
  Document sets with scores: the \<open>Scorer\<close> trait of \<^verbatim>\<open>src/query/scorer.rs\<close>, the score combiners of
  \<^verbatim>\<open>score_combiner.rs\<close>, the wrappers \<open>ConstScorer\<close> (\<^verbatim>\<open>const_score_query.rs\<close>), \<open>BoostScorer\<close>
  (\<^verbatim>\<open>boost_query.rs\<close>) and \<open>RequiredOptionalScorer\<close> (\<^verbatim>\<open>reqopt_scorer.rs\<close>), and the document set filtered
  by a predicate (\<^verbatim>\<open>doc_predicate_query/mod.rs\<close>). Scores are floats: their type and its arithmetic
  are parameters, nothing is assumed of them.
\<close>

section \<open>Definitions\<close>

record 'f float_ops =
  f_zero :: 'f
  f_one :: 'f
  f_add :: "'f \<Rightarrow> 'f \<Rightarrow> 'f"
  f_sub :: "'f \<Rightarrow> 'f \<Rightarrow> 'f"
  f_mul :: "'f \<Rightarrow> 'f \<Rightarrow> 'f"
  f_max :: "'f \<Rightarrow> 'f \<Rightarrow> 'f"

datatype combiner_kind = KDoNothing | KSum | KDisjunctionMax

datatype 'f score_combiner =
    DoNothingCombiner
  | SumCombiner 'f
  | DisjunctionMaxCombiner 'f 'f 'f

definition combiner_default :: "'f float_ops \<Rightarrow> combiner_kind \<Rightarrow> 'f score_combiner" where
  "combiner_default fo k =
     (case k of KDoNothing \<Rightarrow> DoNothingCombiner | KSum \<Rightarrow> SumCombiner (f_zero fo)
      | KDisjunctionMax \<Rightarrow> DisjunctionMaxCombiner (f_zero fo) (f_zero fo) (f_zero fo))"

definition with_tie_breaker :: "'f float_ops \<Rightarrow> 'f \<Rightarrow> 'f score_combiner" where
  "with_tie_breaker fo tie_breaker = DisjunctionMaxCombiner (f_zero fo) (f_zero fo) tie_breaker"

definition combiner_update ::
  "'f float_ops \<Rightarrow> ('s \<Rightarrow> ('f \<times> 's) option) \<Rightarrow> 's \<Rightarrow> 'f score_combiner \<Rightarrow> ('f score_combiner \<times> 's) option" where
  "combiner_update fo score s c =
     (case c of
        DoNothingCombiner \<Rightarrow> Some (DoNothingCombiner, s)
      | SumCombiner x \<Rightarrow> score s \<bind> (\<lambda>(v, s'). Some (SumCombiner (f_add fo x v), s'))
      | DisjunctionMaxCombiner mx acc tie \<Rightarrow>
          score s \<bind> (\<lambda>(v, s'). Some (DisjunctionMaxCombiner (f_max fo v mx) (f_add fo acc v) tie, s')))"

definition combiner_clear :: "'f float_ops \<Rightarrow> 'f score_combiner \<Rightarrow> 'f score_combiner" where
  "combiner_clear fo c =
     (case c of DoNothingCombiner \<Rightarrow> DoNothingCombiner | SumCombiner x \<Rightarrow> SumCombiner (f_zero fo)
      | DisjunctionMaxCombiner mx acc tie \<Rightarrow> DisjunctionMaxCombiner (f_zero fo) (f_zero fo) tie)"

definition combiner_score :: "'f float_ops \<Rightarrow> 'f score_combiner \<Rightarrow> 'f" where
  "combiner_score fo c =
     (case c of DoNothingCombiner \<Rightarrow> f_one fo | SumCombiner x \<Rightarrow> x
      | DisjunctionMaxCombiner mx acc tie \<Rightarrow> f_add fo mx (f_mul fo (f_sub fo acc mx) tie))"

subsection \<open>Constant and boosted scores\<close>

record ('s, 'f) const_scorer =
  cs_docset :: 's
  cs_score :: 'f

text \<open>The state of a wrapper that passes every call on to the wrapped set.\<close>

definition lift_state :: "('w \<Rightarrow> 's) \<Rightarrow> ('s \<Rightarrow> 'w) \<Rightarrow> ('s \<Rightarrow> ('r \<times> 's) option) \<Rightarrow> 'w \<Rightarrow> ('r \<times> 'w) option" where
  "lift_state get put f w = f (get w) \<bind> (\<lambda>(r, s). Some (r, put s))"

definition const_ops :: "'s docset_ops \<Rightarrow> ('s, 'f) const_scorer docset_ops" where
  "const_ops ops =
     \<lparr>ds_doc = (\<lambda>w. ds_doc ops (cs_docset w)),
      ds_advance = (\<lambda>w. lift_state cs_docset (\<lambda>s. w\<lparr>cs_docset := s\<rparr>) (ds_advance ops) w),
      ds_seek = (\<lambda>t w. lift_state cs_docset (\<lambda>s. w\<lparr>cs_docset := s\<rparr>) (ds_seek ops t) w),
      ds_seek_danger = (\<lambda>t w. lift_state cs_docset (\<lambda>s. w\<lparr>cs_docset := s\<rparr>) (ds_seek_danger ops t) w),
      ds_size_hint = (\<lambda>w. ds_size_hint ops (cs_docset w)), ds_cost = (\<lambda>w. ds_cost ops (cs_docset w))\<rparr>"

definition const_score :: "('s, 'f) const_scorer \<Rightarrow> ('f \<times> ('s, 'f) const_scorer) option" where
  "const_score w = Some (cs_score w, w)"

record ('s, 'f) boost_scorer =
  bs_underlying :: 's
  bs_boost :: 'f

definition boost_ops :: "'s docset_ops \<Rightarrow> ('s, 'f) boost_scorer docset_ops" where
  "boost_ops ops =
     \<lparr>ds_doc = (\<lambda>w. ds_doc ops (bs_underlying w)),
      ds_advance = (\<lambda>w. lift_state bs_underlying (\<lambda>s. w\<lparr>bs_underlying := s\<rparr>) (ds_advance ops) w),
      ds_seek = (\<lambda>t w. lift_state bs_underlying (\<lambda>s. w\<lparr>bs_underlying := s\<rparr>) (ds_seek ops t) w),
      ds_seek_danger = (\<lambda>t w. lift_state bs_underlying (\<lambda>s. w\<lparr>bs_underlying := s\<rparr>) (ds_seek_danger ops t) w),
      ds_size_hint = (\<lambda>w. ds_size_hint ops (bs_underlying w)), ds_cost = (\<lambda>w. ds_cost ops (bs_underlying w))\<rparr>"

definition boost_score ::
  "'f float_ops \<Rightarrow> ('s \<Rightarrow> ('f \<times> 's) option) \<Rightarrow> ('s, 'f) boost_scorer \<Rightarrow> ('f \<times> ('s, 'f) boost_scorer) option" where
  "boost_score fo score w =
     score (bs_underlying w) \<bind> (\<lambda>(v, s). Some (f_mul fo v (bs_boost w), w\<lparr>bs_underlying := s\<rparr>))"

subsection \<open>A required and an optional scorer\<close>

record ('r, 'o, 'f) reqopt_scorer =
  ro_req_scorer :: 'r
  ro_opt_scorer :: 'o
  ro_score_cache :: "'f option"

definition reqopt_new :: "'r \<Rightarrow> 'o \<Rightarrow> ('r, 'o, 'f) reqopt_scorer" where
  "reqopt_new req_scorer opt_scorer =
     \<lparr>ro_req_scorer = req_scorer, ro_opt_scorer = opt_scorer, ro_score_cache = None\<rparr>"

definition reqopt_put :: "('r, 'o, 'f) reqopt_scorer \<Rightarrow> 'r \<Rightarrow> ('r, 'o, 'f) reqopt_scorer" where
  "reqopt_put w s = w\<lparr>ro_req_scorer := s, ro_score_cache := None\<rparr>"

definition reqopt_ops :: "'r docset_ops \<Rightarrow> ('r, 'o, 'f) reqopt_scorer docset_ops" where
  "reqopt_ops ops =
     \<lparr>ds_doc = (\<lambda>w. ds_doc ops (ro_req_scorer w)),
      ds_advance = (\<lambda>w. lift_state ro_req_scorer (reqopt_put w) (ds_advance ops) w),
      ds_seek = (\<lambda>t w. lift_state ro_req_scorer (reqopt_put w) (ds_seek ops t) w),
      ds_seek_danger = (\<lambda>t w. lift_state ro_req_scorer (reqopt_put w) (ds_seek_danger ops t) w),
      ds_size_hint = (\<lambda>w. ds_size_hint ops (ro_req_scorer w)), ds_cost = (\<lambda>w. ds_cost ops (ro_req_scorer w))\<rparr>"

definition reqopt_score ::
  "'f float_ops \<Rightarrow> combiner_kind \<Rightarrow> 'r docset_ops \<Rightarrow> ('r \<Rightarrow> ('f \<times> 'r) option) \<Rightarrow> 'o docset_ops \<Rightarrow> ('o \<Rightarrow> ('f \<times> 'o) option) \<Rightarrow>
    ('r, 'o, 'f) reqopt_scorer \<Rightarrow> ('f \<times> ('r, 'o, 'f) reqopt_scorer) option" where
  "reqopt_score fo k req_ops rscore opt_ops oscore w =
     (case ro_score_cache w of
        Some score \<Rightarrow> Some (score, w)
      | None \<Rightarrow>
          let doc = ds_doc req_ops (ro_req_scorer w)
          in combiner_update fo rscore (ro_req_scorer w) (combiner_default fo k) \<bind> (\<lambda>(c, req).
             (if ds_doc opt_ops (ro_opt_scorer w) \<le> doc
              then ds_seek opt_ops doc (ro_opt_scorer w) \<bind> (\<lambda>(d, opt).
                     if d = doc then combiner_update fo oscore opt c else Some (c, opt))
              else Some (c, ro_opt_scorer w)) \<bind> (\<lambda>(c', opt).
             let score = combiner_score fo c'
             in Some (score, w\<lparr>ro_req_scorer := req, ro_opt_scorer := opt, ro_score_cache := Some score\<rparr>))))"

subsection \<open>A document set filtered by a predicate\<close>

record ('s, 'p) doc_predicate_docset =
  dp_doc_predicate :: 'p
  dp_necessary_condition :: 's

definition eval_candidate ::
  "('p \<Rightarrow> nat \<Rightarrow> bool \<times> 'p) \<Rightarrow> nat \<Rightarrow> ('s, 'p) doc_predicate_docset \<Rightarrow> seek_danger_result \<times> ('s, 'p) doc_predicate_docset" where
  "eval_candidate eval candidate w =
     (let (b, p) = eval (dp_doc_predicate w) candidate
      in (if b then Found else SeekLowerBound (candidate + 1), w\<lparr>dp_doc_predicate := p\<rparr>))"

partial_function (option) find_match ::
  "'s docset_ops \<Rightarrow> ('p \<Rightarrow> nat \<Rightarrow> bool \<times> 'p) \<Rightarrow> nat \<Rightarrow> ('s, 'p) doc_predicate_docset \<Rightarrow>
     (nat \<times> ('s, 'p) doc_predicate_docset) option" where
  "find_match ops eval candidate w =
     (if candidate = TERMINATED then Some (candidate, w)
      else
        (let (b, p) = eval (dp_doc_predicate w) candidate; w' = w\<lparr>dp_doc_predicate := p\<rparr>
         in if b then Some (candidate, w')
            else ds_advance ops (dp_necessary_condition w') \<bind> (\<lambda>(candidate', s).
                   find_match ops eval candidate' (w'\<lparr>dp_necessary_condition := s\<rparr>))))"

definition dp_new ::
  "'s docset_ops \<Rightarrow> ('p \<Rightarrow> nat \<Rightarrow> bool \<times> 'p) \<Rightarrow> 'p \<Rightarrow> 's \<Rightarrow> ('s, 'p) doc_predicate_docset option" where
  "dp_new ops eval doc_predicate necessary_condition =
     map_option snd (find_match ops eval (ds_doc ops necessary_condition)
       \<lparr>dp_doc_predicate = doc_predicate, dp_necessary_condition = necessary_condition\<rparr>)"

definition dp_advance ::
  "'s docset_ops \<Rightarrow> ('p \<Rightarrow> nat \<Rightarrow> bool \<times> 'p) \<Rightarrow> ('s, 'p) doc_predicate_docset \<Rightarrow> (nat \<times> ('s, 'p) doc_predicate_docset) option" where
  "dp_advance ops eval w =
     (if ds_doc ops (dp_necessary_condition w) = TERMINATED then Some (TERMINATED, w)
      else ds_advance ops (dp_necessary_condition w) \<bind> (\<lambda>(candidate, s).
             find_match ops eval candidate (w\<lparr>dp_necessary_condition := s\<rparr>)))"

definition dp_seek ::
  "'s docset_ops \<Rightarrow> ('p \<Rightarrow> nat \<Rightarrow> bool \<times> 'p) \<Rightarrow> nat \<Rightarrow> ('s, 'p) doc_predicate_docset \<Rightarrow> (nat \<times> ('s, 'p) doc_predicate_docset) option" where
  "dp_seek ops eval target w =
     (let doc = ds_doc ops (dp_necessary_condition w)
      in if doc \<ge> target then Some (doc, w)
         else ds_seek ops target (dp_necessary_condition w) \<bind> (\<lambda>(candidate, s).
                find_match ops eval candidate (w\<lparr>dp_necessary_condition := s\<rparr>)))"

definition dp_seek_danger ::
  "'s docset_ops \<Rightarrow> ('p \<Rightarrow> nat \<Rightarrow> bool \<times> 'p) \<Rightarrow> nat \<Rightarrow> ('s, 'p) doc_predicate_docset \<Rightarrow>
     (seek_danger_result \<times> ('s, 'p) doc_predicate_docset) option" where
  "dp_seek_danger ops eval target w =
     ds_seek_danger ops target (dp_necessary_condition w) \<bind> (\<lambda>(r, s).
       let w' = w\<lparr>dp_necessary_condition := s\<rparr>
       in case r of Found \<Rightarrow> Some (eval_candidate eval target w') | SeekLowerBound b \<Rightarrow> Some (SeekLowerBound b, w'))"

definition dp_new_seeked_to ::
  "'s docset_ops \<Rightarrow> ('p \<Rightarrow> nat \<Rightarrow> bool \<times> 'p) \<Rightarrow> 'p \<Rightarrow> 's \<Rightarrow> nat \<Rightarrow>
     (seek_danger_result \<times> ('s, 'p) doc_predicate_docset) option" where
  "dp_new_seeked_to ops eval doc_predicate necessary_condition target =
     (let w = \<lparr>dp_doc_predicate = doc_predicate, dp_necessary_condition = necessary_condition\<rparr>;
          first_candidate = ds_doc ops necessary_condition
      in if target \<ge> TERMINATED
         then (if first_candidate < TERMINATED
               then ds_seek ops TERMINATED necessary_condition \<bind> (\<lambda>(_, s). Some (w\<lparr>dp_necessary_condition := s\<rparr>))
               else Some w) \<bind> (\<lambda>w'. Some (SeekLowerBound TERMINATED, w'))
         else if first_candidate < target then dp_seek_danger ops eval target w
         else if first_candidate = target then Some (eval_candidate eval target w)
         else Some (SeekLowerBound first_candidate, w))"

definition dp_ops ::
  "'s docset_ops \<Rightarrow> ('p \<Rightarrow> nat \<Rightarrow> bool \<times> 'p) \<Rightarrow> ('p \<Rightarrow> nat) \<Rightarrow> ('s, 'p) doc_predicate_docset docset_ops" where
  "dp_ops ops eval pcost =
     \<lparr>ds_doc = (\<lambda>w. ds_doc ops (dp_necessary_condition w)), ds_advance = dp_advance ops eval,
      ds_seek = dp_seek ops eval, ds_seek_danger = dp_seek_danger ops eval,
      ds_size_hint = (\<lambda>w. ds_size_hint ops (dp_necessary_condition w)),
      ds_cost = (\<lambda>w. ds_cost ops (dp_necessary_condition w) * pcost (dp_doc_predicate w))\<rparr>"

text \<open>A plain function of the document id as a predicate: evaluating it changes nothing.\<close>

definition function_eval :: "(nat \<Rightarrow> bool) \<Rightarrow> nat \<Rightarrow> bool \<times> (nat \<Rightarrow> bool)" where
  "function_eval f doc_id = (f doc_id, f)"

definition default_predicate_cost :: "'p \<Rightarrow> nat" where
  "default_predicate_cost p = 100"

section \<open>Scorers\<close>

text \<open>
  \<open>rep v D s\<close>: a valid state whose remaining documents are \<open>D\<close>, document \<open>d\<close> scoring \<open>v d\<close>.
  Asking for the score keeps the position.
\<close>

locale scored =
  fixes ops :: "'s docset_ops" and score :: "'s \<Rightarrow> ('f \<times> 's) option"
    and rep :: "(nat \<Rightarrow> 'f) \<Rightarrow> nat set \<Rightarrow> 's \<Rightarrow> bool"
  assumes scored_seek: "docset_seek ops (rep v)"
    and score_law: "rep v D s \<Longrightarrow> D \<noteq> {} \<Longrightarrow> \<exists>s'. score s = Some (v (first_doc D), s') \<and> rep v D s'"

text \<open>Adding a value to a combiner.\<close>

definition combiner_add :: "'f float_ops \<Rightarrow> 'f \<Rightarrow> 'f score_combiner \<Rightarrow> 'f score_combiner" where
  "combiner_add fo x c =
     (case c of DoNothingCombiner \<Rightarrow> DoNothingCombiner | SumCombiner y \<Rightarrow> SumCombiner (f_add fo y x)
      | DisjunctionMaxCombiner mx acc tie \<Rightarrow> DisjunctionMaxCombiner (f_max fo x mx) (f_add fo acc x) tie)"

lemma lift_state_Some: "lift_state get put f w = Some (r, w') \<longleftrightarrow> (\<exists>s. f (get w) = Some (r, s) \<and> w' = put s)"
  by (auto simp: lift_state_def bind_eq_Some_conv)

context scored
begin

lemma combiner_update_law:
  assumes "rep v D s" "D \<noteq> {}"
  shows "\<exists>s'. combiner_update fo score s c = Some (combiner_add fo (v (first_doc D)) c, s') \<and> rep v D s'"
  using score_law [OF assms] assms(1)
  by (cases c) (auto simp: combiner_update_def combiner_add_def)

end

text \<open>
  A wrapper that passes the calls on. The documents of the wrapped set may be described by a family of
  contracts, of which each state of the wrapper uses one.
\<close>

lemma docset_seek_lift:
  assumes "\<And>i. docset_seek ops (rep i)"
    and "\<And>D w. wrep D w \<Longrightarrow> \<exists>i. rep i D (get w) \<and> (\<forall>E s. rep i E s \<longrightarrow> E \<subseteq> D \<longrightarrow> wrep E (put w s))"
    and "\<And>w s. get (put w s) = s"
    and "wops = \<lparr>ds_doc = (\<lambda>w. ds_doc ops (get w)), ds_advance = (\<lambda>w. lift_state get (put w) (ds_advance ops) w),
      ds_seek = (\<lambda>t w. lift_state get (put w) (ds_seek ops t) w), ds_seek_danger = sd, ds_size_hint = sh, ds_cost = co\<rparr>"
  shows "docset_seek wops wrep"
proof unfold_locales
  fix D w assume "wrep D w"
  then obtain i where i: "rep i D (get w)" "\<And>E s. rep i E s \<Longrightarrow> E \<subseteq> D \<Longrightarrow> wrep E (put w s)" using assms(2) by metis
  note seek = docset_seek.seek_law [OF assms(1) i(1)] and iter = docset_seek.axioms(1) [OF assms(1) [of i]]
  show "D \<subseteq> {..<TERMINATED}" using docset_iter.rep_bound [OF iter i(1)] .
  show "ds_doc wops w = first_doc D" using docset_iter.doc_first [OF iter i(1)] assms(4) by simp
  show "\<exists>w'. ds_advance wops w = Some (ds_doc wops w', w') \<and> wrep (D - {first_doc D}) w'"
    using docset_iter.advance_law [OF iter i(1)] i(2) assms(3) by (fastforce simp: assms(4) lift_state_Some)
  show "\<exists>w'. ds_seek wops t w = Some (ds_doc wops w', w') \<and> wrep (D \<inter> {t..}) w'"
    if "first_doc D \<le> t" "t \<le> TERMINATED" for t
    using seek [OF that] i(2) assms(3) by (fastforce simp: assms(4) lift_state_Some)
qed

definition const_rep :: "(nat set \<Rightarrow> 's \<Rightarrow> bool) \<Rightarrow> (nat \<Rightarrow> 'f) \<Rightarrow> nat set \<Rightarrow> ('s, 'f) const_scorer \<Rightarrow> bool" where
  "const_rep rep v D w \<longleftrightarrow> rep D (cs_docset w) \<and> v = (\<lambda>_. cs_score w)"

locale const_of = docset_seek ops rep for ops :: "'s docset_ops" and rep

sublocale const_of \<subseteq> const: scored "const_ops ops :: ('s, 'f) const_scorer docset_ops" const_score "const_rep rep"
proof (rule scored.intro)
  fix v :: "nat \<Rightarrow> 'f"
  have "docset_seek ops rep" by unfold_locales
  then show "docset_seek (const_ops ops) (const_rep rep v)"
    by (rule docset_seek_lift [where rep = "\<lambda>_ :: unit. rep" and get = cs_docset and put = "\<lambda>w s. w\<lparr>cs_docset := s\<rparr>"])
      (auto simp: const_rep_def const_ops_def)
qed (auto simp: const_rep_def const_score_def)

definition boost_rep ::
  "'f float_ops \<Rightarrow> ((nat \<Rightarrow> 'f) \<Rightarrow> nat set \<Rightarrow> 's \<Rightarrow> bool) \<Rightarrow> (nat \<Rightarrow> 'f) \<Rightarrow> nat set \<Rightarrow> ('s, 'f) boost_scorer \<Rightarrow> bool" where
  "boost_rep fo rep v D w \<longleftrightarrow> (\<exists>u. rep u D (bs_underlying w) \<and> v = (\<lambda>d. f_mul fo (u d) (bs_boost w)))"

locale boost_of = scored ops score rep
  for ops :: "'s docset_ops" and score :: "'s \<Rightarrow> ('f \<times> 's) option" and rep +
  fixes fo :: "'f float_ops"

sublocale boost_of \<subseteq> boost: scored "boost_ops ops" "boost_score fo score" "boost_rep fo rep"
proof (rule scored.intro)
  show "docset_seek (boost_ops ops) (boost_rep fo rep v)" for v
    using scored_seek
    by (rule docset_seek_lift [where rep = rep and get = bs_underlying and put = "\<lambda>w s. w\<lparr>bs_underlying := s\<rparr>"])
      (auto simp: boost_rep_def boost_ops_def)
  show "\<exists>w'. boost_score fo score w = Some (v (first_doc D), w') \<and> boost_rep fo rep v D w'"
    if "boost_rep fo rep v D w" "D \<noteq> {}" for v D w
    using that score_law by (fastforce simp: boost_rep_def boost_score_def)
qed

section \<open>Required and optional scorer\<close>

definition reqopt_value :: "'f float_ops \<Rightarrow> combiner_kind \<Rightarrow> (nat \<Rightarrow> 'f) \<Rightarrow> (nat \<Rightarrow> 'f) \<Rightarrow> nat set \<Rightarrow> nat \<Rightarrow> 'f" where
  "reqopt_value fo k vr vo S d =
     combiner_score fo
       (let c = combiner_add fo (vr d) (combiner_default fo k) in if d \<in> S then combiner_add fo (vo d) c else c)"

definition reqopt_rep ::
  "'f float_ops \<Rightarrow> combiner_kind \<Rightarrow> ((nat \<Rightarrow> 'f) \<Rightarrow> nat set \<Rightarrow> 'r \<Rightarrow> bool) \<Rightarrow> ((nat \<Rightarrow> 'f) \<Rightarrow> nat set \<Rightarrow> 'o \<Rightarrow> bool) \<Rightarrow>
     (nat \<Rightarrow> 'f) \<Rightarrow> nat set \<Rightarrow> ('r, 'o, 'f) reqopt_scorer \<Rightarrow> bool" where
  "reqopt_rep fo k rrep orep v D w \<longleftrightarrow>
     (\<exists>vr vo S S'. rrep vr D (ro_req_scorer w) \<and> orep vo S' (ro_opt_scorer w) \<and>
        (\<forall>d. first_doc D \<le> d \<longrightarrow> (d \<in> S \<longleftrightarrow> d \<in> S')) \<and> v = reqopt_value fo k vr vo S \<and>
        (case ro_score_cache w of None \<Rightarrow> True | Some x \<Rightarrow> D \<noteq> {} \<longrightarrow> x = v (first_doc D)))"

lemma first_doc_subset:
  assumes "E \<subseteq> D" "D \<subseteq> {..<TERMINATED}"
  shows "first_doc D \<le> first_doc E"
  using assms first_doc_bound [OF assms(2)] by (intro first_doc_ge) (auto intro: first_doc_le)

locale reqopt_of = req: scored req_ops rscore rrep + opt: scored opt_ops oscore orep
  for req_ops :: "'r docset_ops" and rscore :: "'r \<Rightarrow> ('f \<times> 'r) option" and rrep
    and opt_ops :: "'o docset_ops" and oscore :: "'o \<Rightarrow> ('f \<times> 'o) option" and orep +
  fixes fo :: "'f float_ops" and k :: combiner_kind

sublocale reqopt_of \<subseteq> reqopt: scored "reqopt_ops req_ops" "reqopt_score fo k req_ops rscore opt_ops oscore" "reqopt_rep fo k rrep orep"
proof (rule scored.intro)
  fix v
  have put: "\<exists>i. rrep i D (ro_req_scorer w) \<and> (\<forall>E s. rrep i E s \<longrightarrow> E \<subseteq> D \<longrightarrow> reqopt_rep fo k rrep orep v E (reqopt_put w s))"
    if w: "reqopt_rep fo k rrep orep v D w" for D w
  proof -
    obtain vr vo S S' where r: "rrep vr D (ro_req_scorer w)" "orep vo S' (ro_opt_scorer w)"
      "\<forall>d. first_doc D \<le> d \<longrightarrow> (d \<in> S \<longleftrightarrow> d \<in> S')" "v = reqopt_value fo k vr vo S"
      using w by (auto simp: reqopt_rep_def)
    have bound: "D \<subseteq> {..<TERMINATED}"
      using docset_iter.rep_bound [OF docset_seek.axioms(1) [OF req.scored_seek] r(1)] .
    have "reqopt_rep fo k rrep orep v E (reqopt_put w s)" if "rrep vr E s" "E \<subseteq> D" for E s
    proof -
      have "\<forall>d. first_doc E \<le> d \<longrightarrow> (d \<in> S \<longleftrightarrow> d \<in> S')"
        using r(3) first_doc_subset [OF that(2) bound] by (meson order_trans)
      then show ?thesis using r(2,4) that(1) by (auto simp: reqopt_rep_def reqopt_put_def)
    qed
    then show ?thesis using r(1) by blast
  qed
  show "docset_seek (reqopt_ops req_ops) (reqopt_rep fo k rrep orep v)"
    using req.scored_seek put
    by (rule docset_seek_lift [where get = ro_req_scorer and put = reqopt_put]) (auto simp: reqopt_put_def reqopt_ops_def)
  show "\<exists>w'. reqopt_score fo k req_ops rscore opt_ops oscore w = Some (v (first_doc D), w') \<and> reqopt_rep fo k rrep orep v D w'"
    if w: "reqopt_rep fo k rrep orep v D w" and ne: "D \<noteq> {}" for D w
  proof -
    obtain vr vo S S' where r: "rrep vr D (ro_req_scorer w)" "orep vo S' (ro_opt_scorer w)"
      "\<forall>d. first_doc D \<le> d \<longrightarrow> (d \<in> S \<longleftrightarrow> d \<in> S')" "v = reqopt_value fo k vr vo S"
      "case ro_score_cache w of None \<Rightarrow> True | Some x \<Rightarrow> D \<noteq> {} \<longrightarrow> x = v (first_doc D)"
      using w by (auto simp: reqopt_rep_def)
    show ?thesis
    proof (cases "ro_score_cache w")
      case (Some x)
      then show ?thesis using r(5) w ne by (simp add: reqopt_score_def)
    next
      case None
      let ?d = "first_doc D" and ?c = "combiner_add fo (vr (first_doc D)) (combiner_default fo k)"
      note rs = req.scored_seek [of vr] and os = opt.scored_seek [of vo]
      have doc: "ds_doc req_ops (ro_req_scorer w) = ?d" using docset_iter.doc_first [OF docset_seek.axioms(1) [OF rs] r(1)] .
      have odoc: "ds_doc opt_ops (ro_opt_scorer w) = first_doc S'" using docset_iter.doc_first [OF docset_seek.axioms(1) [OF os] r(2)] .
      have ob: "S' \<subseteq> {..<TERMINATED}" using docset_iter.rep_bound [OF docset_seek.axioms(1) [OF os] r(2)] .
      have "?d \<in> D" using first_doc_in [OF ne] docset_iter.rep_bound [OF docset_seek.axioms(1) [OF rs] r(1)] by blast
      then have dT: "?d < TERMINATED" using docset_iter.rep_bound [OF docset_seek.axioms(1) [OF rs] r(1)] by auto
      then have db: "?d \<le> TERMINATED" by simp
      obtain s' where s': "combiner_update fo rscore (ro_req_scorer w) (combiner_default fo k) = Some (?c, s')" "rrep vr D s'"
        using req.combiner_update_law [OF r(1) ne] by blast
      let ?c' = "if ?d \<in> S then combiner_add fo (vo ?d) ?c else ?c"
      have "\<exists>o' P. (if first_doc S' \<le> ?d
          then ds_seek opt_ops ?d (ro_opt_scorer w) \<bind> (\<lambda>(d, opt). if d = ?d then combiner_update fo oscore opt ?c else Some (?c, opt))
          else Some (?c, ro_opt_scorer w)) = Some (?c', o') \<and> orep vo P o' \<and> (\<forall>d. ?d \<le> d \<longrightarrow> (d \<in> S \<longleftrightarrow> d \<in> P))"
      proof (cases "first_doc S' \<le> ?d")
        case True
        let ?P = "S' \<inter> {?d..}"
        obtain o1 where o1: "ds_seek opt_ops ?d (ro_opt_scorer w) = Some (first_doc ?P, o1)" "orep vo ?P o1"
          using docset_seek.seek_first [OF os r(2) True db] by blast
        have same: "\<forall>d. ?d \<le> d \<longrightarrow> (d \<in> S \<longleftrightarrow> d \<in> ?P)" using r(3) by simp
        show ?thesis
        proof (cases "?d \<in> S")
          case mem: True
          then have "?d \<in> ?P" using same by simp
          then have f: "first_doc ?P = ?d" and ne': "?P \<noteq> {}" using ob by (auto intro: first_doc_eqI)
          from opt.combiner_update_law [OF o1(2) ne', of fo ?c] obtain o2 where
            "combiner_update fo oscore o1 ?c = Some (combiner_add fo (vo ?d) ?c, o2)" "orep vo ?P o2" unfolding f by blast
          then show ?thesis using True o1(1) f mem same by auto
        next
          case nmem: False
          then have "?d \<notin> ?P" using same by simp
          have "first_doc ?P \<noteq> ?d"
          proof
            assume eq: "first_doc ?P = ?d"
            then have "?P \<noteq> {}" using dT by auto
            then show False using first_doc_in [of ?P] ob eq \<open>?d \<notin> ?P\<close> by auto
          qed
          then show ?thesis using True o1 nmem same by auto
        qed
      next
        case False
        then have "?d \<notin> S" using r(3) first_doc_le [OF _ ob] by force
        then show ?thesis using False r(2,3) by auto
      qed
      then obtain o' P where o': "(if first_doc S' \<le> ?d
          then ds_seek opt_ops ?d (ro_opt_scorer w) \<bind> (\<lambda>(d, opt). if d = ?d then combiner_update fo oscore opt ?c else Some (?c, opt))
          else Some (?c, ro_opt_scorer w)) = Some (?c', o')" "orep vo P o'" "\<forall>d. ?d \<le> d \<longrightarrow> (d \<in> S \<longleftrightarrow> d \<in> P)" by blast
      have val: "combiner_score fo ?c' = v ?d" using r(4) by (simp add: reqopt_value_def Let_def)
      let ?w = "w\<lparr>ro_req_scorer := s', ro_opt_scorer := o', ro_score_cache := Some (v ?d)\<rparr>"
      have "reqopt_score fo k req_ops rscore opt_ops oscore w = Some (v ?d, ?w)"
        unfolding reqopt_score_def None option.case Let_def doc odoc s'(1) bind.bind_lunit prod.case o'(1) val ..
      moreover have "reqopt_rep fo k rrep orep v D ?w"
        unfolding reqopt_rep_def using s'(2) o'(2,3) r(4) by auto
      ultimately show ?thesis by blast
    qed
  qed
qed

context reqopt_of
begin

lemma reqopt_scored:
  "scored (reqopt_ops req_ops) (reqopt_score fo k req_ops rscore opt_ops oscore) (reqopt_rep fo k rrep orep)"
  by (rule reqopt.scored_axioms)

end

section \<open>Filtering by a predicate\<close>

text \<open>
  The predicate is code of its own with a state: its answer for a document is fixed, whatever was asked before.
\<close>

locale predicate =
  fixes eval :: "'p \<Rightarrow> nat \<Rightarrow> bool \<times> 'p" and accepts :: "nat set \<Rightarrow> 'p \<Rightarrow> bool"
  assumes eval_law: "accepts M p \<Longrightarrow> \<exists>p'. eval p d = (d \<in> M, p') \<and> accepts M p'"

definition dp_rep ::
  "(nat set \<Rightarrow> 's \<Rightarrow> bool) \<Rightarrow> (nat set \<Rightarrow> 'p \<Rightarrow> bool) \<Rightarrow> nat set \<Rightarrow> ('s, 'p) doc_predicate_docset \<Rightarrow> bool" where
  "dp_rep rep accepts D w \<longleftrightarrow>
     (\<exists>N M. rep N (dp_necessary_condition w) \<and> accepts M (dp_doc_predicate w) \<and> D = N \<inter> M \<and> (N \<noteq> {} \<longrightarrow> first_doc N \<in> M))"

definition dp_ready ::
  "(nat \<Rightarrow> nat set \<Rightarrow> 's \<Rightarrow> bool) \<Rightarrow> (nat set \<Rightarrow> 'p \<Rightarrow> bool) \<Rightarrow> nat \<Rightarrow> nat set \<Rightarrow> ('s, 'p) doc_predicate_docset \<Rightarrow> bool" where
  "dp_ready ready accepts t D w \<longleftrightarrow>
     (\<exists>N M. ready t N (dp_necessary_condition w) \<and> accepts M (dp_doc_predicate w) \<and> D = N \<inter> M)"

lemma first_doc_Int:
  assumes "N \<subseteq> {..<TERMINATED}" "N \<noteq> {} \<Longrightarrow> first_doc N \<in> M"
  shows "first_doc (N \<inter> M) = first_doc N"
proof (cases "N = {}")
  case False
  then show ?thesis using assms first_doc_in [OF False assms(1)] first_doc_le [OF _ assms(1)]
    by (intro first_doc_eqI) auto
qed simp

locale doc_predicate_of = docset ops rep ready + predicate eval accepts
  for ops :: "'s docset_ops" and rep and ready and eval :: "'p \<Rightarrow> nat \<Rightarrow> bool \<times> 'p" and accepts +
  fixes pcost :: "'p \<Rightarrow> nat"
begin

lemma find_match_law:
  assumes "rep N (dp_necessary_condition w)" "accepts M (dp_doc_predicate w)"
  shows "\<exists>w'. find_match ops eval (first_doc N) w = Some (first_doc (N \<inter> M), w') \<and> dp_rep rep accepts (N \<inter> M) w'"
  using assms
proof (induction "card N" arbitrary: N w rule: less_induct)
  case less
  note b = rep_bound [OF less.prems(1)]
  show ?case
  proof (cases "N = {}")
    case True
    then show ?thesis using less.prems by (auto simp: find_match.simps dp_rep_def)
  next
    case ne: False
    have d: "first_doc N \<in> N" using ne b by (rule first_doc_in)
    have dT: "first_doc N \<noteq> TERMINATED" using d b by auto
    obtain p' where p': "eval (dp_doc_predicate w) (first_doc N) = (first_doc N \<in> M, p')" "accepts M p'"
      using eval_law [OF less.prems(2)] by blast
    show ?thesis
    proof (cases "first_doc N \<in> M")
      case True
      then have f: "first_doc (N \<inter> M) = first_doc N" using b by (intro first_doc_Int) auto
      have "dp_rep rep accepts (N \<inter> M) (w\<lparr>dp_doc_predicate := p'\<rparr>)"
        unfolding dp_rep_def using less.prems(1) p'(2) True by auto
      then show ?thesis unfolding f using dT p'(1) True by (subst find_match.simps) simp
    next
      case False
      obtain s' where s': "ds_advance ops (dp_necessary_condition w) = Some (first_doc (N - {first_doc N}), s')"
        "rep (N - {first_doc N}) s'" using less.prems(1) by (rule advance_first)
      have eq: "(N - {first_doc N}) \<inter> M = N \<inter> M" using False by auto
      have "card (N - {first_doc N}) < card N" using d finite_docs [OF b] by (intro psubset_card_mono) auto
      from less.hyps [OF this, of "w\<lparr>dp_doc_predicate := p', dp_necessary_condition := s'\<rparr>"] s'(2) p'(2)
      show ?thesis unfolding eq using dT p'(1) False s'(1) by (subst find_match.simps) simp
    qed
  qed
qed

lemma eval_candidate_law:
  assumes "rep N (dp_necessary_condition w)" "accepts M (dp_doc_predicate w)" "t \<in> N" "N \<subseteq> {t..}"
  shows "\<exists>r w'. eval_candidate eval t w = (r, w') \<and> danger_result t (N \<inter> M) r \<and>
    (if t \<in> N \<inter> M then dp_rep rep accepts (N \<inter> M) w' else dp_ready ready accepts t (N \<inter> M) w')"
proof -
  obtain p' where p': "eval (dp_doc_predicate w) t = (t \<in> M, p')" "accepts M p'" using eval_law [OF assms(2)] by blast
  note rd = rep_ready_same [OF assms(1,3,4)]
  show ?thesis
  proof (cases "t \<in> M")
    case True
    then have "dp_rep rep accepts (N \<inter> M) (w\<lparr>dp_doc_predicate := p'\<rparr>)"
      unfolding dp_rep_def using assms(1) p'(2) rd(2) by auto
    then show ?thesis using True p' assms(3) by (simp add: eval_candidate_def danger_result_def)
  next
    case False
    then have "dp_ready ready accepts t (N \<inter> M) (w\<lparr>dp_doc_predicate := p'\<rparr>)"
      unfolding dp_ready_def using rd(1) p'(2) by auto
    moreover have "\<forall>d\<in>N \<inter> M. t + 1 \<le> d" using False assms(4) by (auto simp: Suc_le_eq order.strict_iff_order)
    moreover have "t < TERMINATED" using assms(3) rep_bound [OF assms(1)] by auto
    ultimately show ?thesis using False p'(1) by (simp add: eval_candidate_def danger_result_def danger_bound_def)
  qed
qed

lemma dp_danger_law:
  assumes "dp_ready ready accepts t D w" "t \<le> TERMINATED"
  shows "\<exists>r w'. dp_seek_danger ops eval t w = Some (r, w') \<and> danger_result t D r \<and>
    (if t \<in> D then dp_rep rep accepts D w' else dp_ready ready accepts t D w')"
proof -
  obtain N M where N: "ready t N (dp_necessary_condition w)" "accepts M (dp_doc_predicate w)" "D = N \<inter> M"
    using assms(1) by (auto simp: dp_ready_def)
  obtain r s' where r: "ds_seek_danger ops t (dp_necessary_condition w) = Some (r, s')" "danger_result t N r" "ready t N s'"
    "t \<in> N \<Longrightarrow> rep N s'" "r = Found \<longleftrightarrow> t \<in> N"
    using N(1) assms(2) by (rule seek_danger_ready) blast
  let ?w = "w\<lparr>dp_necessary_condition := s'\<rparr>"
  show ?thesis
  proof (cases "t \<in> N")
    case True
    have "N \<subseteq> {t..}" using ready_bound [OF N(1)] by auto
    from eval_candidate_law [OF _ _ True this, of ?w M] r(4) True N(2)
    show ?thesis unfolding N(3) using r(1,5) True by (auto simp: dp_seek_danger_def Let_def)
  next
    case False
    then obtain b where b: "r = SeekLowerBound b" "danger_bound t b" "\<forall>d\<in>N. b \<le> d"
      using r(2) by (auto simp: danger_result_def)
    have "dp_ready ready accepts t D ?w" unfolding dp_ready_def using r(3) N(2,3) by auto
    then show ?thesis using False b r(1) N(3) by (auto simp: dp_seek_danger_def Let_def danger_result_def)
  qed
qed

lemma dp_new_rep:
  assumes "rep N s" "accepts M p"
  shows "\<exists>w. dp_new ops eval p s = Some w \<and> dp_rep rep accepts (N \<inter> M) w"
  using find_match_law [of N "\<lparr>dp_doc_predicate = p, dp_necessary_condition = s\<rparr>" M] assms doc_first [OF assms(1)]
  by (auto simp: dp_new_def)

lemma dp_new_seeked_to_law:
  assumes "rep N s" "accepts M p" "t < TERMINATED"
  shows "\<exists>r w. dp_new_seeked_to ops eval p s t = Some (r, w) \<and> danger_result t (N \<inter> M \<inter> {t..}) r \<and>
    (if t \<in> N \<inter> M then dp_rep rep accepts (N \<inter> M \<inter> {t..}) w else (\<exists>u\<ge>t. dp_ready ready accepts u (N \<inter> M \<inter> {t..}) w))"
proof -
  note doc = doc_first [OF assms(1)] and b = rep_bound [OF assms(1)]
  let ?w = "\<lparr>dp_doc_predicate = p, dp_necessary_condition = s\<rparr>"
  have D: "N \<inter> M \<inter> {t..} = N \<inter> {t..} \<inter> M" by auto
  consider "first_doc N < t" | "first_doc N = t" | "t < first_doc N" by linarith
  then show ?thesis
  proof cases
    case 1
    have "ready t (N \<inter> {t..}) s" using assms(1) 1 by (intro rep_ready) auto
    then have "dp_ready ready accepts t (N \<inter> {t..} \<inter> M) ?w" unfolding dp_ready_def using assms(2) by auto
    from dp_danger_law [OF this] assms(3) obtain r w' where
      "dp_seek_danger ops eval t ?w = Some (r, w')" "danger_result t (N \<inter> {t..} \<inter> M) r"
      "if t \<in> N \<inter> {t..} \<inter> M then dp_rep rep accepts (N \<inter> {t..} \<inter> M) w' else dp_ready ready accepts t (N \<inter> {t..} \<inter> M) w'" by auto
    then show ?thesis unfolding D using 1 doc assms(3)
      by (intro exI [of _ r] exI [of _ w']) (auto simp: dp_new_seeked_to_def)
  next
    case 2
    have t: "t \<in> N" using 2 assms(3) first_doc_in [OF _ b] by (cases "N = {}") auto
    have ge: "N \<subseteq> {t..}" using 2 first_doc_le [OF _ b] by auto
    then have "N \<inter> {t..} = N" by auto
    moreover obtain r w' where "eval_candidate eval t ?w = (r, w')" "danger_result t (N \<inter> M) r"
      "if t \<in> N \<inter> M then dp_rep rep accepts (N \<inter> M) w' else dp_ready ready accepts t (N \<inter> M) w'"
      using eval_candidate_law [of N ?w M, OF _ _ t ge] assms by auto
    ultimately show ?thesis unfolding D using 2 doc assms(3)
      by (intro exI [of _ r] exI [of _ w']) (auto simp: dp_new_seeked_to_def)
  next
    case 3
    have ge: "first_doc N \<le> d" if "d \<in> N" for d using that b by (rule first_doc_le)
    then have N: "N \<inter> {t..} = N" "N \<inter> {first_doc N..} = N" using 3 by force+
    have "ready (first_doc N) N s" using rep_ready [OF assms(1) order_refl] N(2) by simp
    then have "dp_ready ready accepts (first_doc N) (N \<inter> M) ?w" unfolding dp_ready_def using assms(2) by auto
    moreover have "t \<notin> N" using 3 ge by force
    ultimately show ?thesis unfolding D N(1) using 3 doc ge assms(3)
      by (auto simp: dp_new_seeked_to_def danger_result_def danger_bound_def first_doc_bound [OF b] intro!: exI [of _ "first_doc N"])
  qed
qed

end

sublocale doc_predicate_of \<subseteq> dp: docset "dp_ops ops eval pcost" "dp_rep rep accepts" "dp_ready ready accepts"
proof unfold_locales
  fix D w and t u :: nat
  show "D \<subseteq> {t..<TERMINATED}" if "dp_ready ready accepts t D w" using that ready_bound by (fastforce simp: dp_ready_def)
  show "dp_ready ready accepts u (D \<inter> {u..}) w" if "dp_ready ready accepts t D w" "t \<le> u"
    using that ready_mono by (fastforce simp: dp_ready_def Int_ac)
  show "\<exists>r w'. ds_seek_danger (dp_ops ops eval pcost) t w = Some (r, w') \<and> danger_result t D r \<and>
      (if t \<in> D then dp_rep rep accepts D w' else dp_ready ready accepts t D w')"
    if "dp_ready ready accepts t D w" "t \<le> TERMINATED"
    using dp_danger_law [OF that] by (simp add: dp_ops_def)
  assume w: "dp_rep rep accepts D w"
  then obtain N M where N: "rep N (dp_necessary_condition w)" "accepts M (dp_doc_predicate w)" "D = N \<inter> M"
    "N \<noteq> {} \<Longrightarrow> first_doc N \<in> M" by (auto simp: dp_rep_def)
  note b = rep_bound [OF N(1)]
  have f: "first_doc D = first_doc N" unfolding N(3) using b N(4) by (rule first_doc_Int)
  note doc = doc_first [OF N(1)]
  show "D \<subseteq> {..<TERMINATED}" using b N(3) by auto
  show "ds_doc (dp_ops ops eval pcost) w = first_doc D" using doc f by (simp add: dp_ops_def)
  show "dp_ready ready accepts t (D \<inter> {t..}) w" if "first_doc D \<le> t"
    unfolding dp_ready_def using rep_ready [OF N(1), of t] that f N(2,3) by (intro exI [of _ "N \<inter> {t..}"] exI [of _ M]) auto
  have run: "\<exists>w'. find_match ops eval (first_doc E) (w\<lparr>dp_necessary_condition := s\<rparr>) = Some (ds_doc (dp_ops ops eval pcost) w', w') \<and>
      dp_rep rep accepts (E \<inter> M) w'" if E: "rep E s" for E s
  proof -
    obtain w' where w': "find_match ops eval (first_doc E) (w\<lparr>dp_necessary_condition := s\<rparr>) = Some (first_doc (E \<inter> M), w')"
      "dp_rep rep accepts (E \<inter> M) w'"
      using find_match_law [of E "w\<lparr>dp_necessary_condition := s\<rparr>" M] E N(2) by auto
    then obtain N' M' where "rep N' (dp_necessary_condition w')" "E \<inter> M = N' \<inter> M'" "N' \<noteq> {} \<Longrightarrow> first_doc N' \<in> M'"
      by (auto simp: dp_rep_def)
    then have "ds_doc (dp_ops ops eval pcost) w' = first_doc (E \<inter> M)"
      using doc_first [of N'] first_doc_Int [OF rep_bound [of N'], of "dp_necessary_condition w'" M'] by (simp add: dp_ops_def)
    then show ?thesis using w' by auto
  qed
  show "\<exists>w'. ds_advance (dp_ops ops eval pcost) w = Some (ds_doc (dp_ops ops eval pcost) w', w') \<and> dp_rep rep accepts (D - {first_doc D}) w'"
  proof (cases "N = {}")
    case True
    then show ?thesis using w N(3) doc by (simp add: dp_ops_def dp_advance_def)
  next
    case False
    then have nT: "ds_doc ops (dp_necessary_condition w) \<noteq> TERMINATED" using doc b by (simp add: first_doc_terminated_iff)
    obtain s' where s': "ds_advance ops (dp_necessary_condition w) = Some (first_doc (N - {first_doc N}), s')"
      "rep (N - {first_doc N}) s'" using N(1) by (rule advance_first)
    have "D - {first_doc D} = (N - {first_doc N}) \<inter> M" using f unfolding N(3) by auto
    then show ?thesis using run [OF s'(2)] s'(1) nT by (simp add: dp_ops_def dp_advance_def)
  qed
  show "\<exists>w'. ds_seek (dp_ops ops eval pcost) t w = Some (ds_doc (dp_ops ops eval pcost) w', w') \<and> dp_rep rep accepts (D \<inter> {t..}) w'"
    if t: "first_doc D \<le> t" "t \<le> TERMINATED"
  proof (cases "t \<le> first_doc N")
    case True
    then have "D \<inter> {t..} = D" using N(3) first_doc_le [OF _ b] by force
    then show ?thesis using True w doc by (simp add: dp_ops_def dp_seek_def)
  next
    case False
    obtain s' where s': "ds_seek ops t (dp_necessary_condition w) = Some (first_doc (N \<inter> {t..}), s')" "rep (N \<inter> {t..}) s'"
      using N(1) t f by (auto intro: seek_first)
    have "D \<inter> {t..} = N \<inter> {t..} \<inter> M" using N(3) by auto
    then show ?thesis using run [OF s'(2)] s'(1) False doc by (simp add: dp_ops_def dp_seek_def)
  qed
qed

context doc_predicate_of
begin

lemma dp_docset: "docset (dp_ops ops eval pcost) (dp_rep rep accepts) (dp_ready ready accepts)"
  by unfold_locales

end

section \<open>The model's own scorers\<close>

interpretation vec_const: const_of vec_ops vec_rep
  by unfold_locales

interpretation vec_boost: boost_of "const_ops vec_ops" const_score "const_rep vec_rep" fo for fo
  by unfold_locales

interpretation vec_reqopt: reqopt_of "const_ops vec_ops" const_score "const_rep vec_rep"
    "const_ops vec_ops" const_score "const_rep vec_rep" fo k for fo k
  by unfold_locales

definition function_accepts :: "nat set \<Rightarrow> (nat \<Rightarrow> bool) \<Rightarrow> bool" where
  "function_accepts M f \<longleftrightarrow> f = (\<lambda>d. d \<in> M)"

interpretation function_predicate: predicate function_eval function_accepts
  by unfold_locales (simp add: function_eval_def function_accepts_def)

interpretation vec_predicate: doc_predicate_of vec_ops vec_rep "valid_ready vec_rep" function_eval function_accepts
    default_predicate_cost
  by unfold_locales



text \<open>
  Property C10. A document set filtered by a predicate keeps the whole document-set contract, dangerous seeks
  included, over a necessary condition that keeps it, and holds exactly the documents of the condition
  that the predicate accepts; built around a target it answers as a dangerous seek would.
\<close>

theorem doc_predicate_correct:
  assumes "docset ops rep ready" "predicate eval accepts" "rep N s" "accepts M p" "target < TERMINATED"
  shows "docset (dp_ops ops eval pcost) (dp_rep rep accepts) (dp_ready ready accepts) \<and>
    (\<exists>w. dp_new ops eval p s = Some w \<and> dp_rep rep accepts (N \<inter> M) w) \<and>
    (\<exists>r w. dp_new_seeked_to ops eval p s target = Some (r, w) \<and> danger_result target (N \<inter> M \<inter> {target..}) r \<and>
      (if target \<in> N \<inter> M then dp_rep rep accepts (N \<inter> M \<inter> {target..}) w
       else \<exists>u\<ge>target. dp_ready ready accepts u (N \<inter> M \<inter> {target..}) w))"
proof -
  have d: "doc_predicate_of ops rep ready eval accepts" using assms(1,2) by (simp add: doc_predicate_of_def)
  show ?thesis
    using doc_predicate_of.dp_docset [OF d] doc_predicate_of.dp_new_rep [OF d assms(3,4)]
      doc_predicate_of.dp_new_seeked_to_law [OF d assms(3-5)] by blast
qed

theorem doc_predicate_correct_witness:
  "\<exists>w. dp_new vec_ops function_eval (\<lambda>d. d \<in> {0, 2, 4}) \<lparr>vd_doc_ids = [1, 4, 6], vd_cursor = 0\<rparr> = Some w \<and>
     ds_doc (dp_ops vec_ops function_eval default_predicate_cost) w = 4"
proof -
  have d: "docset vec_ops vec_rep (valid_ready vec_rep)" "predicate function_eval function_accepts" by unfold_locales
  have r: "vec_rep {1, 4, 6} \<lparr>vd_doc_ids = [1, 4, 6], vd_cursor = 0\<rparr>" by (simp add: vec_rep_def TERMINATED_def)
  have a: "function_accepts {0, 2, 4} (\<lambda>d. d \<in> {0, 2, 4})" by (simp add: function_accepts_def)
  have i: "{1, 4, 6 :: nat} \<inter> {0, 2, 4} = {4}" by auto
  have "(0 :: nat) < TERMINATED" by (simp add: TERMINATED_def)
  note t = doc_predicate_correct [where ops = vec_ops and rep = vec_rep and ready = "valid_ready vec_rep" and eval = function_eval
      and accepts = function_accepts and pcost = default_predicate_cost, OF d r a this, unfolded i]
  then obtain w where "dp_new vec_ops function_eval (\<lambda>d. d \<in> {0, 2, 4}) \<lparr>vd_doc_ids = [1, 4, 6], vd_cursor = 0\<rparr> = Some w"
    "dp_rep vec_rep function_accepts {4} w" by blast
  moreover from this(2) have "ds_doc (dp_ops vec_ops function_eval default_predicate_cost) w = first_doc {4}"
    by (rule vec_predicate.dp.doc_first)
  ultimately show ?thesis by (simp add: first_doc_def)
qed

end
