(* ===== verification/BoxedScorer.thy ===== *)
theory BoxedScorer
  imports Scorers IntersectionCount BufferedUnion Exclude
begin

text \<open>
  Trait objects: \<open>Box<dyn Scorer>\<close> as the behaviour of a document set, a codatatype whose destructors are the
  methods of the trait and the concrete type its \<open>is::<T>()\<close> tests see. Boxing a state unfolds its
  operations into the behaviour. The contract of boxed scorers is the largest one: a behaviour
  keeps it when some contract on behaviours does, so every document set of the development that keeps the
  contract can be boxed, and boxed scorers can be the children of every combinator.
\<close>

section \<open>Definitions\<close>

text \<open>The concrete types the code asks for; a term scorer comes with whether it reads frequencies.\<close>

datatype scorer_type = TypeAllScorer | TypeEmptyScorer | TypeTermScorer bool | TypeOther

codatatype boxed =
  Boxed (bx_type: scorer_type) (bx_doc: nat) (bx_advance: "(nat \<times> boxed) option")
    (bx_seek: "nat \<Rightarrow> (nat \<times> boxed) option") (bx_seek_danger: "nat \<Rightarrow> (seek_danger_result \<times> boxed) option")
    (bx_size_hint: nat) (bx_cost: nat)

primcorec box :: "scorer_type \<Rightarrow> 's docset_ops \<Rightarrow> 's \<Rightarrow> boxed" where
  "bx_type (box ty ops s) = ty"
| "bx_doc (box ty ops s) = ds_doc ops s"
| "bx_advance (box ty ops s) = map_option (map_prod id (box ty ops)) (ds_advance ops s)"
| "bx_seek (box ty ops s) = (\<lambda>t. map_option (map_prod id (box ty ops)) (ds_seek ops t s))"
| "bx_seek_danger (box ty ops s) = (\<lambda>t. map_option (map_prod id (box ty ops)) (ds_seek_danger ops t s))"
| "bx_size_hint (box ty ops s) = ds_size_hint ops s"
| "bx_cost (box ty ops s) = ds_cost ops s"

definition box_ops :: "boxed docset_ops" where
  "box_ops =
     \<lparr>ds_doc = bx_doc, ds_advance = bx_advance, ds_seek = (\<lambda>t b. bx_seek b t),
      ds_seek_danger = (\<lambda>t b. bx_seek_danger b t), ds_size_hint = bx_size_hint, ds_cost = bx_cost\<rparr>"

definition box_all :: "nat \<Rightarrow> boxed" where
  "box_all max_doc = box TypeAllScorer all_ops (all_scorer_new max_doc)"

definition box_empty :: boxed where
  "box_empty = box TypeEmptyScorer empty_ops ()"

section \<open>The contract of boxed scorers\<close>

text \<open>The concrete type of a trait object never changes.\<close>

definition box_contract :: "scorer_type \<Rightarrow> (nat set \<Rightarrow> boxed \<Rightarrow> bool) \<Rightarrow> (nat \<Rightarrow> nat set \<Rightarrow> boxed \<Rightarrow> bool) \<Rightarrow> bool" where
  "box_contract ty rep ready \<longleftrightarrow>
     docset box_ops rep ready \<and> (\<forall>D b. rep D b \<longrightarrow> bx_type b = ty) \<and> (\<forall>t D b. ready t D b \<longrightarrow> bx_type b = ty)"

definition box_rep :: "nat set \<Rightarrow> boxed \<Rightarrow> bool" where
  "box_rep D b \<longleftrightarrow> (\<exists>ty rep ready. box_contract ty rep ready \<and> rep D b)"

definition box_ready :: "nat \<Rightarrow> nat set \<Rightarrow> boxed \<Rightarrow> bool" where
  "box_ready t D b \<longleftrightarrow> (\<exists>ty rep ready. box_contract ty rep ready \<and> ready t D b)"

lemma box_repI: "box_contract ty rep ready \<Longrightarrow> rep D b \<Longrightarrow> box_rep D b"
  unfolding box_rep_def by (intro exI conjI)

lemma box_readyI: "box_contract ty rep ready \<Longrightarrow> ready t D b \<Longrightarrow> box_ready t D b"
  unfolding box_ready_def by (intro exI conjI)

lemma box_contract_docset: "box_contract ty rep ready \<Longrightarrow> docset box_ops rep ready"
  by (simp add: box_contract_def)

lemma box_repE:
  assumes "box_rep D b"
  obtains ty rep ready where "box_contract ty rep ready" "docset box_ops rep ready" "rep D b"
proof -
  obtain ty rep ready where c: "box_contract ty rep ready" and r: "rep D b"
    using assms unfolding box_rep_def by (elim exE conjE)
  show ?thesis by (rule that [OF c box_contract_docset [OF c] r])
qed

lemma box_readyE:
  assumes "box_ready t D b"
  obtains ty rep ready where "box_contract ty rep ready" "docset box_ops rep ready" "ready t D b"
proof -
  obtain ty rep ready where c: "box_contract ty rep ready" and r: "ready t D b"
    using assms unfolding box_ready_def by (elim exE conjE)
  show ?thesis by (rule that [OF c box_contract_docset [OF c] r])
qed

interpretation boxed: docset box_ops box_rep box_ready
proof unfold_locales
  fix D b and t u :: nat
  show "D \<subseteq> {..<TERMINATED}" "ds_doc box_ops b = first_doc D"
    "\<exists>b'. ds_advance box_ops b = Some (ds_doc box_ops b', b') \<and> box_rep (D - {first_doc D}) b'"
    if r: "box_rep D b"
  proof -
    from r obtain ty rep ready where c: "box_contract ty rep ready" and d: "docset box_ops rep ready" and b: "rep D b" by (rule box_repE)
    have i: "docset_iter box_ops rep" using d by (simp add: docset_def docset_seek_def)
    show "D \<subseteq> {..<TERMINATED}" by (rule docset_iter.rep_bound [OF i b])
    show "ds_doc box_ops b = first_doc D" by (rule docset_iter.doc_first [OF i b])
    show "\<exists>b'. ds_advance box_ops b = Some (ds_doc box_ops b', b') \<and> box_rep (D - {first_doc D}) b'"
      using docset_iter.advance_law [OF i b] box_repI [OF c] by blast
  qed
  show "\<exists>b'. ds_seek box_ops t b = Some (ds_doc box_ops b', b') \<and> box_rep (D \<inter> {t..}) b'"
    if r: "box_rep D b" "first_doc D \<le> t" "t \<le> TERMINATED"
  proof -
    from r(1) obtain ty rep ready where c: "box_contract ty rep ready" and d: "docset box_ops rep ready" and b: "rep D b" by (rule box_repE)
    have s: "docset_seek box_ops rep" using d by (simp add: docset_def)
    show ?thesis using docset_seek.seek_law [OF s b r(2,3)] box_repI [OF c] by blast
  qed
  show "box_ready t (D \<inter> {t..}) b" if r: "box_rep D b" "first_doc D \<le> t"
  proof -
    from r(1) obtain ty rep ready where c: "box_contract ty rep ready" and d: "docset box_ops rep ready" and b: "rep D b" by (rule box_repE)
    show ?thesis using box_readyI [OF c docset.rep_ready [OF d b r(2)]] .
  qed
  show "D \<subseteq> {t..<TERMINATED}" if r: "box_ready t D b"
  proof -
    from r obtain ty rep ready where c: "box_contract ty rep ready" and d: "docset box_ops rep ready" and b: "ready t D b" by (rule box_readyE)
    show ?thesis by (rule docset.ready_bound [OF d b])
  qed
  show "box_ready u (D \<inter> {u..}) b" if r: "box_ready t D b" "t \<le> u"
  proof -
    from r(1) obtain ty rep ready where c: "box_contract ty rep ready" and d: "docset box_ops rep ready" and b: "ready t D b" by (rule box_readyE)
    show ?thesis by (rule box_readyI [OF c docset.ready_mono [OF d b r(2)]])
  qed
  show "\<exists>r b'. ds_seek_danger box_ops t b = Some (r, b') \<and> danger_result t D r \<and>
      (if t \<in> D then box_rep D b' else box_ready t D b')"
    if r: "box_ready t D b" "t \<le> TERMINATED"
  proof -
    from r(1) obtain ty rep ready where c: "box_contract ty rep ready" and d: "docset box_ops rep ready" and b: "ready t D b" by (rule box_readyE)
    obtain x b' where x: "ds_seek_danger box_ops t b = Some (x, b')" "danger_result t D x"
      "if t \<in> D then rep D b' else ready t D b'"
      using docset.danger_law [OF d b r(2)] by blast
    then show ?thesis using box_repI [OF c] box_readyI [OF c] by (intro exI [of _ x] exI [of _ b']) auto
  qed
qed

lemma box_danger_type:
  assumes "box_ready t D b" "t \<le> TERMINATED" "bx_seek_danger b t = Some (r, b')"
  shows "bx_type b' = bx_type b"
proof -
  from assms(1) obtain ty rep ready where c: "box_contract ty rep ready" and d: "docset box_ops rep ready" and b: "ready t D b"
    by (rule box_readyE)
  have "if t \<in> D then rep D b' else ready t D b'"
    using docset.danger_law [OF d b assms(2)] assms(3) by (auto simp: box_ops_def)
  then show ?thesis using c b unfolding box_contract_def by (metis (full_types))
qed

text \<open>Boxing keeps the contract.\<close>

definition boxing :: "scorer_type \<Rightarrow> 's docset_ops \<Rightarrow> ('s \<Rightarrow> bool) \<Rightarrow> boxed \<Rightarrow> bool" where
  "boxing ty ops P b \<longleftrightarrow> (\<exists>s. b = box ty ops s \<and> P s)"

context docset
begin

lemma box_docset: "docset box_ops (\<lambda>D. boxing ty ops (rep D)) (\<lambda>t D. boxing ty ops (ready t D))"
proof unfold_locales
  fix D b and t u :: nat
  show "D \<subseteq> {..<TERMINATED}" "ds_doc box_ops b = first_doc D" if "boxing ty ops (rep D) b"
    using that rep_bound doc_first by (auto simp: boxing_def box_ops_def)
  show "\<exists>b'. ds_advance box_ops b = Some (ds_doc box_ops b', b') \<and> boxing ty ops (rep (D - {first_doc D})) b'"
    if b: "boxing ty ops (rep D) b"
  proof -
    obtain s where s: "b = box ty ops s" "rep D s" using b by (auto simp: boxing_def)
    obtain s' where "ds_advance ops s = Some (ds_doc ops s', s')" "rep (D - {first_doc D}) s'" using advance_law [OF s(2)] by blast
    then show ?thesis using s(1) by (intro exI [of _ "box ty ops s'"]) (auto simp: boxing_def box_ops_def)
  qed
  show "\<exists>b'. ds_seek box_ops t b = Some (ds_doc box_ops b', b') \<and> boxing ty ops (rep (D \<inter> {t..})) b'"
    if b: "boxing ty ops (rep D) b" "first_doc D \<le> t" "t \<le> TERMINATED"
  proof -
    obtain s where s: "b = box ty ops s" "rep D s" using b by (auto simp: boxing_def)
    obtain s' where "ds_seek ops t s = Some (ds_doc ops s', s')" "rep (D \<inter> {t..}) s'" using seek_law [OF s(2) b(2,3)] by blast
    then show ?thesis using s(1) by (intro exI [of _ "box ty ops s'"]) (auto simp: boxing_def box_ops_def)
  qed
  show "D \<subseteq> {t..<TERMINATED}" if "boxing ty ops (ready t D) b"
    using that ready_bound by (auto simp: boxing_def)
  show "boxing ty ops (ready u (D \<inter> {u..})) b" if "boxing ty ops (ready t D) b" "t \<le> u"
    using that ready_mono by (auto simp: boxing_def)
  show "boxing ty ops (ready t (D \<inter> {t..})) b" if "boxing ty ops (rep D) b" "first_doc D \<le> t"
    using that rep_ready by (auto simp: boxing_def)
  show "\<exists>r b'. ds_seek_danger box_ops t b = Some (r, b') \<and> danger_result t D r \<and>
      (if t \<in> D then boxing ty ops (rep D) b' else boxing ty ops (ready t D) b')"
    if b: "boxing ty ops (ready t D) b" "t \<le> TERMINATED"
  proof -
    obtain s where s: "b = box ty ops s" "ready t D s" using b by (auto simp: boxing_def)
    obtain r s' where "ds_seek_danger ops t s = Some (r, s')" "danger_result t D r" "if t \<in> D then rep D s' else ready t D s'"
      using danger_law [OF s(2) b(2)] by blast
    then show ?thesis using s(1) by (intro exI [of _ r] exI [of _ "box ty ops s'"]) (auto simp: boxing_def box_ops_def)
  qed
qed

lemma box_docset_contract: "box_contract ty (\<lambda>D. boxing ty ops (rep D)) (\<lambda>t D. boxing ty ops (ready t D))"
  unfolding box_contract_def using box_docset [of ty] by (auto simp: boxing_def)

lemma box_rep_box: "rep D s \<Longrightarrow> box_rep D (box ty ops s)"
  by (rule box_repI [OF box_docset_contract [of ty]]) (auto simp: boxing_def)

lemma box_ready_box: "ready t D s \<Longrightarrow> box_ready t D (box ty ops s)"
  by (rule box_readyI [OF box_docset_contract [of ty]]) (auto simp: boxing_def)

end

lemma box_empty_rep: "box_rep {} box_empty"
  unfolding box_empty_def by (rule empty.box_rep_box) (simp add: empty_rep_def)

lemma box_all_rep: "max_doc \<le> TERMINATED \<Longrightarrow> box_rep {..<max_doc} (box_all max_doc)"
  unfolding box_all_def by (rule all.box_rep_box) (auto simp: all_rep_def all_scorer_new_def)

end
