(* ===== verification/BooleanWeight.thy ===== *)
theory BooleanWeight
  imports BoxedScorer
begin

text \<open>
  The boolean query, \<^verbatim>\<open>src/query/boolean_query/boolean_weight.rs\<close> and \<^verbatim>\<open>occur_weights.rs\<close>, with the
  default \<open>scorer_danger\<close> of \<^verbatim>\<open>src/query/weight.rs\<close>: the rewriting of the clauses, the aligned creation of
  the required scorers, the removal of scorers that match everything or nothing, and the choice and
  composition of intersection, union, disjunction, required-optional and exclusion scorers over boxed
  children. Scores are left out. A weight is seen through the segment it is asked for: the scorers it returns.
\<close>

section \<open>Weights\<close>

text \<open>The question mark operator on results of code that may also panic.\<close>

definition try_bind :: "('e + 'a) option \<Rightarrow> ('a \<Rightarrow> ('e + 'b) option) \<Rightarrow> ('e + 'b) option" where
  "try_bind m f = m \<bind> (\<lambda>r. case r of Inl e \<Rightarrow> Some (Inl e) | Inr a \<Rightarrow> f a)"

record 'e boxed_weight =
  bw_scorer :: "('e + boxed) option"
  bw_scorer_danger :: "nat \<Rightarrow> ('e + seek_danger_result \<times> boxed) option"

definition default_scorer_danger :: "('e + boxed) option \<Rightarrow> nat \<Rightarrow> ('e + seek_danger_result \<times> boxed) option" where
  "default_scorer_danger scorer target =
     try_bind scorer (\<lambda>s.
       if bx_doc s < target then bx_seek_danger s target \<bind> (\<lambda>x. Some (Inr x))
       else if bx_doc s = target then Some (Inr (Found, s))
       else Some (Inr (SeekLowerBound (bx_doc s), s)))"

datatype occur = Should | Must | MustNot

record 'e occur_weights =
  occ_must :: "'e boxed_weight list"
  occ_should :: "'e boxed_weight list"
  occ_must_not :: "'e boxed_weight list"

definition occur_default :: "'e occur_weights" where
  "occur_default = \<lparr>occ_must = [], occ_should = [], occ_must_not = []\<rparr>"

definition occur_push :: "'e occur_weights \<Rightarrow> occur \<times> 'e boxed_weight \<Rightarrow> 'e occur_weights" where
  "occur_push ws ow =
     (let (occur, w) = ow in
      case occur of
        Must \<Rightarrow> ws\<lparr>occ_must := occ_must ws @ [w]\<rparr>
      | Should \<Rightarrow> ws\<lparr>occ_should := occ_should ws @ [w]\<rparr>
      | MustNot \<Rightarrow> ws\<lparr>occ_must_not := occ_must_not ws @ [w]\<rparr>)"

definition promote_should_to_must :: "'e occur_weights \<Rightarrow> 'e occur_weights" where
  "promote_should_to_must ws = ws\<lparr>occ_must := occ_must ws @ occ_should ws, occ_should := []\<rparr>"

definition occur_len :: "'e occur_weights \<Rightarrow> nat" where
  "occur_len ws = length (occ_must ws) + length (occ_should ws) + length (occ_must_not ws)"

definition occur_iter :: "'e occur_weights \<Rightarrow> (occur \<times> 'e boxed_weight) list" where
  "occur_iter ws = map (Pair Must) (occ_must ws) @ map (Pair Should) (occ_should ws) @ map (Pair MustNot) (occ_must_not ws)"

section \<open>Scorers of clauses\<close>

datatype specialized_scorer =
    TermUnion "boxed list"
  | TermIntersection "boxed list"
  | OtherScorer boxed

text \<open>The size estimates are floating-point computations and stay arguments.\<close>

record estimators =
  est_intersection :: "(boxed, boxed) intersection \<Rightarrow> nat"
  est_union :: "boxed buffered_union \<Rightarrow> nat"

definition boxed_intersect_scorers :: "estimators \<Rightarrow> boxed list \<Rightarrow> nat \<Rightarrow> boxed option" where
  "boxed_intersect_scorers est scorers num_docs =
     map_option
       (\<lambda>r. case r of
          ScorersEmpty \<Rightarrow> box_empty
        | ScorersSingle s \<Rightarrow> s
        | ScorersIntersection x \<Rightarrow> box TypeOther (intersection_ops (est_intersection est) box_ops box_ops) x)
       (intersect_scorers box_ops scorers num_docs)"

definition boxed_union :: "estimators \<Rightarrow> boxed list \<Rightarrow> nat \<Rightarrow> boxed option" where
  "boxed_union est scorers num_docs =
     map_option (box TypeOther (buffered_union_ops (est_union est) box_ops)) (buffered_union_build box_ops scorers num_docs)"

definition is_term :: "boxed \<Rightarrow> bool" where
  "is_term b = (case bx_type b of TypeTermScorer _ \<Rightarrow> True | _ \<Rightarrow> False)"

definition reads_freq :: "boxed \<Rightarrow> bool" where
  "reads_freq b \<longleftrightarrow> bx_type b = TypeTermScorer True"

definition scorer_disjunction :: "boxed list \<Rightarrow> nat \<Rightarrow> boxed option" where
  "scorer_disjunction scorers minimum_match_required =
     (case scorers of
        [s] \<Rightarrow> Some s
      | _ \<Rightarrow> map_option (box TypeOther (disjunction_ops box_ops)) (disjunction_new box_ops scorers minimum_match_required))"

definition scorer_union :: "estimators \<Rightarrow> boxed list \<Rightarrow> nat \<Rightarrow> specialized_scorer option" where
  "scorer_union est scorers num_docs =
     (case scorers of
        [] \<Rightarrow> None
      | s # ss \<Rightarrow>
          if ss = [] \<and> \<not> is_term s then Some (OtherScorer s)
          else if list_all is_term scorers then
            (if list_all reads_freq scorers then Some (TermUnion scorers)
             else if ss = [] then Some (OtherScorer s)
             else map_option OtherScorer (boxed_union est scorers num_docs))
          else map_option OtherScorer (boxed_union est scorers num_docs))"

definition into_box_scorer :: "estimators \<Rightarrow> nat \<Rightarrow> specialized_scorer \<Rightarrow> boxed option" where
  "into_box_scorer est num_docs sc =
     (case sc of
        TermUnion ts \<Rightarrow> (case ts of [t] \<Rightarrow> Some t | _ \<Rightarrow> boxed_union est ts num_docs)
      | TermIntersection ts \<Rightarrow> boxed_intersect_scorers est ts num_docs
      | OtherScorer s \<Rightarrow> Some s)"

definition effective_must_scorer :: "estimators \<Rightarrow> boxed list \<Rightarrow> nat \<Rightarrow> nat \<Rightarrow> nat \<Rightarrow> boxed option option" where
  "effective_must_scorer est must_scorers removed_all_scorer_count max_doc num_docs =
     (if must_scorers = [] then Some (if removed_all_scorer_count > 0 then Some (box_all max_doc) else None)
      else map_option Some (boxed_intersect_scorers est must_scorers num_docs))"

definition effective_should_scorer_for_union ::
  "estimators \<Rightarrow> specialized_scorer \<Rightarrow> nat \<Rightarrow> nat \<Rightarrow> nat \<Rightarrow> bool \<Rightarrow> specialized_scorer option" where
  "effective_should_scorer_for_union est should_scorer removed_all_scorer_count max_doc num_docs scoring_enabled =
     (if removed_all_scorer_count > 0 then
        if scoring_enabled then
          into_box_scorer est num_docs should_scorer \<bind> (\<lambda>s.
            map_option OtherScorer (boxed_union est [s, box_all max_doc] num_docs))
        else Some (OtherScorer (box_all max_doc))
      else Some should_scorer)"

section \<open>Aligned creation of the required scorers\<close>

text \<open>The first loop: \<open>None\<close> in the result when a candidate reaches the end.\<close>

fun create_loop ::
  "'e boxed_weight list \<Rightarrow> nat \<Rightarrow> nat \<Rightarrow> boxed list \<Rightarrow> ('e + (nat \<times> nat \<times> boxed list) option) option" where
  "create_loop [] candidate num_scorer_aligned scorers = Some (Inr (Some (candidate, num_scorer_aligned, scorers)))"
| "create_loop (w # ws) candidate num_scorer_aligned scorers =
     try_bind (bw_scorer_danger w candidate) (\<lambda>(seek_result, scorer).
       let (candidate', num') =
             (case seek_result of SeekLowerBound c \<Rightarrow> (c, 0) | Found \<Rightarrow> (candidate, num_scorer_aligned + 1))
       in if candidate' \<ge> TERMINATED then Some (Inr None)
          else create_loop ws candidate' num' (scorers @ [scorer]))"

partial_function (option) align_loop :: "boxed list \<Rightarrow> nat \<Rightarrow> nat \<Rightarrow> nat \<Rightarrow> boxed list option" where
  "align_loop scorers candidate num_scorer_aligned scorer_ord =
     (if num_scorer_aligned < length scorers then
        bx_seek_danger (scorers ! scorer_ord) candidate \<bind> (\<lambda>(r, s).
          let scorers' = scorers[scorer_ord := s]; ord' = (scorer_ord + 1) mod length scorers
          in case r of
               SeekLowerBound b \<Rightarrow> if b = TERMINATED then Some [box_empty] else align_loop scorers' b 0 ord'
             | Found \<Rightarrow> align_loop scorers' candidate (num_scorer_aligned + 1) ord')
      else Some scorers)"

definition create_aligned_scorers_for_intersection :: "'e boxed_weight list \<Rightarrow> ('e + boxed list) option" where
  "create_aligned_scorers_for_intersection ws =
     try_bind (create_loop ws 0 0 []) (\<lambda>r.
       case r of
         None \<Rightarrow> Some (Inr [box_empty])
       | Some (candidate, num, scorers) \<Rightarrow> align_loop scorers candidate num 0 \<bind> (\<lambda>ss. Some (Inr ss)))"

section \<open>The boolean weight\<close>

record 'e boolean_weight =
  wt_per_occur :: "'e occur_weights"
  wt_minimum_number_should_match :: nat
  wt_scoring_enabled :: bool

definition with_minimum_number_should_match ::
  "(occur \<times> 'e boxed_weight) list \<Rightarrow> nat \<Rightarrow> bool \<Rightarrow> 'e boolean_weight" where
  "with_minimum_number_should_match weights minimum_number_should_match scoring_enabled =
     (let ws = foldl occur_push occur_default weights; num_should = length (occ_should ws)
      in if num_should > minimum_number_should_match then
           \<lparr>wt_per_occur = ws, wt_minimum_number_should_match = minimum_number_should_match, wt_scoring_enabled = scoring_enabled\<rparr>
         else if num_should = minimum_number_should_match then
           \<lparr>wt_per_occur = promote_should_to_must ws, wt_minimum_number_should_match = 0, wt_scoring_enabled = scoring_enabled\<rparr>
         else \<lparr>wt_per_occur = occur_default, wt_minimum_number_should_match = 0, wt_scoring_enabled = scoring_enabled\<rparr>)"

fun map_scorers :: "'e boxed_weight list \<Rightarrow> ('e + boxed list) option" where
  "map_scorers [] = Some (Inr [])"
| "map_scorers (w # ws) = try_bind (bw_scorer w) (\<lambda>s. try_bind (map_scorers ws) (\<lambda>ss. Some (Inr (s # ss))))"

record all_and_empty_scorer_counts =
  num_all_scorers :: nat
  num_empty_scorers :: nat

definition remove_and_count_all_and_empty_scorers :: "boxed list \<Rightarrow> all_and_empty_scorer_counts \<times> boxed list" where
  "remove_and_count_all_and_empty_scorers scorers =
     (\<lparr>num_all_scorers = length (filter (\<lambda>s. bx_type s = TypeAllScorer) scorers),
       num_empty_scorers = length (filter (\<lambda>s. bx_type s = TypeEmptyScorer) scorers)\<rparr>,
      filter (\<lambda>s. bx_type s \<noteq> TypeAllScorer \<and> bx_type s \<noteq> TypeEmptyScorer) scorers)"

datatype should_method = ShouldIgnored | ShouldOptional specialized_scorer | ShouldRequired specialized_scorer

text \<open>How the optional clauses combine, with the required scorers they may join.\<close>

definition combine_should ::
  "estimators \<Rightarrow> nat \<Rightarrow> boxed list \<Rightarrow> boxed list \<Rightarrow> nat \<Rightarrow> (should_method \<times> boxed list) option" where
  "combine_should est effective_minimum should_scorers must_scorers num_docs =
     (if effective_minimum = 0 then
        if should_scorers = [] then Some (ShouldIgnored, must_scorers)
        else scorer_union est should_scorers num_docs \<bind> (\<lambda>s. Some (ShouldOptional s, must_scorers))
      else if effective_minimum = 1 then
        scorer_union est should_scorers num_docs \<bind> (\<lambda>s. Some (ShouldRequired s, must_scorers))
      else if length should_scorers = effective_minimum then Some (ShouldIgnored, must_scorers @ should_scorers)
      else scorer_disjunction should_scorers effective_minimum \<bind> (\<lambda>s.
             Some (ShouldRequired (OtherScorer s), must_scorers)))"

definition include_ignored :: "estimators \<Rightarrow> boxed list \<Rightarrow> nat \<Rightarrow> nat \<Rightarrow> nat \<Rightarrow> specialized_scorer option" where
  "include_ignored est must_scorers combined_all_scorer_count max_doc num_docs =
     (if combined_all_scorer_count = 0 \<and> length must_scorers \<ge> 2 \<and> list_all is_term must_scorers then
        if list_all reads_freq must_scorers then Some (TermIntersection must_scorers)
        else effective_must_scorer est must_scorers 0 max_doc num_docs \<bind> (\<lambda>m.
               Some (OtherScorer (case m of Some s \<Rightarrow> s | None \<Rightarrow> box_empty)))
      else effective_must_scorer est must_scorers combined_all_scorer_count max_doc num_docs \<bind> (\<lambda>m.
             Some (OtherScorer (case m of Some s \<Rightarrow> s | None \<Rightarrow> box_empty))))"

definition include_optional ::
  "estimators \<Rightarrow> specialized_scorer \<Rightarrow> boxed list \<Rightarrow> nat \<Rightarrow> nat \<Rightarrow> nat \<Rightarrow> nat \<Rightarrow> bool \<Rightarrow> specialized_scorer option" where
  "include_optional est should_scorer must_scorers num_must_all num_should_all max_doc num_docs scoring_enabled =
     effective_must_scorer est must_scorers num_must_all max_doc num_docs \<bind> (\<lambda>m.
       case m of
         None \<Rightarrow> effective_should_scorer_for_union est should_scorer num_should_all max_doc num_docs scoring_enabled
       | Some must_scorer \<Rightarrow>
           if scoring_enabled then
             into_box_scorer est num_docs should_scorer \<bind> (\<lambda>opt.
               Some (OtherScorer (box TypeOther (reqopt_ops box_ops)
                 (reqopt_new must_scorer opt :: (boxed, boxed, unit) reqopt_scorer))))
           else Some (OtherScorer must_scorer))"

definition include_required ::
  "estimators \<Rightarrow> specialized_scorer \<Rightarrow> boxed list \<Rightarrow> nat \<Rightarrow> nat \<Rightarrow> nat \<Rightarrow> specialized_scorer option" where
  "include_required est should_scorer must_scorers num_must_all max_doc num_docs =
     effective_must_scorer est must_scorers num_must_all max_doc num_docs \<bind> (\<lambda>m.
       case m of
         None \<Rightarrow> Some should_scorer
       | Some must_scorer \<Rightarrow>
           into_box_scorer est num_docs should_scorer \<bind> (\<lambda>s.
             map_option OtherScorer (boxed_intersect_scorers est [must_scorer, s] num_docs)))"

definition include_by ::
  "estimators \<Rightarrow> should_method \<Rightarrow> boxed list \<Rightarrow> nat \<Rightarrow> nat \<Rightarrow> nat \<Rightarrow> nat \<Rightarrow> bool \<Rightarrow> specialized_scorer option" where
  "include_by est method must_scorers num_must_all num_should_all max_doc num_docs scoring_enabled =
     (case method of
        ShouldIgnored \<Rightarrow> include_ignored est must_scorers (num_must_all + num_should_all) max_doc num_docs
      | ShouldOptional s \<Rightarrow>
          include_optional est s must_scorers num_must_all num_should_all max_doc num_docs scoring_enabled
      | ShouldRequired s \<Rightarrow> include_required est s must_scorers num_must_all max_doc num_docs)"

definition exclude_scorers :: "boxed list \<Rightarrow> boxed \<Rightarrow> boxed option" where
  "exclude_scorers excluded include_scorer =
     (case excluded of
        [e] \<Rightarrow> map_option (box TypeOther (exclude_ops box_ops (contains_docset box_ops)))
                 (exclude_new box_ops (contains_docset box_ops) include_scorer e)
      | _ \<Rightarrow> map_option (box TypeOther (exclude_ops box_ops (contains_vec box_ops)))
                 (exclude_new box_ops (contains_vec box_ops) include_scorer excluded))"

definition complex_scorer :: "estimators \<Rightarrow> nat \<Rightarrow> nat \<Rightarrow> 'e boolean_weight \<Rightarrow> ('e + specialized_scorer) option" where
  "complex_scorer est max_doc num_docs bw =
     try_bind (create_aligned_scorers_for_intersection (occ_must (wt_per_occur bw))) (\<lambda>must0.
     if must0 \<noteq> [] \<and> bx_doc (hd must0) \<ge> TERMINATED then Some (Inr (OtherScorer box_empty))
     else
       try_bind (map_scorers (occ_should (wt_per_occur bw))) (\<lambda>should0.
       try_bind (map_scorers (occ_must_not (wt_per_occur bw))) (\<lambda>exclude0.
       let (must_counts, must_scorers) = remove_and_count_all_and_empty_scorers must0
       in if num_empty_scorers must_counts > 0 then Some (Inr (OtherScorer box_empty))
          else
            let (should_counts, should_scorers) = remove_and_count_all_and_empty_scorers should0;
                (exclude_counts, excluded) = remove_and_count_all_and_empty_scorers exclude0
            in if num_all_scorers exclude_counts > 0 then Some (Inr (OtherScorer box_empty))
               else
                 let effective_minimum = wt_minimum_number_should_match bw - num_all_scorers should_counts
                 in if effective_minimum > length should_scorers then Some (Inr (OtherScorer box_empty))
                    else
                      combine_should est effective_minimum should_scorers must_scorers num_docs \<bind> (\<lambda>(method, musts).
                      include_by est method musts (num_all_scorers must_counts) (num_all_scorers should_counts)
                        max_doc num_docs (wt_scoring_enabled bw) \<bind> (\<lambda>include_scorer.
                      if excluded = [] then Some (Inr include_scorer)
                      else into_box_scorer est num_docs include_scorer \<bind> (\<lambda>inc.
                             exclude_scorers excluded inc \<bind> (\<lambda>s. Some (Inr (OtherScorer s)))))))))"

definition boolean_scorer :: "estimators \<Rightarrow> nat \<Rightarrow> nat \<Rightarrow> 'e boolean_weight \<Rightarrow> ('e + boxed) option" where
  "boolean_scorer est max_doc num_docs bw =
     (if occur_len (wt_per_occur bw) = 0 then Some (Inr box_empty)
      else if occur_len (wt_per_occur bw) = 1 then
        (let (occur, w) = hd (occur_iter (wt_per_occur bw)) in if occur = MustNot then Some (Inr box_empty) else bw_scorer w)
      else try_bind (complex_scorer est max_doc num_docs bw) (\<lambda>sc. into_box_scorer est num_docs sc \<bind> (\<lambda>s. Some (Inr s))))"

end
