(* ===== verification/BooleanAlign.thy ===== *)
theory BooleanAlign
  imports BooleanWeight
begin

text \<open>
  What the pieces of the boolean query do: each combinator over boxed scorers, and the aligned creation of
  the required scorers, which returns scorers that all stand on the first common document, or
  reports that there is none. The second loop ends because each round either moves the
  candidate up or aligns one more scorer.
\<close>

section \<open>Combinators over boxed scorers\<close>

lemma box_rep_bound: "box_rep D b \<Longrightarrow> D \<subseteq> {..<TERMINATED}"
  by (rule boxed.rep_bound)

lemma box_doc: "box_rep D b \<Longrightarrow> bx_doc b = first_doc D"
  using boxed.doc_first by (simp add: box_ops_def)

interpretation boxed_intersection: intersection_of box_ops box_rep box_ready box_ops box_rep box_ready
  by unfold_locales

interpretation boxed_disjunction: disjunction_of box_ops box_rep
  by unfold_locales

interpretation boxed_buffered: buffered_union_of box_ops "\<lambda>D s. box_rep D s \<and> D \<subseteq> {d. d + HORIZON \<le> TERMINATED}"
  by (rule boxed.buffered_union_restrict)

interpretation boxed_exclude: exclude_of box_ops box_rep "contains_docset box_ops" box_ready
  by unfold_locales

interpretation boxed_exclude_vec: exclude_of box_ops box_rep "contains_vec box_ops" "vec_ready box_ready"
  by unfold_locales

lemma boxed_intersect_rep:
  assumes "list_all2 box_rep Ds ss" "ss \<noteq> []"
  shows "\<exists>b. boxed_intersect_scorers est ss n = Some b \<and> box_rep (all_docs Ds) b"
proof -
  have d: "docset box_ops box_rep box_ready" by unfold_locales
  from intersect_scorers_law [OF d assms(1), of n] obtain r where r: "intersect_scorers box_ops ss n = Some r"
    "case r of
      ScorersEmpty \<Rightarrow> ss = [] \<or> 2 \<le> length ss \<and> all_docs Ds = {}
    | ScorersSingle s \<Rightarrow> ss = [s] \<and> box_rep (all_docs Ds) s
    | ScorersIntersection x \<Rightarrow> 2 \<le> length ss \<and> all_docs Ds \<noteq> {} \<and> intersection_rep box_rep box_rep (all_docs Ds) x \<and>
        ds_doc box_ops (in_left x) = Min (all_docs Ds)"
    by (auto split: option.splits)
  show ?thesis
  proof (cases r)
    case ScorersEmpty
    then show ?thesis using r assms(2) box_empty_rep by (auto simp: boxed_intersect_scorers_def)
  next
    case (ScorersSingle s)
    then show ?thesis using r by (simp add: boxed_intersect_scorers_def)
  next
    case (ScorersIntersection x)
    then show ?thesis using r boxed_intersection.inter.box_rep_box [of "all_docs Ds" x]
      by (simp add: boxed_intersect_scorers_def)
  qed
qed

definition short_docs :: "nat set" where
  "short_docs = {d. d + HORIZON \<le> TERMINATED}"

lemma boxed_union_rep:
  assumes "list_all2 box_rep Ds ss" "\<forall>D\<in>set Ds. D \<subseteq> short_docs"
  shows "\<exists>b. boxed_union est ss n = Some b \<and> box_rep (\<Union> (set Ds)) b"
proof -
  let ?rep = "\<lambda>D s. box_rep D s \<and> D \<subseteq> {d. d + HORIZON \<le> TERMINATED}"
  have "list_all2 ?rep Ds ss" using assms by (auto simp: list_all2_conv_all_nth short_docs_def)
  from boxed_buffered.buffered_union_build_law [OF this, of n] obtain u where
    "buffered_union_build box_ops ss n = Some u" "bu_rep ?rep (\<Union> (set Ds)) u" by blast
  then show ?thesis using boxed_buffered.buffered.box_rep_box [of "\<Union> (set Ds)" u] by (simp add: boxed_union_def)
qed

lemma scorer_disjunction_rep:
  assumes "list_all2 box_rep Ds ss" "0 < m" "m < length ss"
  shows "\<exists>b. scorer_disjunction ss m = Some b \<and> box_rep (at_least m Ds) b"
proof -
  obtain d where d: "disjunction_new box_ops ss m = Some d" "disjunction_rep box_rep (at_least m Ds) d"
    using boxed_disjunction.disjunction_new_rep [OF assms(1,2)] by blast
  have "scorer_disjunction ss m = Some (box TypeOther (disjunction_ops box_ops) d)"
    using assms(2,3) d(1) by (auto simp: scorer_disjunction_def split: list.splits)
  then show ?thesis using boxed_disjunction.dj.box_rep_box [OF d(2)] by simp
qed

lemma exclude_scorers_rep:
  assumes "box_rep A b" "list_all2 (box_ready 0) Bs es" "es \<noteq> []"
  shows "\<exists>x. exclude_scorers es b = Some x \<and> box_rep (A - \<Union> (set Bs)) x"
proof (cases "\<exists>e. es = [e]")
  case True
  then obtain e B where e: "es = [e]" "Bs = [B]" "box_ready 0 B e" using assms(2) by (auto simp: list_all2_Cons2)
  from boxed_exclude.exclude_new_law [OF assms(1) e(3)] obtain x where
    "exclude_new box_ops (contains_docset box_ops) b e = Some x" "exclude_rep box_rep box_ready (A - B) x" by auto
  then show ?thesis using e boxed_exclude.ex_danger.box_rep_box [of "A - B" x] by (simp add: exclude_scorers_def)
next
  case False
  have "vec_ready box_ready 0 (\<Union> (set Bs)) es" using assms(2) by (auto simp: vec_ready_def)
  from boxed_exclude_vec.exclude_new_law [OF assms(1) this] obtain x where
    x: "exclude_new box_ops (contains_vec box_ops) b es = Some x" "exclude_rep box_rep (vec_ready box_ready) (A - \<Union> (set Bs)) x" by auto
  have "exclude_scorers es b = Some (box TypeOther (exclude_ops box_ops (contains_vec box_ops)) x)"
    using x(1) False by (auto simp: exclude_scorers_def split: list.splits)
  then show ?thesis using boxed_exclude_vec.ex_danger.box_rep_box [OF x(2)] by simp
qed

text \<open>The documents of a required-optional scorer are those of the required one.\<close>

definition req_rep :: "(nat set \<Rightarrow> 'r \<Rightarrow> bool) \<Rightarrow> nat set \<Rightarrow> ('r, 'o, 'f) reqopt_scorer \<Rightarrow> bool" where
  "req_rep rep D w \<longleftrightarrow> rep D (ro_req_scorer w)"

definition req_ready :: "(nat \<Rightarrow> nat set \<Rightarrow> 'r \<Rightarrow> bool) \<Rightarrow> nat \<Rightarrow> nat set \<Rightarrow> ('r, 'o, 'f) reqopt_scorer \<Rightarrow> bool" where
  "req_ready ready t D w \<longleftrightarrow> ready t D (ro_req_scorer w)"

context docset
begin

lemma req_docset: "docset (reqopt_ops ops :: ('s, 'o, 'f) reqopt_scorer docset_ops) (req_rep rep) (req_ready ready)"
proof (rule docset.intro)
  have "docset_seek ops rep" by unfold_locales
  then show "docset_seek (reqopt_ops ops :: ('s, 'o, 'f) reqopt_scorer docset_ops) (req_rep rep)"
    by (rule docset_seek_lift [where rep = "\<lambda>_ :: unit. rep" and get = ro_req_scorer and put = reqopt_put])
      (auto simp: req_rep_def reqopt_put_def reqopt_ops_def)
  show "docset_axioms (reqopt_ops ops :: ('s, 'o, 'f) reqopt_scorer docset_ops) (req_rep rep) (req_ready ready)"
  proof
    fix D and w :: "('s, 'o, 'f) reqopt_scorer" and t u :: nat
    show "D \<subseteq> {t..<TERMINATED}" if "req_ready ready t D w" using that ready_bound by (simp add: req_ready_def)
    show "req_ready ready u (D \<inter> {u..}) w" if "req_ready ready t D w" "t \<le> u" using that ready_mono by (simp add: req_ready_def)
    show "req_ready ready t (D \<inter> {t..}) w" if "req_rep rep D w" "first_doc D \<le> t"
      using that rep_ready by (simp add: req_ready_def req_rep_def)
    show "\<exists>r w'. ds_seek_danger (reqopt_ops ops) t w = Some (r, w') \<and> danger_result t D r \<and>
        (if t \<in> D then req_rep rep D w' else req_ready ready t D w')" if w: "req_ready ready t D w" "t \<le> TERMINATED"
    proof -
      have "ready t D (ro_req_scorer w)" using w(1) by (simp add: req_ready_def)
      from danger_law [OF this w(2)] obtain r s' where r: "ds_seek_danger ops t (ro_req_scorer w) = Some (r, s')" "danger_result t D r"
        "if t \<in> D then rep D s' else ready t D s'" by blast
      then show ?thesis
        by (intro exI [of _ r] exI [of _ "reqopt_put w s'"])
          (simp add: reqopt_ops_def lift_state_def req_rep_def req_ready_def reqopt_put_def)
    qed
  qed
qed

end

lemma boxed_reqopt_rep: "box_rep D b \<Longrightarrow> box_rep D (box TypeOther (reqopt_ops box_ops) (reqopt_new b opt))"
  by (rule docset.box_rep_box [OF boxed.req_docset]) (simp add: req_rep_def reqopt_new_def)

section \<open>Weights\<close>

definition type_sound :: "nat \<Rightarrow> nat set \<Rightarrow> scorer_type \<Rightarrow> bool" where
  "type_sound max_doc W ty \<longleftrightarrow> (ty = TypeAllScorer \<longrightarrow> W = {..<max_doc}) \<and> (ty = TypeEmptyScorer \<longrightarrow> W = {})"

text \<open>
  A weight that matches the documents \<open>W\<close> of a segment: its scorer holds \<open>W\<close>, and asked around a target it
  answers as a dangerous seek, leaving the scorer ready for targets from the returned bound on.
\<close>

definition weight_matches :: "nat \<Rightarrow> nat set \<Rightarrow> 'e boxed_weight \<Rightarrow> bool" where
  "weight_matches max_doc W w \<longleftrightarrow>
     W \<subseteq> {..<max_doc} \<and>
     (\<exists>s. bw_scorer w = Some (Inr s) \<and> box_rep W s \<and> box_ready 0 W s \<and> type_sound max_doc W (bx_type s)) \<and>
     (\<forall>t<TERMINATED. \<exists>r s. bw_scorer_danger w t = Some (Inr (r, s)) \<and> type_sound max_doc W (bx_type s) \<and>
        (if t \<in> W then r = Found \<and> box_rep (W \<inter> {t..}) s
         else \<exists>b. r = SeekLowerBound b \<and> danger_bound t b \<and> W \<inter> {t..} \<subseteq> {b..} \<and> box_ready b (W \<inter> {t..}) s))"

text \<open>The default way to create a scorer around a target is correct for every weight whose scorer is.\<close>

lemma default_scorer_danger_law:
  assumes "box_rep W s" "t < TERMINATED"
  shows "\<exists>r s'. default_scorer_danger (Some (Inr s)) t = Some (Inr (r, s')) \<and> bx_type s' = bx_type s \<and>
    (if t \<in> W then r = Found \<and> box_rep (W \<inter> {t..}) s'
     else \<exists>b. r = SeekLowerBound b \<and> danger_bound t b \<and> W \<inter> {t..} \<subseteq> {b..} \<and> box_ready b (W \<inter> {t..}) s')"
proof -
  note b = box_rep_bound [OF assms(1)] and doc = box_doc [OF assms(1)]
  consider "first_doc W < t" | "first_doc W = t" | "t < first_doc W" by linarith
  then show ?thesis
  proof cases
    case 1
    then have rd: "box_ready t (W \<inter> {t..}) s" using assms(1) by (intro boxed.rep_ready) auto
    have tT: "t \<le> TERMINATED" using assms(2) by simp
    obtain r s' where r: "bx_seek_danger s t = Some (r, s')" "danger_result t (W \<inter> {t..}) r"
      "if t \<in> W \<inter> {t..} then box_rep (W \<inter> {t..}) s' else box_ready t (W \<inter> {t..}) s'"
      using boxed.danger_law [OF rd tT] by (auto simp: box_ops_def)
    have ty: "bx_type s' = bx_type s" by (rule box_danger_type [OF rd tT r(1)])
    have eq: "default_scorer_danger (Some (Inr s)) t = Some (Inr (r, s'))"
      using 1 doc r(1) by (simp add: default_scorer_danger_def try_bind_def)
    show ?thesis
    proof (cases "t \<in> W")
      case True
      then show ?thesis using r(2,3) ty eq by (auto simp: danger_result_def)
    next
      case False
      then obtain c where c: "r = SeekLowerBound c" "danger_bound t c" "\<forall>d\<in>W \<inter> {t..}. c \<le> d"
        using r(2) by (auto simp: danger_result_def)
      have "t \<le> c" using c(2) assms(2) by (auto simp: danger_bound_def)
      moreover have "box_ready t (W \<inter> {t..}) s'" using r(3) False by simp
      ultimately have "box_ready c (W \<inter> {t..} \<inter> {c..}) s'" by (intro boxed.ready_mono)
      moreover have "W \<inter> {t..} \<inter> {c..} = W \<inter> {t..}" using c(3) by auto
      ultimately show ?thesis using c False ty eq by auto
    qed
  next
    case 2
    have "t \<in> W" using 2 assms(2) first_doc_in [OF _ b] by (cases "W = {}") auto
    moreover have "W \<inter> {t..} = W" using 2 first_doc_le [OF _ b] by auto
    ultimately show ?thesis using 2 doc assms(1) by (simp add: default_scorer_danger_def try_bind_def)
  next
    case 3
    have ge: "first_doc W \<le> d" if "d \<in> W" for d using that b by (rule first_doc_le)
    then have W: "W \<inter> {t..} = W" "W \<inter> {first_doc W..} = W" using 3 by force+
    have "box_ready (first_doc W) W s" using boxed.rep_ready [OF assms(1) order_refl] W(2) by simp
    moreover have "t \<notin> W" using 3 ge by force
    moreover have "danger_bound t (first_doc W)" using 3 first_doc_bound [OF b] by (simp add: danger_bound_def)
    ultimately show ?thesis using 3 doc ge W(1) by (auto simp: default_scorer_danger_def try_bind_def)
  qed
qed

lemma weight_matchesI:
  assumes "W \<subseteq> {..<max_doc}" "box_rep W s" "box_ready 0 W s" "type_sound max_doc W (bx_type s)"
  shows "weight_matches max_doc W
    \<lparr>bw_scorer = Some (Inr s), bw_scorer_danger = default_scorer_danger (Some (Inr s) :: ('e + boxed) option)\<rparr>"
  unfolding weight_matches_def
proof (intro conjI allI impI)
  show "W \<subseteq> {..<max_doc}" by (rule assms(1))
  fix t :: nat assume t: "t < TERMINATED"
  from default_scorer_danger_law [OF assms(2) t]
  show "\<exists>r s'. bw_scorer_danger \<lparr>bw_scorer = Some (Inr s), bw_scorer_danger = default_scorer_danger (Some (Inr s) :: ('e + boxed) option)\<rparr> t =
      Some (Inr (r, s')) \<and> type_sound max_doc W (bx_type s') \<and>
      (if t \<in> W then r = Found \<and> box_rep (W \<inter> {t..}) s'
       else \<exists>b. r = SeekLowerBound b \<and> danger_bound t b \<and> W \<inter> {t..} \<subseteq> {b..} \<and> box_ready b (W \<inter> {t..}) s')"
    using assms(4) by fastforce
qed (use assms in auto)

section \<open>Alignment\<close>

text \<open>
  The scorers created so far for the sets \<open>Vs\<close>: all can be asked about the candidate \<open>c\<close>, no common document lies
  before it, and the \<open>num\<close> scorers before position \<open>ord\<close>, counted backwards around the ring, stand on it.
\<close>

definition stands_on :: "nat \<Rightarrow> nat set \<Rightarrow> boxed \<Rightarrow> bool" where
  "stands_on c V s \<longleftrightarrow> c \<in> V \<and> box_rep (V \<inter> {c..}) s"

definition askable :: "nat \<Rightarrow> nat \<Rightarrow> nat set \<Rightarrow> boxed \<Rightarrow> bool" where
  "askable max_doc c V s \<longleftrightarrow> box_ready c (V \<inter> {c..}) s \<and> type_sound max_doc V (bx_type s)"

definition ring_back :: "nat \<Rightarrow> nat \<Rightarrow> nat \<Rightarrow> nat" where
  "ring_back n ord j = (ord + n - 1 - j) mod n"

definition align_inv :: "nat \<Rightarrow> nat set list \<Rightarrow> nat \<Rightarrow> nat \<Rightarrow> nat \<Rightarrow> boxed list \<Rightarrow> bool" where
  "align_inv max_doc Vs c num ord ss \<longleftrightarrow>
     list_all2 (askable max_doc c) Vs ss \<and> c < TERMINATED \<and> all_docs Vs \<subseteq> {c..} \<and> num \<le> length ss \<and>
     (\<forall>j<num. stands_on c (Vs ! ring_back (length ss) ord j) (ss ! ring_back (length ss) ord j))"

lemma ring_back_less: "0 < n \<Longrightarrow> ring_back n ord j < n"
  by (simp add: ring_back_def)

lemma ring_back_Suc:
  assumes "ord < n" "Suc j < n"
  shows "ring_back n ((ord + 1) mod n) (Suc j) = ring_back n ord j"
proof (cases "ord + 1 = n")
  case True
  then have "ord = n - 1" by simp
  then show ?thesis using assms by (simp add: ring_back_def True mod_if)
next
  case False
  then show ?thesis using assms by (simp add: ring_back_def)
qed

lemma ring_back_0: "ord < n \<Longrightarrow> ring_back n ((ord + 1) mod n) 0 = ord"
  by (cases "ord + 1 = n") (auto simp: ring_back_def mod_if)

lemma ring_back_neq:
  assumes "ord < n" "j + 1 < n"
  shows "ring_back n ord j \<noteq> ord"
proof
  assume eq: "ring_back n ord j = ord"
  show False
  proof (cases "j < ord")
    case True
    then have "ord + n - 1 - j = (ord - 1 - j) + n" by simp
    then have "ring_back n ord j = (ord - 1 - j) mod n" by (simp add: ring_back_def)
    then show False using eq True assms(1) by simp
  next
    case False
    then have "ord + n - 1 - j < n" using assms by simp
    then show False using eq assms False by (simp add: ring_back_def)
  qed
qed

lemma ring_back_surj:
  assumes "ord < n" "i < n"
  shows "\<exists>j<n. ring_back n ord j = i"
proof (cases "i < ord")
  case True
  then have "ring_back n ord (ord - 1 - i) = i"
  proof -
    have "ord + n - 1 - (ord - 1 - i) = i + n" using True assms by simp
    then show ?thesis using assms by (simp add: ring_back_def)
  qed
  then show ?thesis using True assms by (intro exI [of _ "ord - 1 - i"]) simp
next
  case False
  have "ord + n - 1 - (ord + n - 1 - i) = i" using assms by simp
  then have "ring_back n ord (ord + n - 1 - i) = i" using assms by (simp add: ring_back_def)
  then show ?thesis using False assms by (intro exI [of _ "ord + n - 1 - i"]) simp
qed

lemma stands_on_askable: "stands_on c V s \<Longrightarrow> type_sound max_doc V (bx_type s) \<Longrightarrow> c \<le> b \<Longrightarrow> askable max_doc b V s"
proof -
  assume s: "stands_on c V s" "type_sound max_doc V (bx_type s)" "c \<le> b"
  then have r: "box_rep (V \<inter> {c..}) s" by (simp add: stands_on_def)
  have "first_doc (V \<inter> {c..}) = c" using s(1) box_rep_bound [OF r] by (intro first_doc_eqI) (auto simp: stands_on_def)
  then have "box_ready b (V \<inter> {c..} \<inter> {b..}) s" using boxed.rep_ready [OF r, of b] s(3) by simp
  moreover have "V \<inter> {c..} \<inter> {b..} = V \<inter> {b..}" using s(3) by auto
  ultimately show ?thesis using s(2) by (simp add: askable_def)
qed

lemma askable_mono: "askable max_doc c V s \<Longrightarrow> c \<le> b \<Longrightarrow> askable max_doc b V s"
proof -
  assume s: "askable max_doc c V s" "c \<le> b"
  then have "box_ready b (V \<inter> {c..} \<inter> {b..}) s" by (intro boxed.ready_mono) (auto simp: askable_def)
  moreover have "V \<inter> {c..} \<inter> {b..} = V \<inter> {b..}" using s(2) by auto
  ultimately show ?thesis using s(1) by (simp add: askable_def)
qed

lemma askable_danger:
  assumes "askable max_doc c V s" "c < TERMINATED"
  obtains r s' where "bx_seek_danger s c = Some (r, s')" "askable max_doc c V s'" "bx_type s' = bx_type s"
    "r = Found \<Longrightarrow> stands_on c V s'"
    "r \<noteq> Found \<Longrightarrow> \<exists>b. r = SeekLowerBound b \<and> c < b \<and> b \<le> TERMINATED \<and> V \<inter> {c..} \<subseteq> {b..}"
proof -
  have rd: "box_ready c (V \<inter> {c..}) s" and ty: "type_sound max_doc V (bx_type s)" using assms(1) by (auto simp: askable_def)
  have cT: "c \<le> TERMINATED" using assms(2) by simp
  obtain r s' where r: "ds_seek_danger box_ops c s = Some (r, s')" "danger_result c (V \<inter> {c..}) r" "box_ready c (V \<inter> {c..}) s'"
    "c \<in> V \<inter> {c..} \<Longrightarrow> box_rep (V \<inter> {c..}) s'" "r = Found \<longleftrightarrow> c \<in> V \<inter> {c..}"
    using rd cT by (rule boxed.seek_danger_ready) blast
  have sd: "bx_seek_danger s c = Some (r, s')" using r(1) by (simp add: box_ops_def)
  have ty': "bx_type s' = bx_type s" by (rule box_danger_type [OF rd cT sd])
  show ?thesis
  proof (rule that [OF sd])
    show "askable max_doc c V s'" using r(3) ty ty' by (simp add: askable_def)
    show "bx_type s' = bx_type s" by (rule ty')
    show "stands_on c V s'" if "r = Found" using that r(4,5) by (simp add: stands_on_def)
    show "\<exists>b. r = SeekLowerBound b \<and> c < b \<and> b \<le> TERMINATED \<and> V \<inter> {c..} \<subseteq> {b..}" if "r \<noteq> Found"
    proof -
      have "c \<notin> V \<inter> {c..}" using r(5) that by blast
      then obtain b where "r = SeekLowerBound b" "danger_bound c b" "V \<inter> {c..} \<subseteq> {b..}"
        using r(2) by (auto simp: danger_result_def)
      then show ?thesis using assms(2) by (auto simp: danger_bound_def)
    qed
  qed
qed

lemma all_docs_append: "all_docs (Vs @ Ws) = all_docs Vs \<inter> all_docs Ws"
  by (auto simp: all_docs_def)

lemma create_loop_law:
  assumes "list_all2 (weight_matches max_doc) Ws ws" "align_inv max_doc Vs c num 0 ss"
  shows "\<exists>r. create_loop ws c num ss = Some (Inr r) \<and>
    (case r of None \<Rightarrow> all_docs (Vs @ Ws) = {}
     | Some (c', num', ss') \<Rightarrow> align_inv max_doc (Vs @ Ws) c' num' 0 ss')"
  using assms
proof (induction Ws ws arbitrary: Vs c num ss rule: list_all2_induct)
  case (Cons W Ws w ws)
  note inv = Cons.prems [unfolded align_inv_def]
  have len: "length Vs = length ss" using inv by (blast dest: list_all2_lengthD)
  obtain r s where r: "bw_scorer_danger w c = Some (Inr (r, s))" "type_sound max_doc W (bx_type s)"
    "if c \<in> W then r = Found \<and> box_rep (W \<inter> {c..}) s
     else \<exists>b. r = SeekLowerBound b \<and> danger_bound c b \<and> W \<inter> {c..} \<subseteq> {b..} \<and> box_ready b (W \<inter> {c..}) s"
    using Cons.hyps(1) inv unfolding weight_matches_def by blast
  have app: "Vs @ W # Ws = (Vs @ [W]) @ Ws" by simp
  have sub: "all_docs (Vs @ [W]) \<subseteq> W \<inter> {c..}" using inv by (auto simp: all_docs_append all_docs_def)
  show ?case
  proof (cases "c \<in> W")
    case True
    then have s: "stands_on c W s" "r = Found" using r(3) by (auto simp: stands_on_def)
    have "align_inv max_doc (Vs @ [W]) c (num + 1) 0 (ss @ [s])"
      unfolding align_inv_def
    proof (intro conjI allI impI)
      show "list_all2 (askable max_doc c) (Vs @ [W]) (ss @ [s])"
        using inv stands_on_askable [OF s(1) r(2) order_refl] by (simp add: list_all2_appendI)
      show "c < TERMINATED" using inv by blast
      show "all_docs (Vs @ [W]) \<subseteq> {c..}" using sub by auto
      show "num + 1 \<le> length (ss @ [s])" using inv by simp
      fix j assume j: "j < num + 1"
      let ?n = "length (ss @ [s])"
      have rb: "ring_back ?n 0 j = length ss - j" using j inv by (simp add: ring_back_def)
      show "stands_on c ((Vs @ [W]) ! ring_back ?n 0 j) ((ss @ [s]) ! ring_back ?n 0 j)"
      proof (cases j)
        case 0
        then show ?thesis unfolding rb using s(1) len by (simp add: nth_append)
      next
        case (Suc k)
        then have "k < num" using j by simp
        have "num \<le> length ss" using inv by blast
        then have lt: "length ss - j < length ss" using Suc \<open>k < num\<close> by linarith
        have "stands_on c (Vs ! ring_back (length ss) 0 k) (ss ! ring_back (length ss) 0 k)" using inv \<open>k < num\<close> by blast
        moreover have "ring_back (length ss) 0 k = length ss - j" using Suc lt by (simp add: ring_back_def)
        moreover note lt
        ultimately show ?thesis unfolding rb using len by (simp add: nth_append)
      qed
    qed
    from Cons.IH [OF this] show ?thesis unfolding app using s(2) r(1) inv by (simp add: try_bind_def)
  next
    case False
    then obtain b where b: "r = SeekLowerBound b" "danger_bound c b" "W \<inter> {c..} \<subseteq> {b..}" "box_ready b (W \<inter> {c..}) s"
      using r(3) by auto
    have cb: "c \<le> b" using b(2) inv by (auto simp: danger_bound_def)
    show ?thesis
    proof (cases "b \<ge> TERMINATED")
      case True
      have "all_docs (Vs @ [W]) = {}" using sub b(3) True all_docs_bound [of "Vs @ [W]"] by fastforce
      then have "all_docs ((Vs @ [W]) @ Ws) = {}" unfolding all_docs_append [of "Vs @ [W]"] by simp
      then show ?thesis using True r(1) b(1) by (simp add: try_bind_def)
    next
      case lt: False
      have "W \<inter> {c..} = W \<inter> {b..}" using b(3) cb by auto
      then have "askable max_doc b W s" using b(4) r(2) by (simp add: askable_def)
      moreover have "list_all2 (askable max_doc b) Vs ss"
        using inv by (auto intro: list_all2_mono askable_mono [OF _ cb])
      ultimately have "align_inv max_doc (Vs @ [W]) b 0 0 (ss @ [s])"
        using lt sub b(3) by (auto simp: align_inv_def list_all2_appendI)
      from Cons.IH [OF this] show ?thesis unfolding app using r(1) b(1) lt by (simp add: try_bind_def)
    qed
  qed
qed (simp add: align_inv_def)

definition aligned :: "nat \<Rightarrow> nat set list \<Rightarrow> boxed list \<Rightarrow> bool" where
  "aligned max_doc Vs ss \<longleftrightarrow>
     (\<exists>c<TERMINATED. all_docs Vs \<subseteq> {c..} \<and>
        list_all2 (\<lambda>V s. stands_on c V s \<and> type_sound max_doc V (bx_type s)) Vs ss)"

lemma align_loop_law:
  assumes "align_inv max_doc Vs c num ord ss" "ss \<noteq> [] \<Longrightarrow> ord < length ss"
  shows "\<exists>ss'. align_loop ss c num ord = Some ss' \<and>
    (ss' = [box_empty] \<and> Vs \<noteq> [] \<and> all_docs Vs = {} \<or> aligned max_doc Vs ss')"
  using assms
proof (induction "(TERMINATED - c) * (length ss + 1) + (length ss - num)" arbitrary: c num ord ss rule: less_induct)
  case less
  note inv = less.prems(1) [unfolded align_inv_def]
  let ?n = "length ss"
  have len: "length Vs = ?n" using inv by (blast dest: list_all2_lengthD)
  show ?case
  proof (cases "num < ?n")
    case False
    have "stands_on c (Vs ! i) (ss ! i) \<and> type_sound max_doc (Vs ! i) (bx_type (ss ! i))" if i: "i < ?n" for i
    proof -
      have "ord < ?n" by (rule less.prems(2)) (use i in auto)
      then obtain j where "j < ?n" "ring_back ?n ord j = i" using ring_back_surj i by blast
      then have "stands_on c (Vs ! i) (ss ! i)" using inv False by (metis not_less order_antisym_conv)
      moreover have "askable max_doc c (Vs ! i) (ss ! i)" using inv i by (auto simp: list_all2_conv_all_nth)
      ultimately show ?thesis by (simp add: askable_def)
    qed
    then have "aligned max_doc Vs ss" using inv len by (auto simp: aligned_def list_all2_conv_all_nth)
    then show ?thesis using False by (simp add: align_loop.simps)
  next
    case True
    have ord: "ord < ?n" by (rule less.prems(2)) (use True in auto)
    let ?V = "Vs ! ord"
    have ask: "askable max_doc c ?V (ss ! ord)" using inv ord by (auto simp: list_all2_conv_all_nth)
    have cT: "c < TERMINATED" using inv by blast
    obtain r s' where r: "bx_seek_danger (ss ! ord) c = Some (r, s')" "askable max_doc c ?V s'"
      "r = Found \<Longrightarrow> stands_on c ?V s'"
      "r \<noteq> Found \<Longrightarrow> \<exists>b. r = SeekLowerBound b \<and> c < b \<and> b \<le> TERMINATED \<and> ?V \<inter> {c..} \<subseteq> {b..}"
      using ask cT by (rule askable_danger) blast
    let ?ss = "ss[ord := s']" and ?ord = "(ord + 1) mod ?n"
    have "0 < ?n" using ord by linarith
    then have ord': "?ord < length ?ss" by simp
    have upd: "list_all2 (askable max_doc c) Vs ?ss"
    proof -
      have "list_all2 (askable max_doc c) (Vs[ord := ?V]) ?ss"
        using inv r(2) by (intro list_all2_update_cong) auto
      then show ?thesis by simp
    qed
    show ?thesis
    proof (cases "r = Found")
      case found: True
      have al: "align_inv max_doc Vs c (num + 1) ?ord ?ss"
        unfolding align_inv_def
      proof (intro conjI allI impI)
        show "list_all2 (askable max_doc c) Vs ?ss" by (rule upd)
        show "c < TERMINATED" by (rule cT)
        show "all_docs Vs \<subseteq> {c..}" using inv by blast
        show "num + 1 \<le> length ?ss" using True by simp
        fix j assume j: "j < num + 1"
        show "stands_on c (Vs ! ring_back (length ?ss) ?ord j) (?ss ! ring_back (length ?ss) ?ord j)"
        proof (cases j)
          case 0
          then show ?thesis using ring_back_0 [OF ord] ord r(3) found by simp
        next
          case (Suc k)
          then have k: "k < num" "Suc k < ?n" using j True by simp_all
          then have "stands_on c (Vs ! ring_back ?n ord k) (ss ! ring_back ?n ord k)" using inv by blast
          moreover have "ring_back ?n ord k \<noteq> ord" using ord k(2) by (intro ring_back_neq) simp_all
          ultimately show ?thesis using Suc ring_back_Suc [OF ord k(2)] by simp
        qed
      qed
      have m: "(TERMINATED - c) * (length ?ss + 1) + (length ?ss - (num + 1)) < (TERMINATED - c) * (?n + 1) + (?n - num)"
        using True by simp
      have "\<exists>ss'. align_loop ?ss c (num + 1) ?ord = Some ss' \<and>
          (ss' = [box_empty] \<and> Vs \<noteq> [] \<and> all_docs Vs = {} \<or> aligned max_doc Vs ss')"
        by (rule less.hyps [OF m al]) (rule ord')
      then show ?thesis using r(1) found True by (subst align_loop.simps) (simp add: Let_def)
    next
      case nf: False
      then obtain b where b: "r = SeekLowerBound b" "c < b" "b \<le> TERMINATED" "?V \<inter> {c..} \<subseteq> {b..}" using r(4) by blast
      have "?V \<in> set Vs" using ord len by simp
      then have "all_docs Vs \<subseteq> ?V" by (auto simp: all_docs_def)
      moreover have "all_docs Vs \<subseteq> {c..}" using inv by blast
      ultimately have sub: "all_docs Vs \<subseteq> {b..}" using b(4) by blast
      show ?thesis
      proof (cases "b = TERMINATED")
        case fin: True
        then have "all_docs Vs = {}" using sub all_docs_bound [of Vs] by fastforce
        moreover have "Vs \<noteq> []" using len ord by auto
        ultimately show ?thesis using r(1) b(1) True fin by (subst align_loop.simps) (simp add: Let_def)
      next
        case go: False
        have cb: "c \<le> b" using b(2) by simp
        have "list_all2 (askable max_doc b) Vs ?ss" using upd by (auto intro: list_all2_mono askable_mono [OF _ cb])
        then have al: "align_inv max_doc Vs b 0 ?ord ?ss" using go b(3) sub by (simp add: align_inv_def)
        have m: "(TERMINATED - b) * (length ?ss + 1) + (length ?ss - 0) < (TERMINATED - c) * (?n + 1) + (?n - num)"
        proof -
          have "TERMINATED - b + 1 \<le> TERMINATED - c" using b(2,3) by simp
          then have "(TERMINATED - b + 1) * (?n + 1) \<le> (TERMINATED - c) * (?n + 1)" by (rule mult_le_mono1)
          then show ?thesis using True by (simp add: algebra_simps)
        qed
        have "\<exists>ss'. align_loop ?ss b 0 ?ord = Some ss' \<and>
            (ss' = [box_empty] \<and> Vs \<noteq> [] \<and> all_docs Vs = {} \<or> aligned max_doc Vs ss')"
          by (rule less.hyps [OF m al]) (rule ord')
        then show ?thesis using r(1) b(1) True go by (subst align_loop.simps) (simp add: Let_def)
      qed
    qed
  qed
qed

lemma create_aligned_law:
  assumes "list_all2 (weight_matches max_doc) Vs ws"
  shows "\<exists>ss. create_aligned_scorers_for_intersection ws = Some (Inr ss) \<and>
    (ss = [box_empty] \<and> Vs \<noteq> [] \<and> all_docs Vs = {} \<or> aligned max_doc Vs ss)"
proof -
  have "align_inv max_doc [] 0 0 0 []" by (auto simp: align_inv_def TERMINATED_def)
  from create_loop_law [OF assms this, unfolded append_Nil] obtain r where r: "create_loop ws 0 0 [] = Some (Inr r)"
    "case r of None \<Rightarrow> all_docs Vs = {} | Some (c', num', ss') \<Rightarrow> align_inv max_doc Vs c' num' 0 ss'" by blast
  show ?thesis
  proof (cases r)
    case None
    have "all_docs [] \<noteq> {}" by (auto simp: all_docs_def TERMINATED_def intro: exI [of _ 0])
    then have "Vs \<noteq> []" using r(2) None by auto
    then show ?thesis using None r by (simp add: create_aligned_scorers_for_intersection_def try_bind_def)
  next
    case (Some p)
    obtain c num ss where p: "p = (c, num, ss)" using prod_cases3 by blast
    then have "align_inv max_doc Vs c num 0 ss" using r(2) Some by simp
    from align_loop_law [OF this] show ?thesis
      using Some p r(1) by (auto simp: create_aligned_scorers_for_intersection_def try_bind_def)
  qed
qed

end
