(* ===== verification/BooleanCorrect.thy ===== *)
theory BooleanCorrect
  imports BooleanAlign
begin

text \<open>
  The scorer of a boolean query matches exactly the documents its clauses describe: every required
  clause, no excluded clause, and enough of the optional ones.
\<close>

section \<open>What the clauses mean\<close>

definition must_docs :: "nat \<Rightarrow> nat set list \<Rightarrow> nat set" where
  "must_docs max_doc Ds = {d. d < max_doc \<and> (\<forall>D\<in>set Ds. d \<in> D)}"

definition included_docs :: "nat \<Rightarrow> nat \<Rightarrow> bool \<Rightarrow> nat set list \<Rightarrow> nat \<Rightarrow> nat set list \<Rightarrow> nat set" where
  "included_docs max_doc m no_must Ms a Ss =
     {d \<in> must_docs max_doc Ms. (if no_must then max 1 m else m) \<le> a + matches Ss d}"

definition boolean_docs :: "nat \<Rightarrow> nat \<Rightarrow> nat set list \<Rightarrow> nat set list \<Rightarrow> nat set list \<Rightarrow> nat set" where
  "boolean_docs max_doc m Ms Ss Ns = included_docs max_doc m (Ms = []) Ms 0 Ss - \<Union> (set Ns)"

section \<open>Removed scorers\<close>

definition sound_for :: "nat \<Rightarrow> (nat set \<Rightarrow> boxed \<Rightarrow> bool) \<Rightarrow> nat set \<Rightarrow> boxed \<Rightarrow> bool" where
  "sound_for max_doc P D s \<longleftrightarrow> D \<subseteq> {..<max_doc} \<and> P D s \<and> type_sound max_doc D (bx_type s)"

lemma remove_law:
  assumes "list_all2 (sound_for max_doc P) Ds ss" "remove_and_count_all_and_empty_scorers ss = (counts, rest)"
  shows "\<exists>Rs. list_all2 P Rs rest \<and> set Rs \<subseteq> set Ds \<and>
    length Ds = num_all_scorers counts + num_empty_scorers counts + length Rs \<and>
    (\<forall>d<max_doc. matches Ds d = num_all_scorers counts + matches Rs d) \<and>
    must_docs max_doc Ds = (if num_empty_scorers counts = 0 then must_docs max_doc Rs else {})"
  using assms
proof (induction Ds ss arbitrary: counts rest rule: list_all2_induct)
  case Nil
  then show ?case by (auto simp: remove_and_count_all_and_empty_scorers_def)
next
  case (Cons D Ds s ss)
  obtain c r where cr: "remove_and_count_all_and_empty_scorers ss = (c, r)" by fastforce
  from Cons.IH [OF cr] obtain Rs where Rs: "list_all2 P Rs r" "set Rs \<subseteq> set Ds"
    "length Ds = num_all_scorers c + num_empty_scorers c + length Rs"
    "\<forall>d<max_doc. matches Ds d = num_all_scorers c + matches Rs d"
    "must_docs max_doc Ds = (if num_empty_scorers c = 0 then must_docs max_doc Rs else {})" by blast
  have md: "must_docs max_doc (D # Ds) = D \<inter> must_docs max_doc Ds" "D \<subseteq> {..<max_doc}"
    using Cons.hyps(1) by (auto simp: must_docs_def sound_for_def)
  consider (all) "bx_type s = TypeAllScorer" | (empty) "bx_type s = TypeEmptyScorer"
    | (kept) "bx_type s \<noteq> TypeAllScorer" "bx_type s \<noteq> TypeEmptyScorer" by blast
  then show ?case
  proof cases
    case all
    then have "D = {..<max_doc}" using Cons.hyps(1) by (simp add: sound_for_def type_sound_def)
    then have "must_docs max_doc (D # Ds) = must_docs max_doc Ds" unfolding md(1) by (auto simp: must_docs_def)
    then show ?thesis using Rs all Cons.prems cr \<open>D = _\<close>
      by (intro exI [of _ Rs]) (auto simp: remove_and_count_all_and_empty_scorers_def matches_Cons)
  next
    case empty
    then have "D = {}" using Cons.hyps(1) by (simp add: sound_for_def type_sound_def)
    then have "must_docs max_doc (D # Ds) = {}" unfolding md(1) by simp
    then show ?thesis using Rs empty Cons.prems cr \<open>D = _\<close>
      by (intro exI [of _ Rs]) (auto simp: remove_and_count_all_and_empty_scorers_def matches_Cons)
  next
    case kept
    have "P D s" using Cons.hyps(1) by (simp add: sound_for_def)
    moreover have "must_docs max_doc (D # Rs) = D \<inter> must_docs max_doc Rs" using md(2) by (auto simp: must_docs_def)
    ultimately show ?thesis using Rs kept Cons.prems cr
      by (intro exI [of _ "D # Rs"]) (auto simp: remove_and_count_all_and_empty_scorers_def matches_Cons md(1))
  qed
qed

lemma map_scorers_law:
  assumes "list_all2 (weight_matches max_doc) Ws ws"
  shows "\<exists>ss. map_scorers ws = Some (Inr ss) \<and> list_all2 (sound_for max_doc (\<lambda>D s. box_rep D s \<and> box_ready 0 D s)) Ws ss"
  using assms
proof (induction rule: list_all2_induct)
  case (Cons W Ws w ws)
  then show ?case by (fastforce simp: weight_matches_def try_bind_def sound_for_def)
qed simp

section \<open>The specialised scorers\<close>

definition spec_rep :: "estimators \<Rightarrow> nat \<Rightarrow> nat set \<Rightarrow> specialized_scorer \<Rightarrow> bool" where
  "spec_rep est num_docs D sc \<longleftrightarrow> (\<exists>b. into_box_scorer est num_docs sc = Some b \<and> box_rep D b)"

lemma spec_rep_other [simp]: "spec_rep est n D (OtherScorer b) \<longleftrightarrow> box_rep D b"
  by (simp add: spec_rep_def into_box_scorer_def)

lemma scorer_union_law:
  assumes "list_all2 box_rep Rs ss" "ss \<noteq> []" "\<forall>R\<in>set Rs. R \<subseteq> short_docs"
  shows "\<exists>sc. scorer_union est ss n = Some sc \<and> spec_rep est n (\<Union> (set Rs)) sc"
proof -
  obtain u where u: "boxed_union est ss n = Some u" "box_rep (\<Union> (set Rs)) u"
    using boxed_union_rep [OF assms(1,3)] by blast
  show ?thesis
  proof (cases "\<exists>s. ss = [s]")
    case True
    then obtain s R where "ss = [s]" "Rs = [R]" "box_rep R s" using assms(1) by (auto simp: list_all2_Cons2)
    then show ?thesis by (auto simp: scorer_union_def spec_rep_def into_box_scorer_def)
  next
    case False
    then obtain s t ts where ss: "ss = s # t # ts" using assms(2) by (metis list.exhaust)
    then have "spec_rep est n (\<Union> (set Rs)) (TermUnion ss)" using u by (simp add: spec_rep_def into_box_scorer_def)
    then show ?thesis using u ss by (auto simp: scorer_union_def)
  qed
qed

lemma effective_must_law:
  assumes "list_all2 box_rep Rs ss" "\<forall>R\<in>set Rs. R \<subseteq> {..<max_doc}" "max_doc \<le> TERMINATED"
  shows "\<exists>m. effective_must_scorer est ss a max_doc n = Some m \<and>
    (case m of None \<Rightarrow> Rs = [] \<and> a = 0 | Some b \<Rightarrow> (Rs \<noteq> [] \<or> 0 < a) \<and> box_rep (must_docs max_doc Rs) b)"
proof (cases "ss = []")
  case True
  then have "Rs = []" using assms(1) by simp
  then show ?thesis using True box_all_rep [OF assms(3)] by (auto simp: effective_must_scorer_def must_docs_def lessThan_def)
next
  case False
  then have ne: "Rs \<noteq> []" using assms(1) by auto
  then have "all_docs Rs = must_docs max_doc Rs"
    using assms(2,3) by (cases Rs) (auto simp: all_docs_def must_docs_def)
  then show ?thesis using boxed_intersect_rep [OF assms(1) False, of est n] False ne
    by (auto simp: effective_must_scorer_def)
qed

lemma include_ignored_law:
  assumes "list_all2 box_rep Rs ss" "\<forall>R\<in>set Rs. R \<subseteq> {..<max_doc}" "max_doc \<le> TERMINATED"
  shows "\<exists>sc. include_ignored est ss a max_doc n = Some sc \<and>
    spec_rep est n (if Rs = [] \<and> a = 0 then {} else must_docs max_doc Rs) sc"
proof (cases "a = 0 \<and> length ss \<ge> 2 \<and> list_all is_term ss \<and> list_all reads_freq ss")
  case True
  then have "ss \<noteq> []" "Rs \<noteq> []" using assms(1) by auto
  moreover from this obtain b where b: "boxed_intersect_scorers est ss n = Some b" "box_rep (all_docs Rs) b"
    using boxed_intersect_rep [OF assms(1)] by blast
  moreover have "all_docs Rs = must_docs max_doc Rs"
    using assms(2,3) \<open>Rs \<noteq> []\<close> by (cases Rs) (auto simp: all_docs_def must_docs_def)
  ultimately show ?thesis using True
    by (intro exI [of _ "TermIntersection ss"]) (simp add: include_ignored_def spec_rep_def into_box_scorer_def)
next
  case False
  obtain m where m: "effective_must_scorer est ss a max_doc n = Some m"
    "case m of None \<Rightarrow> Rs = [] \<and> a = 0 | Some b \<Rightarrow> (Rs \<noteq> [] \<or> 0 < a) \<and> box_rep (must_docs max_doc Rs) b"
    using effective_must_law [OF assms] by blast
  have "include_ignored est ss a max_doc n = Some (OtherScorer (case m of Some s \<Rightarrow> s | None \<Rightarrow> box_empty))"
    using False m(1) by (auto simp: include_ignored_def)
  then show ?thesis using m(2) box_empty_rep by (auto split: option.splits)
qed

lemma effective_should_law:
  assumes "spec_rep est n S sc" "S \<subseteq> {..<max_doc}" "max_doc + HORIZON \<le> TERMINATED"
  shows "\<exists>sc'. effective_should_scorer_for_union est sc a max_doc n sce = Some sc' \<and>
    spec_rep est n (if 0 < a then {..<max_doc} else S) sc'"
proof -
  obtain b where b: "into_box_scorer est n sc = Some b" "box_rep S b" using assms(1) by (auto simp: spec_rep_def)
  have all: "box_rep {..<max_doc} (box_all max_doc)" using assms(3) by (intro box_all_rep) simp
  have l: "list_all2 box_rep [S, {..<max_doc}] [b, box_all max_doc]" using b(2) all by simp
  have s: "\<forall>R\<in>set [S, {..<max_doc}]. R \<subseteq> short_docs" using assms(2,3) by (auto simp: short_docs_def)
  from boxed_union_rep [OF l s, of est n] obtain u where
    u: "boxed_union est [b, box_all max_doc] n = Some u" "box_rep (\<Union> (set [S, {..<max_doc}])) u" by (elim exE conjE)
  have "\<Union> (set [S, {..<max_doc}]) = {..<max_doc}" using assms(2) by auto
  then have "box_rep {..<max_doc} u" using u(2) by (simp only:)
  then show ?thesis using assms(1) b(1) u(1) all by (simp add: effective_should_scorer_for_union_def)
qed

lemma include_optional_law:
  assumes "list_all2 box_rep Rs ss" "\<forall>R\<in>set Rs. R \<subseteq> {..<max_doc}" "max_doc + HORIZON \<le> TERMINATED"
    "spec_rep est n S sc" "S \<subseteq> {..<max_doc}"
  shows "\<exists>sc'. include_optional est sc ss a a' max_doc n sce = Some sc' \<and>
    spec_rep est n (if Rs = [] \<and> a = 0 then if 0 < a' then {..<max_doc} else S else must_docs max_doc Rs) sc'"
proof -
  have "max_doc \<le> TERMINATED" using assms(3) by simp
  from effective_must_law [OF assms(1,2) this] obtain m where m: "effective_must_scorer est ss a max_doc n = Some m"
    "case m of None \<Rightarrow> Rs = [] \<and> a = 0 | Some b \<Rightarrow> (Rs \<noteq> [] \<or> 0 < a) \<and> box_rep (must_docs max_doc Rs) b" by blast
  obtain b where b: "into_box_scorer est n sc = Some b" using assms(4) by (auto simp: spec_rep_def)
  show ?thesis
  proof (cases m)
    case None
    then show ?thesis using m effective_should_law [OF assms(4,5,3), of a' sce] by (simp add: include_optional_def)
  next
    case (Some s)
    then show ?thesis using m b by (auto simp: include_optional_def boxed_reqopt_rep)
  qed
qed

lemma include_required_law:
  assumes "list_all2 box_rep Rs ss" "\<forall>R\<in>set Rs. R \<subseteq> {..<max_doc}" "max_doc \<le> TERMINATED"
    "spec_rep est n S sc" "S \<subseteq> {..<max_doc}"
  shows "\<exists>sc'. include_required est sc ss a max_doc n = Some sc' \<and> spec_rep est n (must_docs max_doc Rs \<inter> S) sc'"
proof -
  from effective_must_law [OF assms(1,2,3)] obtain m where m: "effective_must_scorer est ss a max_doc n = Some m"
    "case m of None \<Rightarrow> Rs = [] \<and> a = 0 | Some b \<Rightarrow> (Rs \<noteq> [] \<or> 0 < a) \<and> box_rep (must_docs max_doc Rs) b" by blast
  obtain b where b: "into_box_scorer est n sc = Some b" "box_rep S b" using assms(4) by (auto simp: spec_rep_def)
  show ?thesis
  proof (cases m)
    case None
    then have "must_docs max_doc Rs \<inter> S = S" using m(2) assms(5) by (auto simp: must_docs_def)
    then show ?thesis using m(1) None assms(4) by (simp add: include_required_def)
  next
    case (Some s)
    have "list_all2 box_rep [must_docs max_doc Rs, S] [s, b]" using m(2) Some b(2) by simp
    from boxed_intersect_rep [OF this] obtain x where
      "boxed_intersect_scorers est [s, b] n = Some x" "box_rep (all_docs [must_docs max_doc Rs, S]) x" by blast
    moreover have "all_docs [must_docs max_doc Rs, S] = must_docs max_doc Rs \<inter> S"
      using assms(3,5) by (auto simp: all_docs_def)
    ultimately show ?thesis using m(1) Some b(1) by (auto simp: include_required_def)
  qed
qed

lemma matches_Union: "0 < matches Ds d \<longleftrightarrow> d \<in> \<Union> (set Ds)"
  by (induction Ds) (auto simp: matches_def)

lemma matches_le: "matches Ds d \<le> length Ds"
  by (simp add: matches_def)

lemma matches_full: "length Ds \<le> matches Ds d \<longleftrightarrow> (\<forall>D\<in>set Ds. d \<in> D)"
proof (induction Ds)
  case (Cons D Ds)
  then show ?case using matches_le [of Ds d] by (auto simp: matches_Cons)
qed simp

lemma include_law:
  assumes Rs: "list_all2 box_rep Rs musts" "\<forall>R\<in>set Rs. R \<subseteq> {..<max_doc}"
    and Ss: "list_all2 box_rep Ss shoulds" "\<forall>S\<in>set Ss. S \<subseteq> {..<max_doc}"
    and bound: "max_doc + HORIZON \<le> TERMINATED" and enough: "m - a' \<le> length shoulds"
  shows "\<exists>method musts' sc. combine_should est (m - a') shoulds musts n = Some (method, musts') \<and>
    include_by est method musts' a a' max_doc n sce = Some sc \<and>
    spec_rep est n (included_docs max_doc m (Rs = [] \<and> a = 0) Rs a' Ss) sc"
proof -
  have mT: "max_doc \<le> TERMINATED" using bound by simp
  have len: "length Ss = length shoulds" using Ss(1) by (rule list_all2_lengthD)
  have short: "\<forall>S\<in>set Ss. S \<subseteq> short_docs" using Ss(2) bound by (fastforce simp: short_docs_def)
  have US: "\<Union> (set Ss) \<subseteq> {..<max_doc}" using Ss(2) by blast
  consider (none) "m \<le> a'" "shoulds = []" | (opt) "m \<le> a'" "shoulds \<noteq> []" | (one) "m - a' = 1"
    | (absorbed) "1 < m - a'" "length shoulds = m - a'" | (many) "1 < m - a'" "m - a' < length shoulds"
    using enough by linarith
  then show ?thesis
  proof cases
    case none
    then have "Ss = []" using Ss(1) by simp
    then have "included_docs max_doc m (Rs = [] \<and> a = 0) Rs a' Ss = (if Rs = [] \<and> a + a' = 0 then {} else must_docs max_doc Rs)"
      using none(1) by (auto simp: included_docs_def matches_def)
    then show ?thesis using none include_ignored_law [OF Rs mT, of est "a + a'" n]
      by (simp add: combine_should_def include_by_def)
  next
    case opt
    obtain sc where sc: "scorer_union est shoulds n = Some sc" "spec_rep est n (\<Union> (set Ss)) sc"
      using scorer_union_law [OF Ss(1) opt(2) short] by blast
    have "included_docs max_doc m (Rs = [] \<and> a = 0) Rs a' Ss =
        (if Rs = [] \<and> a = 0 then if 0 < a' then {..<max_doc} else \<Union> (set Ss) else must_docs max_doc Rs)"
      using opt(1) US matches_Union [of Ss]
      by (auto simp: included_docs_def must_docs_def Suc_le_eq simp del: Union_iff)
    then show ?thesis using opt sc include_optional_law [OF Rs bound sc(2) US, of a a' sce]
      by (simp add: combine_should_def include_by_def)
  next
    case one
    then have "shoulds \<noteq> []" using enough by auto
    then obtain sc where sc: "scorer_union est shoulds n = Some sc" "spec_rep est n (\<Union> (set Ss)) sc"
      using scorer_union_law [OF Ss(1) _ short] by blast
    have "m = a' + 1" using one by simp
    then have "included_docs max_doc m (Rs = [] \<and> a = 0) Rs a' Ss = must_docs max_doc Rs \<inter> \<Union> (set Ss)"
      using matches_Union [of Ss] by (auto simp: included_docs_def Suc_le_eq simp del: Union_iff)
    then show ?thesis using one sc include_required_law [OF Rs mT sc(2) US, of a]
      by (simp add: combine_should_def include_by_def)
  next
    case absorbed
    have all: "list_all2 box_rep (Rs @ Ss) (musts @ shoulds)" "\<forall>R\<in>set (Rs @ Ss). R \<subseteq> {..<max_doc}"
      using Rs Ss by (auto simp: list_all2_appendI)
    have "Ss \<noteq> []" using absorbed len by auto
    moreover have "m = a' + length Ss" using absorbed len by simp
    ultimately have "included_docs max_doc m (Rs = [] \<and> a = 0) Rs a' Ss = must_docs max_doc (Rs @ Ss)"
      using absorbed(1) by (auto simp: included_docs_def must_docs_def max_def matches_full)
    moreover have "\<not> m \<le> a'" using absorbed(1) by simp
    ultimately show ?thesis using absorbed include_ignored_law [OF all mT, of est "a + a'" n] \<open>Ss \<noteq> []\<close>
      by (simp add: combine_should_def include_by_def)
  next
    case many
    have "0 < m - a'" using many by simp
    then obtain b where b: "scorer_disjunction shoulds (m - a') = Some b" "box_rep (at_least (m - a') Ss) b"
      using scorer_disjunction_rep [OF Ss(1) _ many(2)] by blast
    have sub: "at_least (m - a') Ss \<subseteq> {..<max_doc}"
    proof
      fix d assume "d \<in> at_least (m - a') Ss"
      then have "0 < matches Ss d" using many by (simp add: at_least_def)
      then show "d \<in> {..<max_doc}" using matches_Union US by blast
    qed
    have "included_docs max_doc m (Rs = [] \<and> a = 0) Rs a' Ss = must_docs max_doc Rs \<inter> at_least (m - a') Ss"
      using many by (auto simp: included_docs_def at_least_def)
    moreover have "\<not> m \<le> a'" using many(1) by simp
    ultimately show ?thesis using many b include_required_law [OF Rs mT _ sub, of est n "OtherScorer b" a]
      by (simp add: combine_should_def include_by_def)
  qed
qed

section \<open>The whole query\<close>

lemma weight_matches_bound: "list_all2 (weight_matches max_doc) Ws ws \<Longrightarrow> \<forall>W\<in>set Ws. W \<subseteq> {..<max_doc}"
  by (induction rule: list_all2_induct) (simp_all add: weight_matches_def)

lemma must_docs_all: "max_doc \<le> TERMINATED \<Longrightarrow> must_docs max_doc Ms \<subseteq> all_docs Ms"
  by (auto simp: must_docs_def all_docs_def)

text \<open>The required scorers once they are aligned and the trivial ones are gone.\<close>

lemma must_law:
  assumes al: "aligned max_doc Ms ss" and rm: "remove_and_count_all_and_empty_scorers ss = (counts, rest)"
    and bound: "\<forall>M\<in>set Ms. M \<subseteq> {..<max_doc}" and mT: "max_doc \<le> TERMINATED"
  shows "num_empty_scorers counts = 0 \<and> (\<exists>Rs. list_all2 box_rep Rs rest \<and> (\<forall>R\<in>set Rs. R \<subseteq> {..<max_doc}) \<and>
    must_docs max_doc Rs = must_docs max_doc Ms \<and> (Ms = [] \<longleftrightarrow> Rs = [] \<and> num_all_scorers counts = 0))"
proof -
  obtain c where c: "c < TERMINATED" "all_docs Ms \<subseteq> {c..}"
    "list_all2 (\<lambda>V s. stands_on c V s \<and> type_sound max_doc V (bx_type s)) Ms ss" using al by (auto simp: aligned_def)
  have "list_all2 (sound_for max_doc (stands_on c)) Ms ss"
    using c(3) bound by (auto simp: sound_for_def list_all2_conv_all_nth)
  from remove_law [OF this rm] obtain Rs where Rs: "list_all2 (stands_on c) Rs rest" "set Rs \<subseteq> set Ms"
    "length Ms = num_all_scorers counts + num_empty_scorers counts + length Rs"
    "must_docs max_doc Ms = (if num_empty_scorers counts = 0 then must_docs max_doc Rs else {})" by blast
  let ?Rs = "map (\<lambda>R. R \<inter> {c..}) Rs"
  have ne: "num_empty_scorers counts = 0"
  proof (cases "Ms = []")
    case False
    then have "\<forall>M\<in>set Ms. c \<in> M" using c(3) by (auto simp: list_all2_conv_all_nth in_set_conv_nth stands_on_def)
    then have "c \<in> must_docs max_doc Ms" using False bound by (cases Ms) (auto simp: must_docs_def)
    then show ?thesis using Rs(4) by (auto split: if_splits)
  qed (use Rs(3) in simp)
  have "must_docs max_doc ?Rs = must_docs max_doc Ms"
  proof (cases "Rs = []")
    case False
    have "must_docs max_doc ?Rs = must_docs max_doc Rs \<inter> {c..}" using False by (cases Rs) (auto simp: must_docs_def)
    moreover have "must_docs max_doc Ms \<subseteq> {c..}" using c(2) must_docs_all [OF mT] by (rule order_trans [rotated])
    ultimately show ?thesis using Rs(4) ne by auto
  qed (use Rs(4) ne in simp)
  moreover have "list_all2 box_rep ?Rs rest" using Rs(1) by (auto simp: list_all2_conv_all_nth stands_on_def)
  moreover have "\<forall>R\<in>set ?Rs. R \<subseteq> {..<max_doc}" using Rs(2) bound by auto
  moreover have "Ms = [] \<longleftrightarrow> ?Rs = [] \<and> num_all_scorers counts = 0" using Rs(3) ne by auto
  ultimately show ?thesis using ne by blast
qed

lemma boolean_docs_empty: "must_docs max_doc Ms = {} \<Longrightarrow> boolean_docs max_doc m Ms Ss Ns = {}"
  by (simp add: boolean_docs_def included_docs_def)

lemma included_docs_none:
  assumes "length Ss < m - a"
  shows "included_docs max_doc m no_must Ms a Ss = {}"
proof -
  have "a + matches Ss d < m" for d using matches_le [of Ss d] assms by linarith
  then show ?thesis by (auto simp: included_docs_def not_le max_def)
qed

text \<open>Removing the scorers that match everything or nothing keeps the meaning of the query.\<close>

lemma boolean_docs_removed:
  assumes "must_docs max_doc Rs = must_docs max_doc Ms"
    "\<forall>d<max_doc. matches Ss d = a + matches Ss' d" "\<forall>d<max_doc. matches Ns d = e + matches Ns' d"
  shows "boolean_docs max_doc m Ms Ss Ns =
    (if 0 < e \<or> length Ss' < m - a then {} else included_docs max_doc m (Ms = []) Rs a Ss' - \<Union> (set Ns'))"
proof -
  have I: "included_docs max_doc m (Ms = []) Ms 0 Ss = included_docs max_doc m (Ms = []) Rs a Ss'"
    unfolding included_docs_def assms(1) using assms(2) by (auto simp: must_docs_def)
  have sub: "included_docs max_doc m (Ms = []) Rs a Ss' \<subseteq> {..<max_doc}" by (auto simp: included_docs_def must_docs_def)
  have N: "d \<in> \<Union> (set Ns) \<longleftrightarrow> 0 < e \<or> d \<in> \<Union> (set Ns')" if "d < max_doc" for d
    using assms(3) that matches_Union [of Ns d] matches_Union [of Ns' d] by simp
  show ?thesis
  proof (cases "length Ss' < m - a")
    case True
    then show ?thesis unfolding boolean_docs_def I by (simp add: included_docs_none)
  next
    case False
    then show ?thesis unfolding boolean_docs_def I using N sub by auto
  qed
qed

text \<open>The end of the construction, once the trivial scorers are gone.\<close>

lemma include_exclude_law:
  assumes "list_all2 box_rep Rs musts" "\<forall>R\<in>set Rs. R \<subseteq> {..<max_doc}" "list_all2 box_rep Ss shoulds"
    "\<forall>S\<in>set Ss. S \<subseteq> {..<max_doc}" "max_doc + HORIZON \<le> TERMINATED" "m - a' \<le> length shoulds"
    "list_all2 (box_ready 0) Ns excluded"
  shows "\<exists>sc. combine_should est (m - a') shoulds musts n \<bind> (\<lambda>(method, musts').
      include_by est method musts' a a' max_doc n sce \<bind> (\<lambda>include_scorer.
      if excluded = [] then Some (Inr include_scorer :: 'e + specialized_scorer)
      else into_box_scorer est n include_scorer \<bind> (\<lambda>inc. exclude_scorers excluded inc \<bind> (\<lambda>s. Some (Inr (OtherScorer s)))))) =
      Some (Inr sc) \<and> spec_rep est n (included_docs max_doc m (Rs = [] \<and> a = 0) Rs a' Ss - \<Union> (set Ns)) sc"
proof -
  let ?I = "included_docs max_doc m (Rs = [] \<and> a = 0) Rs a' Ss"
  obtain me musts' inc where inc: "combine_should est (m - a') shoulds musts n = Some (me, musts')"
    "include_by est me musts' a a' max_doc n sce = Some inc" "spec_rep est n ?I inc"
    using include_law [OF assms(1-6)] by blast
  obtain b where b: "into_box_scorer est n inc = Some b" "box_rep ?I b" using inc(3) by (auto simp: spec_rep_def)
  show ?thesis
  proof (cases "excluded = []")
    case True
    then have "Ns = []" using assms(7) by simp
    then show ?thesis using inc True by simp
  next
    case False
    obtain x where x: "exclude_scorers excluded b = Some x" "box_rep (?I - \<Union> (set Ns)) x"
      using exclude_scorers_rep [OF b(2) assms(7) False] by blast
    then show ?thesis using inc b False by simp
  qed
qed

lemma aligned_hd:
  assumes "aligned max_doc Ms ss" "ss \<noteq> []"
  shows "bx_doc (hd ss) < TERMINATED"
proof -
  obtain c M where c: "c < TERMINATED" "stands_on c M (hd ss)" using assms
    by (cases ss) (auto simp: aligned_def list_all2_Cons2)
  then have r: "box_rep (M \<inter> {c..}) (hd ss)" and "c \<in> M \<inter> {c..}" by (auto simp: stands_on_def)
  then have "first_doc (M \<inter> {c..}) \<le> c" using box_rep_bound [OF r] by (intro first_doc_le)
  then show ?thesis using c(1) box_doc [OF r] by simp
qed

lemma complex_scorer_law:
  assumes Ms: "list_all2 (weight_matches max_doc) Ms (occ_must (wt_per_occur bw))"
    and Ss: "list_all2 (weight_matches max_doc) Ss (occ_should (wt_per_occur bw))"
    and Ns: "list_all2 (weight_matches max_doc) Ns (occ_must_not (wt_per_occur bw))"
    and bound: "max_doc + HORIZON \<le> TERMINATED"
  shows "\<exists>sc. complex_scorer est max_doc n bw = Some (Inr sc) \<and>
    spec_rep est n (boolean_docs max_doc (wt_minimum_number_should_match bw) Ms Ss Ns) sc"
proof -
  let ?m = "wt_minimum_number_should_match bw" and ?P = "\<lambda>D s. box_rep D s \<and> box_ready 0 D s"
  have mT: "max_doc \<le> TERMINATED" using bound by simp
  obtain must0 where must0: "create_aligned_scorers_for_intersection (occ_must (wt_per_occur bw)) = Some (Inr must0)"
    "must0 = [box_empty] \<and> Ms \<noteq> [] \<and> all_docs Ms = {} \<or> aligned max_doc Ms must0"
    using create_aligned_law [OF Ms] by blast
  show ?thesis
  proof (cases "aligned max_doc Ms must0")
    case False
    then have "boolean_docs max_doc ?m Ms Ss Ns = {}" using must0(2) must_docs_all [OF mT] by (intro boolean_docs_empty) blast
    then show ?thesis using must0 False box_doc [OF box_empty_rep] box_empty_rep by (simp add: complex_scorer_def try_bind_def)
  next
    case al: True
    have go: "\<not> (must0 \<noteq> [] \<and> bx_doc (hd must0) \<ge> TERMINATED)" using aligned_hd [OF al] by auto
    obtain should0 exclude0 where
      so: "map_scorers (occ_should (wt_per_occur bw)) = Some (Inr should0)" "list_all2 (sound_for max_doc ?P) Ss should0" and
      ex: "map_scorers (occ_must_not (wt_per_occur bw)) = Some (Inr exclude0)" "list_all2 (sound_for max_doc ?P) Ns exclude0"
      using map_scorers_law [OF Ss] map_scorers_law [OF Ns] by blast
    obtain mc musts sc shoulds ec excluded where rm: "remove_and_count_all_and_empty_scorers must0 = (mc, musts)"
      "remove_and_count_all_and_empty_scorers should0 = (sc, shoulds)"
      "remove_and_count_all_and_empty_scorers exclude0 = (ec, excluded)" by (metis surj_pair)
    obtain Rs where Rs: "num_empty_scorers mc = 0" "list_all2 box_rep Rs musts" "\<forall>R\<in>set Rs. R \<subseteq> {..<max_doc}"
      "must_docs max_doc Rs = must_docs max_doc Ms" "Ms = [] \<longleftrightarrow> Rs = [] \<and> num_all_scorers mc = 0"
      using must_law [OF al rm(1) weight_matches_bound [OF Ms] mT] by blast
    obtain Ss' where Ss': "list_all2 ?P Ss' shoulds" "set Ss' \<subseteq> set Ss"
      "\<forall>d<max_doc. matches Ss d = num_all_scorers sc + matches Ss' d" using remove_law [OF so(2) rm(2)] by blast
    obtain Ns' where Ns': "list_all2 ?P Ns' excluded"
      "\<forall>d<max_doc. matches Ns d = num_all_scorers ec + matches Ns' d" using remove_law [OF ex(2) rm(3)] by blast
    have rs: "list_all2 box_rep Ss' shoulds" "list_all2 (box_ready 0) Ns' excluded"
      using Ss'(1) Ns'(1) by (auto elim: list_all2_mono)
    have Sb: "\<forall>S\<in>set Ss'. S \<subseteq> {..<max_doc}" using weight_matches_bound [OF Ss] Ss'(2) by blast
    note D = boolean_docs_removed [OF Rs(4) Ss'(3) Ns'(2), of ?m]
    show ?thesis
    proof (cases "num_all_scorers ec > 0 \<or> ?m - num_all_scorers sc > length shoulds")
      case True
      then have "boolean_docs max_doc ?m Ms Ss Ns = {}" unfolding D using list_all2_lengthD [OF rs(1)] by auto
      moreover have "complex_scorer est max_doc n bw = Some (Inr (OtherScorer box_empty))"
        using True go must0(1) so(1) ex(1) rm Rs(1) by (auto simp: complex_scorer_def try_bind_def)
      ultimately show ?thesis using box_empty_rep by simp
    next
      case False
      then have le: "?m - num_all_scorers sc \<le> length shoulds" by simp
      then have "boolean_docs max_doc ?m Ms Ss Ns =
          included_docs max_doc ?m (Rs = [] \<and> num_all_scorers mc = 0) Rs (num_all_scorers sc) Ss' - \<Union> (set Ns')"
        unfolding D Rs(5) using False list_all2_lengthD [OF rs(1)] by auto
      then show ?thesis
        using include_exclude_law [OF Rs(2,3) rs(1) Sb bound le rs(2), of est n "num_all_scorers mc" "wt_scoring_enabled bw"]
          False go must0(1) so(1) ex(1) rm Rs(1) by (cases "must0 = []") (simp_all add: complex_scorer_def try_bind_def)
    qed
  qed
qed

lemma boolean_docs_single:
  "M \<subseteq> {..<max_doc} \<Longrightarrow> boolean_docs max_doc 0 [M] [] [] = M"
  "S \<subseteq> {..<max_doc} \<Longrightarrow> boolean_docs max_doc 0 [] [S] [] = S"
  "boolean_docs max_doc 0 [] [] Ns = {}"
  by (auto simp: boolean_docs_def included_docs_def must_docs_def matches_def split: if_splits)

lemma boolean_scorer_law:
  assumes Ms: "list_all2 (weight_matches max_doc) Ms (occ_must (wt_per_occur bw))"
    and Ss: "list_all2 (weight_matches max_doc) Ss (occ_should (wt_per_occur bw))"
    and Ns: "list_all2 (weight_matches max_doc) Ns (occ_must_not (wt_per_occur bw))"
    and bound: "max_doc + HORIZON \<le> TERMINATED"
    and small: "Ss = [] \<longrightarrow> wt_minimum_number_should_match bw = 0" "length Ss = 1 \<longrightarrow> wt_minimum_number_should_match bw = 0"
  shows "\<exists>b. boolean_scorer est max_doc n bw = Some (Inr b) \<and>
    box_rep (boolean_docs max_doc (wt_minimum_number_should_match bw) Ms Ss Ns) b"
proof -
  note len = list_all2_lengthD [OF Ms] list_all2_lengthD [OF Ss] list_all2_lengthD [OF Ns]
  consider (none) "Ms = []" "Ss = []" "Ns = []" | (must) M where "Ms = [M]" "Ss = []" "Ns = []"
    | (should) S where "Ms = []" "Ss = [S]" "Ns = []" | (must_not) N where "Ms = []" "Ss = []" "Ns = [N]"
    | (many) "2 \<le> length Ms + length Ss + length Ns"
    by (cases Ms; cases Ss; cases Ns) (auto simp: Suc_le_eq)
  then show ?thesis
  proof cases
    case none
    then show ?thesis using len small box_empty_rep boolean_docs_single(3) [of max_doc "[]"]
      by (simp add: boolean_scorer_def occur_len_def)
  next
    case must
    then obtain w where w: "occ_must (wt_per_occur bw) = [w]" "weight_matches max_doc M w" using Ms by (auto simp: list_all2_Cons1)
    then show ?thesis using must len small boolean_docs_single(1) [of M max_doc]
      by (auto simp: boolean_scorer_def occur_len_def occur_iter_def weight_matches_def)
  next
    case should
    then obtain w where w: "occ_should (wt_per_occur bw) = [w]" "weight_matches max_doc S w" using Ss by (auto simp: list_all2_Cons1)
    then show ?thesis using should len small boolean_docs_single(2) [of S max_doc]
      by (auto simp: boolean_scorer_def occur_len_def occur_iter_def weight_matches_def)
  next
    case must_not
    then obtain w where "occ_must_not (wt_per_occur bw) = [w]" using Ns by (auto simp: list_all2_Cons1)
    then show ?thesis using must_not len small box_empty_rep boolean_docs_single(3)
      by (simp add: boolean_scorer_def occur_len_def occur_iter_def)
  next
    case many
    obtain sc where sc: "complex_scorer est max_doc n bw = Some (Inr sc)"
      "spec_rep est n (boolean_docs max_doc (wt_minimum_number_should_match bw) Ms Ss Ns) sc"
      using complex_scorer_law [OF Ms Ss Ns bound] by blast
    then show ?thesis using many len by (auto simp: boolean_scorer_def occur_len_def try_bind_def spec_rep_def)
  qed
qed

text \<open>The sets of documents of the clauses with one occurrence.\<close>

definition clauses_of :: "occur \<Rightarrow> (occur \<times> 'a) list \<Rightarrow> 'a list" where
  "clauses_of oc cs = map snd (filter (\<lambda>c. fst c = oc) cs)"

lemma foldl_occur_push:
  "foldl occur_push acc ws =
    \<lparr>occ_must = occ_must acc @ clauses_of Must ws, occ_should = occ_should acc @ clauses_of Should ws,
     occ_must_not = occ_must_not acc @ clauses_of MustNot ws\<rparr>"
proof (induction ws arbitrary: acc)
  case (Cons w ws)
  then show ?case by (cases w; cases "fst w") (simp_all add: clauses_of_def occur_push_def)
qed (simp add: clauses_of_def)

lemma clauses_of_matches:
  "list_all2 (\<lambda>(oc, W) (oc', w). oc = oc' \<and> weight_matches max_doc W w) cs ws \<Longrightarrow>
    list_all2 (weight_matches max_doc) (clauses_of oc cs) (clauses_of oc ws)"
  by (induction rule: list_all2_induct) (auto simp: clauses_of_def)

text \<open>The meaning of a boolean query: clauses as sets of documents.\<close>

definition query_docs :: "nat \<Rightarrow> nat \<Rightarrow> (occur \<times> nat set) list \<Rightarrow> nat set" where
  "query_docs max_doc m cs =
     {d. d < max_doc \<and> (\<forall>(oc, W)\<in>set cs. oc = Must \<longrightarrow> d \<in> W) \<and> (\<forall>(oc, W)\<in>set cs. oc = MustNot \<longrightarrow> d \<notin> W) \<and>
        (if m = 0 then (\<exists>(oc, W)\<in>set cs. oc = Must \<or> oc = Should \<and> d \<in> W)
         else m \<le> length (filter (\<lambda>(oc, W). oc = Should \<and> d \<in> W) cs))}"

lemma matches_clauses_of:
  "matches (clauses_of oc cs) d = length (filter (\<lambda>(oc', W). oc' = oc \<and> d \<in> W) cs)"
  by (induction cs) (auto simp: matches_def clauses_of_def)

lemma clauses_of_ex: "clauses_of oc cs \<noteq> [] \<longleftrightarrow> (\<exists>(oc', W)\<in>set cs. oc' = oc)"
  by (force simp: clauses_of_def filter_empty_conv)

lemma query_docs_boolean:
  "query_docs max_doc m cs = boolean_docs max_doc m (clauses_of Must cs) (clauses_of Should cs) (clauses_of MustNot cs)"
proof -
  have one: "1 \<le> matches (clauses_of Should cs) d \<longleftrightarrow> (\<exists>(oc, W)\<in>set cs. oc = Should \<and> d \<in> W)" for d
    unfolding One_nat_def Suc_le_eq matches_Union by (force simp: clauses_of_def)
  have set: "d \<in> must_docs max_doc (clauses_of Must cs) \<longleftrightarrow> d < max_doc \<and> (\<forall>(oc, W)\<in>set cs. oc = Must \<longrightarrow> d \<in> W)"
    "d \<in> \<Union> (set (clauses_of MustNot cs)) \<longleftrightarrow> (\<exists>(oc, W)\<in>set cs. oc = MustNot \<and> d \<in> W)" for d
    by (force simp: must_docs_def clauses_of_def)+
  show ?thesis
  proof (rule set_eqI)
    fix d
    have "(if clauses_of Must cs = [] then max 1 m else m) \<le> matches (clauses_of Should cs) d \<longleftrightarrow>
      (if m = 0 then (\<exists>(oc, W)\<in>set cs. oc = Must \<or> oc = Should \<and> d \<in> W)
       else m \<le> length (filter (\<lambda>(oc, W). oc = Should \<and> d \<in> W) cs))"
    proof (cases "m = 0")
      case True
      have "(\<exists>(oc, W)\<in>set cs. oc = Must \<or> oc = Should \<and> d \<in> W) \<longleftrightarrow>
          clauses_of Must cs \<noteq> [] \<or> (\<exists>(oc, W)\<in>set cs. oc = Should \<and> d \<in> W)"
        unfolding clauses_of_ex by blast
      then show ?thesis using True one [of d] by simp
    next
      case False
      then have "max 1 m = m" by simp
      then show ?thesis using False by (simp add: matches_clauses_of)
    qed
    then show "d \<in> query_docs max_doc m cs \<longleftrightarrow>
        d \<in> boolean_docs max_doc m (clauses_of Must cs) (clauses_of Should cs) (clauses_of MustNot cs)"
      unfolding query_docs_def boolean_docs_def included_docs_def Diff_iff mem_Collect_eq set by auto
  qed
qed

definition clause_matches :: "nat \<Rightarrow> occur \<times> nat set \<Rightarrow> occur \<times> 'e boxed_weight \<Rightarrow> bool" where
  "clause_matches max_doc c w \<longleftrightarrow> fst c = fst w \<and> weight_matches max_doc (snd c) (snd w)"

lemma boolean_docs_promote:
  "boolean_docs max_doc 0 (Ms @ Ss) [] Ns = boolean_docs max_doc (length Ss) Ms Ss Ns"
proof (cases "Ss = []")
  case False
  then have "(if Ms = [] then max 1 (length Ss) else length Ss) = length Ss" by (cases Ss) auto
  then show ?thesis using False
    by (auto simp: boolean_docs_def included_docs_def must_docs_def matches_full)
qed simp

text \<open>
  Property C2. The scorer of a boolean query is always built, and it iterates over exactly the documents
  below \<open>max_doc\<close> that every required clause matches, no excluded clause matches, and that match at
  least the minimum number of optional clauses; with a minimum of zero and no required clause, some
  optional clause has to match.
\<close>

theorem boolean_weight_correct:
  assumes "list_all2 (clause_matches max_doc) cs ws" "max_doc + HORIZON \<le> TERMINATED"
  shows "\<exists>b. boolean_scorer est max_doc num_docs (with_minimum_number_should_match ws m scoring) = Some (Inr b) \<and>
    box_rep (query_docs max_doc m cs) b"
proof -
  let ?Ms = "clauses_of Must cs" and ?Ss = "clauses_of Should cs" and ?Ns = "clauses_of MustNot cs"
  let ?bw = "with_minimum_number_should_match ws m scoring"
  have "list_all2 (\<lambda>(oc, W) (oc', w). oc = oc' \<and> weight_matches max_doc W w) cs ws"
    using assms(1) by (auto simp: clause_matches_def elim: list_all2_mono)
  note W = clauses_of_matches [OF this]
  note len = list_all2_lengthD [OF W [of Should]]
  note law = boolean_scorer_law [where bw = ?bw, OF _ _ _ assms(2), of _ _ _ est num_docs]
  consider (gt) "m < length ?Ss" | (eq) "m = length ?Ss" | (lt) "length ?Ss < m" by linarith
  then show ?thesis
  proof cases
    case gt
    then have "?Ss = [] \<longrightarrow> m = 0" "length ?Ss = 1 \<longrightarrow> m = 0" by auto
    then show ?thesis using gt law [of ?Ms ?Ss ?Ns] W len
      by (simp add: query_docs_boolean with_minimum_number_should_match_def foldl_occur_push occur_default_def Let_def)
  next
    case eq
    then show ?thesis using law [of "?Ms @ ?Ss" "[]" ?Ns] W len
      by (simp add: query_docs_boolean with_minimum_number_should_match_def foldl_occur_push occur_default_def Let_def
          promote_should_to_must_def list_all2_appendI boolean_docs_promote)
  next
    case lt
    then have "boolean_docs max_doc m ?Ms ?Ss ?Ns = {}" by (simp add: boolean_docs_def included_docs_none)
    then show ?thesis using lt law [of "[]" "[]" "[]"] len boolean_docs_single(3) [of max_doc "[]"]
      by (simp add: query_docs_boolean with_minimum_number_should_match_def foldl_occur_push occur_default_def Let_def)
  qed
qed

definition vec_weight :: "nat list \<Rightarrow> unit boxed_weight" where
  "vec_weight ds =
     (let s = box TypeOther vec_ops \<lparr>vd_doc_ids = ds, vd_cursor = 0\<rparr>
      in \<lparr>bw_scorer = Some (Inr s), bw_scorer_danger = default_scorer_danger (Some (Inr s))\<rparr>)"

lemma vec_weight_matches:
  assumes "sorted_wrt (<) ds" "set ds \<subseteq> {..<max_doc}" "max_doc \<le> TERMINATED"
  shows "weight_matches max_doc (set ds) (vec_weight ds)"
proof -
  let ?v = "\<lparr>vd_doc_ids = ds, vd_cursor = 0\<rparr>"
  have r: "vec_rep (set ds) ?v" using assms by (auto simp: vec_rep_def)
  then have "valid_ready vec_rep 0 (set ds) ?v" by (auto simp: valid_ready_def)
  then show ?thesis unfolding vec_weight_def Let_def
    using assms(2) vec.box_rep_box [OF r] vec.box_ready_box
    by (intro weight_matchesI) (auto simp: type_sound_def)
qed

theorem boolean_weight_correct_witness:
  "\<exists>b. boolean_scorer \<lparr>est_intersection = \<lambda>_. 0, est_union = \<lambda>_. 0\<rparr> 10 10
     (with_minimum_number_should_match
        [(Should, vec_weight [1, 4, 6]), (MustNot, vec_weight [6]), (Should, vec_weight [4, 6, 8]), (Should, vec_weight [1])] 2 True) =
     Some (Inr b) \<and> box_rep {1, 4} b \<and> bx_doc b = 1"
proof -
  let ?cs = "[(Should, {1, 4, 6}), (MustNot, {6}), (Should, {4, 6, 8}), (Should, {1 :: nat})]"
  let ?ws = "[(Should, vec_weight [1, 4, 6]), (MustNot, vec_weight [6]), (Should, vec_weight [4, 6, 8]), (Should, vec_weight [1])]"
  have T: "(10 :: nat) \<le> TERMINATED" "10 + HORIZON \<le> TERMINATED" by (simp_all add: TERMINATED_def HORIZON_def)
  have "weight_matches 10 {1, 4, 6} (vec_weight [1, 4, 6])" "weight_matches 10 {6} (vec_weight [6])"
    "weight_matches 10 {4, 6, 8} (vec_weight [4, 6, 8])" "weight_matches 10 {1} (vec_weight [1])"
    using vec_weight_matches [OF _ _ T(1), of "[1, 4, 6]"] vec_weight_matches [OF _ _ T(1), of "[6]"]
      vec_weight_matches [OF _ _ T(1), of "[4, 6, 8]"] vec_weight_matches [OF _ _ T(1), of "[1]"] by simp_all
  then have l: "list_all2 (clause_matches 10) ?cs ?ws" by (simp add: clause_matches_def)
  have D: "query_docs 10 2 ?cs = {1, 4}" by (auto simp: query_docs_def)
  obtain b where b: "boolean_scorer \<lparr>est_intersection = \<lambda>_. 0, est_union = \<lambda>_. 0\<rparr> 10 10
      (with_minimum_number_should_match ?ws 2 True) = Some (Inr b)" "box_rep {1, 4} b"
    using boolean_weight_correct [OF l T(2), of _ 10 2 True] unfolding D by blast
  moreover have "first_doc {1, 4 :: nat} = 1" by (simp add: first_doc_def)
  ultimately show ?thesis using box_doc [OF b(2)] by auto
qed

lemma stands_on_doc: "stands_on c V s \<Longrightarrow> bx_doc s = c"
proof -
  assume s: "stands_on c V s"
  then have r: "box_rep (V \<inter> {c..}) s" by (simp add: stands_on_def)
  have "first_doc (V \<inter> {c..}) = c" using s box_rep_bound [OF r] by (intro first_doc_eqI) (auto simp: stands_on_def)
  then show ?thesis using box_doc [OF r] by simp
qed

lemma aligned_first:
  assumes "aligned max_doc Vs ss" "Vs \<noteq> []"
  shows "all_docs Vs \<noteq> {}" "\<forall>s\<in>set ss. bx_doc s = Min (all_docs Vs)" "length ss = length Vs"
proof -
  obtain c where c: "c < TERMINATED" "all_docs Vs \<subseteq> {c..}"
    "list_all2 (\<lambda>V s. stands_on c V s \<and> type_sound max_doc V (bx_type s)) Vs ss" using assms(1) by (auto simp: aligned_def)
  have "\<forall>V\<in>set Vs. c \<in> V" using c(3) by (auto simp: list_all2_conv_all_nth in_set_conv_nth stands_on_def)
  then have mem: "c \<in> all_docs Vs" using c(1) by (simp add: all_docs_def)
  then show "all_docs Vs \<noteq> {}" by blast
  have "finite (all_docs Vs)" using all_docs_bound by (rule finite_subset) simp
  then have "Min (all_docs Vs) = c" using mem c(2) by (intro Min_eqI) auto
  then show "\<forall>s\<in>set ss. bx_doc s = Min (all_docs Vs)"
    using c(3) stands_on_doc by (fastforce simp: list_all2_conv_all_nth in_set_conv_nth)
  show "length ss = length Vs" using list_all2_lengthD [OF c(3)] by simp
qed

text \<open>
  Property C11. The aligned creation of the required scorers always ends, in both loops and for every list of
  weights: when some document is matched by all of them it returns one scorer per weight, all standing on the
  first such document, and otherwise the single empty scorer.
\<close>

theorem create_aligned_terminates:
  assumes "list_all2 (weight_matches max_doc) Vs ws" "ws \<noteq> []"
  shows "\<exists>ss. create_aligned_scorers_for_intersection ws = Some (Inr ss) \<and>
    (if all_docs Vs = {} then ss = [box_empty]
     else length ss = length ws \<and> (\<forall>s\<in>set ss. bx_doc s = Min (all_docs Vs)))"
proof -
  have ne: "Vs \<noteq> []" and len: "length Vs = length ws" using assms by (auto dest: list_all2_lengthD)
  obtain ss where "create_aligned_scorers_for_intersection ws = Some (Inr ss)"
    "ss = [box_empty] \<and> Vs \<noteq> [] \<and> all_docs Vs = {} \<or> aligned max_doc Vs ss"
    using create_aligned_law [OF assms(1)] by blast
  then show ?thesis using aligned_first [OF _ ne, of max_doc ss] len by auto
qed

theorem create_aligned_terminates_witness:
  "\<exists>ss. create_aligned_scorers_for_intersection [vec_weight [1, 4, 6], vec_weight [2, 4, 8], vec_weight [0, 3, 4]] = Some (Inr ss) \<and>
     map bx_doc ss = [4, 4, 4]"
proof -
  let ?ws = "[vec_weight [1, 4, 6], vec_weight [2, 4, 8], vec_weight [0, 3, 4]]"
  let ?Vs = "[{1, 4, 6}, {2, 4, 8}, {0, 3, 4 :: nat}]"
  have T: "(10 :: nat) \<le> TERMINATED" by (simp add: TERMINATED_def)
  have l: "list_all2 (weight_matches 10) ?Vs ?ws"
    using vec_weight_matches [OF _ _ T, of "[1, 4, 6]"] vec_weight_matches [OF _ _ T, of "[2, 4, 8]"]
      vec_weight_matches [OF _ _ T, of "[0, 3, 4]"] by simp
  have D: "all_docs ?Vs = {4}" by (auto simp: all_docs_def TERMINATED_def)
  obtain ss where ss: "create_aligned_scorers_for_intersection ?ws = Some (Inr ss)" "length ss = 3" "\<forall>s\<in>set ss. bx_doc s = 4"
    using create_aligned_terminates [OF l] unfolding D by auto
  have "map bx_doc ss = [4, 4, 4]" using ss(2,3) by (auto simp: numeral_3_eq_3 length_Suc_conv)
  with ss(1) show ?thesis by (intro exI conjI)
qed

text \<open>
  Property C12. A scorer with documents \<open>D\<close>, asked around the sentinel: the default \<open>scorer_danger\<close> of its weight
  reports the sentinel as found exactly when the scorer has no document, although the sentinel is in no document
  set; when the scorer has documents, and with \<open>seek_danger\<close> of the same scorer in every case, the answer is the
  sentinel as a lower bound.
\<close>

theorem scorer_danger_sentinel:
  assumes "box_rep D s"
  shows "(\<exists>s'. default_scorer_danger (Some (Inr s) :: ('e + boxed) option) TERMINATED =
        Some (Inr (if D = {} then Found else SeekLowerBound TERMINATED, s'))) \<and>
    (\<exists>s'. bx_seek_danger s TERMINATED = Some (SeekLowerBound TERMINATED, s'))"
proof -
  have bound: "D \<subseteq> {..<TERMINATED}" using assms by (rule box_rep_bound)
  have doc: "bx_doc s = first_doc D" using assms by (rule box_doc)
  have "box_ready TERMINATED (D \<inter> {TERMINATED..}) s"
    using boxed.rep_ready [OF assms first_doc_bound [OF bound]] .
  moreover have D: "D \<inter> {TERMINATED..} = {}" using bound by auto
  ultimately obtain r s' where "bx_seek_danger s TERMINATED = Some (r, s')" "danger_result TERMINATED {} r"
    using boxed.danger_law [of TERMINATED "{}" s] by (auto simp: box_ops_def)
  then have danger: "bx_seek_danger s TERMINATED = Some (SeekLowerBound TERMINATED, s')"
    by (auto simp: danger_result_def danger_bound_def)
  have "first_doc D < TERMINATED" if "D \<noteq> {}" using first_doc_in [OF that bound] bound by auto
  then show ?thesis using danger doc by (cases "D = {}") (auto simp: default_scorer_danger_def try_bind_def)
qed

theorem scorer_danger_sentinel_witness:
  "(\<exists>s'. default_scorer_danger (Some (Inr box_empty) :: (unit + boxed) option) TERMINATED = Some (Inr (Found, s'))) \<and>
   (\<exists>s'. default_scorer_danger (Some (Inr (box_all 3)) :: (unit + boxed) option) TERMINATED =
      Some (Inr (SeekLowerBound TERMINATED, s'))) \<and>
   (\<exists>s'. bx_seek_danger box_empty TERMINATED = Some (SeekLowerBound TERMINATED, s'))"
proof -
  have "box_rep {..<3} (box_all 3)" by (rule box_all_rep) (simp add: TERMINATED_def)
  then show ?thesis
    using scorer_danger_sentinel [where 'e = unit, OF box_empty_rep] scorer_danger_sentinel [where 'e = unit, of "{..<3}" "box_all 3"]
    by (simp add: lessThan_empty_iff)
qed

end
