(* ===== verification/Arena.thy ===== *)
theory Arena
  imports Prelude
begin

text \<open>
  The 32-bit memory arena of the indexer, \<^verbatim>\<open>stacker/src/memory_arena.rs\<close>, with the short slice copies and
  comparisons of \<^verbatim>\<open>fastcpy.rs\<close> and \<^verbatim>\<open>fastcmp.rs\<close>. A page is an explicit store of one megabyte; an address
  is a 32-bit word whose upper bits are the page. Reading or writing outside a page, which the code does
  not check, is \<open>None\<close> here. The arena is one flat memory: allocations are disjoint, leave all earlier
  bytes alone, and fail only when the pages run out.
\<close>

section \<open>Short slices\<close>

text \<open>The first and the last \<open>SIZE\<close> bytes, which overlap in the middle.\<close>

definition double_copy_trick :: "nat \<Rightarrow> u8 list \<Rightarrow> u8 list \<Rightarrow> u8 list option" where
  "double_copy_trick sz src dst =
     (if sz \<le> length src \<and> sz \<le> length dst \<and> length src - sz \<le> length dst then
        let dst1 = take sz src @ drop sz dst in
        (if length dst - (length src - sz) = sz then Some (take (length src - sz) dst1 @ drop (length src - sz) src) else None)
      else None)"

definition short_copy :: "u8 list \<Rightarrow> u8 list \<Rightarrow> u8 list option" where
  "short_copy src dst =
     (if src = [] \<or> dst = [] then None
      else let dst1 = hd src # tl dst in if length src \<ge> 2 then double_copy_trick 2 src dst1 else Some dst1)"

definition fast_short_slice_copy :: "bool \<Rightarrow> u8 list \<Rightarrow> u8 list \<Rightarrow> u8 list option" where
  "fast_short_slice_copy avx src dst =
     (if length src \<noteq> length dst then None
      else if src = [] then Some dst
      else if length src < 4 then short_copy src dst
      else if length src < 8 then double_copy_trick 4 src dst
      else if length src \<le> 16 then double_copy_trick 8 src dst
      else if length src \<le> 32 then double_copy_trick 16 src dst
      else if avx \<and> length src \<le> 64 then double_copy_trick 32 src dst
      else Some src)"

definition double_check_trick :: "nat \<Rightarrow> u8 list \<Rightarrow> u8 list \<Rightarrow> bool option" where
  "double_check_trick sz left right =
     (if sz \<le> length left \<and> sz \<le> length right then
        Some (take sz left = take sz right \<and> drop (length left - sz) left = drop (length right - sz) right)
      else None)"

definition short_compare :: "u8 list \<Rightarrow> u8 list \<Rightarrow> bool" where
  "short_compare left right = list_all (\<lambda>(l, r). l = r) (zip left right)"

function nbyte_compare_loop :: "nat \<Rightarrow> nat \<Rightarrow> nat \<Rightarrow> u8 list \<Rightarrow> u8 list \<Rightarrow> bool option" where
  "nbyte_compare_loop sz end_of i left right =
     (if sz = 0 \<or> length left < i + sz \<or> length right < i + sz then None
      else if take sz (drop i left) \<noteq> take sz (drop i right) then Some False
      else if i + sz \<ge> end_of then Some (drop (length left - sz) left = drop (length right - sz) right)
      else nbyte_compare_loop sz end_of (i + sz) left right)"
  by pat_completeness auto
termination by (relation "measure (\<lambda>(sz, end_of, i, left, right). end_of - i)") auto

declare nbyte_compare_loop.simps [simp del]

definition fast_nbyte_slice_compare :: "nat \<Rightarrow> u8 list \<Rightarrow> u8 list \<Rightarrow> bool option" where
  "fast_nbyte_slice_compare sz left right =
     nbyte_compare_loop sz (length left - length left mod sz) 0 left right"

definition fast_short_slice_compare :: "u8 list \<Rightarrow> u8 list \<Rightarrow> bool option" where
  "fast_short_slice_compare left right =
     (if length left \<noteq> length right then Some False
      else if length left < 8 then
        if length left \<ge> 4 then double_check_trick 4 left right else Some (short_compare left right)
      else if length left > 16 then fast_nbyte_slice_compare 16 left right
      else double_check_trick 8 left right)"

lemma double_copy_trick_eq:
  assumes "length src = length dst" "sz \<le> length src" "length src \<le> 2 * sz"
  shows "double_copy_trick sz src dst = Some src"
proof -
  have "length src - sz \<le> sz" using assms by linarith
  then have "take (length src - sz) (take sz src @ drop sz dst) = take (length src - sz) src"
    using assms(1,2) by (simp add: take_append)
  then show ?thesis using assms by (simp add: double_copy_trick_def Let_def)
qed

lemma short_copy_eq:
  assumes "length src = length dst" "src \<noteq> []" "length src < 4"
  shows "short_copy src dst = Some src"
proof (cases "length src \<ge> 2")
  case True
  have "length src = length (hd src # tl dst)" using assms by (cases dst) auto
  then have "double_copy_trick 2 src (hd src # tl dst) = Some src" using assms True by (intro double_copy_trick_eq) auto
  then show ?thesis using assms True by (auto simp: short_copy_def)
next
  case False
  then obtain x where x: "src = [x]" using assms(2) by (cases src) (auto simp: not_le)
  then obtain y where "dst = [y]" using assms(1) by (cases dst) auto
  then show ?thesis using x by (simp add: short_copy_def)
qed

lemma fast_short_slice_copy_eq:
  "fast_short_slice_copy avx src dst = (if length src = length dst then Some src else None)"
  by (auto simp: fast_short_slice_copy_def short_copy_eq double_copy_trick_eq)

lemma overlapping_eq:
  assumes "length l = length r" "length l \<le> k + sz" "sz \<le> length l" "take k l = take k r"
    "drop (length l - sz) l = drop (length r - sz) r"
  shows "l = r"
proof -
  let ?n = "length l - sz"
  have "?n \<le> k" using assms by simp
  then have "take ?n l = take ?n r" using assms(4) by (metis min.absorb1 take_take)
  then show ?thesis using assms(1,5) by (metis append_take_drop_id)
qed

lemma double_check_trick_eq:
  assumes "length l = length r" "sz \<le> length l" "length l \<le> 2 * sz"
  shows "double_check_trick sz l r = Some (l = r)"
  using assms overlapping_eq [of l r sz sz] by (auto simp: double_check_trick_def)

lemma nbyte_compare_loop_eq:
  assumes "length l = length r" "0 < sz" "end_of = length l - length l mod sz" "i < end_of" "i mod sz = 0"
    "take i l = take i r"
  shows "nbyte_compare_loop sz end_of i l r = Some (l = r)"
  using assms(4-6)
proof (induction "end_of - i" arbitrary: i rule: less_induct)
  case less
  have div: "sz dvd i" "sz dvd end_of" using less.prems(2) assms(3) by (auto simp: minus_mod_eq_mult_div)
  have step: "i + sz \<le> end_of"
  proof -
    have "sz dvd end_of - i" using div less.prems(1) by (intro dvd_diff_nat) auto
    then have "sz \<le> end_of - i" using less.prems(1) by (intro dvd_imp_le) auto
    then show ?thesis using less.prems(1) by linarith
  qed
  have end_of: "end_of \<le> length l" "length l < end_of + sz" using assms(3) mod_less_divisor [OF assms(2), of "length l"] mod_le_divisor by auto
  have split: "take (i + sz) xs = take i xs @ take sz (drop i xs)" for xs :: "u8 list" by (simp add: take_add)
  show ?case
  proof (cases "take sz (drop i l) = take sz (drop i r)")
    case False
    then have "l \<noteq> r" by auto
    then show ?thesis using False step end_of assms(1,2) by (subst nbyte_compare_loop.simps) simp
  next
    case True
    then have eq: "take (i + sz) l = take (i + sz) r" unfolding split using less.prems(3) by simp
    show ?thesis
    proof (cases "i + sz \<ge> end_of")
      case fin: True
      have "length l \<le> (i + sz) + sz" "sz \<le> length l" using fin end_of step by auto
      then have "drop (length l - sz) l = drop (length r - sz) r \<longleftrightarrow> l = r"
        using overlapping_eq [OF assms(1), of "i + sz" sz] eq by auto
      then show ?thesis using True fin step end_of assms(1,2) by (subst nbyte_compare_loop.simps) simp
    next
      case go: False
      have "nbyte_compare_loop sz end_of (i + sz) l r = Some (l = r)"
        using go assms(2) eq less.prems by (intro less.hyps) auto
      then show ?thesis using True go step end_of assms(1,2) by (subst nbyte_compare_loop.simps) simp
    qed
  qed
qed

lemma fast_short_slice_compare_eq: "fast_short_slice_compare l r = Some (l = r)"
proof -
  have short: "short_compare l r = (l = r)" if "length l = length r"
    using that by (induction l r rule: list_induct2) (auto simp: short_compare_def)
  have long: "fast_nbyte_slice_compare 16 l r = Some (l = r)" if "length l = length r" "16 < length l"
  proof -
    have "16 \<le> length l - length l mod 16" using that(2) by (simp add: minus_mod_eq_mult_div)
    then show ?thesis unfolding fast_nbyte_slice_compare_def using that by (intro nbyte_compare_loop_eq) auto
  qed
  show ?thesis by (auto simp: fast_short_slice_compare_def short long double_check_trick_eq)
qed

section \<open>Addresses and pages\<close>

type_synonym addr = u32

definition NUM_BITS_PAGE_ADDR :: nat where
  "NUM_BITS_PAGE_ADDR = 20"

definition PAGE_SIZE :: nat where
  "PAGE_SIZE = 2 ^ NUM_BITS_PAGE_ADDR"

definition addr_null_pointer :: addr where
  "addr_null_pointer = - 1"

definition addr_offset :: "addr \<Rightarrow> u32 \<Rightarrow> addr" where
  "addr_offset a off = a + off"

definition addr_new :: "nat \<Rightarrow> nat \<Rightarrow> addr" where
  "addr_new page_id local_addr = word_of_nat (push_bit NUM_BITS_PAGE_ADDR page_id OR local_addr)"

definition addr_page_id :: "addr \<Rightarrow> nat" where
  "addr_page_id a = drop_bit NUM_BITS_PAGE_ADDR (unat a)"

definition addr_page_local_addr :: "addr \<Rightarrow> nat" where
  "addr_page_local_addr a = unat a AND (PAGE_SIZE - 1)"

definition addr_is_null :: "addr \<Rightarrow> bool" where
  "addr_is_null a \<longleftrightarrow> a = - 1"

record page =
  pg_page_id :: nat
  pg_len :: nat
  pg_data :: "nat \<Rightarrow> u8"

definition page_new :: "nat \<Rightarrow> page option" where
  "page_new page_id = (if page_id < 4096 then Some \<lparr>pg_page_id = page_id, pg_len = 0, pg_data = \<lambda>_. 0\<rparr> else None)"

definition page_is_available :: "page \<Rightarrow> nat \<Rightarrow> bool" where
  "page_is_available p len \<longleftrightarrow> len + pg_len p \<le> PAGE_SIZE"

text \<open>A slice of a page: its length and its bytes.\<close>

definition page_slice_from :: "page \<Rightarrow> nat \<Rightarrow> (nat \<times> (nat \<Rightarrow> u8)) option" where
  "page_slice_from p local_addr =
     (if local_addr \<le> PAGE_SIZE then Some (PAGE_SIZE - local_addr, \<lambda>i. pg_data p (local_addr + i)) else None)"

definition slice_get_unchecked :: "nat \<times> (nat \<Rightarrow> u8) \<Rightarrow> nat \<Rightarrow> nat \<Rightarrow> u8 list option" where
  "slice_get_unchecked s start stop = (if start \<le> stop \<and> stop \<le> fst s then Some (map (snd s) [start..<stop]) else None)"

definition page_slice :: "page \<Rightarrow> nat \<Rightarrow> nat \<Rightarrow> u8 list option" where
  "page_slice p local_addr len = page_slice_from p local_addr \<bind> (\<lambda>s. slice_get_unchecked s 0 len)"

text \<open>The mutable slice, overwritten by the caller.\<close>

definition page_slice_mut :: "page \<Rightarrow> nat \<Rightarrow> u8 list \<Rightarrow> page option" where
  "page_slice_mut p local_addr bytes =
     (if local_addr + length bytes \<le> PAGE_SIZE then
        Some (p\<lparr>pg_data := \<lambda>i. if local_addr \<le> i \<and> i < local_addr + length bytes then bytes ! (i - local_addr) else pg_data p i\<rparr>)
      else None)"

definition page_allocate_space :: "page \<Rightarrow> nat \<Rightarrow> (addr \<times> page) option" where
  "page_allocate_space p len =
     (if page_is_available p len then Some (addr_new (pg_page_id p) (pg_len p), p\<lparr>pg_len := pg_len p + len\<rparr>) else None)"

section \<open>The arena\<close>

record memory_arena =
  ar_pages :: "page list"

definition arena_default :: "memory_arena option" where
  "arena_default = map_option (\<lambda>p. \<lparr>ar_pages = [p]\<rparr>) (page_new 0)"

definition arena_mem_usage :: "memory_arena \<Rightarrow> nat" where
  "arena_mem_usage a = length (ar_pages a) * PAGE_SIZE"

definition arena_len :: "memory_arena \<Rightarrow> nat" where
  "arena_len a = (length (ar_pages a) - 1) * PAGE_SIZE + pg_len (last (ar_pages a))"

definition arena_is_empty :: "memory_arena \<Rightarrow> bool" where
  "arena_is_empty a \<longleftrightarrow> arena_len a = 0"

definition arena_get_page :: "memory_arena \<Rightarrow> nat \<Rightarrow> page option" where
  "arena_get_page a page_id = (if page_id < length (ar_pages a) then Some (ar_pages a ! page_id) else None)"

definition arena_slice :: "memory_arena \<Rightarrow> addr \<Rightarrow> nat \<Rightarrow> u8 list option" where
  "arena_slice a adr len = arena_get_page a (addr_page_id adr) \<bind> (\<lambda>p. page_slice p (addr_page_local_addr adr) len)"

definition arena_slice_from :: "memory_arena \<Rightarrow> addr \<Rightarrow> (nat \<times> (nat \<Rightarrow> u8)) option" where
  "arena_slice_from a adr = arena_get_page a (addr_page_id adr) \<bind> (\<lambda>p. page_slice_from p (addr_page_local_addr adr))"

definition arena_slice_mut :: "memory_arena \<Rightarrow> addr \<Rightarrow> u8 list \<Rightarrow> memory_arena option" where
  "arena_slice_mut a adr bytes =
     arena_get_page a (addr_page_id adr) \<bind> (\<lambda>p.
       page_slice_mut p (addr_page_local_addr adr) bytes \<bind> (\<lambda>p'.
         Some (a\<lparr>ar_pages := (ar_pages a)[addr_page_id adr := p']\<rparr>)))"

definition arena_add_page :: "memory_arena \<Rightarrow> nat \<Rightarrow> (addr \<times> memory_arena) option" where
  "arena_add_page a len =
     (if len \<le> PAGE_SIZE then
        page_new (length (ar_pages a)) \<bind> (\<lambda>p.
          Some (addr_new (length (ar_pages a)) 0, a\<lparr>ar_pages := ar_pages a @ [p\<lparr>pg_len := len\<rparr>]\<rparr>))
      else None)"

definition arena_allocate_space :: "memory_arena \<Rightarrow> nat \<Rightarrow> (addr \<times> memory_arena) option" where
  "arena_allocate_space a len =
     arena_get_page a (length (ar_pages a) - 1) \<bind> (\<lambda>p.
       case page_allocate_space p len of
         Some (adr, p') \<Rightarrow> Some (adr, a\<lparr>ar_pages := (ar_pages a)[length (ar_pages a) - 1 := p']\<rparr>)
       | None \<Rightarrow> arena_add_page a len)"

text \<open>
  Items that are copied into and out of the arena as their bytes: \<open>store\<close> and \<open>load\<close> of the code, with the
  layout of a type given by its size and its two conversions.
\<close>

record 'v item_layout =
  it_size :: nat
  it_store :: "'v \<Rightarrow> u8 list"
  it_load :: "u8 list \<Rightarrow> 'v"

definition arena_read :: "'v item_layout \<Rightarrow> memory_arena \<Rightarrow> addr \<Rightarrow> 'v option" where
  "arena_read it a adr = map_option (it_load it) (arena_slice a adr (it_size it))"

definition arena_write_at :: "'v item_layout \<Rightarrow> memory_arena \<Rightarrow> addr \<Rightarrow> 'v \<Rightarrow> memory_arena option" where
  "arena_write_at it a adr v = arena_slice_mut a adr (it_store it v)"

definition u32_layout :: "u32 item_layout" where
  "u32_layout = \<lparr>it_size = 4, it_store = \<lambda>w. le_bytes 4 (unat w), it_load = \<lambda>bs. word_of_nat (le_nat bs)\<rparr>"

locale sized_item =
  fixes it :: "'v item_layout"
  assumes store_size: "length (it_store it v) = it_size it"
    and size_pos: "0 < it_size it"

definition storable :: "'v item_layout \<Rightarrow> 'v \<Rightarrow> bool" where
  "storable it v \<longleftrightarrow> it_load it (it_store it v) = v"

locale copy_item = sized_item +
  assumes load_store: "it_load it (it_store it v) = v"
begin

lemma all_storable: "storable it v"
  by (simp add: storable_def load_store)

end

interpretation u32_item: copy_item u32_layout
proof
  fix v :: u32
  show "length (it_store u32_layout v) = it_size u32_layout" "0 < it_size u32_layout" by (simp_all add: u32_layout_def)
  have "unat v < 256 ^ 4" using unat_u32_less [of v] by simp
  then show "it_load u32_layout (it_store u32_layout v) = v" by (simp add: u32_layout_def le_nat_le_bytes_id)
qed

section \<open>The arena as one flat memory\<close>

lemma PAGE_SIZE_pos [simp]: "0 < PAGE_SIZE"
  by (simp add: PAGE_SIZE_def)

lemma nat_or_shift: "(l :: nat) < 2 ^ n \<Longrightarrow> push_bit n p OR l = p * 2 ^ n + l"
proof -
  assume "l < 2 ^ n"
  then have l: "take_bit n l = l" by (simp add: take_bit_nat_eq_self)
  have "push_bit n p OR take_bit n l = push_bit n p + take_bit n l"
    by (rule disjunctive_add [symmetric]) (auto simp: bit_simps)
  then show ?thesis using l by (simp add: push_bit_eq_mult)
qed

lemma addr_page_id_eq: "addr_page_id adr = unat adr div PAGE_SIZE"
  by (simp add: addr_page_id_def PAGE_SIZE_def drop_bit_eq_div)

lemma addr_page_local_addr_eq: "addr_page_local_addr adr = unat adr mod PAGE_SIZE"
  unfolding addr_page_local_addr_def PAGE_SIZE_def mask_eq_exp_minus_1 [symmetric] take_bit_eq_mask [symmetric]
  by (rule take_bit_eq_mod)

lemma unat_addr_new: "page_id < 4096 \<Longrightarrow> l < PAGE_SIZE \<Longrightarrow> unat (addr_new page_id l) = page_id * PAGE_SIZE + l"
proof -
  assume a: "page_id < 4096" "l < PAGE_SIZE"
  then have "page_id * PAGE_SIZE + l < 2 ^ 32" by (simp add: PAGE_SIZE_def NUM_BITS_PAGE_ADDR_def)
  then have "unat (word_of_nat (page_id * PAGE_SIZE + l) :: addr) = page_id * PAGE_SIZE + l"
    unfolding unsigned_of_nat by (simp add: take_bit_nat_eq_self del: of_nat_add of_nat_mult)
  moreover have "push_bit NUM_BITS_PAGE_ADDR page_id OR l = page_id * PAGE_SIZE + l"
    using a(2) unfolding PAGE_SIZE_def by (rule nat_or_shift)
  ultimately show ?thesis unfolding addr_new_def by (simp only:)
qed

lemma unat_addr_offset: "unat adr + k < 2 ^ 32 \<Longrightarrow> unat (addr_offset adr (word_of_nat k)) = unat adr + k"
proof -
  assume k: "unat adr + k < 2 ^ 32"
  have "addr_offset adr (word_of_nat k) = word_of_nat (unat adr + k)" by (simp add: addr_offset_def)
  then show ?thesis using k by (simp add: unsigned_of_nat take_bit_nat_eq_self del: of_nat_add)
qed

definition in_page :: "nat \<Rightarrow> nat \<Rightarrow> bool" where
  "in_page g n \<longleftrightarrow> g mod PAGE_SIZE + n \<le> PAGE_SIZE"

definition arena_mem :: "memory_arena \<Rightarrow> nat \<Rightarrow> u8" where
  "arena_mem a g = (if g div PAGE_SIZE < length (ar_pages a) then pg_data (ar_pages a ! (g div PAGE_SIZE)) (g mod PAGE_SIZE) else 0)"

definition arena_inv :: "memory_arena \<Rightarrow> bool" where
  "arena_inv a \<longleftrightarrow> ar_pages a \<noteq> [] \<and> length (ar_pages a) \<le> 4096 \<and>
     (\<forall>i<length (ar_pages a). pg_page_id (ar_pages a ! i) = i \<and> pg_len (ar_pages a ! i) \<le> PAGE_SIZE)"

lemma arena_len_bound: "arena_inv a \<Longrightarrow> arena_len a \<le> 2 ^ 32"
proof -
  assume inv: "arena_inv a"
  then have "length (ar_pages a) - 1 \<le> 4095" "pg_len (last (ar_pages a)) \<le> PAGE_SIZE"
    by (auto simp: arena_inv_def last_conv_nth)
  then have "arena_len a \<le> 4095 * PAGE_SIZE + PAGE_SIZE" unfolding arena_len_def by (intro add_mono mult_le_mono1)
  then show ?thesis by (simp add: PAGE_SIZE_def NUM_BITS_PAGE_ADDR_def)
qed

text \<open>The bytes that are allocated at one address.\<close>

definition allocated :: "memory_arena \<Rightarrow> nat \<Rightarrow> nat \<Rightarrow> bool" where
  "allocated a g n \<longleftrightarrow> in_page g n \<and> g + n \<le> arena_len a"

lemma in_page_split:
  assumes "in_page g n" "i < n"
  shows "(g + i) div PAGE_SIZE = g div PAGE_SIZE" "(g + i) mod PAGE_SIZE = g mod PAGE_SIZE + i"
proof -
  have lt: "g mod PAGE_SIZE + i < PAGE_SIZE" using assms by (simp add: in_page_def)
  show "(g + i) mod PAGE_SIZE = g mod PAGE_SIZE + i" using lt by (metis mod_add_left_eq mod_less)
  then have "(g + i) div PAGE_SIZE * PAGE_SIZE = g div PAGE_SIZE * PAGE_SIZE"
    by (simp add: minus_mod_eq_div_mult [symmetric])
  then show "(g + i) div PAGE_SIZE = g div PAGE_SIZE" using PAGE_SIZE_pos by simp
qed

lemma in_page_mono: "in_page g n \<Longrightarrow> m \<le> n \<Longrightarrow> in_page g m"
  by (simp add: in_page_def)

lemma in_page_shift:
  assumes "in_page g n" "k + m \<le> n"
  shows "in_page (g + k) m"
proof (cases "k < n")
  case True
  then show ?thesis using in_page_split(2) [OF assms(1) True] assms by (simp add: in_page_def)
next
  case False
  then have "m = 0" using assms(2) by simp
  then show ?thesis using mod_less_divisor [OF PAGE_SIZE_pos, of "g + k"] by (simp add: in_page_def less_imp_le)
qed

lemma allocated_page:
  assumes "arena_inv a" "allocated a g n" "0 < n"
  shows "g div PAGE_SIZE < length (ar_pages a)"
proof -
  have "pg_len (last (ar_pages a)) \<le> PAGE_SIZE" using assms(1) by (simp add: arena_inv_def last_conv_nth)
  moreover have "g + n \<le> arena_len a" using assms(2) by (simp add: allocated_def)
  ultimately have "g < (length (ar_pages a) - 1) * PAGE_SIZE + PAGE_SIZE" using assms(3) unfolding arena_len_def by linarith
  also have "\<dots> = length (ar_pages a) * PAGE_SIZE" using assms(1) by (cases "ar_pages a") (auto simp: arena_inv_def)
  finally show ?thesis by (simp add: less_mult_imp_div_less)
qed

lemma arena_slice_from_law:
  assumes "unat adr div PAGE_SIZE < length (ar_pages a)"
  shows "arena_slice_from a adr = Some (PAGE_SIZE - unat adr mod PAGE_SIZE,
    \<lambda>i. pg_data (ar_pages a ! (unat adr div PAGE_SIZE)) (unat adr mod PAGE_SIZE + i))"
  using assms mod_less_divisor [OF PAGE_SIZE_pos, of "unat adr"]
  by (simp add: arena_slice_from_def arena_get_page_def page_slice_from_def addr_page_id_eq addr_page_local_addr_eq)

lemma arena_slice_eq: "arena_slice a adr n = arena_slice_from a adr \<bind> (\<lambda>s. slice_get_unchecked s 0 n)"
  by (simp add: arena_slice_def arena_slice_from_def page_slice_def split: bind_split)

lemma slice_from_mem:
  assumes "unat adr div PAGE_SIZE < length (ar_pages a)" "in_page (unat adr) n" "i \<le> j" "j \<le> n"
  shows "slice_get_unchecked (PAGE_SIZE - unat adr mod PAGE_SIZE,
    \<lambda>i. pg_data (ar_pages a ! (unat adr div PAGE_SIZE)) (unat adr mod PAGE_SIZE + i)) i j =
    Some (map (arena_mem a) [unat adr + i..<unat adr + j])"
proof -
  have "[unat adr + i..<unat adr + j] = map ((+) (unat adr)) [i..<j]" by (rule nth_equalityI) auto
  moreover have "pg_data (ar_pages a ! (unat adr div PAGE_SIZE)) (unat adr mod PAGE_SIZE + k) = arena_mem a (unat adr + k)"
    if "k < j" for k
    using in_page_split [OF assms(2), of k] that assms(1,4) by (simp add: arena_mem_def)
  moreover have "j \<le> PAGE_SIZE - unat adr mod PAGE_SIZE" using assms(2,4) by (simp add: in_page_def)
  ultimately show ?thesis using assms(3) by (simp add: slice_get_unchecked_def)
qed

lemma arena_slice_law:
  assumes "arena_inv a" "allocated a (unat adr) m" "0 < m" "n \<le> m"
  shows "arena_slice a adr n = Some (map (arena_mem a) [unat adr..<unat adr + n])"
proof -
  note p = allocated_page [OF assms(1-3)]
  have "in_page (unat adr) n" using assms(2,4) by (auto simp: allocated_def in_page_def)
  from slice_from_mem [OF p this, of 0 n] show ?thesis
    using arena_slice_from_law [OF p] by (simp add: arena_slice_eq)
qed

lemma arena_slice_mut_law:
  assumes "arena_inv a" "allocated a (unat adr) (length bs)" "bs \<noteq> []"
  shows "\<exists>a'. arena_slice_mut a adr bs = Some a' \<and> arena_inv a' \<and> length (ar_pages a') = length (ar_pages a) \<and>
    arena_len a' = arena_len a \<and>
    arena_mem a' = (\<lambda>g. if unat adr \<le> g \<and> g < unat adr + length bs then bs ! (g - unat adr) else arena_mem a g)"
proof -
  let ?g = "unat adr" and ?n = "length bs"
  let ?p = "?g div PAGE_SIZE" and ?l = "?g mod PAGE_SIZE"
  let ?q = "(ar_pages a ! ?p)\<lparr>pg_data := \<lambda>i. if ?l \<le> i \<and> i < ?l + ?n then bs ! (i - ?l) else pg_data (ar_pages a ! ?p) i\<rparr>"
  let ?a = "a\<lparr>ar_pages := (ar_pages a)[?p := ?q]\<rparr>"
  have n: "0 < ?n" using assms(3) by simp
  have p: "?p < length (ar_pages a)" by (rule allocated_page [OF assms(1,2) n])
  have ip: "in_page ?g ?n" using assms(2) by (simp add: allocated_def)
  have len: "pg_len (ar_pages ?a ! i) = pg_len (ar_pages a ! i)" if "i < length (ar_pages a)" for i
    using that p by (cases "i = ?p") auto
  have inv: "arena_inv ?a" unfolding arena_inv_def
  proof (intro conjI allI impI)
    fix i assume i: "i < length (ar_pages ?a)"
    then show "pg_page_id (ar_pages ?a ! i) = i" using assms(1) p by (cases "i = ?p") (auto simp: arena_inv_def)
    show "pg_len (ar_pages ?a ! i) \<le> PAGE_SIZE" using i len [of i] assms(1) by (simp add: arena_inv_def)
  qed (use assms(1) in \<open>auto simp: arena_inv_def\<close>)
  have "arena_len ?a = arena_len a" using len [of "length (ar_pages a) - 1"] assms(1) p
    by (cases "ar_pages a = []") (auto simp: arena_len_def last_conv_nth)
  moreover have "arena_mem ?a = (\<lambda>g. if ?g \<le> g \<and> g < ?g + ?n then bs ! (g - ?g) else arena_mem a g)"
  proof
    fix g
    have iff: "?g \<le> g \<and> g < ?g + ?n \<longleftrightarrow> g div PAGE_SIZE = ?p \<and> ?l \<le> g mod PAGE_SIZE \<and> g mod PAGE_SIZE < ?l + ?n"
    proof
      assume g: "?g \<le> g \<and> g < ?g + ?n"
      then show "g div PAGE_SIZE = ?p \<and> ?l \<le> g mod PAGE_SIZE \<and> g mod PAGE_SIZE < ?l + ?n"
        using in_page_split [OF ip, of "g - ?g"] by auto
    next
      assume g: "g div PAGE_SIZE = ?p \<and> ?l \<le> g mod PAGE_SIZE \<and> g mod PAGE_SIZE < ?l + ?n"
      have "?g = ?p * PAGE_SIZE + ?l" "g = g div PAGE_SIZE * PAGE_SIZE + g mod PAGE_SIZE"
        by (rule div_mult_mod_eq [symmetric])+
      moreover have "g div PAGE_SIZE * PAGE_SIZE = ?p * PAGE_SIZE" using g by simp
      ultimately show "?g \<le> g \<and> g < ?g + ?n" using g by linarith
    qed
    show "arena_mem ?a g = (if ?g \<le> g \<and> g < ?g + ?n then bs ! (g - ?g) else arena_mem a g)"
    proof (cases "?g \<le> g \<and> g < ?g + ?n")
      case True
      then have "g - ?g < ?n" "?g + (g - ?g) = g" by linarith+
      then have "g mod PAGE_SIZE - ?l = g - ?g" using in_page_split(2) [OF ip, of "g - ?g"] by simp
      then show ?thesis using True iff p by (simp add: arena_mem_def)
    next
      case False
      then show ?thesis using iff p by (auto simp: arena_mem_def nth_list_update)
    qed
  qed
  moreover have "arena_slice_mut a adr bs = Some ?a"
    using p ip by (simp add: arena_slice_mut_def arena_get_page_def page_slice_mut_def addr_page_id_eq addr_page_local_addr_eq in_page_def)
  ultimately show ?thesis using inv by (intro exI [of _ ?a]) simp
qed

text \<open>
  Allocations of at most \<open>M\<close> bytes waste less than \<open>M\<close> bytes at the end of a page: the load counts the pages
  that are left behind by the bytes surely used in them.
\<close>

definition arena_load :: "nat \<Rightarrow> memory_arena \<Rightarrow> nat" where
  "arena_load M a = (length (ar_pages a) - 1) * (PAGE_SIZE - M) + pg_len (last (ar_pages a))"

definition arena_cap :: "nat \<Rightarrow> nat" where
  "arena_cap M = 4095 * (PAGE_SIZE - M)"

lemma arena_default_law: "\<exists>a. arena_default = Some a \<and> arena_inv a \<and> arena_len a = 0 \<and> arena_load M a = 0"
  by (simp add: arena_default_def page_new_def arena_inv_def arena_len_def arena_load_def)

lemma arena_load_same: "arena_inv a \<Longrightarrow> length (ar_pages a') = length (ar_pages a) \<Longrightarrow> arena_len a' = arena_len a \<Longrightarrow>
    arena_load M a' = arena_load M a"
  by (simp add: arena_load_def arena_len_def)

lemma arena_mem_update_len:
  assumes "i < length (ar_pages a)"
  shows "arena_mem (a\<lparr>ar_pages := (ar_pages a)[i := (ar_pages a ! i)\<lparr>pg_len := n\<rparr>]\<rparr>) = arena_mem a"
proof
  fix g
  show "arena_mem (a\<lparr>ar_pages := (ar_pages a)[i := (ar_pages a ! i)\<lparr>pg_len := n\<rparr>]\<rparr>) g = arena_mem a g"
    using assms by (cases "g div PAGE_SIZE = i") (simp_all add: arena_mem_def)
qed

lemma allocate_in_page:
  assumes inv: "arena_inv a" and n: "0 < n" and fits: "n + pg_len (last (ar_pages a)) \<le> PAGE_SIZE"
  shows "\<exists>adr a'. arena_allocate_space a n = Some (adr, a') \<and> arena_inv a' \<and> arena_mem a' = arena_mem a \<and>
    unat adr = arena_len a \<and> arena_len a' = arena_len a + n \<and> in_page (unat adr) n \<and> arena_load M a' = arena_load M a + n"
proof -
  let ?k = "length (ar_pages a) - 1"
  let ?p = "ar_pages a ! ?k"
  let ?a = "a\<lparr>ar_pages := (ar_pages a)[?k := ?p\<lparr>pg_len := pg_len ?p + n\<rparr>]\<rparr>"
  have ne: "ar_pages a \<noteq> []" and k: "?k < length (ar_pages a)" "?k < 4096" and l: "last (ar_pages a) = ?p"
    using inv by (auto simp: arena_inv_def last_conv_nth)
  have id: "pg_page_id ?p = ?k" using inv k(1) by (simp add: arena_inv_def)
  have adr: "unat (addr_new ?k (pg_len ?p)) = ?k * PAGE_SIZE + pg_len ?p"
    using fits n k(2) l by (intro unat_addr_new) auto
  have "arena_allocate_space a n = Some (addr_new ?k (pg_len ?p), ?a)"
    using fits k(1) l id by (simp add: arena_allocate_space_def arena_get_page_def page_allocate_space_def page_is_available_def)
  moreover have "arena_inv ?a" unfolding arena_inv_def
  proof (intro conjI allI impI)
    fix i assume i: "i < length (ar_pages ?a)"
    show "pg_page_id (ar_pages ?a ! i) = i" using i inv k(1) by (cases "i = ?k") (simp_all add: arena_inv_def)
    show "pg_len (ar_pages ?a ! i) \<le> PAGE_SIZE" using i inv k(1) fits l by (cases "i = ?k") (simp_all add: arena_inv_def)
  qed (use inv in \<open>simp_all add: arena_inv_def\<close>)
  moreover have "last (ar_pages ?a) = ?p\<lparr>pg_len := pg_len ?p + n\<rparr>" using ne k(1) by (simp add: last_conv_nth)
  moreover have "in_page (?k * PAGE_SIZE + pg_len ?p) n" using fits n l by (simp add: in_page_def)
  ultimately show ?thesis using adr arena_mem_update_len [OF k(1)] l
    by (intro exI [of _ "addr_new ?k (pg_len ?p)"] exI [of _ ?a]) (simp add: arena_len_def arena_load_def)
qed

lemma allocate_new_page:
  assumes inv: "arena_inv a" and n: "0 < n" "n \<le> M" "M \<le> PAGE_SIZE"
    and full: "\<not> n + pg_len (last (ar_pages a)) \<le> PAGE_SIZE" and room: "arena_load M a < arena_cap M"
  shows "\<exists>adr a'. arena_allocate_space a n = Some (adr, a') \<and> arena_inv a' \<and> arena_mem a' = arena_mem a \<and>
    arena_len a \<le> unat adr \<and> arena_len a' = unat adr + n \<and> in_page (unat adr) n \<and> arena_load M a' \<le> arena_load M a + n"
proof -
  let ?k = "length (ar_pages a)"
  let ?q = "\<lparr>pg_page_id = ?k, pg_len = n, pg_data = \<lambda>_. 0\<rparr>"
  let ?a = "a\<lparr>ar_pages := ar_pages a @ [?q]\<rparr>"
  have ne: "ar_pages a \<noteq> []" and l: "last (ar_pages a) = ar_pages a ! (?k - 1)" "pg_len (last (ar_pages a)) \<le> PAGE_SIZE"
    using inv by (auto simp: arena_inv_def last_conv_nth)
  have "(?k - 1) * (PAGE_SIZE - M) < 4095 * (PAGE_SIZE - M)"
    using room unfolding arena_load_def arena_cap_def by (rule add_lessD1)
  then have "?k - 1 < 4095" by (rule mult_less_cancel2 [THEN iffD1, THEN conjunct2])
  then have k: "?k < 4096" by linarith
  have "arena_allocate_space a n = Some (addr_new ?k 0, ?a)"
    using full ne l(1) n k by (simp add: arena_allocate_space_def arena_get_page_def page_allocate_space_def
      page_is_available_def arena_add_page_def page_new_def)
  moreover have "arena_inv ?a" using inv k n by (auto simp: arena_inv_def nth_append less_Suc_eq)
  moreover have "arena_mem ?a = arena_mem a" by (auto simp: arena_mem_def nth_append)
  moreover have adr: "unat (addr_new ?k 0) = ?k * PAGE_SIZE" using unat_addr_new [OF k PAGE_SIZE_pos] by simp
  moreover have "arena_len a \<le> ?k * PAGE_SIZE"
    using l(2) ne by (cases "ar_pages a") (auto simp: arena_len_def)
  moreover have "arena_load M ?a \<le> arena_load M a + n"
  proof -
    have "PAGE_SIZE - M \<le> pg_len (last (ar_pages a))" using full n by linarith
    moreover have "?k * (PAGE_SIZE - M) = (?k - 1) * (PAGE_SIZE - M) + (PAGE_SIZE - M)" using ne by (cases "ar_pages a") auto
    ultimately show ?thesis by (simp add: arena_load_def)
  qed
  ultimately show ?thesis using n
    by (intro exI [of _ "addr_new ?k 0"] exI [of _ ?a]) (simp add: arena_len_def in_page_def)
qed

lemma arena_allocate_law:
  assumes "arena_inv a" "0 < n" "n \<le> M" "M \<le> PAGE_SIZE" "arena_load M a < arena_cap M"
  shows "\<exists>adr a'. arena_allocate_space a n = Some (adr, a') \<and> arena_inv a' \<and> arena_mem a' = arena_mem a \<and>
    arena_len a \<le> unat adr \<and> arena_len a' = unat adr + n \<and> in_page (unat adr) n \<and> arena_load M a' \<le> arena_load M a + n"
proof (cases "n + pg_len (last (ar_pages a)) \<le> PAGE_SIZE")
  case True
  then show ?thesis using allocate_in_page [OF assms(1,2) True, of M] by fastforce
next
  case False
  then show ?thesis using allocate_new_page [OF assms(1-4) False assms(5)] by simp
qed

section \<open>Properties\<close>

text \<open>
  Property C15. The branch-free copies and comparisons of short slices, built from overlapping blocks of fixed size,
  agree with the plain ones at every length: a copy of equal lengths yields the source and any other copy
  panics, and two slices compare equal exactly when they are equal.
\<close>

theorem fast_slices_equiv:
  "fast_short_slice_copy avx src dst = (if length src = length dst then Some src else None) \<and>
   fast_short_slice_compare left right = Some (left = right)"
  by (simp add: fast_short_slice_copy_eq fast_short_slice_compare_eq)

fun arena_put_all :: "memory_arena \<Rightarrow> u8 list list \<Rightarrow> (addr list \<times> memory_arena) option" where
  "arena_put_all a [] = Some ([], a)"
| "arena_put_all a (item # items) =
     arena_allocate_space a (length item) \<bind> (\<lambda>(adr, a1).
     arena_slice_mut a1 adr item \<bind> (\<lambda>a2.
     arena_put_all a2 items \<bind> (\<lambda>(adrs, a3). Some (adr # adrs, a3))))"

lemma arena_put_law:
  assumes "arena_inv a" "item \<noteq> []" "length item \<le> M" "M \<le> PAGE_SIZE" "arena_load M a < arena_cap M"
  shows "\<exists>adr a1 a2. arena_allocate_space a (length item) = Some (adr, a1) \<and> arena_slice_mut a1 adr item = Some a2 \<and>
    arena_slice a1 adr (length item) = Some (map (arena_mem a1) [unat adr..<unat adr + length item]) \<and>
    arena_len a \<le> unat adr \<and> arena_len a2 = unat adr + length item \<and>
    arena_inv a2 \<and> allocated a2 (unat adr) (length item) \<and> map (arena_mem a2) [unat adr..<unat adr + length item] = item \<and>
    arena_len a \<le> arena_len a2 \<and> (\<forall>g<arena_len a. arena_mem a2 g = arena_mem a g) \<and>
    arena_load M a2 \<le> arena_load M a + length item"
proof -
  have n: "0 < length item" using assms(2) by simp
  obtain adr a1 where a1: "arena_allocate_space a (length item) = Some (adr, a1)" "arena_inv a1" "arena_mem a1 = arena_mem a"
    "arena_len a \<le> unat adr" "arena_len a1 = unat adr + length item" "in_page (unat adr) (length item)"
    "arena_load M a1 \<le> arena_load M a + length item"
    using arena_allocate_law [OF assms(1) n assms(3-5)] by blast
  then have al: "allocated a1 (unat adr) (length item)" by (simp add: allocated_def)
  obtain a2 where a2: "arena_slice_mut a1 adr item = Some a2" "arena_inv a2" "length (ar_pages a2) = length (ar_pages a1)"
    "arena_len a2 = arena_len a1"
    "arena_mem a2 = (\<lambda>g. if unat adr \<le> g \<and> g < unat adr + length item then item ! (g - unat adr) else arena_mem a1 g)"
    using arena_slice_mut_law [OF a1(2) al assms(2)] by blast
  have "map (arena_mem a2) [unat adr..<unat adr + length item] = item" by (rule nth_equalityI) (auto simp: a2(5))
  moreover have "\<forall>g<arena_len a. arena_mem a2 g = arena_mem a g" using a1(3,4) by (simp add: a2(5))
  moreover have "arena_load M a2 = arena_load M a1" by (rule arena_load_same [OF a1(2) a2(3,4)])
  moreover have "arena_slice a1 adr (length item) = Some (map (arena_mem a1) [unat adr..<unat adr + length item])"
    by (rule arena_slice_law [OF a1(2) al n order_refl])
  ultimately show ?thesis using a1 a2 al by (intro exI [of _ adr] exI [of _ a1] exI [of _ a2]) (simp add: allocated_def)
qed

lemma arena_put_all_law:
  assumes "arena_inv a" "\<forall>item\<in>set items. item \<noteq> [] \<and> length item \<le> M" "M \<le> PAGE_SIZE"
    "arena_load M a + sum_list (map length items) \<le> arena_cap M"
  shows "\<exists>adrs a'. arena_put_all a items = Some (adrs, a') \<and> arena_inv a' \<and> arena_len a \<le> arena_len a' \<and>
    (\<forall>g<arena_len a. arena_mem a' g = arena_mem a g) \<and>
    list_all2 (\<lambda>adr item. allocated a' (unat adr) (length item) \<and> map (arena_mem a') [unat adr..<unat adr + length item] = item) adrs items"
  using assms(1,2,4)
proof (induction items arbitrary: a)
  case (Cons item items)
  have ne: "item \<noteq> []" "length item \<le> M" using Cons.prems(2) by auto
  then have "0 < length item" by simp
  then have "arena_load M a < arena_cap M" using Cons.prems(3) unfolding list.map sum_list.Cons by linarith
  from arena_put_law [OF Cons.prems(1) ne assms(3) this] obtain adr a1 a2 where
    p: "arena_allocate_space a (length item) = Some (adr, a1)" "arena_slice_mut a1 adr item = Some a2"
      "arena_inv a2" "allocated a2 (unat adr) (length item)" "map (arena_mem a2) [unat adr..<unat adr + length item] = item"
      "arena_len a \<le> arena_len a2" "\<forall>g<arena_len a. arena_mem a2 g = arena_mem a g" "arena_load M a2 \<le> arena_load M a + length item"
    by blast
  have "arena_load M a2 + sum_list (map length items) \<le> arena_cap M" using Cons.prems(3) p(8) by simp
  then obtain adrs a' where r: "arena_put_all a2 items = Some (adrs, a')" "arena_inv a'" "arena_len a2 \<le> arena_len a'"
    "\<forall>g<arena_len a2. arena_mem a' g = arena_mem a2 g"
    "list_all2 (\<lambda>adr item. allocated a' (unat adr) (length item) \<and> map (arena_mem a') [unat adr..<unat adr + length item] = item) adrs items"
    using Cons.IH [OF p(3)] Cons.prems(2) by auto
  have "map (arena_mem a') [unat adr..<unat adr + length item] = map (arena_mem a2) [unat adr..<unat adr + length item]"
    using p(4) r(4) by (intro map_cong) (auto simp: allocated_def)
  then have "allocated a' (unat adr) (length item) \<and> map (arena_mem a') [unat adr..<unat adr + length item] = item"
    using p(4,5) r(3) by (simp add: allocated_def)
  moreover have "\<forall>g<arena_len a. arena_mem a' g = arena_mem a g" using p(6,7) r(4) by simp
  ultimately show ?case using p r by simp
qed auto

text \<open>
  Property C14. Items stored in one arena never overlap: after any sequence of stores that fits the budget of
  the arena, none of which panics, every address still reads the bytes stored under it.
\<close>

theorem arena_store_isolated:
  assumes "\<forall>item\<in>set items. item \<noteq> [] \<and> length item \<le> M" "M \<le> PAGE_SIZE" "sum_list (map length items) \<le> arena_cap M"
  shows "\<exists>a adrs a'. arena_default = Some a \<and> arena_put_all a items = Some (adrs, a') \<and>
    map (\<lambda>(adr, item). arena_slice a' adr (length item)) (zip adrs items) = map Some items"
proof -
  obtain a where a: "arena_default = Some a" "arena_inv a" "arena_load M a = 0" using arena_default_law [of M] by blast
  then obtain adrs a' where r: "arena_put_all a items = Some (adrs, a')" "arena_inv a'"
    "list_all2 (\<lambda>adr item. allocated a' (unat adr) (length item) \<and> map (arena_mem a') [unat adr..<unat adr + length item] = item) adrs items"
    using arena_put_all_law [OF a(2) assms(1,2)] assms(3) by auto
  have "arena_slice a' (adrs ! i) (length (items ! i)) = Some (items ! i)" if "i < length items" for i
  proof -
    have "allocated a' (unat (adrs ! i)) (length (items ! i))"
      "map (arena_mem a') [unat (adrs ! i)..<unat (adrs ! i) + length (items ! i)] = items ! i"
      using r(3) that by (auto simp: list_all2_conv_all_nth)
    moreover have "0 < length (items ! i)" using assms(1) that by simp
    ultimately show ?thesis using arena_slice_law [OF r(2), of "adrs ! i" "length (items ! i)" "length (items ! i)"] by simp
  qed
  then have "map (\<lambda>(adr, item). arena_slice a' adr (length item)) (zip adrs items) = map Some items"
    using list_all2_lengthD [OF r(3)] by (intro nth_equalityI) auto
  then show ?thesis using a(1) r(1) by blast
qed

theorem arena_store_isolated_witness:
  "\<exists>a adrs a'. arena_default = Some a \<and> arena_put_all a [[1, 2, 3], [4], [5, 6]] = Some (adrs, a') \<and>
     map (\<lambda>(adr, item). arena_slice a' adr (length item)) (zip adrs [[1, 2, 3], [4], [5, 6 :: u8]]) = map Some [[1, 2, 3], [4], [5, 6 :: u8]]"
proof (rule arena_store_isolated)
  show "\<forall>item\<in>set [[1, 2, 3], [4], [5, 6 :: u8]]. item \<noteq> [] \<and> length item \<le> 3" by simp
  show "3 \<le> PAGE_SIZE" "sum_list (map length [[1, 2, 3], [4], [5, 6 :: u8]]) \<le> arena_cap 3"
    by (simp_all add: arena_cap_def PAGE_SIZE_def NUM_BITS_PAGE_ADDR_def)
qed

end
