(* ===== verification/Expull.thy ===== *)
theory Expull
  imports Arena VInt
begin

text \<open>
  The exponential unrolled linked list, \<^verbatim>\<open>stacker/src/expull.rs\<close>: an append-only byte buffer made of blocks of
  growing size in a shared arena, each full block followed by the address of the next. Appending to any of the
  lists of an arena, in any order, leaves what the others read unchanged.
\<close>

section \<open>The list\<close>

definition FIRST_BLOCK_NUM :: nat where
  "FIRST_BLOCK_NUM = 2"

record eull =
  eu_remaining_cap :: nat
  eu_block_num :: nat
  eu_head :: addr
  eu_tail :: addr

definition eull_default :: eull where
  "eull_default = \<lparr>eu_remaining_cap = 0, eu_block_num = FIRST_BLOCK_NUM, eu_head = addr_null_pointer, eu_tail = addr_null_pointer\<rparr>"

definition get_block_size :: "nat \<Rightarrow> nat" where
  "get_block_size block_num = (2 ^ min block_num 15) mod 2 ^ 16"

definition increment_num_blocks :: "eull \<Rightarrow> eull option" where
  "increment_num_blocks e = (if eu_block_num e + 1 < 2 ^ 32 then Some (e\<lparr>eu_block_num := eu_block_num e + 1\<rparr>) else None)"

definition ensure_capacity :: "eull \<Rightarrow> memory_arena \<Rightarrow> nat \<Rightarrow> (eull \<times> memory_arena) option" where
  "ensure_capacity e a allocate =
     arena_allocate_space a (allocate + 4) \<bind> (\<lambda>(adr, a1).
       (if addr_is_null (eu_head e) then Some (e\<lparr>eu_head := adr\<rparr>, a1)
        else map_option (Pair e) (arena_write_at u32_layout a1 (eu_tail e) adr)) \<bind> (\<lambda>(e', a').
       Some (e'\<lparr>eu_tail := adr, eu_remaining_cap := allocate mod 2 ^ 16\<rparr>, a')))"

partial_function (option) extend_from_slice :: "bool \<Rightarrow> eull \<Rightarrow> memory_arena \<Rightarrow> u8 list \<Rightarrow> (eull \<times> memory_arena) option" where
  "extend_from_slice avx e a buf =
     (if buf = [] then Some (e, a)
      else
        (if eu_remaining_cap e = 0 then
           increment_num_blocks e \<bind> (\<lambda>e1. ensure_capacity e1 a (get_block_size (eu_block_num e1)))
         else Some (e, a)) \<bind> (\<lambda>(e1, a1).
        arena_slice a1 (eu_tail e1) (eu_remaining_cap e1) \<bind> (\<lambda>output_buf.
        let add_len = min (length buf) (length output_buf) in
        fast_short_slice_copy avx (take add_len buf) (take add_len output_buf) \<bind> (\<lambda>bytes.
        arena_slice_mut a1 (eu_tail e1) bytes \<bind> (\<lambda>a2.
        extend_from_slice avx
          (e1\<lparr>eu_remaining_cap := eu_remaining_cap e1 - add_len, eu_tail := addr_offset (eu_tail e1) (word_of_nat add_len)\<rparr>)
          a2 (drop add_len buf))))))"

definition eull_write_u32_vint :: "bool \<Rightarrow> eull \<Rightarrow> memory_arena \<Rightarrow> u32 \<Rightarrow> (eull \<times> memory_arena) option" where
  "eull_write_u32_vint avx e a val = extend_from_slice avx e a (serialize_vint_u32 val)"

text \<open>The full blocks, each read whole and followed to the next one.\<close>

fun read_full_blocks :: "memory_arena \<Rightarrow> nat list \<Rightarrow> addr \<Rightarrow> u8 list \<Rightarrow> (addr \<times> u8 list) option" where
  "read_full_blocks a [] adr output = Some (adr, output)"
| "read_full_blocks a (block_num # ns) adr output =
     (let cap = get_block_size block_num in
      arena_slice a adr cap \<bind> (\<lambda>data.
      arena_read u32_layout a (addr_offset adr (word_of_nat cap)) \<bind> (\<lambda>adr'.
      read_full_blocks a ns adr' (output @ data))))"

definition read_to_end :: "eull \<Rightarrow> memory_arena \<Rightarrow> u8 list \<Rightarrow> u8 list option" where
  "read_to_end e a output =
     (if addr_is_null (eu_head e) then Some output
      else
        let block_size = get_block_size (eu_block_num e);
            last_block_len = block_size - eu_remaining_cap e
        in if eu_remaining_cap e \<le> block_size then
             read_full_blocks a [FIRST_BLOCK_NUM + 1..<eu_block_num e] (eu_head e) output \<bind> (\<lambda>(adr, output').
             arena_slice a adr last_block_len \<bind> (\<lambda>data. Some (output' @ data)))
           else None)"

section \<open>Blocks\<close>

definition blk :: "nat \<Rightarrow> nat" where
  "blk i = 2 ^ min (3 + i) 15"

lemma get_block_size_blk: "get_block_size (3 + i) = blk i"
proof -
  have "(2 :: nat) ^ min (3 + i) 15 \<le> 2 ^ 15" by (intro power_increasing) auto
  then show ?thesis by (simp add: get_block_size_def blk_def)
qed

lemma blk_bounds: "8 \<le> blk i" "blk i \<le> 2 ^ 15"
proof -
  have "(2 :: nat) ^ 3 \<le> 2 ^ min (3 + i) 15" by (intro power_increasing) auto
  then show "8 \<le> blk i" by (simp add: blk_def)
  show "blk i \<le> 2 ^ 15" unfolding blk_def by (intro power_increasing) auto
qed

definition full_bytes :: "nat \<Rightarrow> nat" where
  "full_bytes n = (\<Sum>i<n. blk i)"

definition eull_bytes :: "nat \<Rightarrow> nat" where
  "eull_bytes n = (\<Sum>i<n. blk i + 4)"

lemma blk_full: "blk n \<le> full_bytes n + 8"
proof (induction n)
  case (Suc n)
  have "(2 :: nat) ^ min (3 + Suc n) 15 \<le> 2 ^ Suc (min (3 + n) 15)" by (intro power_increasing) auto
  then have "blk (Suc n) \<le> 2 * blk n" by (simp add: blk_def)
  then show ?case using Suc by (simp add: full_bytes_def)
qed (simp add: blk_def full_bytes_def)

lemma eull_bytes_bound: "2 * eull_bytes (Suc n) \<le> 5 * full_bytes n + 24"
proof -
  have "eull_bytes (Suc n) = full_bytes n + blk n + 4 * Suc n"
    by (simp add: eull_bytes_def full_bytes_def sum.distrib)
  moreover have "8 * n \<le> full_bytes n"
    unfolding full_bytes_def using sum_bounded_below [of "{..<n}" 8 blk] blk_bounds(1) by (simp add: mult.commute)
  ultimately show ?thesis using blk_full [of n] by simp
qed

lemma eull_bytes_blocks: "12 * n \<le> eull_bytes n"
  unfolding eull_bytes_def using sum_bounded_below [of "{..<n}" 12 "\<lambda>i. blk i + 4"] blk_bounds(1) by (simp add: mult.commute)

section \<open>What a list holds\<close>

definition block_data :: "(nat \<Rightarrow> u8) \<Rightarrow> nat list \<Rightarrow> nat \<Rightarrow> u8 list" where
  "block_data mem bs i = map mem [bs ! i..<bs ! i + blk i]"

definition full_data :: "(nat \<Rightarrow> u8) \<Rightarrow> nat list \<Rightarrow> nat \<Rightarrow> u8 list" where
  "full_data mem bs n = concat (map (block_data mem bs) [0..<n])"

definition chained :: "(nat \<Rightarrow> u8) \<Rightarrow> nat list \<Rightarrow> bool" where
  "chained mem bs \<longleftrightarrow>
     (\<forall>i. Suc i < length bs \<longrightarrow> map mem [bs ! i + blk i..<bs ! i + blk i + 4] = le_bytes 4 (bs ! Suc i) \<and>
        bs ! i + blk i + 4 \<le> bs ! Suc i)"

definition footprint :: "nat list \<Rightarrow> nat set" where
  "footprint bs = (\<Union>i<length bs. {bs ! i..<bs ! i + blk i + 4})"

definition eull_rep :: "memory_arena \<Rightarrow> eull \<Rightarrow> u8 list \<Rightarrow> nat list \<Rightarrow> bool" where
  "eull_rep a e data bs \<longleftrightarrow>
     (if bs = [] then e = eull_default \<and> data = []
      else
        let n = length bs - 1 in
        eu_block_num e = 3 + n \<and> unat (eu_head e) = bs ! 0 \<and> eu_remaining_cap e \<le> blk n \<and>
        unat (eu_tail e) = bs ! n + (blk n - eu_remaining_cap e) \<and>
        (\<forall>i<length bs. allocated a (bs ! i) (blk i + 4) \<and> bs ! i < 2 ^ 32 - 1) \<and> chained (arena_mem a) bs \<and>
        data = full_data (arena_mem a) bs n @ map (arena_mem a) [bs ! n..<bs ! n + (blk n - eu_remaining_cap e)])"

lemma eull_repI:
  assumes "bs \<noteq> []" "n = length bs - 1" "eu_block_num e = 3 + n" "unat (eu_head e) = bs ! 0" "eu_remaining_cap e \<le> blk n"
    "unat (eu_tail e) = bs ! n + (blk n - eu_remaining_cap e)"
    "\<forall>i<length bs. allocated a (bs ! i) (blk i + 4) \<and> bs ! i < 2 ^ 32 - 1" "chained (arena_mem a) bs"
    "data = full_data (arena_mem a) bs n @ map (arena_mem a) [bs ! n..<bs ! n + (blk n - eu_remaining_cap e)]"
  shows "eull_rep a e data bs"
  unfolding eull_rep_def Let_def if_not_P [OF assms(1)] assms(2) [symmetric] by (intro conjI assms)

lemma eull_rep_default: "eull_rep a eull_default [] []"
  by (simp add: eull_rep_def)

lemma footprint_bound: "eull_rep a e data bs \<Longrightarrow> footprint bs \<subseteq> {..<arena_len a}"
  by (fastforce simp: eull_rep_def footprint_def allocated_def Let_def split: if_splits)

text \<open>A list reads the same in every arena that agrees with this one where its blocks are.\<close>

lemma eull_rep_frame:
  assumes "eull_rep a e data bs" "\<And>g. g \<in> footprint bs \<Longrightarrow> arena_mem a' g = arena_mem a g" "arena_len a \<le> arena_len a'"
  shows "eull_rep a' e data bs"
proof (cases "bs = []")
  case False
  let ?n = "length bs - 1"
  have eq: "map (arena_mem a') [bs ! i + k..<bs ! i + l] = map (arena_mem a) [bs ! i + k..<bs ! i + l]"
    if "i < length bs" "l \<le> blk i + 4" for i k l
    using that by (intro map_cong refl assms(2)) (force simp: footprint_def)
  have "block_data (arena_mem a') bs i = block_data (arena_mem a) bs i" if "i < length bs" for i
    using eq [OF that, of "blk i" 0] by (simp add: block_data_def)
  then have "full_data (arena_mem a') bs ?n = full_data (arena_mem a) bs ?n"
    unfolding full_data_def by (intro arg_cong [where f = concat] map_cong refl) auto
  moreover have "chained (arena_mem a') bs \<longleftrightarrow> chained (arena_mem a) bs"
  proof -
    have "map (arena_mem a') [bs ! i + blk i..<bs ! i + blk i + 4] = map (arena_mem a) [bs ! i + blk i..<bs ! i + blk i + 4]"
      if "Suc i < length bs" for i using eq [of i "blk i + 4" "blk i"] that by (simp add: add.assoc)
    then show ?thesis unfolding chained_def by (simp del: map_eq_conv)
  qed
  moreover have "map (arena_mem a') [bs ! ?n..<bs ! ?n + (blk ?n - eu_remaining_cap e)] =
      map (arena_mem a) [bs ! ?n..<bs ! ?n + (blk ?n - eu_remaining_cap e)]"
    using eq [of ?n "blk ?n - eu_remaining_cap e" 0] False by simp
  ultimately show ?thesis using assms(1,3) False by (auto simp: eull_rep_def Let_def allocated_def)
qed (use assms in \<open>simp add: eull_rep_def\<close>)

section \<open>Writing\<close>

lemma footprint_nth: "i < length bs \<Longrightarrow> {bs ! i..<bs ! i + blk i + 4} \<subseteq> footprint bs"
  by (auto simp: footprint_def)

text \<open>Blocks are laid out upwards, so writing in the last one leaves the earlier ones alone.\<close>

lemma chained_less:
  assumes "chained mem bs" "j < length bs" "i < j"
  shows "bs ! i + blk i + 4 \<le> bs ! j"
  using assms(2,3)
proof (induction j)
  case (Suc j)
  have step: "bs ! j + blk j + 4 \<le> bs ! Suc j" using assms(1) Suc.prems(1) by (auto simp: chained_def)
  show ?case
  proof (cases "i = j")
    case True
    then show ?thesis using step by simp
  next
    case False
    then have "bs ! i + blk i + 4 \<le> bs ! j" using Suc by simp
    then show ?thesis using step by simp
  qed
qed simp

lemma full_data_cong:
  assumes "\<And>i g. i < n \<Longrightarrow> bs ! i \<le> g \<Longrightarrow> g < bs ! i + blk i \<Longrightarrow> mem' g = mem g" "\<And>i. i < n \<Longrightarrow> cs ! i = bs ! i"
  shows "full_data mem' cs n = full_data mem bs n"
  unfolding full_data_def block_data_def
  by (intro arg_cong [where f = concat] map_cong refl) (auto simp: assms)

lemma eull_write_tail:
  assumes inv: "arena_inv a" and rep: "eull_rep a e data bs" and ne: "bs \<noteq> []" "bytes \<noteq> []"
    and fits: "length bytes \<le> eu_remaining_cap e"
  shows "\<exists>a'. arena_slice_mut a (eu_tail e) bytes = Some a' \<and> arena_inv a' \<and> length (ar_pages a') = length (ar_pages a) \<and>
    arena_len a' = arena_len a \<and> (\<forall>g. g \<notin> footprint bs \<longrightarrow> arena_mem a' g = arena_mem a g) \<and>
    eull_rep a' (e\<lparr>eu_remaining_cap := eu_remaining_cap e - length bytes,
      eu_tail := addr_offset (eu_tail e) (word_of_nat (length bytes))\<rparr>) (data @ bytes) bs"
proof -
  let ?n = "length bs - 1" and ?k = "length bytes"
  let ?t = "bs ! ?n + (blk ?n - eu_remaining_cap e)"
  note r = rep [unfolded eull_rep_def Let_def] ne(1)
  have n: "?n < length bs" using ne(1) by simp
  have cap: "eu_remaining_cap e \<le> blk ?n" and tail: "unat (eu_tail e) = ?t"
    and all: "\<forall>i<length bs. allocated a (bs ! i) (blk i + 4) \<and> bs ! i < 2 ^ 32 - 1" and ch: "chained (arena_mem a) bs"
    and bn: "eu_block_num e = 3 + ?n" and hd: "unat (eu_head e) = bs ! 0"
    and data: "data = full_data (arena_mem a) bs ?n @ map (arena_mem a) [bs ! ?n..<?t]"
    using r by auto
  have al: "allocated a ?t ?k"
  proof -
    have "allocated a (bs ! ?n) (blk ?n + 4)" using all n by blast
    then show ?thesis using cap fits in_page_shift [of "bs ! ?n" "blk ?n + 4" "blk ?n - eu_remaining_cap e" ?k]
      by (auto simp: allocated_def)
  qed
  obtain a' where a': "arena_slice_mut a (eu_tail e) bytes = Some a'" "arena_inv a'" "length (ar_pages a') = length (ar_pages a)"
    "arena_len a' = arena_len a" and mem: "arena_mem a' = (\<lambda>g. if ?t \<le> g \<and> g < ?t + ?k then bytes ! (g - ?t) else arena_mem a g)"
    using arena_slice_mut_law [OF inv _ ne(2), of "eu_tail e", unfolded tail, OF al] by blast
  have off: "arena_mem a' g = arena_mem a g" if "g < ?t \<or> bs ! ?n + blk ?n \<le> g" for g
    using that cap fits by (auto simp: mem)
  have earlier: "bs ! i + blk i + 4 \<le> bs ! ?n" if "i < ?n" for i using chained_less [OF ch n that] .
  have "\<forall>g. g \<notin> footprint bs \<longrightarrow> arena_mem a' g = arena_mem a g"
  proof (intro allI impI)
    fix g assume "g \<notin> footprint bs"
    then have "g \<notin> {bs ! ?n..<bs ! ?n + blk ?n + 4}" using footprint_nth [OF n] by blast
    then have "g < bs ! ?n \<or> bs ! ?n + blk ?n + 4 \<le> g" by (simp only: atLeastLessThan_iff) linarith
    then have "g < ?t \<or> bs ! ?n + blk ?n \<le> g" by linarith
    then show "arena_mem a' g = arena_mem a g" by (rule off)
  qed
  moreover have "eull_rep a' (e\<lparr>eu_remaining_cap := eu_remaining_cap e - ?k,
      eu_tail := addr_offset (eu_tail e) (word_of_nat ?k)\<rparr>) (data @ bytes) bs"
  proof -
    have ch': "chained (arena_mem a') bs" unfolding chained_def
    proof (intro allI impI)
      fix i assume i: "Suc i < length bs"
      then have "bs ! i + blk i + 4 \<le> bs ! ?n" by (intro earlier) linarith
      then have "map (arena_mem a') [bs ! i + blk i..<bs ! i + blk i + 4] = map (arena_mem a) [bs ! i + blk i..<bs ! i + blk i + 4]"
        by (intro map_cong refl off) (simp only: set_upt atLeastLessThan_iff, linarith)
      then show "map (arena_mem a') [bs ! i + blk i..<bs ! i + blk i + 4] = le_bytes 4 (bs ! Suc i) \<and>
          bs ! i + blk i + 4 \<le> bs ! Suc i" using ch i unfolding chained_def by (simp only:)
    qed
    have fd: "full_data (arena_mem a') bs ?n = full_data (arena_mem a) bs ?n"
    proof (rule full_data_cong)
      fix i g assume "i < ?n" "g < bs ! i + blk i"
      then show "arena_mem a' g = arena_mem a g" using earlier [of i] by (intro off) linarith
    qed simp
    have md: "map (arena_mem a') [bs ! ?n..<bs ! ?n + (blk ?n - (eu_remaining_cap e - ?k))] =
        map (arena_mem a) [bs ! ?n..<?t] @ bytes"
    proof -
      have "[bs ! ?n..<bs ! ?n + (blk ?n - (eu_remaining_cap e - ?k))] = [bs ! ?n..<?t] @ [?t..<?t + ?k]"
        using cap fits by (subst upt_add_eq_append [symmetric]) (auto intro: arg_cong2 [where f = upt])
      moreover have "map (arena_mem a') [?t..<?t + ?k] = bytes" by (rule nth_equalityI) (auto simp: mem)
      moreover have "map (arena_mem a') [bs ! ?n..<?t] = map (arena_mem a) [bs ! ?n..<?t]" by (auto intro: off)
      ultimately show ?thesis by simp
    qed
    have tl: "unat (addr_offset (eu_tail e) (word_of_nat ?k)) = ?t + ?k"
    proof -
      have "allocated a (bs ! ?n) (blk ?n + 4)" using all n by blast
      then have "bs ! ?n + (blk ?n + 4) \<le> 2 ^ 32" using arena_len_bound [OF inv] unfolding allocated_def by linarith
      then have "?t + ?k < 2 ^ 32" using cap fits by linarith
      then show ?thesis using unat_addr_offset [of "eu_tail e" ?k] tail by simp
    qed
    have arith: "blk ?n - (eu_remaining_cap e - ?k) = blk ?n - eu_remaining_cap e + ?k" "eu_remaining_cap e - ?k \<le> blk ?n"
      using cap fits by linarith+
    show ?thesis
    proof (rule eull_repI [OF ne(1) refl])
      let ?e = "e\<lparr>eu_remaining_cap := eu_remaining_cap e - ?k, eu_tail := addr_offset (eu_tail e) (word_of_nat ?k)\<rparr>"
      have sel: "eu_remaining_cap ?e = eu_remaining_cap e - ?k" "eu_tail ?e = addr_offset (eu_tail e) (word_of_nat ?k)" by simp_all
      show "eu_block_num ?e = 3 + ?n" "unat (eu_head ?e) = bs ! 0" using bn hd by simp_all
      show "eu_remaining_cap ?e \<le> blk ?n" unfolding sel by (rule arith)
      show "unat (eu_tail ?e) = bs ! ?n + (blk ?n - eu_remaining_cap ?e)"
        unfolding sel arith(1) tl by (rule add.assoc)
      show "\<forall>i<length bs. allocated a' (bs ! i) (blk i + 4) \<and> bs ! i < 2 ^ 32 - 1" using all unfolding allocated_def a'(4) .
      show "chained (arena_mem a') bs" by (rule ch')
      show "data @ bytes = full_data (arena_mem a') bs ?n @
          map (arena_mem a') [bs ! ?n..<bs ! ?n + (blk ?n - eu_remaining_cap ?e)]"
        unfolding sel md fd data append_assoc ..
    qed
  qed
  ultimately show ?thesis using a' by blast
qed

text \<open>A new block, linked from the end of the last one.\<close>

definition MAX_ALLOC :: nat where
  "MAX_ALLOC = 2 ^ 15 + 4"

lemma full_data_snoc:
  assumes "n < length bs"
  shows "full_data mem (bs @ [b]) (Suc n) = full_data mem bs n @ block_data mem bs n"
proof -
  have "full_data mem (bs @ [b]) n = full_data mem bs n" using assms by (intro full_data_cong) (auto simp: nth_append)
  then show ?thesis using assms by (simp add: full_data_def block_data_def nth_append)
qed

lemma eull_new_block:
  assumes inv: "arena_inv a" and rep: "eull_rep a e data bs" and empty: "eu_remaining_cap e = 0"
    and load: "arena_load MAX_ALLOC a < arena_cap MAX_ALLOC"
  shows "\<exists>e' a' b. ensure_capacity (e\<lparr>eu_block_num := 3 + length bs\<rparr>) a (blk (length bs)) = Some (e', a') \<and>
    arena_inv a' \<and> arena_len a \<le> b \<and> arena_len a' = b + blk (length bs) + 4 \<and>
    arena_load MAX_ALLOC a' \<le> arena_load MAX_ALLOC a + blk (length bs) + 4 \<and>
    (\<forall>g. g \<notin> footprint bs \<longrightarrow> arena_mem a' g = arena_mem a g) \<and>
    eu_remaining_cap e' = blk (length bs) \<and> eull_rep a' e' data (bs @ [b])"
proof -
  let ?m = "length bs" and ?M = MAX_ALLOC
  have M: "blk ?m + 4 \<le> ?M" "?M \<le> PAGE_SIZE" "0 < blk ?m + 4"
    using blk_bounds(2) [of ?m] by (simp_all add: MAX_ALLOC_def PAGE_SIZE_def NUM_BITS_PAGE_ADDR_def)
  obtain adr a1 where a1: "arena_allocate_space a (blk ?m + 4) = Some (adr, a1)" "arena_inv a1" "arena_mem a1 = arena_mem a"
    "arena_len a \<le> unat adr" "arena_len a1 = unat adr + (blk ?m + 4)" "in_page (unat adr) (blk ?m + 4)"
    "arena_load ?M a1 \<le> arena_load ?M a + (blk ?m + 4)"
    using arena_allocate_law [OF inv M(3,1,2) load] by blast
  have adr: "unat adr < 2 ^ 32 - 1" "allocated a1 (unat adr) (blk ?m + 4)"
    using arena_len_bound [OF a1(2)] a1(5,6) by (auto simp: allocated_def)
  have size: "blk ?m mod 2 ^ 16 = blk ?m" using blk_bounds(2) [of ?m] by simp
  show ?thesis
  proof (cases "bs = []")
    case True
    then have e: "e = eull_default" "data = []" using rep by (auto simp: eull_rep_def)
    then have "addr_is_null (eu_head e)" by (simp add: eull_default_def addr_is_null_def addr_null_pointer_def)
    then have "ensure_capacity (e\<lparr>eu_block_num := 3 + ?m\<rparr>) a (blk ?m) =
        Some (e\<lparr>eu_block_num := 3 + ?m, eu_head := adr, eu_tail := adr, eu_remaining_cap := blk ?m\<rparr>, a1)"
      using a1(1) size by (simp add: ensure_capacity_def)
    moreover have "eull_rep a1 (e\<lparr>eu_block_num := 3 + ?m, eu_head := adr, eu_tail := adr, eu_remaining_cap := blk ?m\<rparr>) data [unat adr]"
      using True e adr by (simp add: eull_rep_def chained_def full_data_def)
    ultimately show ?thesis using True a1 by (intro exI conjI) (assumption | simp)+
  next
    case False
    let ?n = "?m - 1"
    let ?t = "bs ! ?n + blk ?n"
    note r = rep [unfolded eull_rep_def Let_def] False
    have n: "?n < ?m" "Suc ?n = ?m" using False by simp_all
    have head: "unat (eu_head e) = bs ! 0" and tail: "unat (eu_tail e) = ?t"
      and all: "\<forall>i<?m. allocated a (bs ! i) (blk i + 4) \<and> bs ! i < 2 ^ 32 - 1" and ch: "chained (arena_mem a) bs"
      and data: "data = full_data (arena_mem a) bs ?n @ block_data (arena_mem a) bs ?n"
      using r empty by (auto simp: block_data_def)
    have last: "allocated a (bs ! ?n) (blk ?n + 4)" using all n(1) by blast
    have nn: "\<not> addr_is_null (eu_head e)"
    proof
      assume "addr_is_null (eu_head e)"
      then have "unat (eu_head e) = 2 ^ 32 - 1" by (simp add: addr_is_null_def unsigned_minus_1_eq_mask mask_eq_exp_minus_1)
      then show False using head all False by auto
    qed
    let ?w = "it_store u32_layout adr"
    have w: "?w = le_bytes 4 (unat adr)" "?w \<noteq> []" "length ?w = 4" by (simp_all add: u32_layout_def flip: length_0_conv)
    have al: "allocated a1 ?t (length ?w)"
      using last a1(4,5) in_page_shift [of "bs ! ?n" "blk ?n + 4" "blk ?n" 4] w(3) by (auto simp: allocated_def)
    obtain a' where a': "arena_slice_mut a1 (eu_tail e) ?w = Some a'" "arena_inv a'" "length (ar_pages a') = length (ar_pages a1)"
      "arena_len a' = arena_len a1" and mem: "arena_mem a' = (\<lambda>g. if ?t \<le> g \<and> g < ?t + length ?w then ?w ! (g - ?t) else arena_mem a1 g)"
      using arena_slice_mut_law [OF a1(2) _ w(2), of "eu_tail e", unfolded tail, OF al] by blast
    have off: "arena_mem a' g = arena_mem a g" if "g < ?t \<or> ?t + 4 \<le> g" for g using that a1(3) w(3) by (auto simp: mem)
    have earlier: "bs ! i + blk i + 4 \<le> bs ! ?n" if "i < ?n" for i using chained_less [OF ch n(1) that] .
    let ?e = "e\<lparr>eu_block_num := 3 + ?m, eu_tail := adr, eu_remaining_cap := blk ?m\<rparr>"
    have "ensure_capacity (e\<lparr>eu_block_num := 3 + ?m\<rparr>) a (blk ?m) = Some (?e, a')"
      using a1(1) a'(1) nn size by (simp add: ensure_capacity_def arena_write_at_def)
    moreover have "\<forall>g. g \<notin> footprint bs \<longrightarrow> arena_mem a' g = arena_mem a g"
    proof (intro allI impI)
      fix g assume "g \<notin> footprint bs"
      then have "g \<notin> {bs ! ?n..<?t + 4}" using footprint_nth [OF n(1)] by blast
      then have "g < ?t \<or> ?t + 4 \<le> g" by (simp only: atLeastLessThan_iff) linarith
      then show "arena_mem a' g = arena_mem a g" by (rule off)
    qed
    moreover have "eull_rep a' ?e data (bs @ [unat adr])"
    proof -
      have "chained (arena_mem a') (bs @ [unat adr])" unfolding chained_def
      proof (intro allI impI)
        fix i assume i: "Suc i < length (bs @ [unat adr])"
        show "map (arena_mem a') [(bs @ [unat adr]) ! i + blk i..<(bs @ [unat adr]) ! i + blk i + 4] =
            le_bytes 4 ((bs @ [unat adr]) ! Suc i) \<and> (bs @ [unat adr]) ! i + blk i + 4 \<le> (bs @ [unat adr]) ! Suc i"
        proof (cases "i = ?n")
          case True
          have "map (arena_mem a') [?t..<?t + 4] = ?w" using w(3) by (intro nth_equalityI) (auto simp: mem)
          moreover have "?t + 4 \<le> unat adr" using last a1(4) by (simp add: allocated_def)
          ultimately show ?thesis using True n w(1) by (simp add: nth_append del: upt_Suc)
        next
          case False
          then have i': "Suc i < ?m" "i < ?n" using i by auto
          have "map (arena_mem a') [bs ! i + blk i..<bs ! i + blk i + 4] = map (arena_mem a) [bs ! i + blk i..<bs ! i + blk i + 4]"
            using earlier [OF i'(2)] by (intro map_cong refl off) (simp only: set_upt atLeastLessThan_iff, linarith)
          then show ?thesis using ch i'(1) unfolding chained_def by (simp add: nth_append del: map_eq_conv)
        qed
      qed
      moreover have "full_data (arena_mem a') (bs @ [unat adr]) ?m = data"
      proof -
        have "full_data (arena_mem a') bs ?n = full_data (arena_mem a) bs ?n"
        proof (rule full_data_cong)
          fix i g assume "i < ?n" "g < bs ! i + blk i"
          then show "arena_mem a' g = arena_mem a g" using earlier [of i] by (intro off) linarith
        qed simp
        moreover have "block_data (arena_mem a') bs ?n = block_data (arena_mem a) bs ?n"
          unfolding block_data_def by (intro map_cong refl off) simp
        ultimately show ?thesis using full_data_snoc [OF n(1), of "arena_mem a'" "unat adr"] n(2) data by simp
      qed
      moreover have "\<forall>i<length (bs @ [unat adr]). allocated a' ((bs @ [unat adr]) ! i) (blk i + 4) \<and> (bs @ [unat adr]) ! i < 2 ^ 32 - 1"
      proof (intro allI impI)
        fix i assume i: "i < length (bs @ [unat adr])"
        show "allocated a' ((bs @ [unat adr]) ! i) (blk i + 4) \<and> (bs @ [unat adr]) ! i < 2 ^ 32 - 1"
        proof (cases "i = ?m")
          case True
          then show ?thesis using adr a'(4) by (simp add: allocated_def)
        next
          case False
          then have i': "i < ?m" using i by simp
          then have "allocated a (bs ! i) (blk i + 4)" "bs ! i < 2 ^ 32 - 1" using all by blast+
          then show ?thesis using i' a'(4) a1(4,5) by (simp add: allocated_def nth_append)
        qed
      qed
      ultimately show ?thesis using head False by (simp add: eull_rep_def Let_def nth_append)
    qed
    moreover have "arena_load ?M a' = arena_load ?M a1" by (rule arena_load_same [OF a1(2) a'(3,4)])
    ultimately show ?thesis using a1 a' by (intro exI conjI) (assumption | simp)+
  qed
qed

lemma length_full_data: "n \<le> length bs \<Longrightarrow> length (full_data mem bs n) = full_bytes n"
  by (induction n) (auto simp: full_data_def full_bytes_def block_data_def)

lemma eull_bytes_data:
  assumes "eull_rep a e data bs"
  shows "2 * eull_bytes (length bs) \<le> 5 * length data + 24"
proof (cases "bs = []")
  case False
  then obtain ys where "data = full_data (arena_mem a) bs (length bs - 1) @ ys" using assms by (auto simp: eull_rep_def Let_def)
  then have "full_bytes (length bs - 1) \<le> length data"
    using length_full_data [of "length bs - 1" bs "arena_mem a"] by simp
  then show ?thesis using eull_bytes_bound [of "length bs - 1"] False by simp
qed (simp add: eull_bytes_def)

lemma arena_cap_max: "arena_cap MAX_ALLOC < 2 ^ 32"
  by (simp add: arena_cap_def MAX_ALLOC_def PAGE_SIZE_def NUM_BITS_PAGE_ADDR_def)

text \<open>What a step on one list may change: its own blocks and bytes that were free.\<close>

definition eull_step :: "memory_arena \<Rightarrow> nat list \<Rightarrow> memory_arena \<Rightarrow> nat list \<Rightarrow> bool" where
  "eull_step a bs a' bs' \<longleftrightarrow>
     arena_len a \<le> arena_len a' \<and> footprint bs' \<subseteq> footprint bs \<union> {arena_len a..} \<and>
     (\<forall>g. g \<notin> footprint bs \<longrightarrow> g < arena_len a \<longrightarrow> arena_mem a' g = arena_mem a g)"

lemma eull_step_refl: "eull_step a bs a bs"
  by (auto simp: eull_step_def)

lemma eull_step_trans:
  assumes "eull_step a bs a1 bs1" "eull_step a1 bs1 a2 bs2"
  shows "eull_step a bs a2 bs2"
  unfolding eull_step_def
proof (intro conjI allI impI)
  show "arena_len a \<le> arena_len a2" using assms by (simp add: eull_step_def)
  show "footprint bs2 \<subseteq> footprint bs \<union> {arena_len a..}" using assms by (fastforce simp: eull_step_def)
  fix g assume g: "g \<notin> footprint bs" "g < arena_len a"
  then have "g \<notin> footprint bs1" "g < arena_len a1" using assms(1) by (auto simp: eull_step_def)
  then show "arena_mem a2 g = arena_mem a g" using g assms by (simp add: eull_step_def)
qed

definition within_budget :: "nat \<Rightarrow> memory_arena \<Rightarrow> nat list \<Rightarrow> bool" where
  "within_budget r a bs \<longleftrightarrow> arena_load MAX_ALLOC a \<le> r + eull_bytes (length bs)"

lemma footprint_snoc: "footprint (bs @ [b]) = footprint bs \<union> {b..<b + blk (length bs) + 4}"
  by (auto simp: footprint_def nth_append less_Suc_eq split: if_splits)

lemma eull_prepare:
  assumes inv: "arena_inv a" and rep: "eull_rep a e data bs" and bud: "within_budget r a bs"
    and room: "2 * r + 5 * length data + 24 < 2 * arena_cap MAX_ALLOC"
  shows "\<exists>e1 a1 bs1. (if eu_remaining_cap e = 0 then
        increment_num_blocks e \<bind> (\<lambda>e1. ensure_capacity e1 a (get_block_size (eu_block_num e1)))
      else Some (e, a)) = Some (e1, a1) \<and>
    arena_inv a1 \<and> eull_rep a1 e1 data bs1 \<and> bs1 \<noteq> [] \<and> 0 < eu_remaining_cap e1 \<and> within_budget r a1 bs1 \<and> eull_step a bs a1 bs1"
proof (cases "eu_remaining_cap e = 0")
  case False
  then have "bs \<noteq> []" using rep by (auto simp: eull_rep_def eull_default_def)
  then show ?thesis using assms False eull_step_refl by auto
next
  case True
  let ?m = "length bs"
  have bn: "eu_block_num e = 2 + ?m" using rep by (auto simp: eull_rep_def eull_default_def FIRST_BLOCK_NUM_def Let_def split: if_splits)
  have bytes: "2 * eull_bytes ?m \<le> 5 * length data + 24" by (rule eull_bytes_data [OF rep])
  have small: "3 + ?m < 2 ^ 32" using bytes room arena_cap_max eull_bytes_blocks [of ?m] by linarith
  have load: "arena_load MAX_ALLOC a < arena_cap MAX_ALLOC" using bud bytes room unfolding within_budget_def by linarith
  obtain e1 a1 b where e1: "ensure_capacity (e\<lparr>eu_block_num := 3 + ?m\<rparr>) a (blk ?m) = Some (e1, a1)" "arena_inv a1"
    "arena_len a \<le> b" "arena_len a1 = b + blk ?m + 4" "arena_load MAX_ALLOC a1 \<le> arena_load MAX_ALLOC a + blk ?m + 4"
    "\<forall>g. g \<notin> footprint bs \<longrightarrow> arena_mem a1 g = arena_mem a g" "eu_remaining_cap e1 = blk ?m" "eull_rep a1 e1 data (bs @ [b])"
    using eull_new_block [OF inv rep True load] by blast
  have "increment_num_blocks e = Some (e\<lparr>eu_block_num := 3 + ?m\<rparr>)" using small bn by (simp add: increment_num_blocks_def)
  then have "increment_num_blocks e \<bind> (\<lambda>e1. ensure_capacity e1 a (get_block_size (eu_block_num e1))) = Some (e1, a1)"
    using e1(1) by (simp add: get_block_size_blk)
  moreover have "within_budget r a1 (bs @ [b])" using bud e1(5) by (simp add: within_budget_def eull_bytes_def)
  moreover have "eull_step a bs a1 (bs @ [b])" using e1(3,4,6) by (auto simp: eull_step_def footprint_snoc)
  moreover have "0 < blk ?m" using blk_bounds(1) [of ?m] by linarith
  ultimately show ?thesis using True e1 by (intro exI conjI) (assumption | simp)+
qed

lemma extend_law:
  assumes "arena_inv a" "eull_rep a e data bs" "within_budget r a bs"
    "2 * r + 5 * (length data + length buf) + 24 \<le> 2 * arena_cap MAX_ALLOC"
  shows "\<exists>e' a' bs'. extend_from_slice avx e a buf = Some (e', a') \<and> arena_inv a' \<and> eull_rep a' e' (data @ buf) bs' \<and>
    within_budget r a' bs' \<and> eull_step a bs a' bs'"
  using assms
proof (induction "length buf" arbitrary: buf a e data bs rule: less_induct)
  case less
  show ?case
  proof (cases "buf = []")
    case True
    then show ?thesis using less.prems eull_step_refl by (subst extend_from_slice.simps) auto
  next
    case False
    then have "2 * r + 5 * length data + 24 < 2 * arena_cap MAX_ALLOC" using less.prems(4) by (cases buf) auto
    from eull_prepare [OF less.prems(1-3) this] obtain e1 a1 bs1 where
      p: "(if eu_remaining_cap e = 0 then
        increment_num_blocks e \<bind> (\<lambda>e1. ensure_capacity e1 a (get_block_size (eu_block_num e1)))
      else Some (e, a)) = Some (e1, a1)" "arena_inv a1" "eull_rep a1 e1 data bs1" "bs1 \<noteq> []" "0 < eu_remaining_cap e1"
      "within_budget r a1 bs1" "eull_step a bs a1 bs1" by blast
    let ?n = "length bs1 - 1"
    let ?k = "min (length buf) (eu_remaining_cap e1)"
    let ?out = "map (arena_mem a1) [unat (eu_tail e1)..<unat (eu_tail e1) + eu_remaining_cap e1]"
    have al: "allocated a1 (unat (eu_tail e1)) (eu_remaining_cap e1)"
    proof -
      have "allocated a1 (bs1 ! ?n) (blk ?n + 4)" "eu_remaining_cap e1 \<le> blk ?n"
        "unat (eu_tail e1) = bs1 ! ?n + (blk ?n - eu_remaining_cap e1)"
        using p(3,4) by (auto simp: eull_rep_def Let_def)
      then show ?thesis using in_page_shift [of "bs1 ! ?n" "blk ?n + 4" "blk ?n - eu_remaining_cap e1" "eu_remaining_cap e1"]
        by (auto simp: allocated_def)
    qed
    have sl: "arena_slice a1 (eu_tail e1) (eu_remaining_cap e1) = Some ?out"
      by (rule arena_slice_law [OF p(2) al p(5) order_refl])
    have k: "take ?k buf \<noteq> []" "length (take ?k buf) = ?k" "length (take ?k buf) \<le> eu_remaining_cap e1" using False p(5) by auto
    obtain a2 where a2: "arena_slice_mut a1 (eu_tail e1) (take ?k buf) = Some a2" "arena_inv a2"
      "length (ar_pages a2) = length (ar_pages a1)" "arena_len a2 = arena_len a1"
      "\<forall>g. g \<notin> footprint bs1 \<longrightarrow> arena_mem a2 g = arena_mem a1 g"
      "eull_rep a2 (e1\<lparr>eu_remaining_cap := eu_remaining_cap e1 - ?k, eu_tail := addr_offset (eu_tail e1) (word_of_nat ?k)\<rparr>)
        (data @ take ?k buf) bs1"
      using eull_write_tail [OF p(2,3,4) k(1,3)] unfolding k(2) by blast
    have "eull_step a1 bs1 a2 bs1" using a2(4,5) by (auto simp: eull_step_def)
    then have step: "eull_step a bs a2 bs1" by (rule eull_step_trans [OF p(7)])
    have bud: "within_budget r a2 bs1" using p(6) arena_load_same [OF p(2) a2(3,4)] by (simp add: within_budget_def)
    have "length (drop ?k buf) < length buf" using False p(5) by (cases buf) auto
    moreover have "length (data @ take ?k buf) + length (drop ?k buf) = length data + length buf" by simp
    ultimately obtain e' a' bs' where IH: "extend_from_slice avx
        (e1\<lparr>eu_remaining_cap := eu_remaining_cap e1 - ?k, eu_tail := addr_offset (eu_tail e1) (word_of_nat ?k)\<rparr>) a2 (drop ?k buf) = Some (e', a')"
      "arena_inv a'" "eull_rep a' e' ((data @ take ?k buf) @ drop ?k buf) bs'" "within_budget r a' bs'" "eull_step a2 bs1 a' bs'"
      using less.hyps [OF _ a2(2,6) bud] less.prems(4) by (metis (no_types, lifting))
    have "extend_from_slice avx e a buf = Some (e', a')"
      using False p(1) sl a2(1) IH(1)
      by (subst extend_from_slice.simps) (simp add: fast_short_slice_copy_eq Let_def)
    then show ?thesis using IH eull_step_trans [OF step IH(5)] by (intro exI conjI) (assumption | simp)+
  qed
qed

section \<open>Reading\<close>

lemma read_full_blocks_law:
  assumes inv: "arena_inv a" and all: "\<forall>i<length bs. allocated a (bs ! i) (blk i + 4) \<and> bs ! i < 2 ^ 32 - 1"
    and ch: "chained (arena_mem a) bs" and n: "n < length bs" and i: "i \<le> n" "unat adr = bs ! i"
  shows "\<exists>adr'. read_full_blocks a [3 + i..<3 + n] adr out = Some (adr', out @ concat (map (block_data (arena_mem a) bs) [i..<n])) \<and>
    unat adr' = bs ! n"
  using i
proof (induction "n - i" arbitrary: i adr out)
  case 0
  then show ?case by simp
next
  case (Suc d)
  then have lt: "i < n" "Suc i < length bs" using n by auto
  have al: "allocated a (bs ! i) (blk i + 4)" "bs ! i < 2 ^ 32 - 1" using all lt by auto
  have up: "[3 + i..<3 + n] = (3 + i) # [3 + Suc i..<3 + n]" "[i..<n] = i # [Suc i..<n]" using lt(1) by (simp_all add: upt_conv_Cons)
  have sl: "arena_slice a adr (blk i) = Some (block_data (arena_mem a) bs i)"
    using arena_slice_law [OF inv, of adr "blk i + 4" "blk i"] al(1) Suc.prems(2) by (simp add: block_data_def)
  let ?p = "addr_offset adr (word_of_nat (blk i))"
  have "bs ! i + (blk i + 4) \<le> 2 ^ 32" using al(1) arena_len_bound [OF inv] unfolding allocated_def by linarith
  then have p: "unat ?p = bs ! i + blk i" using Suc.prems(2) by (subst unat_addr_offset) auto
  have "allocated a (unat ?p) 4"
    using al(1) in_page_shift [of "bs ! i" "blk i + 4" "blk i" 4] p by (simp add: allocated_def)
  then have "arena_slice a ?p 4 = Some (map (arena_mem a) [bs ! i + blk i..<bs ! i + blk i + 4])"
    using arena_slice_law [OF inv, of ?p 4 4] p by simp
  also have "map (arena_mem a) [bs ! i + blk i..<bs ! i + blk i + 4] = le_bytes 4 (bs ! Suc i)"
    using ch lt(2) unfolding chained_def by blast
  finally have "arena_read u32_layout a ?p = Some (word_of_nat (le_nat (le_bytes 4 (bs ! Suc i))))"
    by (simp add: arena_read_def u32_layout_def)
  moreover have next_less: "bs ! Suc i < 2 ^ 32 - 1" using all lt(2) by blast
  ultimately have rd: "arena_read u32_layout a ?p = Some (word_of_nat (bs ! Suc i))" by (simp add: le_nat_le_bytes_id)
  have u: "unat (word_of_nat (bs ! Suc i) :: addr) = bs ! Suc i"
    using next_less by (simp add: unsigned_of_nat take_bit_nat_eq_self)
  have d: "d = n - Suc i" and le: "Suc i \<le> n" using Suc.hyps(2) lt(1) by linarith+
  from Suc.hyps(1) [OF d le u, of "out @ block_data (arena_mem a) bs i"] obtain adr' where "read_full_blocks a [3 + Suc i..<3 + n] (word_of_nat (bs ! Suc i)) (out @ block_data (arena_mem a) bs i) =
      Some (adr', (out @ block_data (arena_mem a) bs i) @ concat (map (block_data (arena_mem a) bs) [Suc i..<n]))"
    "unat adr' = bs ! n" by blast
  then show ?case unfolding up using sl rd by (simp add: get_block_size_blk Let_def)
qed

lemma read_to_end_law:
  assumes inv: "arena_inv a" and rep: "eull_rep a e data bs"
  shows "read_to_end e a out = Some (out @ data)"
proof (cases "bs = []")
  case True
  then show ?thesis using rep by (simp add: eull_rep_def read_to_end_def eull_default_def addr_is_null_def addr_null_pointer_def)
next
  case False
  let ?n = "length bs - 1"
  have e: "eu_block_num e = 3 + ?n" "unat (eu_head e) = bs ! 0" "eu_remaining_cap e \<le> blk ?n"
    and all: "\<forall>i<length bs. allocated a (bs ! i) (blk i + 4) \<and> bs ! i < 2 ^ 32 - 1" and ch: "chained (arena_mem a) bs"
    and data: "data = full_data (arena_mem a) bs ?n @ map (arena_mem a) [bs ! ?n..<bs ! ?n + (blk ?n - eu_remaining_cap e)]"
    using rep False by (auto simp: eull_rep_def Let_def)
  have n: "?n < length bs" using False by simp
  have nn: "\<not> addr_is_null (eu_head e)"
  proof
    assume "addr_is_null (eu_head e)"
    then have "unat (eu_head e) = 2 ^ 32 - 1" by (simp add: addr_is_null_def unsigned_minus_1_eq_mask mask_eq_exp_minus_1)
    then show False using e(2) all False by auto
  qed
  obtain adr where adr: "read_full_blocks a [3..<3 + ?n] (eu_head e) out = Some (adr, out @ full_data (arena_mem a) bs ?n)"
    "unat adr = bs ! ?n"
    using read_full_blocks_law [OF inv all ch n, of 0 "eu_head e" out] e(2) by (auto simp: full_data_def)
  have "allocated a (bs ! ?n) (blk ?n + 4)" using all n by blast
  then have "arena_slice a adr (blk ?n - eu_remaining_cap e) =
      Some (map (arena_mem a) [bs ! ?n..<bs ! ?n + (blk ?n - eu_remaining_cap e)])"
    using arena_slice_law [OF inv, of adr "blk ?n + 4" "blk ?n - eu_remaining_cap e"] adr(2) by simp
  then show ?thesis using nn e adr(1) data get_block_size_blk [of ?n]
    by (simp add: read_to_end_def FIRST_BLOCK_NUM_def Let_def)
qed

section \<open>Lists sharing an arena\<close>

text \<open>Appends to the lists of one arena, each naming its list, in the order they happen.\<close>

fun eull_run :: "bool \<Rightarrow> (nat \<times> u8 list) list \<Rightarrow> eull list \<Rightarrow> memory_arena \<Rightarrow> (eull list \<times> memory_arena) option" where
  "eull_run avx [] es a = Some (es, a)"
| "eull_run avx ((k, buf) # ops) es a =
     extend_from_slice avx (es ! k) a buf \<bind> (\<lambda>(e', a'). eull_run avx ops (es[k := e']) a')"

definition written_to :: "nat \<Rightarrow> (nat \<times> u8 list) list \<Rightarrow> u8 list" where
  "written_to k ops = concat (map snd (filter (\<lambda>op. fst op = k) ops))"

definition total_written :: "(nat \<times> u8 list) list \<Rightarrow> nat" where
  "total_written ops = sum_list (map (\<lambda>op. length (snd op)) ops)"

definition shared_rep :: "memory_arena \<Rightarrow> eull list \<Rightarrow> u8 list list \<Rightarrow> nat list list \<Rightarrow> bool" where
  "shared_rep a es ds bss \<longleftrightarrow>
     arena_inv a \<and> length ds = length es \<and> length bss = length es \<and>
     (\<forall>k<length es. eull_rep a (es ! k) (ds ! k) (bss ! k)) \<and>
     (\<forall>j<length es. \<forall>k<length es. j \<noteq> k \<longrightarrow> footprint (bss ! j) \<inter> footprint (bss ! k) = {}) \<and>
     arena_load MAX_ALLOC a \<le> (\<Sum>k<length es. eull_bytes (length (bss ! k)))"

lemma sum_split: "(k :: nat) < n \<Longrightarrow> (\<Sum>j<n. f j) = (f k :: nat) + (\<Sum>j\<in>{..<n} - {k}. f j)"
  by (rule sum.remove) simp_all

lemma shared_step:
  assumes sh: "shared_rep a es ds bss" and k: "k < length es"
    and room: "5 * ((\<Sum>j<length es. length (ds ! j)) + length buf) + 24 * length es \<le> 2 * arena_cap MAX_ALLOC"
  shows "\<exists>e' a' bs'. extend_from_slice avx (es ! k) a buf = Some (e', a') \<and>
    shared_rep a' (es[k := e']) (ds[k := ds ! k @ buf]) (bss[k := bs'])"
proof -
  let ?L = "length es" and ?f = "\<lambda>j. eull_bytes (length (bss ! j))"
  let ?R = "{..<?L} - {k}"
  let ?r = "\<Sum>j\<in>?R. ?f j"
  note s = sh [unfolded shared_rep_def]
  have inv: "arena_inv a" and rep: "eull_rep a (es ! j) (ds ! j) (bss ! j)" if "j < ?L" for j using s that by auto
  have bud: "within_budget ?r a (bss ! k)" using s sum_split [OF k, of ?f] unfolding within_budget_def by linarith
  have "2 * ?r \<le> (\<Sum>j\<in>?R. 5 * length (ds ! j) + 24)"
    unfolding sum_distrib_left using eull_bytes_data [OF rep] by (intro sum_mono) auto
  also have "\<dots> = 5 * (\<Sum>j\<in>?R. length (ds ! j)) + 24 * (?L - 1)"
    using k by (simp add: sum.distrib sum_distrib_left)
  finally have r: "2 * ?r \<le> 5 * (\<Sum>j\<in>?R. length (ds ! j)) + 24 * (?L - 1)" .
  have arith: "2 * x + 5 * (d + b) + 24 \<le> c" if "2 * x \<le> 5 * y + 24 * (?L - 1)" "5 * (d + y + b) + 24 * ?L \<le> c" for x y d b c :: nat
    using that k by (cases ?L) simp_all
  have "2 * ?r + 5 * (length (ds ! k) + length buf) + 24 \<le> 2 * arena_cap MAX_ALLOC"
    using room unfolding sum_split [OF k, of "\<lambda>j. length (ds ! j)"] by (rule arith [OF r])
  from extend_law [OF inv [OF k] rep [OF k] bud this] obtain e' a' bs' where
    e': "extend_from_slice avx (es ! k) a buf = Some (e', a')" "arena_inv a'" "eull_rep a' e' (ds ! k @ buf) bs'"
      "within_budget ?r a' bs'" "eull_step a (bss ! k) a' bs'" by blast
  have foot: "footprint (bss ! j) \<subseteq> {..<arena_len a}" "footprint (bss ! j) \<inter> footprint (bss ! k) = {}" if "j < ?L" "j \<noteq> k" for j
    using footprint_bound [OF rep [OF that(1)]] s that k by auto
  have other: "eull_rep a' (es ! j) (ds ! j) (bss ! j)" if "j < ?L" "j \<noteq> k" for j
    using rep [OF that(1)]
  proof (rule eull_rep_frame)
    show "arena_len a \<le> arena_len a'" using e'(5) by (simp add: eull_step_def)
    show "arena_mem a' g = arena_mem a g" if "g \<in> footprint (bss ! j)" for g
      using that foot [OF \<open>j < ?L\<close> \<open>j \<noteq> k\<close>] e'(5) unfolding eull_step_def by blast
  qed
  have disj: "footprint (bss ! j) \<inter> footprint bs' = {}" if "j < ?L" "j \<noteq> k" for j
    using foot [OF that] e'(5) unfolding eull_step_def by (force simp: not_less)
  have "shared_rep a' (es[k := e']) (ds[k := ds ! k @ buf]) (bss[k := bs'])"
    unfolding shared_rep_def
  proof (intro conjI allI impI)
    have len: "length bss = ?L" "length ds = ?L" using s by auto
    show "arena_inv a'" by (rule e'(2))
    show "length (ds[k := ds ! k @ buf]) = length (es[k := e'])" "length (bss[k := bs']) = length (es[k := e'])" using len by simp_all
    show "eull_rep a' (es[k := e'] ! j) (ds[k := ds ! k @ buf] ! j) (bss[k := bs'] ! j)" if "j < length (es[k := e'])" for j
      using that len e'(3) other by (cases "j = k") simp_all
    show "footprint (bss[k := bs'] ! i) \<inter> footprint (bss[k := bs'] ! j) = {}"
      if "i < length (es[k := e'])" "j < length (es[k := e'])" "i \<noteq> j" for i j
      using that len disj [of i] disj [of j] s by (cases "i = k"; cases "j = k") (simp_all add: Int_commute)
    have "(\<Sum>j<?L. eull_bytes (length (bss[k := bs'] ! j))) = eull_bytes (length bs') + ?r"
      using k len by (subst sum_split [OF k]) (auto intro: sum.cong)
    then show "arena_load MAX_ALLOC a' \<le> (\<Sum>j<length (es[k := e']). eull_bytes (length (bss[k := bs'] ! j)))"
      using e'(4) by (simp add: within_budget_def add.commute)
  qed
  then show ?thesis using e'(1) by blast
qed

lemma eull_run_law:
  assumes "shared_rep a es ds bss" "\<forall>op\<in>set ops. fst op < length es"
    "5 * ((\<Sum>j<length es. length (ds ! j)) + total_written ops) + 24 * length es \<le> 2 * arena_cap MAX_ALLOC"
  shows "\<exists>es' a' bss'. eull_run avx ops es a = Some (es', a') \<and> length es' = length es \<and>
    shared_rep a' es' (map (\<lambda>k. ds ! k @ written_to k ops) [0..<length es]) bss'"
  using assms
proof (induction ops arbitrary: a es ds bss)
  case Nil
  have "map (\<lambda>k. ds ! k @ written_to k []) [0..<length es] = ds"
    using Nil.prems(1) by (intro nth_equalityI) (auto simp: shared_rep_def written_to_def)
  then show ?case using Nil.prems(1) by auto
next
  case (Cons op ops)
  obtain k buf where op: "op = (k, buf)" by fastforce
  have k: "k < length es" using Cons.prems(2) op by simp
  have tot: "total_written (op # ops) = length buf + total_written ops" by (simp add: total_written_def op)
  then have "5 * ((\<Sum>j<length es. length (ds ! j)) + length buf) + 24 * length es \<le> 2 * arena_cap MAX_ALLOC"
    using Cons.prems(3) by simp
  from shared_step [OF Cons.prems(1) k this] obtain e' a' bs' where
    st: "extend_from_slice avx (es ! k) a buf = Some (e', a')" "shared_rep a' (es[k := e']) (ds[k := ds ! k @ buf]) (bss[k := bs'])" by blast
  have kd: "k < length ds" "length ds = length es" using Cons.prems(1) k by (auto simp: shared_rep_def)
  have "(\<Sum>j<length es. length (ds[k := ds ! k @ buf] ! j)) = length (ds ! k @ buf) + (\<Sum>j\<in>{..<length es} - {k}. length (ds ! j))"
    using kd by (subst sum_split [OF k]) (auto intro: sum.cong)
  then have sum: "(\<Sum>j<length es. length (ds[k := ds ! k @ buf] ! j)) = (\<Sum>j<length es. length (ds ! j)) + length buf"
    using sum_split [OF k, of "\<lambda>j. length (ds ! j)"] by simp
  have "\<exists>es' a'' bss'. eull_run avx ops (es[k := e']) a' = Some (es', a'') \<and> length es' = length (es[k := e']) \<and>
      shared_rep a'' es' (map (\<lambda>j. ds[k := ds ! k @ buf] ! j @ written_to j ops) [0..<length (es[k := e'])]) bss'"
    using Cons.prems(2,3) sum tot by (intro Cons.IH [OF st(2)]) auto
  also have "map (\<lambda>j. ds[k := ds ! k @ buf] ! j @ written_to j ops) [0..<length (es[k := e'])] =
      map (\<lambda>j. ds ! j @ written_to j (op # ops)) [0..<length es]"
    using kd by (intro map_cong) (auto simp: written_to_def op nth_list_update)
  finally show ?case using st(1) by (simp add: op)
qed

lemma shared_rep_default:
  assumes "arena_default = Some a"
  shows "shared_rep a (replicate n eull_default) (replicate n []) (replicate n [])"
proof -
  obtain b where b: "arena_default = Some b" "arena_inv b" "arena_load MAX_ALLOC b = 0" using arena_default_law [of MAX_ALLOC] by blast
  have "b = a" using b(1) unfolding assms by simp
  then have "arena_inv a" "arena_load MAX_ALLOC a = 0" using b(2,3) by simp_all
  then show ?thesis using eull_rep_default by (simp add: shared_rep_def footprint_def)
qed

text \<open>
  Property C13. Any number of lists share one arena: after any interleaving of appends, as long as the bytes
  written fit the budget of the arena, no append panics and every list reads back exactly the bytes
  appended to it, in order.
\<close>

theorem expull_interleaved:
  assumes "\<forall>op\<in>set ops. fst op < n" "5 * total_written ops + 24 * n \<le> 2 * arena_cap MAX_ALLOC"
  shows "\<exists>a es a'. arena_default = Some a \<and> eull_run avx ops (replicate n eull_default) a = Some (es, a') \<and>
    (\<forall>k<n. read_to_end (es ! k) a' [] = Some (written_to k ops))"
proof -
  obtain a where a: "arena_default = Some a" using arena_default_law by blast
  have "5 * ((\<Sum>j<length (replicate n eull_default). length (replicate n ([] :: u8 list) ! j)) + total_written ops) +
      24 * length (replicate n eull_default) \<le> 2 * arena_cap MAX_ALLOC" using assms(2) by simp
  from eull_run_law [OF shared_rep_default [OF a] _ this, of avx] assms(1) obtain es a' bss where
    es: "eull_run avx ops (replicate n eull_default) a = Some (es, a')" "length es = n"
      "shared_rep a' es (map (\<lambda>k. replicate n [] ! k @ written_to k ops) [0..<n]) bss" by (auto simp del: map_eq_conv)
  have "read_to_end (es ! k) a' [] = Some (written_to k ops)" if "k < n" for k
    using read_to_end_law [of a' "es ! k" "written_to k ops" "bss ! k" "[]"] es(2,3) that by (auto simp: shared_rep_def)
  then show ?thesis using a es(1) by blast
qed

theorem expull_interleaved_witness:
  "\<exists>a es a'. arena_default = Some a \<and>
     eull_run False [(0, [1, 2, 3]), (1, [9]), (0, replicate 20 7), (1, [8, 8])] (replicate 2 eull_default) a = Some (es, a') \<and>
     read_to_end (es ! 0) a' [] = Some ([1, 2, 3] @ replicate 20 7) \<and> read_to_end (es ! 1) a' [] = Some [9, 8, 8]"
proof -
  let ?ops = "[(0, [1, 2, 3]), (1, [9]), (0, replicate 20 7), (1, [8, 8])] :: (nat \<times> u8 list) list"
  have f: "\<forall>op\<in>set ?ops. fst op < 2" by simp
  have b: "5 * total_written ?ops + 24 * 2 \<le> 2 * arena_cap MAX_ALLOC"
    by (simp add: total_written_def arena_cap_def MAX_ALLOC_def PAGE_SIZE_def NUM_BITS_PAGE_ADDR_def)
  have w: "written_to 0 ?ops = [1, 2, 3] @ replicate 20 7" "written_to 1 ?ops = [9, 8, 8]" by (simp_all add: written_to_def)
  from expull_interleaved [OF f b, of False] obtain a es a' where
    r: "arena_default = Some a" "eull_run False ?ops (replicate 2 eull_default) a = Some (es, a')"
      "\<forall>k<2. read_to_end (es ! k) a' [] = Some (written_to k ?ops)" by blast
  have "read_to_end (es ! 0) a' [] = Some (written_to 0 ?ops)" "read_to_end (es ! 1) a' [] = Some (written_to 1 ?ops)" using r(3) by auto
  then show ?thesis unfolding w using r(1,2) by blast
qed

end
