(* ===== verification/DocIdMapping.thy ===== *)
theory DocIdMapping
  imports BitSet
begin

text \<open>
  The mapping between old and new document ids of a segment whose documents are reordered,
  \<^verbatim>\<open>src/indexer/doc_id_mapping.rs\<close>. A validated mapping is a permutation and its two directions are inverse. An empty
  \<open>option\<close> is a panic, the left summand an error the code returns. Document ids are naturals below \<open>2 ^ 32\<close>, with the
  wrap-around of the 32-bit additions written out.
\<close>

section \<open>Mappings within a segment\<close>

datatype mapping_error = InvalidArgument

record doc_id_mapping =
  dm_new_doc_id_to_old :: "nat list"
  dm_old_doc_id_to_new :: "nat list"

text \<open>The loop fills the table of the new ids; \<open>validate\<close> is a closure over the state \<open>s\<close>.\<close>

fun from_new_loop :: "('s \<Rightarrow> nat \<Rightarrow> ('e + 's) option) \<Rightarrow> nat \<Rightarrow> nat list \<Rightarrow> 's \<Rightarrow> nat list \<Rightarrow> ('e + nat list) option" where
  "from_new_loop validate i [] s table = Some (Inr table)"
| "from_new_loop validate i (old # olds) s table =
     validate s old \<bind> (\<lambda>r. case r of
         Inl e \<Rightarrow> Some (Inl e)
       | Inr s' \<Rightarrow> if old < length table then from_new_loop validate (Suc i) olds s' (table[old := i mod 2 ^ 32]) else None)"

definition from_new_id_to_old_id_inner ::
  "nat list \<Rightarrow> ('s \<Rightarrow> nat \<Rightarrow> ('e + 's) option) \<Rightarrow> 's \<Rightarrow> ('e + doc_id_mapping) option" where
  "from_new_id_to_old_id_inner new_doc_id_to_old validate s =
     (let old_max_doc = (if new_doc_id_to_old = [] then 0 else (foldr max new_doc_id_to_old 0 + 1) mod 2 ^ 32)
      in map_option (map_sum id (\<lambda>table. \<lparr>dm_new_doc_id_to_old = new_doc_id_to_old, dm_old_doc_id_to_new = table\<rparr>))
           (from_new_loop validate 0 new_doc_id_to_old s (replicate old_max_doc 0)))"

definition new_permutation :: "nat list \<Rightarrow> (mapping_error + doc_id_mapping) option" where
  "new_permutation new_doc_id_to_old =
     (let max_doc = length new_doc_id_to_old mod 2 ^ 32
      in from_new_id_to_old_id_inner new_doc_id_to_old
           (\<lambda>seen_doc_ids old_doc_id.
              if max_doc \<le> old_doc_id then Some (Inl InvalidArgument)
              else bitset_insert seen_doc_ids old_doc_id \<bind> (\<lambda>(inserted, seen_doc_ids').
                   Some (if inserted then Inr seen_doc_ids' else Inl InvalidArgument)))
           (bitset_with_max_value max_doc))"

definition from_new_id_to_old_id :: "nat list \<Rightarrow> doc_id_mapping option" where
  "from_new_id_to_old_id new_doc_id_to_old =
     from_new_id_to_old_id_inner new_doc_id_to_old (\<lambda>_ _. Some (Inr ())) () \<bind> (\<lambda>r. case r of Inr m \<Rightarrow> Some m | Inl () \<Rightarrow> None)"

definition get_new_doc_id :: "doc_id_mapping \<Rightarrow> nat \<Rightarrow> nat option" where
  "get_new_doc_id m doc_id =
     (if doc_id < length (dm_old_doc_id_to_new m) then Some (dm_old_doc_id_to_new m ! doc_id) else None)"

definition iter_old_doc_ids :: "doc_id_mapping \<Rightarrow> nat list" where
  "iter_old_doc_ids m = dm_new_doc_id_to_old m"

definition old_to_new_ids :: "doc_id_mapping \<Rightarrow> nat list" where
  "old_to_new_ids m = dm_old_doc_id_to_new m"

definition dm_remap :: "doc_id_mapping \<Rightarrow> 'a list \<Rightarrow> 'a list option" where
  "dm_remap m els = map_opt (\<lambda>old_doc. if old_doc < length els then Some (els ! old_doc) else None) (dm_new_doc_id_to_old m)"

definition dm_len :: "doc_id_mapping \<Rightarrow> nat" where
  "dm_len m = length (dm_new_doc_id_to_old m)"

section \<open>Mappings of merged segments\<close>

datatype mapping_type = Stacked | StackedWithDeletes | Shuffled

record doc_address =
  da_segment_ord :: nat
  da_doc_id :: nat

record segment_doc_id_mapping =
  sm_new_doc_id_to_old_doc_addr :: "doc_address list"
  sm_alive_bitsets :: "ro_bitset option list"
  sm_mapping_type :: mapping_type

definition sm_iter_old_doc_addrs :: "segment_doc_id_mapping \<Rightarrow> doc_address list" where
  "sm_iter_old_doc_addrs m = sm_new_doc_id_to_old_doc_addr m"

definition sm_is_trivial :: "segment_doc_id_mapping \<Rightarrow> bool" where
  "sm_is_trivial m = (case sm_mapping_type m of Stacked \<Rightarrow> True | StackedWithDeletes \<Rightarrow> True | Shuffled \<Rightarrow> False)"

section \<open>Validation\<close>

lemma foldr_max_bound: "x \<in> set xs \<Longrightarrow> x \<le> foldr max xs (0 :: nat)"
  by (induction xs) auto

lemma foldr_max_less: "0 < n \<Longrightarrow> \<forall>x\<in>set xs. x < n \<Longrightarrow> foldr max xs (0 :: nat) < n"
  by (induction xs) auto

text \<open>The closure of \<open>new_permutation\<close>.\<close>

definition check_doc :: "nat \<Rightarrow> bitset \<Rightarrow> nat \<Rightarrow> (mapping_error + bitset) option" where
  "check_doc max_doc seen old =
     (if max_doc \<le> old then Some (Inl InvalidArgument)
      else bitset_insert seen old \<bind> (\<lambda>(inserted, seen'). Some (if inserted then Inr seen' else Inl InvalidArgument)))"

lemma check_doc_law:
  assumes "bitset_inv b" "bs_max_value b = n"
  shows "old < n \<Longrightarrow> old \<notin> bitset_elems b \<Longrightarrow>
      \<exists>b'. check_doc n b old = Some (Inr b') \<and> bitset_inv b' \<and> bs_max_value b' = n \<and> bitset_elems b' = insert old (bitset_elems b)"
    "n \<le> old \<or> old \<in> bitset_elems b \<Longrightarrow> check_doc n b old = Some (Inl InvalidArgument)"
proof -
  show "\<exists>b'. check_doc n b old = Some (Inr b') \<and> bitset_inv b' \<and> bs_max_value b' = n \<and> bitset_elems b' = insert old (bitset_elems b)"
    if "old < n" "old \<notin> bitset_elems b"
  proof -
    have lt: "old < bs_max_value b" using that(1) assms(2) by simp
    obtain b' where "bitset_insert b old = Some (old \<notin> bitset_elems b, b')" "bitset_inv b'" "bitset_elems b' = insert old (bitset_elems b)"
      "bs_max_value b' = bs_max_value b" using bitset_insert_correct [OF assms(1) lt] by blast
    then show ?thesis using that assms(2) by (intro exI [of _ b']) (simp add: check_doc_def)
  qed
  show "check_doc n b old = Some (Inl InvalidArgument)" if "n \<le> old \<or> old \<in> bitset_elems b"
  proof (cases "old < n")
    case True
    then have lt: "old < bs_max_value b" using assms(2) by simp
    obtain b' where "bitset_insert b old = Some (old \<notin> bitset_elems b, b')" using bitset_insert_correct [OF assms(1) lt] by blast
    then show ?thesis using that True by (simp add: check_doc_def)
  qed (simp add: check_doc_def)
qed

text \<open>On distinct ids in range that were not seen, the loop writes each position at its id.\<close>

lemma loop_accepts:
  assumes "bitset_inv b" "bs_max_value b = n" "distinct xs" "set xs \<inter> bitset_elems b = {}" "\<forall>x\<in>set xs. x < n \<and> x < length table"
    "i + length xs < 2 ^ 32"
  shows "\<exists>t. from_new_loop (check_doc n) i xs b table = Some (Inr t) \<and> length t = length table \<and>
    (\<forall>j<length xs. t ! (xs ! j) = i + j) \<and> (\<forall>d. d \<notin> set xs \<longrightarrow> t ! d = table ! d)"
  using assms
proof (induction xs arbitrary: b i table)
  case (Cons x xs)
  have x: "x < n" "x \<notin> bitset_elems b" "x < length table" "x \<notin> set xs" using Cons.prems(3-5) by auto
  obtain b' where b': "check_doc n b x = Some (Inr b')" "bitset_inv b'" "bs_max_value b' = n" "bitset_elems b' = insert x (bitset_elems b)"
    using check_doc_law(1) [OF Cons.prems(1,2) x(1,2)] by blast
  have "\<exists>t. from_new_loop (check_doc n) (Suc i) xs b' (table[x := i]) = Some (Inr t) \<and> length t = length (table[x := i]) \<and>
    (\<forall>j<length xs. t ! (xs ! j) = Suc i + j) \<and> (\<forall>d. d \<notin> set xs \<longrightarrow> t ! d = table[x := i] ! d)"
    using Cons.prems(3-6) x(4) b'(4) by (intro Cons.IH b'(2,3)) auto
  then obtain t where t: "from_new_loop (check_doc n) (Suc i) xs b' (table[x := i]) = Some (Inr t)" "length t = length table"
    "\<forall>j<length xs. t ! (xs ! j) = Suc i + j" "\<forall>d. d \<notin> set xs \<longrightarrow> t ! d = table[x := i] ! d" by auto
  have "i mod 2 ^ 32 = i" using Cons.prems(6) by simp
  then have "from_new_loop (check_doc n) i (x # xs) b table = Some (Inr t)" using b'(1) t(1) x(3) by simp
  moreover have "\<forall>j<length (x # xs). t ! ((x # xs) ! j) = i + j"
    using t(3,4) x(3,4) by (auto simp: nth_Cons split: nat.splits)
  moreover have "\<forall>d. d \<notin> set (x # xs) \<longrightarrow> t ! d = table ! d" using t(4) by simp
  ultimately show ?case using t(2) by blast
qed simp

lemma loop_rejects:
  assumes "bitset_inv b" "bs_max_value b = n" "\<not> (distinct xs \<and> set xs \<inter> bitset_elems b = {} \<and> (\<forall>x\<in>set xs. x < n))"
    "\<forall>x\<in>set xs. x < length table"
  shows "from_new_loop (check_doc n) i xs b table = Some (Inl InvalidArgument)"
  using assms
proof (induction xs arbitrary: b i table)
  case (Cons x xs)
  show ?case
  proof (cases "x < n \<and> x \<notin> bitset_elems b")
    case True
    obtain b' where b': "check_doc n b x = Some (Inr b')" "bitset_inv b'" "bs_max_value b' = n" "bitset_elems b' = insert x (bitset_elems b)"
      using check_doc_law(1) [OF Cons.prems(1,2)] True by blast
    have "from_new_loop (check_doc n) (Suc i) xs b' (table[x := i mod 2 ^ 32]) = Some (Inl InvalidArgument)"
      using Cons.prems(3,4) True b'(4) by (intro Cons.IH b'(2,3)) auto
    then show ?thesis using b'(1) Cons.prems(4) by simp
  next
    case False
    then show ?thesis using check_doc_law(2) [OF Cons.prems(1,2), of x] by auto
  qed
qed simp

definition is_permutation :: "nat list \<Rightarrow> bool" where
  "is_permutation xs \<longleftrightarrow> distinct xs \<and> (\<forall>x\<in>set xs. x < length xs)"

lemma is_permutation_set: "is_permutation xs \<Longrightarrow> set xs = {..<length xs}"
  unfolding is_permutation_def by (intro card_subset_eq) (auto simp: distinct_card)

text \<open>The constructor as the loop with \<open>check_doc\<close>, on a table whose size may wrap to zero.\<close>

lemma new_permutation_loop:
  assumes "length l < 2 ^ 32"
  shows "new_permutation l = map_option (map_sum id (\<lambda>t. \<lparr>dm_new_doc_id_to_old = l, dm_old_doc_id_to_new = t\<rparr>))
      (from_new_loop (check_doc (length l)) 0 l (bitset_with_max_value (length l))
        (replicate (if l = [] then 0 else (foldr max l 0 + 1) mod 2 ^ 32) 0))"
proof -
  have n: "length l mod 2 ^ 32 = length l" using assms by simp
  show ?thesis unfolding new_permutation_def from_new_id_to_old_id_inner_def n check_doc_def by (simp add: Let_def)
qed

lemma fresh_bitset:
  assumes "n < 2 ^ 32"
  shows "bitset_inv (bitset_with_max_value n)" "bs_max_value (bitset_with_max_value n) = n" "bitset_elems (bitset_with_max_value n) = {}"
  using bitset_with_max_value_correct assms by (simp_all add: bitset_with_max_value_def)

lemma table_covers:
  assumes "\<forall>x\<in>set l. x < 2 ^ 32 - 1" "(x :: nat) \<in> set l"
  shows "x < (if l = [] then 0 else (foldr max l 0 + 1) mod 2 ^ 32)"
  using assms foldr_max_bound [of x l] foldr_max_less [OF _ assms(1)] by (auto simp: less_Suc_eq_le)

lemma new_permutation_accepts:
  assumes "length l < 2 ^ 32" "length els = length l" and perm: "is_permutation l"
  shows "\<exists>m. new_permutation l = Some (Inr m) \<and> dm_len m = length l \<and> iter_old_doc_ids m = l \<and>
      (\<forall>n<length l. get_new_doc_id m (l ! n) = Some n) \<and> (\<forall>d<length l. \<exists>n<length l. get_new_doc_id m d = Some n \<and> l ! n = d) \<and>
      dm_remap m els = Some (map (\<lambda>d. els ! d) l)"
proof -
  let ?n = "length l" and ?L = "if l = [] then 0 else (foldr max l 0 + 1) mod 2 ^ 32"
  note b = fresh_bitset [OF assms(1)]
  have "\<forall>x\<in>set l. x < 2 ^ 32 - 1" using perm assms(1) by (fastforce simp: is_permutation_def)
  then have L: "\<forall>x\<in>set l. x < ?L" using table_covers by blast
  have "\<exists>t. from_new_loop (check_doc ?n) 0 l (bitset_with_max_value ?n) (replicate ?L 0) = Some (Inr t) \<and>
      length t = length (replicate ?L (0 :: nat)) \<and> (\<forall>j<length l. t ! (l ! j) = 0 + j) \<and> (\<forall>d. d \<notin> set l \<longrightarrow> t ! d = replicate ?L 0 ! d)"
    using perm b(3) L assms(1) by (intro loop_accepts b(1,2)) (auto simp: is_permutation_def)
  then obtain t where t: "from_new_loop (check_doc ?n) 0 l (bitset_with_max_value ?n) (replicate ?L 0) = Some (Inr t)"
    "length t = ?L" "\<forall>j<?n. t ! (l ! j) = j" by auto
  let ?m = "\<lparr>dm_new_doc_id_to_old = l, dm_old_doc_id_to_new = t\<rparr>"
  have get: "get_new_doc_id ?m (l ! i) = Some i" if "i < ?n" for i
    using that t(2,3) L nth_mem [OF that] by (simp add: get_new_doc_id_def)
  have "\<exists>i<?n. get_new_doc_id ?m d = Some i \<and> l ! i = d" if d: "d < ?n" for d
  proof -
    have "d \<in> set l" using d is_permutation_set [OF perm] by simp
    then obtain i where "i < ?n" "l ! i = d" unfolding in_set_conv_nth by blast
    then show ?thesis using get by blast
  qed
  moreover have "dm_remap ?m els = Some (map (\<lambda>d. els ! d) l)"
    unfolding dm_remap_def using perm assms(2) by (auto simp: is_permutation_def intro!: map_opt_Some)
  ultimately show ?thesis using new_permutation_loop [OF assms(1)] t(1) get by (intro exI [of _ ?m]) (simp add: dm_len_def iter_old_doc_ids_def)
qed

text \<open>
  With the largest integer in the list the table is empty, so the first id decides: the validation refuses it, or
  it is inserted and the write that follows is out of range.
\<close>

lemma new_permutation_wraps:
  assumes "length l < 2 ^ 32" "\<forall>x\<in>set l. x < 2 ^ 32" "2 ^ 32 - 1 \<in> set l"
  shows "new_permutation l = (if hd l < length l then None else Some (Inl InvalidArgument))"
proof -
  obtain x xs where l: "l = x # xs" using assms(3) by (cases l) auto
  have "foldr max l 0 = 2 ^ 32 - 1"
    using foldr_max_bound [OF assms(3)] foldr_max_less [OF _ assms(2)] by simp
  then have "(foldr max l 0 + 1) mod 2 ^ 32 = 0" by simp
  then have eq: "new_permutation l = map_option (map_sum id (\<lambda>t. \<lparr>dm_new_doc_id_to_old = l, dm_old_doc_id_to_new = t\<rparr>))
      (from_new_loop (check_doc (length l)) 0 (x # xs) (bitset_with_max_value (length l)) [])"
    using new_permutation_loop [OF assms(1)] l by simp
  note b = fresh_bitset [OF assms(1)]
  show ?thesis
  proof (cases "x < length l")
    case True
    then obtain b' where "check_doc (length l) (bitset_with_max_value (length l)) x = Some (Inr b')"
      using check_doc_law(1) [OF b(1,2)] b(3) by blast
    then show ?thesis using True unfolding eq by (simp add: l)
  next
    case False
    then have "check_doc (length l) (bitset_with_max_value (length l)) x = Some (Inl InvalidArgument)"
      using check_doc_law(2) [OF b(1,2)] by simp
    then show ?thesis using False unfolding eq by (simp add: l)
  qed
qed

text \<open>
  Property C18. A validated mapping of document ids is a permutation. For every list of 32-bit ids, of a length
  below \<open>2 ^ 32\<close>: when the list is a permutation, \<open>new_permutation\<close> accepts it, the two directions of the mapping are
  inverse, both total on the segment, and remapping the values of the documents puts each value at the new id of its
  document; when some id is out of range or repeated and the largest 32-bit integer is not in the list, it is an
  error. When the largest 32-bit integer is in the list the size of the table wraps to zero: the constructor is an
  error if the first id is out of range, and panics instead of returning that error if the first id is in range.
\<close>

theorem new_permutation_correct:
  assumes "length l < 2 ^ 32" "\<forall>x\<in>set l. x < 2 ^ 32" "length els = length l"
  shows "(is_permutation l \<longrightarrow> (\<exists>m. new_permutation l = Some (Inr m) \<and> dm_len m = length l \<and> iter_old_doc_ids m = l \<and>
      (\<forall>n<length l. get_new_doc_id m (l ! n) = Some n) \<and>
      (\<forall>d<length l. \<exists>n<length l. get_new_doc_id m d = Some n \<and> l ! n = d) \<and>
      dm_remap m els = Some (map (\<lambda>d. els ! d) l))) \<and>
    (\<not> is_permutation l \<and> 2 ^ 32 - 1 \<notin> set l \<longrightarrow> new_permutation l = Some (Inl InvalidArgument)) \<and>
    (2 ^ 32 - 1 \<in> set l \<longrightarrow> new_permutation l = (if hd l < length l then None else Some (Inl InvalidArgument)))"
proof (intro conjI impI)
  let ?L = "if l = [] then 0 else (foldr max l 0 + 1) mod 2 ^ 32"
  show "new_permutation l = Some (Inl InvalidArgument)" if p: "\<not> is_permutation l \<and> 2 ^ 32 - 1 \<notin> set l"
  proof -
    have "\<forall>x\<in>set l. x < 2 ^ 32 - 1"
    proof
      fix x
      assume "x \<in> set l"
      then have "x < 2 ^ 32" "x \<noteq> 2 ^ 32 - 1" using assms(2) p by blast+
      then show "x < 2 ^ 32 - 1" by simp
    qed
    then have "\<forall>x\<in>set l. x < length (replicate ?L (0 :: nat))" using table_covers unfolding length_replicate by blast
    then have "from_new_loop (check_doc (length l)) 0 l (bitset_with_max_value (length l)) (replicate ?L 0) = Some (Inl InvalidArgument)"
      using p fresh_bitset [OF assms(1)] by (intro loop_rejects) (auto simp: is_permutation_def)
    then show ?thesis using new_permutation_loop [OF assms(1)] by simp
  qed
qed (use new_permutation_accepts [OF assms(1,3)] new_permutation_wraps [OF assms(1,2)] in blast)+

theorem new_permutation_correct_witness:
  "(\<exists>m. new_permutation [2, 0, 1] = Some (Inr m) \<and> get_new_doc_id m 2 = Some 0 \<and> dm_remap m [''a'', ''b'', ''c''] = Some [''c'', ''a'', ''b'']) \<and>
   new_permutation [5, 0] = Some (Inl InvalidArgument) \<and>
   new_permutation [0, 2 ^ 32 - 1] = None \<and> new_permutation [2 ^ 32 - 1] = Some (Inl InvalidArgument)"
proof -
  have p: "is_permutation [2, 0, 1]" "\<not> is_permutation [5, 0]" by (simp_all add: is_permutation_def)
  have "\<exists>m. new_permutation [2, 0, 1] = Some (Inr m) \<and> (\<forall>n<length [2, 0, 1 :: nat]. get_new_doc_id m ([2, 0, 1] ! n) = Some n) \<and>
      dm_remap m [''a'', ''b'', ''c''] = Some (map (\<lambda>d. [''a'', ''b'', ''c''] ! d) [2, 0, 1])"
    using new_permutation_correct [of "[2, 0, 1]" "[''a'', ''b'', ''c'']"] p(1) by auto
  then obtain m where m: "new_permutation [2, 0, 1] = Some (Inr m)" "\<forall>n<length [2, 0, 1 :: nat]. get_new_doc_id m ([2, 0, 1] ! n) = Some n"
    "dm_remap m [''a'', ''b'', ''c''] = Some (map (\<lambda>d. [''a'', ''b'', ''c''] ! d) [2, 0, 1])" by blast
  have "get_new_doc_id m 2 = Some 0" using m(2) [rule_format, of 0] by simp
  moreover have "new_permutation [5, 0] = Some (Inl InvalidArgument)"
    using new_permutation_correct [of "[5, 0]" "[(), ()]"] p(2) by simp
  moreover have "new_permutation [0, 2 ^ 32 - 1] = None"
    using new_permutation_correct [of "[0, 2 ^ 32 - 1]" "[(), ()]"] by simp
  moreover have "new_permutation [2 ^ 32 - 1] = Some (Inl InvalidArgument)"
    using new_permutation_correct [of "[2 ^ 32 - 1]" "[()]"] by simp
  ultimately show ?thesis using m(1,3) by auto
qed

end
