(* ===== verification/Recorder.thy ===== *)
theory Recorder
  imports Expull DocIdMapping
begin

text \<open>
  What the indexer keeps per term, \<^verbatim>\<open>src/postings/recorder.rs\<close>: document ids alone, with term frequencies, or with
  frequencies and positions, each appended as variable-length integers to a list in the arena and decoded when the
  postings are serialised. Document ids, frequencies and positions are 32-bit words, so every subtraction and sum
  wraps as in the release build. The postings of renumbered documents, which the code sorts with
  \<open>sort_unstable_by_key\<close>, are sorted here by the stable \<open>sort_key\<close>: under an injective mapping the keys of a term are
  distinct and every sort gives this list; under a mapping that sends two documents to one id, the code may put their
  postings in either order. A serialised posting is the triple given to \<open>write_doc\<close>: document, frequency, and
  the differences between positions.
\<close>

section \<open>Reading the stack\<close>

definition POSITION_END :: u32 where
  "POSITION_END = 0"

definition vint32_next :: "u8 list \<Rightarrow> (u32 \<times> u8 list) option option" where
  "vint32_next data = (if data = [] then Some None else map_option Some (read_u32_vint data))"

partial_function (option) vint32_collect :: "u8 list \<Rightarrow> u32 list option" where
  "vint32_collect data =
     vint32_next data \<bind> (\<lambda>r. case r of None \<Rightarrow> Some [] | Some (v, data') \<Rightarrow> vint32_collect data' \<bind> (\<lambda>vs. Some (v # vs)))"

fun get_sum_reader :: "u32 \<Rightarrow> u32 list \<Rightarrow> u32 list" where
  "get_sum_reader state [] = []"
| "get_sum_reader state (delta # ds) = (state + delta) # get_sum_reader (state + delta) ds"

section \<open>The trait\<close>

type_synonym posting = "u32 \<times> u32 \<times> u32 list"

record 'r recorder_ops =
  rc_default :: 'r
  rc_current_doc :: "'r \<Rightarrow> u32"
  rc_new_doc :: "'r \<Rightarrow> u32 \<Rightarrow> memory_arena \<Rightarrow> ('r \<times> memory_arena) option"
  rc_record_position :: "'r \<Rightarrow> u32 \<Rightarrow> memory_arena \<Rightarrow> ('r \<times> memory_arena) option"
  rc_close_doc :: "'r \<Rightarrow> memory_arena \<Rightarrow> ('r \<times> memory_arena) option"
  rc_serialize :: "'r \<Rightarrow> memory_arena \<Rightarrow> doc_id_mapping option \<Rightarrow> posting list option"
  rc_term_doc_freq :: "'r \<Rightarrow> u32 option"
  rc_has_term_freq :: bool

definition new_doc_id :: "doc_id_mapping \<Rightarrow> u32 \<Rightarrow> u32 option" where
  "new_doc_id m doc = map_option word_of_nat (get_new_doc_id m (unat doc))"

section \<open>Document ids\<close>

record doc_id_recorder =
  dr_stack :: eull
  dr_current_doc :: u32

definition dr_new_doc :: "bool \<Rightarrow> doc_id_recorder \<Rightarrow> u32 \<Rightarrow> memory_arena \<Rightarrow> (doc_id_recorder \<times> memory_arena) option" where
  "dr_new_doc avx r doc a =
     (let delta = doc - dr_current_doc r; r1 = r\<lparr>dr_current_doc := doc\<rparr> in
      eull_write_u32_vint avx (dr_stack r1) a delta \<bind> (\<lambda>(e, a'). Some (r1\<lparr>dr_stack := e\<rparr>, a')))"

definition dr_serialize :: "doc_id_recorder \<Rightarrow> memory_arena \<Rightarrow> doc_id_mapping option \<Rightarrow> posting list option" where
  "dr_serialize r a doc_id_map =
     read_to_end (dr_stack r) a [] \<bind> (\<lambda>buffer.
     vint32_collect buffer \<bind> (\<lambda>deltas.
     let doc_ids = get_sum_reader 0 deltas in
     (case doc_id_map of
        Some m \<Rightarrow> map_opt (new_doc_id m) doc_ids \<bind> (\<lambda>new_ids. Some (sort new_ids))
      | None \<Rightarrow> Some doc_ids) \<bind> (\<lambda>docs. Some (map (\<lambda>doc. (doc, 0, [])) docs))))"

definition doc_id_recorder_ops :: "bool \<Rightarrow> doc_id_recorder recorder_ops" where
  "doc_id_recorder_ops avx =
     \<lparr>rc_default = \<lparr>dr_stack = eull_default, dr_current_doc = 0\<rparr>, rc_current_doc = dr_current_doc, rc_new_doc = dr_new_doc avx,
      rc_record_position = (\<lambda>r _ a. Some (r, a)), rc_close_doc = (\<lambda>r a. Some (r, a)), rc_serialize = dr_serialize,
      rc_term_doc_freq = (\<lambda>_. None), rc_has_term_freq = False\<rparr>"

section \<open>Document ids and term frequencies\<close>

record tf_recorder =
  tr_stack :: eull
  tr_current_doc :: u32
  tr_current_tf :: u32
  tr_term_doc_freq :: u32

definition tr_new_doc :: "bool \<Rightarrow> tf_recorder \<Rightarrow> u32 \<Rightarrow> memory_arena \<Rightarrow> (tf_recorder \<times> memory_arena) option" where
  "tr_new_doc avx r doc a =
     (let delta = doc - tr_current_doc r; r1 = r\<lparr>tr_term_doc_freq := tr_term_doc_freq r + 1, tr_current_doc := doc\<rparr> in
      eull_write_u32_vint avx (tr_stack r1) a delta \<bind> (\<lambda>(e, a'). Some (r1\<lparr>tr_stack := e\<rparr>, a')))"

definition tr_record_position :: "tf_recorder \<Rightarrow> u32 \<Rightarrow> memory_arena \<Rightarrow> (tf_recorder \<times> memory_arena) option" where
  "tr_record_position r position a = Some (r\<lparr>tr_current_tf := tr_current_tf r + 1\<rparr>, a)"

definition tr_close_doc :: "bool \<Rightarrow> tf_recorder \<Rightarrow> memory_arena \<Rightarrow> (tf_recorder \<times> memory_arena) option" where
  "tr_close_doc avx r a =
     eull_write_u32_vint avx (tr_stack r) a (tr_current_tf r) \<bind> (\<lambda>(e, a'). Some (r\<lparr>tr_stack := e, tr_current_tf := 0\<rparr>, a'))"

partial_function (option) tr_loop :: "u32 \<Rightarrow> u32 \<Rightarrow> u8 list \<Rightarrow> (u32 \<times> u32) list option" where
  "tr_loop current_tf prev_doc data =
     vint32_next data \<bind> (\<lambda>r. case r of
         None \<Rightarrow> Some []
       | Some (delta_doc_id, data1) \<Rightarrow>
           let doc_id = prev_doc + delta_doc_id in
           vint32_next data1 \<bind> (\<lambda>r1.
           let (term_freq, data2) = (case r1 of None \<Rightarrow> (current_tf, data1) | Some p \<Rightarrow> p) in
           tr_loop current_tf doc_id data2 \<bind> (\<lambda>rest. Some ((doc_id, term_freq) # rest))))"

definition tr_serialize :: "tf_recorder \<Rightarrow> memory_arena \<Rightarrow> doc_id_mapping option \<Rightarrow> posting list option" where
  "tr_serialize r a doc_id_map =
     read_to_end (tr_stack r) a [] \<bind> (\<lambda>buffer.
     tr_loop (tr_current_tf r) 0 buffer \<bind> (\<lambda>docs.
     (case doc_id_map of
        Some m \<Rightarrow> map_opt (\<lambda>(doc, tf). map_option (\<lambda>new_id. (new_id, tf)) (new_doc_id m doc)) docs \<bind> (\<lambda>l. Some (sort_key fst l))
      | None \<Rightarrow> Some docs) \<bind> (\<lambda>l. Some (map (\<lambda>(doc, tf). (doc, tf, [])) l))))"

definition tf_recorder_ops :: "bool \<Rightarrow> tf_recorder recorder_ops" where
  "tf_recorder_ops avx =
     \<lparr>rc_default = \<lparr>tr_stack = eull_default, tr_current_doc = 0, tr_current_tf = 0, tr_term_doc_freq = 0\<rparr>,
      rc_current_doc = tr_current_doc, rc_new_doc = tr_new_doc avx, rc_record_position = tr_record_position,
      rc_close_doc = tr_close_doc avx, rc_serialize = tr_serialize, rc_term_doc_freq = (\<lambda>r. Some (tr_term_doc_freq r)),
      rc_has_term_freq = True\<rparr>"

section \<open>Document ids, term frequencies and positions\<close>

record pos_recorder =
  pr_stack :: eull
  pr_current_doc :: u32
  pr_term_doc_freq :: u32

definition pr_new_doc :: "bool \<Rightarrow> pos_recorder \<Rightarrow> u32 \<Rightarrow> memory_arena \<Rightarrow> (pos_recorder \<times> memory_arena) option" where
  "pr_new_doc avx r doc a =
     (let delta = doc - pr_current_doc r; r1 = r\<lparr>pr_current_doc := doc, pr_term_doc_freq := pr_term_doc_freq r + 1\<rparr> in
      eull_write_u32_vint avx (pr_stack r1) a delta \<bind> (\<lambda>(e, a'). Some (r1\<lparr>pr_stack := e\<rparr>, a')))"

definition pr_record_position :: "bool \<Rightarrow> pos_recorder \<Rightarrow> u32 \<Rightarrow> memory_arena \<Rightarrow> (pos_recorder \<times> memory_arena) option" where
  "pr_record_position avx r position a =
     eull_write_u32_vint avx (pr_stack r) a (position + 1) \<bind> (\<lambda>(e, a'). Some (r\<lparr>pr_stack := e\<rparr>, a'))"

definition pr_close_doc :: "bool \<Rightarrow> pos_recorder \<Rightarrow> memory_arena \<Rightarrow> (pos_recorder \<times> memory_arena) option" where
  "pr_close_doc avx r a =
     eull_write_u32_vint avx (pr_stack r) a POSITION_END \<bind> (\<lambda>(e, a'). Some (r\<lparr>pr_stack := e\<rparr>, a'))"

text \<open>The positions of one document, pushed as differences to a buffer.\<close>

partial_function (option) pr_positions :: "u32 \<Rightarrow> u8 list \<Rightarrow> u32 list \<Rightarrow> (u32 list \<times> u8 list) option" where
  "pr_positions prev_position_plus_one data buffer =
     vint32_next data \<bind> (\<lambda>r. case r of
         None \<Rightarrow> Some (buffer, data)
       | Some (position_plus_one, data') \<Rightarrow>
           if position_plus_one = POSITION_END then Some (buffer, data')
           else pr_positions position_plus_one data' (buffer @ [position_plus_one - prev_position_plus_one]))"

partial_function (option) pr_loop :: "u32 \<Rightarrow> u8 list \<Rightarrow> posting list option" where
  "pr_loop prev_doc data =
     vint32_next data \<bind> (\<lambda>r. case r of
         None \<Rightarrow> Some []
       | Some (delta_doc_id, data1) \<Rightarrow>
           let doc_id = prev_doc + delta_doc_id in
           pr_positions 1 data1 [] \<bind> (\<lambda>(buffer, data2).
           pr_loop doc_id data2 \<bind> (\<lambda>rest. Some ((doc_id, word_of_nat (length buffer), buffer) # rest))))"

partial_function (option) pr_map_loop ::
  "doc_id_mapping \<Rightarrow> u32 \<Rightarrow> u8 list \<Rightarrow> u32 list \<Rightarrow> (u32 \<times> u32 \<times> u32) list \<Rightarrow> (u32 list \<times> (u32 \<times> u32 \<times> u32) list) option" where
  "pr_map_loop m prev_doc data flat offsets =
     vint32_next data \<bind> (\<lambda>r. case r of
         None \<Rightarrow> Some (flat, offsets)
       | Some (delta_doc_id, data1) \<Rightarrow>
           let doc_id = prev_doc + delta_doc_id in
           pr_positions 1 data1 flat \<bind> (\<lambda>(flat', data2).
           new_doc_id m doc_id \<bind> (\<lambda>new_id.
           pr_map_loop m doc_id data2 flat' (offsets @ [(new_id, word_of_nat (length flat), word_of_nat (length flat'))]))))"

definition slice_positions :: "u32 list \<Rightarrow> u32 \<Rightarrow> u32 \<Rightarrow> u32 list option" where
  "slice_positions flat start_offset end_offset =
     (if unat start_offset \<le> unat end_offset \<and> unat end_offset \<le> length flat
      then Some (take (unat end_offset - unat start_offset) (drop (unat start_offset) flat)) else None)"

definition pr_serialize :: "pos_recorder \<Rightarrow> memory_arena \<Rightarrow> doc_id_mapping option \<Rightarrow> posting list option" where
  "pr_serialize r a doc_id_map =
     read_to_end (pr_stack r) a [] \<bind> (\<lambda>buffer.
     case doc_id_map of
       Some m \<Rightarrow>
         pr_map_loop m 0 buffer [] [] \<bind> (\<lambda>(flat, offsets).
         map_opt (\<lambda>(doc, start_offset, end_offset).
             map_option (\<lambda>positions. (doc, word_of_nat (length positions), positions)) (slice_positions flat start_offset end_offset))
           (sort_key fst offsets))
     | None \<Rightarrow> pr_loop 0 buffer)"

definition pos_recorder_ops :: "bool \<Rightarrow> pos_recorder recorder_ops" where
  "pos_recorder_ops avx =
     \<lparr>rc_default = \<lparr>pr_stack = eull_default, pr_current_doc = 0, pr_term_doc_freq = 0\<rparr>, rc_current_doc = pr_current_doc,
      rc_new_doc = pr_new_doc avx, rc_record_position = pr_record_position avx, rc_close_doc = pr_close_doc avx,
      rc_serialize = pr_serialize, rc_term_doc_freq = (\<lambda>r. Some (pr_term_doc_freq r)), rc_has_term_freq = True\<rparr>"

section \<open>What a term has seen\<close>

text \<open>
  The occurrences of a term in order, grouped into runs of one document. The last run stays open: the code closes
  it only when the term shows up in another document.
\<close>

type_synonym run = "u32 \<times> u32 list"

datatype phase = Closed "run list" | Open "run list" u32 "u32 list"

fun push_occ :: "phase \<Rightarrow> u32 \<times> u32 \<Rightarrow> phase" where
  "push_occ (Closed rs) (doc, pos) = Open rs doc [pos]"
| "push_occ (Open rs d ps) (doc, pos) = (if d = doc then Open rs d (ps @ [pos]) else Open (rs @ [(d, ps)]) doc [pos])"

fun runs_of :: "phase \<Rightarrow> run list" where
  "runs_of (Closed rs) = rs"
| "runs_of (Open rs d ps) = rs @ [(d, ps)]"

definition phase_of :: "(u32 \<times> u32) list \<Rightarrow> phase" where
  "phase_of occs = foldl push_occ (Closed []) occs"

definition doc_runs :: "(u32 \<times> u32) list \<Rightarrow> run list" where
  "doc_runs occs = runs_of (phase_of occs)"

text \<open>What the serialiser is given for a list of runs: each through \<open>post\<close>, in the order of the new ids if documents are renumbered.\<close>

definition serialized :: "(run \<Rightarrow> posting) \<Rightarrow> doc_id_mapping option \<Rightarrow> run list \<Rightarrow> posting list option" where
  "serialized post doc_id_map rs =
     (case doc_id_map of
        None \<Rightarrow> Some (map post rs)
      | Some m \<Rightarrow> map_opt (\<lambda>r. map_option (\<lambda>new_id. (new_id, snd (post r))) (new_doc_id m (fst r))) rs \<bind> (\<lambda>l. Some (sort_key fst l)))"

fun deltas :: "u32 \<Rightarrow> u32 list \<Rightarrow> u32 list" where
  "deltas prev [] = []"
| "deltas prev (x # xs) = (x - prev) # deltas x xs"

definition last_doc :: "run list \<Rightarrow> u32" where
  "last_doc rs = (if rs = [] then 0 else fst (last rs))"

definition vints :: "u32 list \<Rightarrow> u8 list" where
  "vints vs = concat (map vint_bytes vs)"

lemma vints_simps [simp]: "vints [] = []" "vints (v # vs) = vint_bytes v @ vints vs" "vints (vs @ ws) = vints vs @ vints ws"
  by (simp_all add: vints_def)

lemma vints_eq_Nil [simp]: "vints vs = [] \<longleftrightarrow> vs = []"
  by (cases vs) simp_all

lemma length_vints: "length vs \<le> length (vints vs)" "length (vints vs) \<le> 5 * length vs"
proof -
  show "length vs \<le> length (vints vs)"
  proof (induction vs)
    case (Cons v vs)
    moreover have "0 < length (vint_bytes v)" by simp
    ultimately have "length vs + 1 \<le> length (vint_bytes v) + length (vints vs)" by linarith
    then show ?case by simp
  qed simp
  show "length (vints vs) \<le> 5 * length vs"
  proof (induction vs)
    case (Cons v vs)
    then show ?case using length_vint_bytes_u32 [of v] by simp
  qed simp
qed

lemma vint32_next_vints: "vint32_next (vints []) = Some None" "vint32_next (vint_bytes v @ vints vs) = Some (Some (v, vints vs))"
  by (simp_all add: vint32_next_def read_u32_vint_bytes)

lemma sort_key_map: "sort_key f (map g xs) = map g (sort_key (\<lambda>x. f (g x)) xs)"
proof -
  have "insort_key f (g x) (map g ys) = map g (insort_key (\<lambda>x. f (g x)) x ys)" for x ys by (induction ys) simp_all
  then show ?thesis by (induction xs) simp_all
qed

lemma deltas_append: "deltas prev (xs @ [x]) = deltas prev xs @ [x - (if xs = [] then prev else last xs)]"
  by (induction xs arbitrary: prev) simp_all

lemma get_sum_reader_deltas: "get_sum_reader prev (deltas prev xs) = xs"
  by (induction xs arbitrary: prev) simp_all

lemma vint32_collect_vints: "vint32_collect (vints vs) = Some vs"
proof (induction vs)
  case (Cons v vs)
  then show ?case by (subst vint32_collect.simps) (simp add: vint32_next_vints)
qed (subst vint32_collect.simps, simp add: vint32_next_def)

section \<open>Decoding\<close>

fun tr_closed :: "u32 \<Rightarrow> run list \<Rightarrow> u32 list" where
  "tr_closed prev [] = []"
| "tr_closed prev ((d, ps) # rs) = (d - prev) # word_of_nat (length ps) # tr_closed d rs"

fun pr_closed :: "u32 \<Rightarrow> run list \<Rightarrow> u32 list" where
  "pr_closed prev [] = []"
| "pr_closed prev ((d, ps) # rs) = (d - prev) # map (\<lambda>p. p + 1) ps @ POSITION_END # pr_closed d rs"

fun end_doc :: "u32 \<Rightarrow> run list \<Rightarrow> u32" where
  "end_doc prev [] = prev"
| "end_doc prev ((d, ps) # rs) = end_doc d rs"

lemma end_doc_last: "end_doc prev rs = (if rs = [] then prev else last_doc rs)"
  by (induction prev rs rule: end_doc.induct) (auto simp: last_doc_def)

lemma tr_closed_append: "tr_closed prev (rs @ [(d, ps)]) = tr_closed prev rs @ [d - end_doc prev rs, word_of_nat (length ps)]"
  by (induction prev rs rule: end_doc.induct) simp_all

lemma pr_closed_append: "pr_closed prev (rs @ [(d, ps)]) = pr_closed prev rs @ (d - end_doc prev rs) # map (\<lambda>p. p + 1) ps @ [POSITION_END]"
  by (induction prev rs rule: end_doc.induct) simp_all

definition tf_pair :: "run \<Rightarrow> u32 \<times> u32" where
  "tf_pair r = (fst r, word_of_nat (length (snd r)))"

lemma tr_loop_law:
  "tr_loop (word_of_nat (length ps)) prev (vints (tr_closed prev rs @ [d - end_doc prev rs])) = Some (map tf_pair (rs @ [(d, ps)]))"
proof (induction prev rs rule: end_doc.induct)
  case (1 prev)
  have "tr_loop (word_of_nat (length ps)) d [] = Some []" by (subst tr_loop.simps) (simp add: vint32_next_def)
  then show ?case
    using vint32_next_vints(2) [of "d - prev" "[]"] by (subst tr_loop.simps) (simp add: vint32_next_def tf_pair_def)
next
  case (2 prev d' ps' rs)
  let ?rest = "tr_closed d' rs @ [d - end_doc d' rs]"
  have "vints (tr_closed prev ((d', ps') # rs) @ [d - end_doc prev ((d', ps') # rs)]) =
      vint_bytes (d' - prev) @ vints (word_of_nat (length ps') # ?rest)" by simp
  moreover have "vint32_next (vints (word_of_nat (length ps') # ?rest)) = Some (Some (word_of_nat (length ps'), vints ?rest))"
    using vint32_next_vints(2) [of "word_of_nat (length ps')" ?rest] by (simp only: vints_simps(2))
  ultimately show ?case using "2.IH" vint32_next_vints(2) [of "d' - prev" "word_of_nat (length ps') # ?rest"]
    by (subst tr_loop.simps) (simp add: tf_pair_def)
qed

text \<open>Positions are stored plus one; the largest position would be read as the end of the document.\<close>

definition pos_ok :: "u32 \<Rightarrow> bool" where
  "pos_ok p \<longleftrightarrow> p + 1 \<noteq> POSITION_END"

lemma pr_positions_law:
  assumes "\<forall>p\<in>set ps. pos_ok p"
  shows "pr_positions (q + 1) (vints (map (\<lambda>p. p + 1) ps)) buf = Some (buf @ deltas q ps, [])"
    "pr_positions (q + 1) (vints (map (\<lambda>p. p + 1) ps @ POSITION_END # rest)) buf = Some (buf @ deltas q ps, vints rest)"
  using assms
proof (induction ps arbitrary: q buf)
  case Nil
  { case 1 show ?case by (subst pr_positions.simps) (simp add: vint32_next_def) }
  { case 2 show ?case using vint32_next_vints(2) [of POSITION_END rest] by (subst pr_positions.simps) simp }
next
  case (Cons p ps)
  have step: "pr_positions (q + 1) (vints ((p + 1) # vs)) buf = pr_positions (p + 1) (vints vs) (buf @ [p - q])"
    if "pos_ok p" for q buf vs
    using that vint32_next_vints(2) [of "p + 1" vs] by (subst pr_positions.simps) (simp add: pos_ok_def)
  { case 1
    then have ok: "pos_ok p" "\<forall>p\<in>set ps. pos_ok p" by simp_all
    show ?case using trans [OF step [OF ok(1)] Cons.IH(1) [OF ok(2)]] by simp }
  { case 2
    then have ok: "pos_ok p" "\<forall>p\<in>set ps. pos_ok p" by simp_all
    show ?case using trans [OF step [OF ok(1)] Cons.IH(2) [OF ok(2)]] by simp }
qed

definition runs_ok :: "run list \<Rightarrow> bool" where
  "runs_ok rs \<longleftrightarrow> (\<forall>r\<in>set rs. \<forall>p\<in>set (snd r). pos_ok p)"

definition pos_posting :: "run \<Rightarrow> posting" where
  "pos_posting r = (fst r, word_of_nat (length (snd r)), deltas 0 (snd r))"

lemma length_deltas [simp]: "length (deltas prev xs) = length xs"
  by (induction xs arbitrary: prev) simp_all

lemma pr_loop_law:
  assumes "runs_ok (rs @ [(d, ps)])"
  shows "pr_loop prev (vints (pr_closed prev rs @ (d - end_doc prev rs) # map (\<lambda>p. p + 1) ps)) = Some (map pos_posting (rs @ [(d, ps)]))"
  using assms
proof (induction prev rs rule: end_doc.induct)
  case (1 prev)
  have "pr_loop d [] = Some []" by (subst pr_loop.simps) (simp add: vint32_next_def)
  moreover have "pr_positions 1 (vints (map (\<lambda>p. p + 1) ps)) [] = Some (deltas 0 ps, [])"
    using pr_positions_law(1) [of ps 0 "[]"] 1 by (simp add: runs_ok_def)
  ultimately show ?case using vint32_next_vints(2) [of "d - prev" "map (\<lambda>p. p + 1) ps"]
    by (subst pr_loop.simps) (simp add: pos_posting_def)
next
  case (2 prev d' ps' rs)
  let ?rest = "pr_closed d' rs @ (d - end_doc d' rs) # map (\<lambda>p. p + 1) ps"
  have "pr_positions 1 (vints (map (\<lambda>p. p + 1) ps' @ POSITION_END # ?rest)) [] = Some (deltas 0 ps', vints ?rest)"
    using pr_positions_law(2) [of ps' 0 ?rest "[]"] 2(2) by (simp add: runs_ok_def)
  moreover have "pr_loop d' (vints ?rest) = Some (map pos_posting (rs @ [(d, ps)]))" using 2 by (simp add: runs_ok_def)
  ultimately show ?case using vint32_next_vints(2) [of "d' - prev" "map (\<lambda>p. p + 1) ps' @ POSITION_END # ?rest"]
    by (subst pr_loop.simps) (simp add: pos_posting_def)
qed

text \<open>With renumbered documents, positions go to one flat buffer and every document keeps its range in it.\<close>

fun offsets_of :: "nat \<Rightarrow> (u32 \<times> run) list \<Rightarrow> (u32 \<times> u32 \<times> u32) list" where
  "offsets_of n [] = []"
| "offsets_of n ((new_id, r) # l) =
     (new_id, word_of_nat n, word_of_nat (n + length (snd r))) # offsets_of (n + length (snd r)) l"

definition flat_of :: "run list \<Rightarrow> u32 list" where
  "flat_of rs = concat (map (\<lambda>r. deltas 0 (snd r)) rs)"

lemma flat_of_simps [simp]: "flat_of [] = []" "flat_of (r # rs) = deltas 0 (snd r) @ flat_of rs"
  by (simp_all add: flat_of_def)

lemma pr_map_loop_law:
  assumes "runs_ok (rs @ [(d, ps)])"
  shows "pr_map_loop m prev (vints (pr_closed prev rs @ (d - end_doc prev rs) # map (\<lambda>p. p + 1) ps)) flat offs =
    map_opt (\<lambda>r. new_doc_id m (fst r)) (rs @ [(d, ps)]) \<bind>
      (\<lambda>ids. Some (flat @ flat_of (rs @ [(d, ps)]), offs @ offsets_of (length flat) (zip ids (rs @ [(d, ps)]))))"
  using assms
proof (induction prev rs arbitrary: flat offs rule: end_doc.induct)
  case (1 prev)
  have "pr_map_loop m d [] flat' offs' = Some (flat', offs')" for flat' offs'
    by (subst pr_map_loop.simps) (simp add: vint32_next_def)
  moreover have "pr_positions 1 (vints (map (\<lambda>p. p + 1) ps)) flat = Some (flat @ deltas 0 ps, [])"
    using pr_positions_law(1) [of ps 0 flat] 1 by (simp add: runs_ok_def)
  ultimately show ?case using vint32_next_vints(2) [of "d - prev" "map (\<lambda>p. p + 1) ps"]
    by (subst pr_map_loop.simps) (simp split: option.splits)
next
  case (2 prev d' ps' rs)
  let ?rest = "pr_closed d' rs @ (d - end_doc d' rs) # map (\<lambda>p. p + 1) ps"
  have p: "pr_positions 1 (vints (map (\<lambda>p. p + 1) ps' @ POSITION_END # ?rest)) flat = Some (flat @ deltas 0 ps', vints ?rest)"
    using pr_positions_law(2) [of ps' 0 ?rest flat] 2(2) by (simp add: runs_ok_def)
  have r: "runs_ok (rs @ [(d, ps)])" using 2(2) by (simp add: runs_ok_def)
  show ?case
  proof (cases "new_doc_id m d'")
    case None
    then show ?thesis using p vint32_next_vints(2) [of "d' - prev" "map (\<lambda>p. p + 1) ps' @ POSITION_END # ?rest"]
      by (subst pr_map_loop.simps) simp
  next
    case (Some new_id)
    have "pr_map_loop m prev (vints (pr_closed prev ((d', ps') # rs) @ (d - end_doc prev ((d', ps') # rs)) # map (\<lambda>p. p + 1) ps)) flat offs =
        pr_map_loop m d' (vints ?rest) (flat @ deltas 0 ps') (offs @ [(new_id, word_of_nat (length flat), word_of_nat (length flat + length ps'))])"
      using p Some vint32_next_vints(2) [of "d' - prev" "map (\<lambda>p. p + 1) ps' @ POSITION_END # ?rest"]
      by (subst pr_map_loop.simps) simp
    then show ?thesis unfolding "2.IH" [OF r] using Some by (simp split: option.splits) (auto split: bind_splits)
  qed
qed

definition cut_posting :: "u32 list \<Rightarrow> u32 \<times> u32 \<times> u32 \<Rightarrow> posting option" where
  "cut_posting flat o3 = (case o3 of (doc, s, e) \<Rightarrow>
     map_option (\<lambda>positions. (doc, word_of_nat (length positions), positions)) (slice_positions flat s e))"

lemma offsets_cut:
  assumes "flat = pre @ flat_of (map snd l)" "length pre = n" "length flat < 2 ^ 32"
  shows "list_all2 (\<lambda>o3 p. cut_posting flat o3 = Some p \<and> fst o3 = fst p) (offsets_of n l) (map (\<lambda>(new_id, r). (new_id, snd (pos_posting r))) l)"
  using assms
proof (induction l arbitrary: pre n)
  case (Cons x l)
  obtain new_id r where x: "x = (new_id, r)" by (cases x)
  have u: "unat (word_of_nat k :: u32) = k" if "k \<le> length flat" for k
    using that Cons.prems(3) by (simp add: unat_of_nat)
  have "slice_positions flat (word_of_nat n) (word_of_nat (n + length (snd r))) = Some (deltas 0 (snd r))"
    using Cons.prems(1,2) u [of n] u [of "n + length (snd r)"] by (simp add: slice_positions_def x)
  moreover have "list_all2 (\<lambda>o3 p. cut_posting flat o3 = Some p \<and> fst o3 = fst p) (offsets_of (n + length (snd r)) l)
      (map (\<lambda>(new_id, r). (new_id, snd (pos_posting r))) l)"
    using Cons.prems x by (intro Cons.IH [of "pre @ deltas 0 (snd r)"]) simp_all
  ultimately show ?case by (simp add: x cut_posting_def pos_posting_def)
qed simp

lemma map_opt_sorted:
  assumes "list_all2 (\<lambda>x y. f x = Some y \<and> fst x = fst y) xs ys"
  shows "map_opt f (sort_key fst xs) = Some (sort_key fst ys)"
proof -
  let ?g = "\<lambda>x. (fst x, snd (the (f x)))"
  have fx: "f x = Some (?g x)" if x: "x \<in> set xs" for x
  proof -
    obtain i where "i < length xs" "x = xs ! i" using x unfolding in_set_conv_nth by blast
    then show ?thesis using assms by (auto simp: list_all2_conv_all_nth)
  qed
  have "map ?g xs = ys" using assms by (auto simp: list_all2_conv_all_nth intro!: nth_equalityI)
  moreover have "map_opt f (sort_key fst xs) = Some (map ?g (sort_key fst xs))" using fx by (intro map_opt_Some) simp
  ultimately show ?thesis using sort_key_map [of fst ?g xs] by simp
qed

section \<open>The contract of a recorder\<close>

fun append_vals :: "bool \<Rightarrow> eull \<Rightarrow> memory_arena \<Rightarrow> u32 list \<Rightarrow> (eull \<times> memory_arena) option" where
  "append_vals avx e a [] = Some (e, a)"
| "append_vals avx e a (v # vs) = eull_write_u32_vint avx e a v \<bind> (\<lambda>(e', a'). append_vals avx e' a' vs)"

lemma append_vals_law:
  assumes "arena_inv a" "eull_rep a e data bs" "within_budget r a bs" "2 * r + 5 * (length data + length (vints vs)) + 24 \<le> 2 * arena_cap MAX_ALLOC"
  shows "\<exists>e' a' bs'. append_vals avx e a vs = Some (e', a') \<and> arena_inv a' \<and> eull_rep a' e' (data @ vints vs) bs' \<and>
    within_budget r a' bs' \<and> eull_step a bs a' bs'"
  using assms
proof (induction vs arbitrary: a e data bs)
  case Nil
  then show ?case using eull_step_refl by (intro exI [of _ e] exI [of _ a] exI [of _ bs]) simp
next
  case (Cons v vs)
  have "2 * r + 5 * (length data + length (vint_bytes v)) + 24 \<le> 2 * arena_cap MAX_ALLOC" using Cons.prems(4) by simp
  from extend_law [OF Cons.prems(1-3) this, of avx] obtain e1 a1 bs1 where
    1: "extend_from_slice avx e a (vint_bytes v) = Some (e1, a1)" "arena_inv a1" "eull_rep a1 e1 (data @ vint_bytes v) bs1"
      "within_budget r a1 bs1" "eull_step a bs a1 bs1" by blast
  have "2 * r + 5 * (length (data @ vint_bytes v) + length (vints vs)) + 24 \<le> 2 * arena_cap MAX_ALLOC" using Cons.prems(4) by simp
  from Cons.IH [OF 1(2-4) this] obtain e2 a2 bs2 where
    2: "append_vals avx e1 a1 vs = Some (e2, a2)" "arena_inv a2" "eull_rep a2 e2 ((data @ vint_bytes v) @ vints vs) bs2"
      "within_budget r a2 bs2" "eull_step a1 bs1 a2 bs2" by blast
  have "append_vals avx e a (v # vs) = Some (e2, a2)" using 1(1) 2(1) by (simp add: eull_write_u32_vint_def serialize_vint_u32_eq)
  then show ?case using 2(2-4) eull_step_trans [OF 1(5) 2(5)] by (intro exI [of _ e2] exI [of _ a2] exI [of _ bs2]) simp
qed

text \<open>
  A method moves a recorder from one phase to the next: it appends at most one integer to the stack and sets the
  other fields. In a closed phase every run is complete, in an open one the last run may grow.
\<close>

locale recorder =
  fixes avx :: bool and rops :: "'r recorder_ops" and stack :: "'r \<Rightarrow> eull" and set_stack :: "'r \<Rightarrow> eull \<Rightarrow> 'r"
    and vals :: "phase \<Rightarrow> u32 list" and fields :: "phase \<Rightarrow> 'r \<Rightarrow> bool" and post :: "run \<Rightarrow> posting" and doc_freq :: "run list \<Rightarrow> u32 option"
  assumes stack_set: "stack (set_stack r e) = e"
    and default: "stack (rc_default rops) = eull_default" "fields (Closed []) (rc_default rops)" "vals (Closed []) = []"
    and current_doc: "fields (Open rs d ps) r \<Longrightarrow> rc_current_doc rops r = d"
    and new_doc: "fields (Closed rs) r \<Longrightarrow> \<exists>vs r'. length vs \<le> 1 \<and> vals (Open rs d []) = vals (Closed rs) @ vs \<and>
        (\<forall>e. fields (Open rs d []) (set_stack r' e)) \<and>
        (\<forall>a. rc_new_doc rops r d a = append_vals avx (stack r) a vs \<bind> (\<lambda>(e, a'). Some (set_stack r' e, a')))"
    and record_position: "fields (Open rs d ps) r \<Longrightarrow> \<exists>vs r'. length vs \<le> 1 \<and> vals (Open rs d (ps @ [p])) = vals (Open rs d ps) @ vs \<and>
        (\<forall>e. fields (Open rs d (ps @ [p])) (set_stack r' e)) \<and>
        (\<forall>a. rc_record_position rops r p a = append_vals avx (stack r) a vs \<bind> (\<lambda>(e, a'). Some (set_stack r' e, a')))"
    and close_doc: "fields (Open rs d ps) r \<Longrightarrow> \<exists>vs r'. length vs \<le> 1 \<and> vals (Closed (rs @ [(d, ps)])) = vals (Open rs d ps) @ vs \<and>
        (\<forall>e. fields (Closed (rs @ [(d, ps)])) (set_stack r' e)) \<and>
        (\<forall>a. rc_close_doc rops r a = append_vals avx (stack r) a vs \<bind> (\<lambda>(e, a'). Some (set_stack r' e, a')))"
    and serialize: "fields (Open rs d ps) r \<Longrightarrow> runs_ok (rs @ [(d, ps)]) \<Longrightarrow> length (vals (Open rs d ps)) < 2 ^ 32 \<Longrightarrow>
        read_to_end (stack r) a [] = Some (vints (vals (Open rs d ps))) \<Longrightarrow>
        rc_serialize rops r a mp = serialized post mp (rs @ [(d, ps)])"
    and term_doc_freq: "fields (Open rs d ps) r \<Longrightarrow> rc_term_doc_freq rops r = doc_freq (rs @ [(d, ps)])"

section \<open>The three recorders keep it\<close>

fun dr_vals :: "phase \<Rightarrow> u32 list" where
  "dr_vals (Closed rs) = deltas 0 (map fst rs)"
| "dr_vals (Open rs d ps) = deltas 0 (map fst rs @ [d])"

fun dr_fields :: "phase \<Rightarrow> doc_id_recorder \<Rightarrow> bool" where
  "dr_fields (Closed rs) r \<longleftrightarrow> dr_current_doc r = last_doc rs"
| "dr_fields (Open rs d ps) r \<longleftrightarrow> dr_current_doc r = d"

definition dr_posting :: "run \<Rightarrow> posting" where
  "dr_posting r = (fst r, 0, [])"

lemma deltas_last_doc: "deltas 0 (map fst rs @ [d]) = deltas 0 (map fst rs) @ [d - last_doc rs]"
  by (simp add: deltas_append last_doc_def last_map)

lemma last_doc_append [simp]: "last_doc (rs @ [(d, ps)]) = d"
  by (simp add: last_doc_def)

lemma dr_serialize_law:
  assumes "read_to_end (dr_stack r) a [] = Some (vints (deltas 0 (map fst rs)))"
  shows "dr_serialize r a mp = serialized dr_posting mp rs"
proof (cases mp)
  case None
  then show ?thesis using assms
    by (simp add: dr_serialize_def vint32_collect_vints get_sum_reader_deltas serialized_def dr_posting_def)
next
  case (Some m)
  have "sort_key fst (map (\<lambda>d. (d, 0, []) :: posting) ids) = map (\<lambda>d. (d, 0, [])) (sort ids)" for ids
    by (simp add: sort_key_map)
  moreover have "map_opt (\<lambda>r. map_option (\<lambda>new_id. (new_id, 0, []) :: posting) (new_doc_id m (fst r))) rs =
      map_option (map (\<lambda>d. (d, 0, []))) (map_opt (new_doc_id m) (map fst rs))"
    by (induction rs) (auto simp: option.map_comp comp_def split: option.splits)
  ultimately show ?thesis using assms Some by (cases "map_opt (new_doc_id m) (map fst rs)")
    (simp_all add: dr_serialize_def vint32_collect_vints get_sum_reader_deltas serialized_def dr_posting_def)
qed

interpretation dr: recorder avx "doc_id_recorder_ops avx" dr_stack "\<lambda>r e. r\<lparr>dr_stack := e\<rparr>" dr_vals dr_fields dr_posting "\<lambda>_. None" for avx
proof (unfold_locales, goal_cases)
  case (6 rs r d)
  then show ?case by (intro exI [of _ "[d - last_doc rs]"] exI [of _ "r\<lparr>dr_current_doc := d\<rparr>"])
      (simp add: doc_id_recorder_ops_def dr_new_doc_def deltas_last_doc)
next
  case (7 rs d ps r p)
  then show ?case by (intro exI [of _ "[]"] exI [of _ r]) (simp add: doc_id_recorder_ops_def)
next
  case (8 rs d ps r)
  then show ?case by (intro exI [of _ "[]"] exI [of _ r]) (simp add: doc_id_recorder_ops_def)
next
  case (9 rs d ps r a mp)
  then show ?case using dr_serialize_law [of r a "rs @ [(d, ps)]" mp] by (simp add: doc_id_recorder_ops_def)
qed (simp_all add: doc_id_recorder_ops_def last_doc_def)

fun tr_vals :: "phase \<Rightarrow> u32 list" where
  "tr_vals (Closed rs) = tr_closed 0 rs"
| "tr_vals (Open rs d ps) = tr_closed 0 rs @ [d - end_doc 0 rs]"

fun tr_fields :: "phase \<Rightarrow> tf_recorder \<Rightarrow> bool" where
  "tr_fields (Closed rs) r \<longleftrightarrow> tr_current_doc r = last_doc rs \<and> tr_current_tf r = 0 \<and> tr_term_doc_freq r = word_of_nat (length rs)"
| "tr_fields (Open rs d ps) r \<longleftrightarrow>
     tr_current_doc r = d \<and> tr_current_tf r = word_of_nat (length ps) \<and> tr_term_doc_freq r = word_of_nat (length rs + 1)"

definition tr_posting :: "run \<Rightarrow> posting" where
  "tr_posting r = (fst r, word_of_nat (length (snd r)), [])"

lemma end_doc_0: "end_doc 0 rs = last_doc rs"
  by (simp add: end_doc_last last_doc_def)

lemma tr_serialize_law:
  assumes "read_to_end (tr_stack r) a [] = Some (vints (tr_vals (Open rs d ps)))" "tr_current_tf r = word_of_nat (length ps)"
  shows "tr_serialize r a mp = serialized tr_posting mp (rs @ [(d, ps)])"
proof -
  let ?rs = "rs @ [(d, ps)]"
  have loop: "tr_loop (tr_current_tf r) 0 (vints (tr_vals (Open rs d ps))) = Some (map tf_pair ?rs)"
    unfolding tr_vals.simps assms(2) by (rule tr_loop_law)
  show ?thesis
  proof (cases mp)
    case None
    then show ?thesis using assms(1) loop
      by (simp add: tr_serialize_def serialized_def tr_posting_def tf_pair_def del: tr_vals.simps)
  next
    case (Some m)
    have "map_opt (\<lambda>r. map_option (\<lambda>new_id. (new_id, snd (tr_posting r))) (new_doc_id m (fst r))) rs' =
        map_option (map (\<lambda>(d, tf). (d, tf, [])))
          (map_opt (\<lambda>(doc, tf). map_option (\<lambda>new_id. (new_id, tf)) (new_doc_id m doc)) (map tf_pair rs'))" for rs'
      by (induction rs') (auto simp: option.map_comp comp_def tf_pair_def tr_posting_def split: option.splits)
    moreover have "sort_key fst (map (\<lambda>(d, tf). (d, tf, []) :: posting) l) = map (\<lambda>(d, tf). (d, tf, [])) (sort_key fst l)" for l
      by (simp add: sort_key_map case_prod_beta')
    ultimately show ?thesis using assms(1) loop Some
      by (cases "map_opt (\<lambda>(doc, tf). map_option (\<lambda>new_id. (new_id, tf)) (new_doc_id m doc)) (map tf_pair ?rs)")
        (simp_all add: tr_serialize_def serialized_def del: tr_vals.simps)
  qed
qed

interpretation tr: recorder avx "tf_recorder_ops avx" tr_stack "\<lambda>r e. r\<lparr>tr_stack := e\<rparr>" tr_vals tr_fields tr_posting
  "\<lambda>rs. Some (word_of_nat (length rs))" for avx
proof (unfold_locales, goal_cases)
  case (6 rs r d)
  then show ?case by (intro exI [of _ "[d - last_doc rs]"] exI [of _ "r\<lparr>tr_term_doc_freq := tr_term_doc_freq r + 1, tr_current_doc := d\<rparr>"])
      (simp add: tf_recorder_ops_def tr_new_doc_def end_doc_0)
next
  case (7 rs d ps r p)
  then show ?case by (intro exI [of _ "[]"] exI [of _ "r\<lparr>tr_current_tf := tr_current_tf r + 1\<rparr>"])
      (simp add: tf_recorder_ops_def tr_record_position_def)
next
  case (8 rs d ps r)
  have "(\<lambda>(e, a'). Some (r\<lparr>tr_stack := e, tr_current_tf := 0\<rparr>, a')) =
      (\<lambda>(e, a' :: memory_arena). Some (r\<lparr>tr_current_tf := 0, tr_stack := e\<rparr>, a'))" by auto
  then show ?case using 8 by (intro exI [of _ "[word_of_nat (length ps)]"] exI [of _ "r\<lparr>tr_current_tf := 0\<rparr>"])
      (simp add: tf_recorder_ops_def tr_close_doc_def tr_closed_append)
next
  case (9 rs d ps r a mp)
  then show ?case using tr_serialize_law [of r a rs d ps mp] by (simp add: tf_recorder_ops_def)
qed (simp_all add: tf_recorder_ops_def last_doc_def)

fun pr_vals :: "phase \<Rightarrow> u32 list" where
  "pr_vals (Closed rs) = pr_closed 0 rs"
| "pr_vals (Open rs d ps) = pr_closed 0 rs @ (d - end_doc 0 rs) # map (\<lambda>p. p + 1) ps"

fun pr_fields :: "phase \<Rightarrow> pos_recorder \<Rightarrow> bool" where
  "pr_fields (Closed rs) r \<longleftrightarrow> pr_current_doc r = last_doc rs \<and> pr_term_doc_freq r = word_of_nat (length rs)"
| "pr_fields (Open rs d ps) r \<longleftrightarrow> pr_current_doc r = d \<and> pr_term_doc_freq r = word_of_nat (length rs + 1)"

lemma length_flat_of: "length (flat_of (rs @ [(d, ps)])) \<le> length (pr_closed prev rs) + length ps"
  by (induction prev rs rule: end_doc.induct) simp_all

lemma pr_serialize_law:
  assumes "read_to_end (pr_stack r) a [] = Some (vints (pr_vals (Open rs d ps)))" "runs_ok (rs @ [(d, ps)])"
    "length (pr_vals (Open rs d ps)) < 2 ^ 32"
  shows "pr_serialize r a mp = serialized pos_posting mp (rs @ [(d, ps)])"
proof (cases mp)
  case None
  then show ?thesis using assms(1) pr_loop_law [OF assms(2), of 0] by (simp add: pr_serialize_def serialized_def)
next
  case (Some m)
  let ?rs = "rs @ [(d, ps)]"
  have run: "pr_map_loop m 0 (vints (pr_vals (Open rs d ps))) [] [] =
      map_opt (\<lambda>r. new_doc_id m (fst r)) ?rs \<bind> (\<lambda>ids. Some (flat_of ?rs, offsets_of 0 (zip ids ?rs)))"
    using pr_map_loop_law [OF assms(2), of m 0 "[]" "[]"] by simp
  have spec: "map_opt (\<lambda>r. map_option (\<lambda>new_id. (new_id, snd (pos_posting r))) (new_doc_id m (fst r))) ?rs =
      map_option (map2 (\<lambda>r new_id. (new_id, snd (pos_posting r))) ?rs) (map_opt (\<lambda>r. new_doc_id m (fst r)) ?rs)"
    by (rule map_opt_map_option)
  show ?thesis
  proof (cases "map_opt (\<lambda>r. new_doc_id m (fst r)) ?rs")
    case None
    then show ?thesis using assms(1) Some run spec by (simp add: pr_serialize_def serialized_def del: pr_vals.simps)
  next
    case (Some ids)
    have len: "length ids = length ?rs" by (rule map_opt_length [OF Some])
    have "length (flat_of ?rs) < 2 ^ 32" using length_flat_of [of rs d ps 0] assms(3) by simp
    then have "list_all2 (\<lambda>o3 p. cut_posting (flat_of ?rs) o3 = Some p \<and> fst o3 = fst p) (offsets_of 0 (zip ids ?rs))
        (map (\<lambda>(new_id, r). (new_id, snd (pos_posting r))) (zip ids ?rs))"
      using len by (intro offsets_cut [of _ "[]"]) simp_all
    from map_opt_sorted [OF this]
    have "map_opt (cut_posting (flat_of ?rs)) (sort_key fst (offsets_of 0 (zip ids ?rs))) =
        Some (sort_key fst (map2 (\<lambda>r new_id. (new_id, snd (pos_posting r))) ?rs ids))"
      using zip_commute [of ids ?rs] by (simp add: case_prod_beta' comp_def)
    then show ?thesis using assms(1) \<open>mp = Some m\<close> run spec Some
      by (simp add: pr_serialize_def serialized_def cut_posting_def [abs_def] del: pr_vals.simps)
  qed
qed

interpretation pr: recorder avx "pos_recorder_ops avx" pr_stack "\<lambda>r e. r\<lparr>pr_stack := e\<rparr>" pr_vals pr_fields pos_posting
  "\<lambda>rs. Some (word_of_nat (length rs))" for avx
proof (unfold_locales, goal_cases)
  case (6 rs r d)
  then show ?case by (intro exI [of _ "[d - last_doc rs]"] exI [of _ "r\<lparr>pr_current_doc := d, pr_term_doc_freq := pr_term_doc_freq r + 1\<rparr>"])
      (simp add: pos_recorder_ops_def pr_new_doc_def end_doc_0)
next
  case (7 rs d ps r p)
  then show ?case by (intro exI [of _ "[p + 1]"] exI [of _ r]) (simp add: pos_recorder_ops_def pr_record_position_def)
next
  case (8 rs d ps r)
  then show ?case by (intro exI [of _ "[POSITION_END]"] exI [of _ r])
      (simp add: pos_recorder_ops_def pr_close_doc_def pr_closed_append)
next
  case (9 rs d ps r a mp)
  then show ?case using pr_serialize_law [of r a rs d ps mp] by (simp add: pos_recorder_ops_def)
qed (simp_all add: pos_recorder_ops_def last_doc_def)

end
