(* ===== verification/SharedArenaHashMap.thy ===== *)
theory SharedArenaHashMap
  imports Arena BlockedBitpack
begin

text \<open>
  The hash map of the indexer, \<^verbatim>\<open>stacker/src/shared_arena_hashmap.rs\<close> and \<^verbatim>\<open>arena_hashmap.rs\<close>: open addressing with
  linear probing over a table of arena addresses, keys and values laid out next to each other in the arena. The
  hash function is a parameter. The map keeps at least half of its table empty, so every probe ends, and it
  refines a finite map.
\<close>

section \<open>The map\<close>

record key_value =
  kv_addr :: addr
  kv_hash :: u32

definition kv_default :: key_value where
  "kv_default = \<lparr>kv_addr = addr_null_pointer, kv_hash = 0\<rparr>"

definition kv_is_empty :: "key_value \<Rightarrow> bool" where
  "kv_is_empty kv \<longleftrightarrow> addr_is_null (kv_addr kv)"

definition kv_is_not_empty_ref :: "key_value \<Rightarrow> bool" where
  "kv_is_not_empty_ref kv \<longleftrightarrow> \<not> addr_is_null (kv_addr kv)"

record hashmap =
  hm_table :: "key_value list"
  hm_mask :: nat
  hm_len :: nat

definition next_probe :: "nat \<Rightarrow> nat \<Rightarrow> nat \<times> nat" where
  "next_probe msk pos = (let pos' = (pos + 1) mod 2 ^ 64 in (pos' AND msk, pos'))"

definition compute_previous_power_of_two :: "nat \<Rightarrow> nat option" where
  "compute_previous_power_of_two n = (if n > 0 then Some (2 ^ (63 - leading_zeros (word_of_nat n))) else None)"

definition hm_with_capacity :: "nat \<Rightarrow> hashmap option" where
  "hm_with_capacity table_size =
     map_option (\<lambda>p. \<lparr>hm_table = replicate p kv_default, hm_mask = p - 1, hm_len = 0\<rparr>) (compute_previous_power_of_two table_size)"

definition hm_default :: "hashmap option" where
  "hm_default = hm_with_capacity 4"

definition compute_table_memory_size :: "nat \<Rightarrow> nat" where
  "compute_table_memory_size capacity = capacity * 8"

definition hm_is_saturated :: "hashmap \<Rightarrow> bool" where
  "hm_is_saturated m \<longleftrightarrow> length (hm_table m) \<le> hm_len m * 2"

definition hm_mem_usage :: "hashmap \<Rightarrow> nat" where
  "hm_mem_usage m = length (hm_table m) * 8"

definition hm_is_empty :: "hashmap \<Rightarrow> bool" where
  "hm_is_empty m \<longleftrightarrow> hm_len m = 0"

definition get_key_value :: "memory_arena \<Rightarrow> addr \<Rightarrow> (u8 list \<times> addr) option" where
  "get_key_value a adr =
     arena_slice_from a adr \<bind> (\<lambda>data.
     slice_get_unchecked data 0 2 \<bind> (\<lambda>key_bytes_len_bytes.
     let key_bytes_len = le_nat key_bytes_len_bytes in
     slice_get_unchecked data 2 (2 + key_bytes_len) \<bind> (\<lambda>key_bytes.
     Some (key_bytes, addr_offset adr (word_of_nat (2 + key_bytes_len))))))"

definition get_value_addr_if_key_match :: "memory_arena \<Rightarrow> u8 list \<Rightarrow> addr \<Rightarrow> addr option option" where
  "get_value_addr_if_key_match a target_key adr =
     get_key_value a adr \<bind> (\<lambda>(stored_key, value_addr).
     fast_short_slice_compare stored_key target_key \<bind> (\<lambda>eq. Some (if eq then Some value_addr else None)))"

definition hm_set_bucket :: "hashmap \<Rightarrow> u32 \<Rightarrow> addr \<Rightarrow> nat \<Rightarrow> hashmap option" where
  "hm_set_bucket m hash key_value_addr bucket =
     (if bucket < length (hm_table m) then
        Some (m\<lparr>hm_len := hm_len m + 1, hm_table := (hm_table m)[bucket := \<lparr>kv_addr = key_value_addr, kv_hash = hash\<rparr>]\<rparr>)
      else None)"

definition hm_iter :: "hashmap \<Rightarrow> memory_arena \<Rightarrow> (u8 list \<times> addr) list option" where
  "hm_iter m a = map_opt (\<lambda>kv. get_key_value a (kv_addr kv)) (filter kv_is_not_empty_ref (hm_table m))"

text \<open>The first empty bucket after the position of a hash.\<close>

partial_function (option) place_loop :: "key_value list \<Rightarrow> nat \<Rightarrow> key_value \<Rightarrow> nat \<Rightarrow> key_value list option" where
  "place_loop table msk kv pos =
     (let (bucket, pos') = next_probe msk pos in
      if bucket < length table then
        if kv_is_empty (table ! bucket) then Some (table[bucket := kv]) else place_loop table msk kv pos'
      else None)"

fun place_all :: "key_value list \<Rightarrow> nat \<Rightarrow> key_value list \<Rightarrow> key_value list option" where
  "place_all table msk [] = Some table"
| "place_all table msk (kv # kvs) = place_loop table msk kv (unat (kv_hash kv)) \<bind> (\<lambda>table'. place_all table' msk kvs)"

definition hm_resize :: "hashmap \<Rightarrow> hashmap option" where
  "hm_resize m =
     (let new_len = max (length (hm_table m) * 2) 8; msk = new_len - 1
      in map_option (\<lambda>table. m\<lparr>hm_mask := msk, hm_table := table\<rparr>)
           (place_all (replicate new_len kv_default) msk (filter kv_is_not_empty_ref (hm_table m))))"

partial_function (option) get_loop ::
  "'v item_layout \<Rightarrow> hashmap \<Rightarrow> memory_arena \<Rightarrow> u8 list \<Rightarrow> u32 \<Rightarrow> nat \<Rightarrow> 'v option option" where
  "get_loop it m a key hash pos =
     (let (bucket, pos') = next_probe (hm_mask m) pos in
      if bucket < length (hm_table m) then
        let kv = hm_table m ! bucket in
        if kv_is_empty kv then Some None
        else (if kv_hash kv = hash then get_value_addr_if_key_match a key (kv_addr kv) else Some None) \<bind> (\<lambda>r.
             case r of
               Some val_addr \<Rightarrow> arena_read it a val_addr \<bind> (\<lambda>v. Some (Some v))
             | None \<Rightarrow> get_loop it m a key hash pos')
      else None)"

definition hm_get :: "(u8 list \<Rightarrow> u32) \<Rightarrow> 'v item_layout \<Rightarrow> hashmap \<Rightarrow> memory_arena \<Rightarrow> u8 list \<Rightarrow> 'v option option" where
  "hm_get get_hash it m a key = get_loop it m a key (get_hash key) (unat (get_hash key))"

text \<open>A new entry: the length of the key, the key and the value, in one allocation.\<close>

definition hm_create ::
  "bool \<Rightarrow> 'v item_layout \<Rightarrow> hashmap \<Rightarrow> memory_arena \<Rightarrow> u8 list \<Rightarrow> u32 \<Rightarrow> 'v \<Rightarrow> nat \<Rightarrow> (hashmap \<times> memory_arena) option" where
  "hm_create avx it m a key hash val bucket =
     (let num_bytes = 2 + length key + it_size it in
      arena_allocate_space a num_bytes \<bind> (\<lambda>(key_addr, a1).
      arena_slice a1 key_addr num_bytes \<bind> (\<lambda>data.
      fast_short_slice_copy avx key (take (length key) (drop 2 data)) \<bind> (\<lambda>copied.
      arena_slice_mut a1 key_addr (le_bytes 2 (length key) @ copied @ it_store it val) \<bind> (\<lambda>a2.
      hm_set_bucket m hash key_addr bucket \<bind> (\<lambda>m'. Some (m', a2)))))))"

text \<open>The updater is a closure: it is given the state it captures and returns it with the new value, or panics.\<close>

type_synonym ('v, 's) updater = "'v option \<Rightarrow> 's \<Rightarrow> ('v \<times> 's) option"

partial_function (option) mutate_loop ::
  "bool \<Rightarrow> 'v item_layout \<Rightarrow> hashmap \<Rightarrow> memory_arena \<Rightarrow> u8 list \<Rightarrow> ('v, 's) updater \<Rightarrow> 's \<Rightarrow> u32 \<Rightarrow> nat \<Rightarrow>
     ('v \<times> 's \<times> hashmap \<times> memory_arena) option" where
  "mutate_loop avx it m a key updater s hash pos =
     (let (bucket, pos') = next_probe (hm_mask m) pos in
      if bucket < length (hm_table m) then
        let kv = hm_table m ! bucket in
        if kv_is_empty kv then
          updater None s \<bind> (\<lambda>(val, s'). hm_create avx it m a key hash val bucket \<bind> (\<lambda>(m', a'). Some (val, s', m', a')))
        else (if kv_hash kv = hash then get_value_addr_if_key_match a key (kv_addr kv) else Some None) \<bind> (\<lambda>r.
             case r of
               Some val_addr \<Rightarrow>
                 arena_read it a val_addr \<bind> (\<lambda>v.
                 updater (Some v) s \<bind> (\<lambda>(new_v, s').
                 arena_write_at it a val_addr new_v \<bind> (\<lambda>a'. Some (new_v, s', m, a'))))
             | None \<Rightarrow> mutate_loop avx it m a key updater s hash pos')
      else None)"

definition key_prefix :: "u8 list \<Rightarrow> u8 list" where
  "key_prefix key = take (min (length key) (2 ^ 16 - 1)) key"

definition hm_mutate_or_create ::
  "(u8 list \<Rightarrow> u32) \<Rightarrow> bool \<Rightarrow> 'v item_layout \<Rightarrow> hashmap \<Rightarrow> memory_arena \<Rightarrow> u8 list \<Rightarrow> ('v, 's) updater \<Rightarrow> 's \<Rightarrow>
     ('v \<times> 's \<times> hashmap \<times> memory_arena) option" where
  "hm_mutate_or_create get_hash avx it m a key updater s =
     (if hm_is_saturated m then hm_resize m else Some m) \<bind> (\<lambda>m'.
      let key' = key_prefix key; hash = get_hash key' in
      mutate_loop avx it m' a key' updater s hash (unat hash))"

section \<open>The map with an arena of its own\<close>

record arena_hashmap =
  ah_shared_arena_hashmap :: hashmap
  ah_memory_arena :: memory_arena

definition ah_with_capacity :: "nat \<Rightarrow> arena_hashmap option" where
  "ah_with_capacity table_size =
     arena_default \<bind> (\<lambda>a. hm_with_capacity table_size \<bind> (\<lambda>m.
       Some \<lparr>ah_shared_arena_hashmap = m, ah_memory_arena = a\<rparr>))"

definition ah_default :: "arena_hashmap option" where
  "ah_default = ah_with_capacity 4"

definition ah_get :: "(u8 list \<Rightarrow> u32) \<Rightarrow> 'v item_layout \<Rightarrow> arena_hashmap \<Rightarrow> u8 list \<Rightarrow> 'v option option" where
  "ah_get get_hash it m key = hm_get get_hash it (ah_shared_arena_hashmap m) (ah_memory_arena m) key"

definition ah_iter :: "arena_hashmap \<Rightarrow> (u8 list \<times> addr) list option" where
  "ah_iter m = hm_iter (ah_shared_arena_hashmap m) (ah_memory_arena m)"

definition ah_len :: "arena_hashmap \<Rightarrow> nat" where
  "ah_len m = hm_len (ah_shared_arena_hashmap m)"

definition ah_read :: "'v item_layout \<Rightarrow> arena_hashmap \<Rightarrow> addr \<Rightarrow> 'v option" where
  "ah_read it m adr = arena_read it (ah_memory_arena m) adr"

definition ah_mem_usage :: "arena_hashmap \<Rightarrow> nat" where
  "ah_mem_usage m = hm_mem_usage (ah_shared_arena_hashmap m) + arena_mem_usage (ah_memory_arena m)"

definition ah_is_empty :: "arena_hashmap \<Rightarrow> bool" where
  "ah_is_empty m = hm_is_empty (ah_shared_arena_hashmap m)"

definition ah_mutate_or_create ::
  "(u8 list \<Rightarrow> u32) \<Rightarrow> bool \<Rightarrow> 'v item_layout \<Rightarrow> arena_hashmap \<Rightarrow> u8 list \<Rightarrow> ('v, 's) updater \<Rightarrow> 's \<Rightarrow> ('s \<times> arena_hashmap) option" where
  "ah_mutate_or_create get_hash avx it m key updater s =
     hm_mutate_or_create get_hash avx it (ah_shared_arena_hashmap m) (ah_memory_arena m) key updater s \<bind> (\<lambda>(_, s', m', a').
       Some (s', \<lparr>ah_shared_arena_hashmap = m', ah_memory_arena = a'\<rparr>))"

section \<open>Tables\<close>

text \<open>What the buckets of a table hold, keys with their values, and where a hash is looked for.\<close>

definition slot :: "nat \<Rightarrow> u32 \<Rightarrow> nat \<Rightarrow> nat" where
  "slot n hash j = (unat hash + j) mod n"

definition probes_ok :: "(u8 list \<Rightarrow> u32) \<Rightarrow> (u8 list \<times> 'v) option list \<Rightarrow> bool" where
  "probes_ok h cs \<longleftrightarrow>
     (\<forall>i<length cs. \<forall>k v. cs ! i = Some (k, v) \<longrightarrow>
        (\<exists>d. 1 \<le> d \<and> d \<le> length cs \<and> slot (length cs) (h k) d = i \<and>
           (\<forall>j. 1 \<le> j \<longrightarrow> j < d \<longrightarrow> cs ! slot (length cs) (h k) j \<noteq> None)))"

definition unique_keys :: "(u8 list \<times> 'v) option list \<Rightarrow> bool" where
  "unique_keys cs \<longleftrightarrow>
     (\<forall>i<length cs. \<forall>j<length cs. \<forall>k v v'. cs ! i = Some (k, v) \<longrightarrow> cs ! j = Some (k, v') \<longrightarrow> i = j)"

definition filled :: "'a option list \<Rightarrow> nat" where
  "filled cs = length (filter (\<lambda>c. c \<noteq> None) cs)"

definition cs_map :: "(u8 list \<times> 'v) option list \<Rightarrow> u8 list \<Rightarrow> 'v option" where
  "cs_map cs k = map_of (map the (filter (\<lambda>c. c \<noteq> None) cs)) k"

lemma next_probe_slot:
  assumes "unat hash + j < 2 ^ 64 - 1"
  shows "next_probe (2 ^ k - 1) (unat hash + j) = (slot (2 ^ k) hash (Suc j), unat hash + Suc j)"
proof -
  have "(unat hash + Suc j) AND (2 ^ k - 1) = (unat hash + Suc j) mod 2 ^ k"
    unfolding mask_eq_exp_minus_1 [symmetric] take_bit_eq_mask [symmetric] by (rule take_bit_eq_mod)
  then show ?thesis using assms by (simp add: next_probe_def slot_def Let_def)
qed

text \<open>Probing once around the table visits every bucket.\<close>

lemma slot_surj: "0 < n \<Longrightarrow> i < n \<Longrightarrow> \<exists>j. 1 \<le> j \<and> j \<le> n \<and> slot n hash j = i"
proof -
  assume n: "0 < n" "i < n"
  let ?u = "unat hash mod n"
  have u: "?u < n" using n by simp
  have eq: "slot n hash j = (?u + j) mod n" for j by (simp add: slot_def mod_add_left_eq)
  show ?thesis
  proof (cases "?u < i")
    case True
    then show ?thesis using n eq [of "i - ?u"] by (intro exI [of _ "i - ?u"]) auto
  next
    case False
    have "(?u + (n + i - ?u)) mod n = i" using n u False by simp
    then show ?thesis using n u False eq [of "n + i - ?u"] by (intro exI [of _ "n + i - ?u"]) auto
  qed
qed

definition stops :: "(u8 list \<times> 'v) option list \<Rightarrow> u8 list \<Rightarrow> nat \<Rightarrow> bool" where
  "stops cs k i \<longleftrightarrow> (case cs ! i of None \<Rightarrow> True | Some (k', v) \<Rightarrow> k' = k)"

lemma first_stop:
  assumes "i < length cs" "cs ! i = None"
  obtains e where "1 \<le> e" "e \<le> length cs" "stops cs k (slot (length cs) hash e)"
    "\<And>j. 1 \<le> j \<Longrightarrow> j < e \<Longrightarrow> \<not> stops cs k (slot (length cs) hash j)"
proof -
  let ?P = "\<lambda>j. 1 \<le> j \<and> stops cs k (slot (length cs) hash j)"
  obtain j where j: "1 \<le> j" "j \<le> length cs" "slot (length cs) hash j = i" using slot_surj [OF _ assms(1), of hash] assms(1) by (metis gr_zeroI less_nat_zero_code)
  then have P: "?P j" using assms(2) by (simp add: stops_def)
  show ?thesis
  proof (rule that [of "LEAST j. ?P j"])
    show "1 \<le> (LEAST j. ?P j)" "stops cs k (slot (length cs) hash (LEAST j. ?P j))" using LeastI [of ?P, OF P] by auto
    show "(LEAST j. ?P j) \<le> length cs" using Least_le [of ?P, OF P] j(2) by simp
    fix i assume "1 \<le> i" "i < (LEAST j. ?P j)"
    then show "\<not> stops cs k (slot (length cs) hash i)" using not_less_Least [of i ?P] by auto
  qed
qed

text \<open>The probe stops at an empty bucket only when the key is nowhere in the table.\<close>

lemma stop_empty:
  assumes "probes_ok h cs" "1 \<le> e" "cs ! slot (length cs) (h k) e = None"
    "\<And>j. 1 \<le> j \<Longrightarrow> j < e \<Longrightarrow> \<not> stops cs k (slot (length cs) (h k) j)"
  shows "Some (k, v) \<notin> set cs"
proof
  assume "Some (k, v) \<in> set cs"
  then obtain i where i: "i < length cs" "cs ! i = Some (k, v)" by (auto simp: in_set_conv_nth)
  then obtain d where d: "1 \<le> d" "slot (length cs) (h k) d = i" "\<forall>j. 1 \<le> j \<longrightarrow> j < d \<longrightarrow> cs ! slot (length cs) (h k) j \<noteq> None"
    using assms(1) unfolding probes_ok_def by blast
  have "stops cs k (slot (length cs) (h k) d)" using d(2) i(2) by (simp add: stops_def)
  then have "\<not> d < e" using assms(4) [OF d(1)] by blast
  moreover have "d \<noteq> e" using d(2) i(2) assms(3) by auto
  ultimately show False using d(3) assms(2,3) by (metis linorder_neqE_nat)
qed

lemma unique_keys_distinct: "unique_keys cs \<Longrightarrow> distinct (map fst (map the (filter (\<lambda>c. c \<noteq> None) cs)))"
proof (induction cs)
  case (Cons c cs)
  have "unique_keys cs" using Cons.prems unfolding unique_keys_def by (metis (no_types, lifting) Suc_less_eq length_Cons nat.inject nth_Cons_Suc)
  moreover have "Some (k, v') \<notin> set cs" if "c = Some (k, v)" for k v v'
  proof
    assume "Some (k, v') \<in> set cs"
    then obtain j where "j < length cs" "cs ! j = Some (k, v')" by (auto simp: in_set_conv_nth)
    then have "(0 :: nat) = Suc j" using Cons.prems that unfolding unique_keys_def
      by (metis length_Cons nth_Cons_0 nth_Cons_Suc Suc_less_eq zero_less_Suc)
    then show False by simp
  qed
  ultimately show ?case using Cons.IH by (cases c) auto
qed simp

lemma unique_cs_map: "unique_keys cs \<Longrightarrow> cs_map cs k = Some v \<longleftrightarrow> Some (k, v) \<in> set cs"
  using unique_keys_distinct [of cs] by (force simp: cs_map_def map_of_eq_Some_iff)

text \<open>Filling the first empty bucket of a fresh key keeps the table in order.\<close>

lemma insert_table:
  assumes ok: "probes_ok h cs" "unique_keys cs" and e: "1 \<le> e" "e \<le> length cs" "cs ! slot (length cs) (h k) e = None"
    "\<And>j. 1 \<le> j \<Longrightarrow> j < e \<Longrightarrow> cs ! slot (length cs) (h k) j \<noteq> None" and fresh: "\<And>v. Some (k, v) \<notin> set cs"
  shows "probes_ok h (cs[slot (length cs) (h k) e := Some (k, v)])" "unique_keys (cs[slot (length cs) (h k) e := Some (k, v)])"
    "filled (cs[slot (length cs) (h k) e := Some (k, v)]) = Suc (filled cs)"
    "set (cs[slot (length cs) (h k) e := Some (k, v)]) - {None} = insert (Some (k, v)) (set cs - {None})"
proof -
  let ?n = "length cs" and ?s = "slot (length cs) (h k) e"
  let ?cs = "cs[?s := Some (k, v)]"
  have n: "0 < ?n" using e(1,2) by linarith
  have slot_less: "slot ?n hash j < ?n" for hash j unfolding slot_def by (rule mod_less_divisor [OF n])
  then have s: "?s < ?n" .
  have keep: "?cs ! i \<noteq> None" if "cs ! i \<noteq> None" "i < ?n" for i using that by (cases "i = ?s") simp_all
  show "probes_ok h ?cs" unfolding probes_ok_def
  proof (intro allI impI)
    fix i k' v' assume i: "i < length ?cs" "?cs ! i = Some (k', v')"
    show "\<exists>d. 1 \<le> d \<and> d \<le> length ?cs \<and> slot (length ?cs) (h k') d = i \<and>
        (\<forall>j. 1 \<le> j \<longrightarrow> j < d \<longrightarrow> ?cs ! slot (length ?cs) (h k') j \<noteq> None)"
    proof (cases "i = ?s")
      case True
      then have "k' = k" using i s by simp
      then show ?thesis using True e keep slot_less by (intro exI [of _ e]) auto
    next
      case False
      then have "cs ! i = Some (k', v')" "i < ?n" using i by auto
      then obtain d where "1 \<le> d" "d \<le> ?n" "slot ?n (h k') d = i" "\<forall>j. 1 \<le> j \<longrightarrow> j < d \<longrightarrow> cs ! slot ?n (h k') j \<noteq> None"
        using ok(1) unfolding probes_ok_def by blast
      then show ?thesis using keep slot_less by (intro exI [of _ d]) auto
    qed
  qed
  have none: "cs ! i \<noteq> Some (k, w)" if "i < ?n" for i w using fresh [of w] that by (metis nth_mem)
  show "unique_keys ?cs" unfolding unique_keys_def
  proof (intro allI impI)
    fix i j k' w w' assume ij: "i < length ?cs" "j < length ?cs" "?cs ! i = Some (k', w)" "?cs ! j = Some (k', w')"
    show "i = j"
    proof (cases "i = ?s"; cases "j = ?s")
      assume "i \<noteq> ?s" "j \<noteq> ?s"
      then show ?thesis using ij ok(2) unfolding unique_keys_def by auto
    qed (use ij s none in auto)
  qed
  have split: "cs = take ?s cs @ None # drop (Suc ?s) cs" using id_take_nth_drop [OF s] e(3) by simp
  have "?cs = take ?s cs @ Some (k, v) # drop (Suc ?s) cs" using s by (simp add: upd_conv_take_nth_drop)
  moreover have "filled cs = filled (take ?s cs) + filled (drop (Suc ?s) cs)" by (subst split) (simp add: filled_def)
  ultimately show "filled ?cs = Suc (filled cs)" by (simp add: filled_def)
  have "set cs = insert None (set (take ?s cs) \<union> set (drop (Suc ?s) cs))" by (subst split) simp
  then show "set ?cs - {None} = insert (Some (k, v)) (set cs - {None})" using s by (auto simp: upd_conv_take_nth_drop)
qed

section \<open>Entries in the arena\<close>

definition entry_bytes :: "'v item_layout \<Rightarrow> u8 list \<Rightarrow> 'v \<Rightarrow> u8 list" where
  "entry_bytes it k v = le_bytes 2 (length k) @ k @ it_store it v"

type_synonym 'v entry = "key_value \<times> u8 list \<times> 'v"

definition entry_size :: "'v item_layout \<Rightarrow> 'v entry \<Rightarrow> nat" where
  "entry_size it p = 2 + length (fst (snd p)) + it_size it"

definition entry_start :: "'v entry \<Rightarrow> nat" where
  "entry_start p = unat (kv_addr (fst p))"

definition region :: "'v item_layout \<Rightarrow> 'v entry \<Rightarrow> nat set" where
  "region it p = {entry_start p..<entry_start p + entry_size it p}"

definition entry_ok :: "'v item_layout \<Rightarrow> (u8 list \<Rightarrow> u32) \<Rightarrow> memory_arena \<Rightarrow> 'v entry \<Rightarrow> bool" where
  "entry_ok it h a p \<longleftrightarrow>
     \<not> kv_is_empty (fst p) \<and> kv_hash (fst p) = h (fst (snd p)) \<and> length (fst (snd p)) < 2 ^ 16 \<and>
     allocated a (entry_start p) (entry_size it p) \<and> storable it (snd (snd p)) \<and>
     map (arena_mem a) [entry_start p..<entry_start p + entry_size it p] = entry_bytes it (fst (snd p)) (snd (snd p))"

lemma upt_slice: "i \<le> j \<Longrightarrow> j \<le> n \<Longrightarrow> take (j - i) (drop i [g..<g + n]) = [g + i..<g + j]"
  by (rule nth_equalityI) auto

context sized_item
begin

lemma length_entry_bytes: "length (entry_bytes it k v) = 2 + length k + it_size it"
  by (simp add: entry_bytes_def store_size)

text \<open>Reading an entry back: its key, and its value behind the key.\<close>

lemma entry_read:
  assumes inv: "arena_inv a" and ok: "entry_ok it h a (kv, k, v)"
  shows "\<exists>va. get_key_value a (kv_addr kv) = Some (k, va) \<and> unat va = entry_start (kv, k, v) + 2 + length k \<and> arena_read it a va = Some v"
proof -
  let ?g = "unat (kv_addr kv)" and ?n = "2 + length k + it_size it"
  have al: "allocated a ?g ?n" and bs: "map (arena_mem a) [?g..<?g + ?n] = entry_bytes it k v" and k: "length k < 2 ^ 16"
    using ok by (auto simp: entry_ok_def entry_size_def entry_start_def)
  have part: "map (arena_mem a) [?g + i..<?g + j] = take (j - i) (drop i (entry_bytes it k v))" if "i \<le> j" "j \<le> ?n" for i j
  proof -
    have "take (j - i) (drop i [?g..<?g + ?n]) = [?g + i..<?g + j]" by (rule upt_slice [OF that])
    then show ?thesis unfolding bs [symmetric] drop_map take_map by (simp only:)
  qed
  have p: "?g div PAGE_SIZE < length (ar_pages a)" by (rule allocated_page [OF inv al]) simp
  have ip: "in_page ?g ?n" using al by (simp add: allocated_def)
  note from_law = arena_slice_from_law [OF p]
  have "map (arena_mem a) [?g + 0..<?g + 2] = le_bytes 2 (length k)" by (subst part) (auto simp: entry_bytes_def)
  moreover have "map (arena_mem a) [?g + 2..<?g + (2 + length k)] = k" by (subst part) (auto simp: entry_bytes_def)
  moreover have "le_nat (le_bytes 2 (length k)) = length k" using k by (intro le_nat_le_bytes_id) simp
  ultimately have gk: "get_key_value a (kv_addr kv) = Some (k, addr_offset (kv_addr kv) (word_of_nat (2 + length k)))"
    unfolding get_key_value_def from_law
    using slice_from_mem [OF p ip, of 0 2] slice_from_mem [OF p ip, of 2 "2 + length k"] by (simp add: Let_def)
  let ?va = "addr_offset (kv_addr kv) (word_of_nat (2 + length k))"
  have "?g + ?n \<le> 2 ^ 32" using al arena_len_bound [OF inv] unfolding allocated_def by linarith
  then have va: "unat ?va = ?g + (2 + length k)" using size_pos by (intro unat_addr_offset) linarith
  have "allocated a (unat ?va) (it_size it)"
    using al in_page_shift [OF ip, of "2 + length k" "it_size it"] va by (simp add: allocated_def)
  then have "arena_slice a ?va (it_size it) = Some (map (arena_mem a) [?g + (2 + length k)..<?g + ?n])"
    using arena_slice_law [OF inv, of ?va "it_size it" "it_size it"] size_pos va by (simp add: add.assoc)
  also have "map (arena_mem a) [?g + (2 + length k)..<?g + ?n] = it_store it v"
    by (subst part) (auto simp: entry_bytes_def store_size)
  finally have "arena_read it a ?va = Some v" using ok by (simp add: arena_read_def entry_ok_def storable_def)
  then show ?thesis using gk va by (intro exI [of _ ?va]) (simp add: entry_start_def)
qed

lemma entry_match:
  assumes "arena_inv a" "entry_ok it h a (kv, k, v)"
  shows "\<exists>va. (if kv_hash kv = h key then get_value_addr_if_key_match a key (kv_addr kv) else Some None) =
      Some (if k = key then Some va else None) \<and> unat va = entry_start (kv, k, v) + 2 + length k \<and> arena_read it a va = Some v"
proof -
  obtain va where va: "get_key_value a (kv_addr kv) = Some (k, va)" "unat va = entry_start (kv, k, v) + 2 + length k" "arena_read it a va = Some v"
    using entry_read [OF assms] by blast
  have "kv_hash kv = h k" using assms(2) by (simp add: entry_ok_def)
  then show ?thesis using va by (auto simp: get_value_addr_if_key_match_def fast_short_slice_compare_eq)
qed

end

text \<open>An entry is untouched by writes outside its region.\<close>

lemma entry_ok_frame:
  assumes "entry_ok it h a p" "\<And>g. g \<in> region it p \<Longrightarrow> arena_mem a' g = arena_mem a g" "arena_len a \<le> arena_len a'"
  shows "entry_ok it h a' p"
proof -
  have "map (arena_mem a') [entry_start p..<entry_start p + entry_size it p] = map (arena_mem a) [entry_start p..<entry_start p + entry_size it p]"
    using assms(2) by (intro map_cong refl) (simp add: region_def)
  then show ?thesis using assms(1,3) by (simp add: entry_ok_def allocated_def del: map_eq_conv)
qed

definition pairs :: "key_value list \<Rightarrow> (u8 list \<times> 'v) option list \<Rightarrow> 'v entry set" where
  "pairs table cs = {(kv, k, v) | kv k v. (kv, Some (k, v)) \<in> set (zip table cs)}"

definition table_ok :: "(u8 list \<Rightarrow> u32) \<Rightarrow> key_value list \<Rightarrow> (u8 list \<times> 'v) option list \<Rightarrow> bool" where
  "table_ok h table cs \<longleftrightarrow>
     length table = length cs \<and> (\<forall>i<length cs. kv_is_empty (table ! i) \<longleftrightarrow> cs ! i = None) \<and> probes_ok h cs \<and> unique_keys cs"

definition hm_rep :: "'v item_layout \<Rightarrow> (u8 list \<Rightarrow> u32) \<Rightarrow> memory_arena \<Rightarrow> hashmap \<Rightarrow> (u8 list \<times> 'v) option list \<Rightarrow> bool" where
  "hm_rep it h a m cs \<longleftrightarrow>
     table_ok h (hm_table m) cs \<and> (\<exists>k. length cs = 2 ^ k \<and> 1 \<le> k \<and> k \<le> 63) \<and> hm_mask m = length cs - 1 \<and>
     hm_len m = filled cs \<and> 2 * filled cs \<le> length cs \<and> filled cs \<le> arena_len a \<and>
     (\<forall>p\<in>pairs (hm_table m) cs. entry_ok it h a p) \<and>
     (\<forall>p\<in>pairs (hm_table m) cs. \<forall>q\<in>pairs (hm_table m) cs. p \<noteq> q \<longrightarrow> region it p \<inter> region it q = {})"

lemma pairs_nth: "i < length cs \<Longrightarrow> length table = length cs \<Longrightarrow> cs ! i = Some (k, v) \<Longrightarrow> (table ! i, k, v) \<in> pairs table cs"
  by (force simp: pairs_def in_set_zip)

lemma pairs_key: "(kv, k, v) \<in> pairs table cs \<Longrightarrow> Some (k, v) \<in> set cs"
  by (auto simp: pairs_def dest: set_zip_rightD)

lemma filled_full: "None \<notin> set cs \<Longrightarrow> filled cs = length cs"
proof (induction cs)
  case (Cons c cs)
  then show ?case by (cases c) (auto simp: filled_def)
qed (simp add: filled_def)

lemma filled_none:
  assumes "filled cs < length cs"
  obtains i where "i < length cs" "cs ! i = None"
proof -
  have "None \<in> set cs" using filled_full [of cs] assms by (cases "None \<in> set cs") simp_all
  then show ?thesis using that unfolding in_set_conv_nth by blast
qed

lemma hm_rep_stop:
  assumes "hm_rep it h a m cs"
  obtains e where "1 \<le> e" "e \<le> length cs" "stops cs key (slot (length cs) (h key) e)"
    "\<And>j. 1 \<le> j \<Longrightarrow> j < e \<Longrightarrow> \<not> stops cs key (slot (length cs) (h key) j)"
proof -
  have "0 < length cs" "2 * filled cs \<le> length cs" using assms by (auto simp: hm_rep_def)
  then have "filled cs < length cs" by linarith
  then obtain i where "i < length cs" "cs ! i = None" by (rule filled_none)
  then show ?thesis using that by (rule first_stop)
qed

lemma hm_rep_probe:
  assumes "hm_rep it h a m cs" "j \<le> length cs"
  shows "next_probe (hm_mask m) (unat (hash :: u32) + j) = (slot (length cs) hash (Suc j), unat hash + Suc j)"
    "slot (length cs) hash (Suc j) < length (hm_table m)" "length (hm_table m) = length cs"
proof -
  obtain k where k: "length cs = 2 ^ k" "k \<le> 63" using assms(1) by (auto simp: hm_rep_def)
  have "(2 :: nat) ^ k \<le> 2 ^ 63" using k(2) by (intro power_increasing) auto
  then have "unat hash + j < 2 ^ 64 - 1" using unat_u32_less [of hash] assms(2) k(1) by simp
  then show "next_probe (hm_mask m) (unat hash + j) = (slot (length cs) hash (Suc j), unat hash + Suc j)"
    using next_probe_slot [of hash j k] assms(1) k(1) by (simp add: hm_rep_def)
  show len: "length (hm_table m) = length cs" using assms(1) by (simp add: hm_rep_def table_ok_def)
  show "slot (length cs) hash (Suc j) < length (hm_table m)" unfolding len slot_def using k(1) by simp
qed

section \<open>Looking up\<close>

context sized_item
begin

text \<open>One probe at a bucket that does not stop the search.\<close>

lemma probe_other:
  assumes "arena_inv a" "hm_rep it h a m cs" "i < length cs" "\<not> stops cs key i"
  shows "\<not> kv_is_empty (hm_table m ! i)"
    "(if kv_hash (hm_table m ! i) = h key then get_value_addr_if_key_match a key (kv_addr (hm_table m ! i)) else Some None) = Some None"
proof -
  obtain k v where c: "cs ! i = Some (k, v)" "k \<noteq> key" using assms(4) by (auto simp: stops_def split: option.splits)
  have len: "length (hm_table m) = length cs" using assms(2) by (simp add: hm_rep_def table_ok_def)
  have "(hm_table m ! i, k, v) \<in> pairs (hm_table m) cs" by (rule pairs_nth [OF assms(3) len c(1)])
  then have ok: "entry_ok it h a (hm_table m ! i, k, v)" using assms(2) by (auto simp: hm_rep_def)
  then show "\<not> kv_is_empty (hm_table m ! i)" by (simp add: entry_ok_def)
  show "(if kv_hash (hm_table m ! i) = h key then get_value_addr_if_key_match a key (kv_addr (hm_table m ! i)) else Some None) = Some None"
    using entry_match [OF assms(1) ok, of key] c(2) by auto
qed

lemma get_loop_law:
  assumes inv: "arena_inv a" and rep: "hm_rep it h a m cs"
    and e: "e \<le> length cs" "stops cs key (slot (length cs) (h key) e)"
      "\<And>j. 1 \<le> j \<Longrightarrow> j < e \<Longrightarrow> \<not> stops cs key (slot (length cs) (h key) j)" and j: "j < e"
  shows "get_loop it m a key (h key) (unat (h key) + j) = Some (map_option snd (cs ! slot (length cs) (h key) e))"
  using j
proof (induction "e - j" arbitrary: j)
  case (Suc d)
  have j: "j \<le> length cs" using Suc.prems e(1) by simp
  note pr = hm_rep_probe(1,2) [OF rep j, of "h key"] hm_rep_probe(3) [OF rep j]
  let ?i = "slot (length cs) (h key) (Suc j)"
  have i: "?i < length cs" using pr(2,3) by simp
  show ?case
  proof (cases "Suc j = e")
    case False
    then have lt: "Suc j < e" using Suc.prems by simp
    have "get_loop it m a key (h key) (unat (h key) + Suc j) = Some (map_option snd (cs ! slot (length cs) (h key) e))"
      by (rule Suc.hyps(1)) (use Suc.hyps(2) lt in linarith)+
    moreover have "\<not> stops cs key ?i" using e(3) lt by simp
    note po = probe_other [OF inv rep i this]
    ultimately show ?thesis using pr po by (subst get_loop.simps) (simp add: Let_def)
  next
    case True
    have tok: "kv_is_empty (hm_table m ! ?i) \<longleftrightarrow> cs ! ?i = None" using rep i by (simp add: hm_rep_def table_ok_def)
    show ?thesis
    proof (cases "cs ! ?i")
      case None
      then show ?thesis using pr tok True by (subst get_loop.simps) (simp add: Let_def)
    next
      case (Some c)
      then obtain v where c: "cs ! ?i = Some (key, v)" using e(2) True by (cases c) (auto simp: stops_def)
      have "(hm_table m ! ?i, key, v) \<in> pairs (hm_table m) cs" by (rule pairs_nth [OF i pr(3) c])
      then have ok: "entry_ok it h a (hm_table m ! ?i, key, v)" using rep by (auto simp: hm_rep_def)
      from entry_match [OF inv ok, of key] obtain va where
        va: "(if kv_hash (hm_table m ! ?i) = h key then get_value_addr_if_key_match a key (kv_addr (hm_table m ! ?i)) else Some None) = Some (Some va)"
        "arena_read it a va = Some v" by auto
      have "kv_hash (hm_table m ! ?i) = h key" "get_value_addr_if_key_match a key (kv_addr (hm_table m ! ?i)) = Some (Some va)"
        using va(1) by (auto split: if_splits)
      then show ?thesis using va(2) pr tok True c by (subst get_loop.simps) (simp add: Let_def)
    qed
  qed
qed simp

lemma hm_get_law:
  assumes inv: "arena_inv a" and rep: "hm_rep it h a m cs"
  shows "hm_get h it m a key = Some (cs_map cs key)"
proof -
  obtain e where e: "1 \<le> e" "e \<le> length cs" "stops cs key (slot (length cs) (h key) e)"
    "\<And>j. 1 \<le> j \<Longrightarrow> j < e \<Longrightarrow> \<not> stops cs key (slot (length cs) (h key) j)" using hm_rep_stop [OF rep] by blast
  let ?s = "slot (length cs) (h key) e"
  have s: "?s < length cs" using hm_rep_probe(2) [OF rep, of "e - 1" "h key"] hm_rep_probe(3) [OF rep, of 0] e(1,2) by simp
  have g: "hm_get h it m a key = Some (map_option snd (cs ! ?s))"
    using get_loop_law [OF inv rep e(2-4), of 0] e(1) by (simp add: hm_get_def)
  have ok: "probes_ok h cs" "unique_keys cs" using rep by (auto simp: hm_rep_def table_ok_def)
  show ?thesis
  proof (cases "cs ! ?s")
    case None
    then have "Some (key, v) \<notin> set cs" for v using stop_empty [OF ok(1) e(1) _ e(4)] by blast
    then have "cs_map cs key = None" using unique_cs_map [OF ok(2), of key] by (cases "cs_map cs key") auto
    then show ?thesis using g None by simp
  next
    case (Some c)
    then obtain v where c: "cs ! ?s = Some (key, v)" using e(3) by (cases c) (auto simp: stops_def)
    then have "Some (key, v) \<in> set cs" using s by (metis nth_mem)
    then have "cs_map cs key = Some v" using unique_cs_map [OF ok(2)] by blast
    then show ?thesis using g c by simp
  qed
qed

lemma mutate_loop_law:
  assumes inv: "arena_inv a" and rep: "hm_rep it h a m cs"
    and e: "e \<le> length cs" "\<And>j. 1 \<le> j \<Longrightarrow> j < e \<Longrightarrow> \<not> stops cs key (slot (length cs) (h key) j)" and j: "j < e"
  shows "mutate_loop avx it m a key upd s (h key) (unat (h key) + j) = mutate_loop avx it m a key upd s (h key) (unat (h key) + (e - 1))"
  using j
proof (induction "e - j" arbitrary: j)
  case (Suc d)
  show ?case
  proof (cases "Suc j = e")
    case True
    then have "j = e - 1" by simp
    then show ?thesis by simp
  next
    case False
    then have lt: "Suc j < e" using Suc.prems by simp
    have j: "j \<le> length cs" using Suc.prems e(1) by simp
    note pr = hm_rep_probe(1,2) [OF rep j, of "h key"] hm_rep_probe(3) [OF rep j]
    have i: "slot (length cs) (h key) (Suc j) < length cs" using pr(2,3) by simp
    have "\<not> stops cs key (slot (length cs) (h key) (Suc j))" using e(2) lt by simp
    note po = probe_other [OF inv rep i this]
    have "mutate_loop avx it m a key upd s (h key) (unat (h key) + j) = mutate_loop avx it m a key upd s (h key) (unat (h key) + Suc j)"
      using pr po by (subst mutate_loop.simps) (simp add: Let_def)
    moreover have "mutate_loop avx it m a key upd s (h key) (unat (h key) + Suc j) =
        mutate_loop avx it m a key upd s (h key) (unat (h key) + (e - 1))"
      by (rule Suc.hyps(1)) (use Suc.hyps(2) lt in linarith)+
    ultimately show ?thesis by simp
  qed
qed simp

end

end
