(* ===== verification/HashMapCorrect.thy ===== *)
theory HashMapCorrect
  imports SharedArenaHashMap
begin

text \<open>
  Updates of the hash map: creating an entry, changing one in place, and moving every entry to a larger table keep
  the map in order and leave all other bytes of the arena alone. Together with the lookup, the map refines a
  finite map from keys, cut at their longest length, to values.
\<close>

section \<open>Entries of an updated table\<close>

lemma map_upt_nth: "i < n \<Longrightarrow> map f [g..<g + n] ! i = f (g + i)"
  by simp

lemma pairs_index: "p \<in> pairs table cs \<longleftrightarrow> (\<exists>i<length cs. i < length table \<and> fst p = table ! i \<and> cs ! i = Some (snd p))"
  by (cases p) (force simp: pairs_def in_set_zip)

lemma pairs_update:
  assumes "p \<in> pairs (table[s := kv]) (cs[s := Some (k, v)])" "length table = length cs" "s < length cs"
  shows "p = (kv, k, v) \<or> (\<exists>i<length cs. i \<noteq> s \<and> fst p = table ! i \<and> cs ! i = Some (snd p)) \<and> p \<in> pairs table cs"
proof -
  obtain i where i: "i < length cs" "fst p = table[s := kv] ! i" "cs[s := Some (k, v)] ! i = Some (snd p)"
    using assms(1) by (auto simp: pairs_index)
  show ?thesis
  proof (cases "i = s")
    case True
    then show ?thesis using i assms(2) by (auto simp: prod_eq_iff)
  next
    case False
    then have "fst p = table ! i" "cs ! i = Some (snd p)" using i assms(2) by simp_all
    moreover from this have "p \<in> pairs table cs" using i(1) assms(2) unfolding pairs_index by auto
    ultimately show ?thesis using False i(1) by blast
  qed
qed

definition hm_footprint :: "'v item_layout \<Rightarrow> hashmap \<Rightarrow> (u8 list \<times> 'v) option list \<Rightarrow> nat set" where
  "hm_footprint it m cs = \<Union> (region it ` pairs (hm_table m) cs)"

lemma hm_footprint_bound: "hm_rep it h a m cs \<Longrightarrow> hm_footprint it m cs \<subseteq> {..<arena_len a}"
  by (fastforce simp: hm_footprint_def hm_rep_def entry_ok_def allocated_def region_def)

lemma hm_rep_frame:
  assumes "hm_rep it h a m cs" "\<And>g. g \<in> hm_footprint it m cs \<Longrightarrow> arena_mem a' g = arena_mem a g" "arena_len a \<le> arena_len a'"
  shows "hm_rep it h a' m cs"
proof -
  have "entry_ok it h a' p" if "p \<in> pairs (hm_table m) cs" for p
  proof (rule entry_ok_frame)
    show "entry_ok it h a p" using assms(1) that by (simp add: hm_rep_def)
    show "arena_mem a' g = arena_mem a g" if g: "g \<in> region it p" for g
      using assms(2) \<open>p \<in> _\<close> g by (auto simp: hm_footprint_def)
  qed (rule assms(3))
  moreover have "filled cs \<le> arena_len a'" using assms(1,3) by (simp add: hm_rep_def)
  ultimately show ?thesis using assms(1) unfolding hm_rep_def by blast
qed

text \<open>Filling the bucket where the probe for a key stops empty.\<close>

lemma insert_first:
  assumes ok: "probes_ok h cs" "unique_keys cs" and e: "1 \<le> e" "e \<le> length cs" "cs ! slot (length cs) (h k) e = None"
    "\<forall>j. 1 \<le> j \<longrightarrow> j < e \<longrightarrow> \<not> stops cs k (slot (length cs) (h k) j)"
  shows "probes_ok h (cs[slot (length cs) (h k) e := Some (k, v)])" "unique_keys (cs[slot (length cs) (h k) e := Some (k, v)])"
    "filled (cs[slot (length cs) (h k) e := Some (k, v)]) = Suc (filled cs)"
    "set (cs[slot (length cs) (h k) e := Some (k, v)]) - {None} = insert (Some (k, v)) (set cs - {None})"
    "Some (k, w) \<notin> set cs"
proof -
  have fresh: "Some (k, w) \<notin> set cs" for w using stop_empty [OF ok(1) e(1,3)] e(4) by blast
  then show "Some (k, w) \<notin> set cs" .
  have some: "cs ! slot (length cs) (h k) j \<noteq> None" if "1 \<le> j" "j < e" for j
    using e(4) [rule_format, OF that] by (cases "cs ! slot (length cs) (h k) j") (simp_all add: stops_def)
  show "probes_ok h (cs[slot (length cs) (h k) e := Some (k, v)])" "unique_keys (cs[slot (length cs) (h k) e := Some (k, v)])"
    "filled (cs[slot (length cs) (h k) e := Some (k, v)]) = Suc (filled cs)"
    "set (cs[slot (length cs) (h k) e := Some (k, v)]) - {None} = insert (Some (k, v)) (set cs - {None})"
    using insert_table [OF ok e(1-3) _ fresh] some by blast+
qed

section \<open>Updates\<close>

context sized_item
begin

text \<open>Writing an entry: a fresh region behind all allocated bytes.\<close>

lemma create_entry:
  assumes inv: "arena_inv a" and key: "length key < 2 ^ 16" and s: "s < length (hm_table m)" and v: "storable it v"
    and M: "2 + length key + it_size it \<le> M" "M \<le> PAGE_SIZE" "arena_load M a < arena_cap M"
  shows "\<exists>adr a'. hm_create avx it m a key (h key) v s =
      Some (m\<lparr>hm_len := hm_len m + 1, hm_table := (hm_table m)[s := \<lparr>kv_addr = adr, kv_hash = h key\<rparr>]\<rparr>, a') \<and>
    entry_ok it h a' (\<lparr>kv_addr = adr, kv_hash = h key\<rparr>, key, v) \<and> arena_inv a' \<and> arena_len a \<le> unat adr \<and>
    arena_len a < arena_len a' \<and> (\<forall>g<arena_len a. arena_mem a' g = arena_mem a g) \<and>
    arena_load M a' \<le> arena_load M a + (2 + length key + it_size it)"
proof -
  let ?item = "entry_bytes it key v"
  have n: "length ?item = 2 + length key + it_size it" by (rule length_entry_bytes)
  have ne: "?item \<noteq> []" using n by auto
  have le: "length ?item \<le> M" using n M(1) by simp
  from arena_put_law [OF inv ne le M(2,3)] obtain adr a1 a' where
    p: "arena_allocate_space a (length ?item) = Some (adr, a1)" "arena_slice_mut a1 adr ?item = Some a'"
      "arena_slice a1 adr (length ?item) = Some (map (arena_mem a1) [unat adr..<unat adr + length ?item])"
      "arena_len a \<le> unat adr" "arena_len a' = unat adr + length ?item" "arena_inv a'" "allocated a' (unat adr) (length ?item)"
      "map (arena_mem a') [unat adr..<unat adr + length ?item] = ?item" "arena_len a \<le> arena_len a'"
      "\<forall>g<arena_len a. arena_mem a' g = arena_mem a g" "arena_load M a' \<le> arena_load M a + length ?item" by blast
  let ?kv = "\<lparr>kv_addr = adr, kv_hash = h key\<rparr>"
  have "hm_create avx it m a key (h key) v s = Some (m\<lparr>hm_len := hm_len m + 1, hm_table := (hm_table m)[s := ?kv]\<rparr>, a')"
    using p(1-3) s unfolding n by (simp add: hm_create_def Let_def fast_short_slice_copy_eq hm_set_bucket_def entry_bytes_def)
  moreover have "unat adr < 2 ^ 32 - 1" using p(5) arena_len_bound [OF p(6)] n by linarith
  then have "\<not> addr_is_null adr" by (auto simp: addr_is_null_def unsigned_minus_1_eq_mask mask_eq_exp_minus_1)
  then have "entry_ok it h a' (?kv, key, v)" using p(7,8) key n v by (simp add: entry_ok_def entry_start_def entry_size_def kv_is_empty_def)
  ultimately show ?thesis using p(4-6,9-11) n by (intro exI [of _ adr] exI [of _ a']) simp
qed

lemma hm_create_law:
  assumes inv: "arena_inv a" and rep: "hm_rep it h a m cs" and key: "length key < 2 ^ 16" and v: "storable it v"
    and e: "1 \<le> e" "e \<le> length cs" "cs ! slot (length cs) (h key) e = None"
      "\<And>j. 1 \<le> j \<Longrightarrow> j < e \<Longrightarrow> \<not> stops cs key (slot (length cs) (h key) j)"
    and half: "2 * (filled cs + 1) \<le> length cs"
    and M: "2 + length key + it_size it \<le> M" "M \<le> PAGE_SIZE" "arena_load M a < arena_cap M"
  shows "\<exists>m' a'. hm_create avx it m a key (h key) v (slot (length cs) (h key) e) = Some (m', a') \<and> arena_inv a' \<and>
    hm_rep it h a' m' (cs[slot (length cs) (h key) e := Some (key, v)]) \<and> arena_len a \<le> arena_len a' \<and>
    (\<forall>g<arena_len a. arena_mem a' g = arena_mem a g) \<and> arena_load M a' \<le> arena_load M a + (2 + length key + it_size it) \<and>
    hm_footprint it m' (cs[slot (length cs) (h key) e := Some (key, v)]) \<subseteq> hm_footprint it m cs \<union> {arena_len a..}"
proof -
  let ?s = "slot (length cs) (h key) e"
  have ok: "probes_ok h cs" "unique_keys cs" and len: "length (hm_table m) = length cs"
    and emp: "\<forall>i<length cs. kv_is_empty (hm_table m ! i) \<longleftrightarrow> cs ! i = None"
    using rep by (auto simp: hm_rep_def table_ok_def)
  have s: "?s < length cs" using e(1,2) by (auto simp: slot_def intro: mod_less_divisor)
  have st: "?s < length (hm_table m)" using s len by simp
  from create_entry [OF inv key st v M, of avx h] obtain adr a' where
    p: "hm_create avx it m a key (h key) v ?s =
        Some (m\<lparr>hm_len := hm_len m + 1, hm_table := (hm_table m)[?s := \<lparr>kv_addr = adr, kv_hash = h key\<rparr>]\<rparr>, a')"
      "entry_ok it h a' (\<lparr>kv_addr = adr, kv_hash = h key\<rparr>, key, v)" "arena_inv a'" "arena_len a \<le> unat adr"
      "arena_len a < arena_len a'" "\<forall>g<arena_len a. arena_mem a' g = arena_mem a g"
      "arena_load M a' \<le> arena_load M a + (2 + length key + it_size it)" by blast
  let ?kv = "\<lparr>kv_addr = adr, kv_hash = h key\<rparr>"
  let ?m = "m\<lparr>hm_len := hm_len m + 1, hm_table := (hm_table m)[?s := ?kv]\<rparr>" and ?cs = "cs[?s := Some (key, v)]"
  note new = p(2)
  have new_region: "region it (?kv, key, v) \<subseteq> {arena_len a..}" using p(4) by (auto simp: region_def entry_start_def)
  have old_region: "region it q \<subseteq> {..<arena_len a}" if "q \<in> pairs (hm_table m) cs" for q
    using hm_footprint_bound [OF rep] that by (auto simp: hm_footprint_def)
  have up: "q = (?kv, key, v) \<or> q \<in> pairs (hm_table m) cs" if "q \<in> pairs (hm_table ?m) ?cs" for q
    using pairs_update [of q "hm_table m" ?s ?kv cs key v] that len s by auto
  have "hm_rep it h a' ?m ?cs"
  proof -
    have first: "\<forall>j. 1 \<le> j \<longrightarrow> j < e \<longrightarrow> \<not> stops cs key (slot (length cs) (h key) j)" using e(4) by blast
    note ins = insert_first(1-4) [OF ok e(1-3) first, of v]
    have "kv_is_empty ((hm_table m)[?s := ?kv] ! i) \<longleftrightarrow> ?cs ! i = None" if "i < length cs" for i
      using that emp len new by (cases "i = ?s") (simp_all add: entry_ok_def)
    then have tok: "table_ok h (hm_table ?m) ?cs" using ins(1,2) len by (simp add: table_ok_def)
    have ents: "\<forall>q\<in>pairs (hm_table ?m) ?cs. entry_ok it h a' q"
    proof
      fix q assume "q \<in> pairs (hm_table ?m) ?cs"
      then consider "q = (?kv, key, v)" | (old) "q \<in> pairs (hm_table m) cs" using up by blast
      then show "entry_ok it h a' q"
      proof cases
        case old
        then have "entry_ok it h a q" using rep by (simp add: hm_rep_def)
        then show ?thesis using old_region [OF old] p(5,6) by (intro entry_ok_frame [of it h a q a']) auto
      qed (use new in simp)
    qed
    have disj: "\<forall>q\<in>pairs (hm_table ?m) ?cs. \<forall>r\<in>pairs (hm_table ?m) ?cs. q \<noteq> r \<longrightarrow> region it q \<inter> region it r = {}"
    proof (intro ballI impI)
      fix q r assume qr: "q \<in> pairs (hm_table ?m) ?cs" "r \<in> pairs (hm_table ?m) ?cs" "q \<noteq> r"
      have new_old: "region it (?kv, key, v) \<inter> region it t = {}" if "t \<in> pairs (hm_table m) cs" for t
        using new_region old_region [OF that] by fastforce
      consider (a) "q = (?kv, key, v)" "r \<in> pairs (hm_table m) cs" | (b) "r = (?kv, key, v)" "q \<in> pairs (hm_table m) cs"
        | (c) "q \<in> pairs (hm_table m) cs" "r \<in> pairs (hm_table m) cs" using up [OF qr(1)] up [OF qr(2)] qr(3) by blast
      then show "region it q \<inter> region it r = {}"
      proof cases
        case a then show ?thesis using new_old by simp
      next
        case b then show ?thesis using new_old by (simp add: Int_commute)
      next
        case c then show ?thesis using rep qr(3) by (simp add: hm_rep_def)
      qed
    qed
    have "filled ?cs \<le> arena_len a'" using rep ins(3) p(5) by (simp add: hm_rep_def)
    then show ?thesis using rep tok ins(3) half ents disj by (simp add: hm_rep_def)
  qed
  moreover have "hm_footprint it ?m ?cs \<subseteq> hm_footprint it m cs \<union> {arena_len a..}"
  proof
    fix g assume "g \<in> hm_footprint it ?m ?cs"
    then obtain q where q: "q \<in> pairs (hm_table ?m) ?cs" "g \<in> region it q" by (auto simp: hm_footprint_def)
    then show "g \<in> hm_footprint it m cs \<union> {arena_len a..}" using up [OF q(1)] new_region by (auto simp: hm_footprint_def)
  qed
  ultimately show ?thesis using p(1,3,5,6,7) by (intro exI [of _ ?m] exI [of _ a']) simp
qed

lemma entry_write:
  assumes inv: "arena_inv a" and ok: "entry_ok it h a (kv, k, v)" and va: "unat va = entry_start (kv, k, v) + 2 + length k"
    and w: "storable it w"
  shows "\<exists>a'. arena_write_at it a va w = Some a' \<and> arena_inv a' \<and> arena_len a' = arena_len a \<and> arena_load M a' = arena_load M a \<and>
    entry_ok it h a' (kv, k, w) \<and> (\<forall>g. g \<notin> region it (kv, k, v) \<longrightarrow> arena_mem a' g = arena_mem a g)"
proof -
  let ?g = "unat (kv_addr kv)" and ?n = "2 + length k + it_size it" and ?pre = "le_bytes 2 (length k) @ k"
  have al: "allocated a ?g ?n" and bs: "map (arena_mem a) [?g..<?g + ?n] = ?pre @ it_store it v"
    using ok by (auto simp: entry_ok_def entry_size_def entry_start_def entry_bytes_def)
  have pre: "length ?pre = 2 + length k" by simp
  have va': "unat va = ?g + (2 + length k)" using va by (simp add: entry_start_def)
  have "in_page (?g + (2 + length k)) (it_size it)" by (rule in_page_shift [of _ ?n]) (use al in \<open>auto simp: allocated_def\<close>)
  then have "allocated a (unat va) (length (it_store it w))" using al va' by (simp add: allocated_def store_size)
  moreover have "it_store it w \<noteq> []" using size_pos store_size [of w] by auto
  ultimately obtain a' where a': "arena_slice_mut a va (it_store it w) = Some a'" "arena_inv a'" "length (ar_pages a') = length (ar_pages a)"
    "arena_len a' = arena_len a"
    "arena_mem a' = (\<lambda>g. if unat va \<le> g \<and> g < unat va + it_size it then it_store it w ! (g - unat va) else arena_mem a g)"
    using arena_slice_mut_law [OF inv, of va "it_store it w"] unfolding store_size by blast
  have "map (arena_mem a') [?g..<?g + ?n] = ?pre @ it_store it w"
  proof (rule nth_equalityI)
    fix i assume "i < length (map (arena_mem a') [?g..<?g + ?n])"
    then have i: "i < ?n" by simp
    have old: "arena_mem a (?g + i) = (?pre @ it_store it v) ! i" using map_upt_nth [OF i, of "arena_mem a" ?g] unfolding bs by (rule sym)
    note new = map_upt_nth [OF i, of "arena_mem a'" ?g]
    show "map (arena_mem a') [?g..<?g + ?n] ! i = (?pre @ it_store it w) ! i"
    proof (cases "i < 2 + length k")
      case True
      then have "arena_mem a' (?g + i) = ?pre ! i" using a'(5) va' old nth_append [of ?pre "it_store it v" i] pre by simp
      then show ?thesis unfolding new using True pre nth_append [of ?pre "it_store it w" i] by simp
    next
      case False
      then have "arena_mem a' (?g + i) = it_store it w ! (i - (2 + length k))" using a'(5) va' i by simp
      then show ?thesis unfolding new using False pre nth_append [of ?pre "it_store it w" i] by simp
    qed
  qed (simp add: store_size)
  then have "entry_ok it h a' (kv, k, w)" using ok a'(4) w
    by (simp add: entry_ok_def entry_start_def entry_size_def entry_bytes_def allocated_def del: map_eq_conv)
  moreover have "arena_mem a' g = arena_mem a g" if "g \<notin> region it (kv, k, v)" for g
    using that a'(5) va' by (auto simp: region_def entry_start_def entry_size_def)
  ultimately show ?thesis using a' arena_load_same [OF inv a'(3,4)] by (intro exI [of _ a']) (simp add: arena_write_at_def)
qed

end

section \<open>One update\<close>

text \<open>What an update promises: the map is in order again, bytes outside its entries stay, new entries lie behind the old end.\<close>

definition hm_step :: "'v item_layout \<Rightarrow> (u8 list \<Rightarrow> u32) \<Rightarrow> nat \<Rightarrow> nat \<Rightarrow> memory_arena \<Rightarrow> hashmap \<Rightarrow> (u8 list \<times> 'v) option list \<Rightarrow>
    memory_arena \<Rightarrow> hashmap \<Rightarrow> (u8 list \<times> 'v) option list \<Rightarrow> bool" where
  "hm_step it h M c a m cs a' m' cs' \<longleftrightarrow>
     arena_inv a' \<and> hm_rep it h a' m' cs' \<and> arena_len a \<le> arena_len a' \<and> arena_load M a' \<le> arena_load M a + c \<and>
     (\<forall>g<arena_len a. g \<notin> hm_footprint it m cs \<longrightarrow> arena_mem a' g = arena_mem a g) \<and>
     hm_footprint it m' cs' \<subseteq> hm_footprint it m cs \<union> {arena_len a..}"

text \<open>Replacing the value of a key keeps the table in order.\<close>

lemma replace_table:
  assumes ok: "probes_ok h cs" "unique_keys cs" and s: "s < length cs" "cs ! s = Some (k, v)"
  shows "probes_ok h (cs[s := Some (k, w)])" "unique_keys (cs[s := Some (k, w)])" "filled (cs[s := Some (k, w)]) = filled cs"
    "set (cs[s := Some (k, w)]) = insert (Some (k, w)) (set cs - {Some (k, v)})"
proof -
  let ?cs = "cs[s := Some (k, w)]"
  have key: "map_option fst (?cs ! i) = map_option fst (cs ! i)" if "i < length cs" for i using s that by (cases "i = s") simp_all
  then have none: "?cs ! i = None \<longleftrightarrow> cs ! i = None" if "i < length cs" for i using that by (metis map_option_is_None)
  have some: "\<exists>v'. cs ! i = Some (k', v')" if "i < length cs" "?cs ! i = Some (k', w')" for i k' w'
    using key [OF that(1)] that(2) by (cases "cs ! i") auto
  show "unique_keys ?cs" unfolding unique_keys_def
  proof (intro allI impI)
    fix i j k' w1 w2 assume "i < length ?cs" "j < length ?cs" "?cs ! i = Some (k', w1)" "?cs ! j = Some (k', w2)"
    then show "i = j" using some ok(2) unfolding unique_keys_def by (metis length_list_update)
  qed
  show "probes_ok h ?cs" unfolding probes_ok_def
  proof (intro allI impI)
    fix i k' w' assume i: "i < length ?cs" "?cs ! i = Some (k', w')"
    then obtain v' where "cs ! i = Some (k', v')" using some [of i k' w'] by auto
    then obtain d where d: "1 \<le> d" "d \<le> length cs" "slot (length cs) (h k') d = i"
      "\<forall>j. 1 \<le> j \<longrightarrow> j < d \<longrightarrow> cs ! slot (length cs) (h k') j \<noteq> None"
      using ok(1) i(1) unfolding probes_ok_def by (metis length_list_update)
    have "slot (length cs) (h k') j < length cs" for j using s(1) unfolding slot_def by (intro mod_less_divisor) linarith
    then show "\<exists>d. 1 \<le> d \<and> d \<le> length ?cs \<and> slot (length ?cs) (h k') d = i \<and>
        (\<forall>j. 1 \<le> j \<longrightarrow> j < d \<longrightarrow> ?cs ! slot (length ?cs) (h k') j \<noteq> None)" using d none by (intro exI [of _ d]) simp
  qed
  have split: "cs = take s cs @ Some (k, v) # drop (Suc s) cs" using id_take_nth_drop [OF s(1)] s(2) by simp
  have up: "?cs = take s cs @ Some (k, w) # drop (Suc s) cs" using s(1) by (simp add: upd_conv_take_nth_drop)
  have "filled cs = filled (take s cs) + Suc (filled (drop (Suc s) cs))" by (subst split) (simp add: filled_def)
  then show "filled ?cs = filled cs" unfolding up by (simp add: filled_def)
  have uniq: "i = s" if "i < length cs" "cs ! i = Some (k, v)" for i
    using that s ok(2) unfolding unique_keys_def by blast
  show "set ?cs = insert (Some (k, w)) (set cs - {Some (k, v)})"
  proof (intro set_eqI iffI)
    fix x assume "x \<in> set ?cs"
    then obtain i where "i < length cs" "?cs ! i = x" by (auto simp: in_set_conv_nth)
    then show "x \<in> insert (Some (k, w)) (set cs - {Some (k, v)})"
    proof (cases "i = s")
      case False
      then have "cs ! i = x" using \<open>?cs ! i = x\<close> by simp
      then show ?thesis using False uniq [OF \<open>i < length cs\<close>] \<open>i < length cs\<close> nth_mem by blast
    qed (use s(1) in simp)
  next
    fix x assume x: "x \<in> insert (Some (k, w)) (set cs - {Some (k, v)})"
    show "x \<in> set ?cs"
    proof (cases "x = Some (k, w)")
      case True
      then show ?thesis using s(1) by (simp add: set_update_memI)
    next
      case False
      then obtain i where i: "i < length cs" "cs ! i = x" "x \<noteq> Some (k, v)" using x by (auto simp: in_set_conv_nth)
      then have "i \<noteq> s" using s(2) by auto
      then have "?cs ! i = x" using i(2) by simp
      then show ?thesis using i(1) by (metis length_list_update nth_mem)
    qed
  qed
qed

context sized_item
begin

lemma hm_update_law:
  assumes inv: "arena_inv a" and rep: "hm_rep it h a m cs" and s: "s < length cs" "cs ! s = Some (key, v)"
    and va: "unat va = entry_start (hm_table m ! s, key, v) + 2 + length key" and w: "storable it w"
  shows "\<exists>a'. arena_write_at it a va w = Some a' \<and> hm_step it h M c a m cs a' m (cs[s := Some (key, w)])"
proof -
  let ?kv = "hm_table m ! s" and ?cs = "cs[s := Some (key, w)]"
  have ok: "probes_ok h cs" "unique_keys cs" and len: "length (hm_table m) = length cs"
    and emp: "\<forall>i<length cs. kv_is_empty (hm_table m ! i) \<longleftrightarrow> cs ! i = None"
    using rep by (auto simp: hm_rep_def table_ok_def)
  have p: "(?kv, key, v) \<in> pairs (hm_table m) cs" by (rule pairs_nth [OF s(1) len s(2)])
  then have eok: "entry_ok it h a (?kv, key, v)" using rep by (simp add: hm_rep_def)
  from entry_write [OF inv eok va w, of M] obtain a' where
    a': "arena_write_at it a va w = Some a'" "arena_inv a'" "arena_len a' = arena_len a" "arena_load M a' = arena_load M a"
      "entry_ok it h a' (?kv, key, w)" "\<forall>g. g \<notin> region it (?kv, key, v) \<longrightarrow> arena_mem a' g = arena_mem a g" by blast
  have same: "region it (?kv, key, w) = region it (?kv, key, v)" by (simp add: region_def entry_start_def entry_size_def)
  have up: "q = (?kv, key, w) \<or> q \<in> pairs (hm_table m) cs \<and> q \<noteq> (?kv, key, v)" if "q \<in> pairs (hm_table m) ?cs" for q
  proof -
    have "(hm_table m)[s := ?kv] = hm_table m" by simp
    then have "q = (?kv, key, w) \<or> (\<exists>i<length cs. i \<noteq> s \<and> fst q = hm_table m ! i \<and> cs ! i = Some (snd q)) \<and> q \<in> pairs (hm_table m) cs"
      using pairs_update [of q "hm_table m" s ?kv cs key w] that len s(1) by simp
    then show ?thesis using s ok(2) unfolding unique_keys_def by (metis snd_conv)
  qed
  note rp = replace_table [OF ok s, of w]
  have fp: "hm_footprint it m ?cs \<subseteq> hm_footprint it m cs"
  proof
    fix g assume "g \<in> hm_footprint it m ?cs"
    then obtain q where q: "q \<in> pairs (hm_table m) ?cs" "g \<in> region it q" by (auto simp: hm_footprint_def)
    show "g \<in> hm_footprint it m cs"
    proof (cases "q = (?kv, key, w)")
      case True
      then show ?thesis using p q(2) same by (auto simp: hm_footprint_def)
    next
      case False
      then show ?thesis using up [OF q(1)] q(2) by (auto simp: hm_footprint_def)
    qed
  qed
  have disj0: "region it q \<inter> region it r = {}" if "q \<in> pairs (hm_table m) cs" "r \<in> pairs (hm_table m) cs" "q \<noteq> r" for q r
    using rep that by (simp add: hm_rep_def)
  have "kv_is_empty (hm_table m ! i) \<longleftrightarrow> ?cs ! i = None" if "i < length cs" for i
    using that emp s by (cases "i = s") simp_all
  then have tok: "table_ok h (hm_table m) ?cs" using rp(1,2) len by (simp add: table_ok_def)
  have ents: "entry_ok it h a' q" if q: "q \<in> pairs (hm_table m) ?cs" for q
  proof (cases "q = (?kv, key, w)")
    case False
    then have old: "q \<in> pairs (hm_table m) cs" "q \<noteq> (?kv, key, v)" using up [OF q] by auto
    have "entry_ok it h a q" using rep old(1) by (simp add: hm_rep_def)
    then show ?thesis using disj0 [OF old(1) p old(2)] a'(3,6) by (intro entry_ok_frame [of it h a q a']) auto
  qed (use a'(5) in simp)
  have disj: "region it q \<inter> region it r = {}" if qr: "q \<in> pairs (hm_table m) ?cs" "r \<in> pairs (hm_table m) ?cs" "q \<noteq> r" for q r
  proof -
    consider (a) "q = (?kv, key, w)" "r \<in> pairs (hm_table m) cs" "r \<noteq> (?kv, key, v)"
      | (b) "r = (?kv, key, w)" "q \<in> pairs (hm_table m) cs" "q \<noteq> (?kv, key, v)"
      | (c) "q \<in> pairs (hm_table m) cs" "r \<in> pairs (hm_table m) cs" using up [OF qr(1)] up [OF qr(2)] qr(3) by blast
    then show ?thesis
    proof cases
      case a then show ?thesis using disj0 [OF p a(2)] same by auto
    next
      case b then show ?thesis using disj0 [OF b(2) p b(3)] same by auto
    next
      case c then show ?thesis using disj0 qr(3) by blast
    qed
  qed
  have "hm_rep it h a' m ?cs" using rep tok rp(3) ents disj a'(3) unfolding hm_rep_def by (metis length_list_update)
  moreover have "arena_mem a' g = arena_mem a g" if "g \<notin> hm_footprint it m cs" for g
    using that p a'(6) by (auto simp: hm_footprint_def)
  ultimately show ?thesis using a' fp by (intro exI [of _ a']) (auto simp: hm_step_def)
qed

end

section \<open>A larger table\<close>

lemma cs_map_eqI:
  assumes "unique_keys cs" "unique_keys cs'" "set cs' - {None} = set cs - {None}"
  shows "cs_map cs' = cs_map cs"
proof (intro ext option.expand)
  have iff: "cs_map cs' k = Some v \<longleftrightarrow> cs_map cs k = Some v" for k v
    using assms(3) unfolding unique_cs_map [OF assms(1)] unique_cs_map [OF assms(2)] by (metis Diff_iff insert_iff empty_iff option.distinct(1))
  then show "cs_map cs' k = None \<longleftrightarrow> cs_map cs k = None" for k by (metis not_None_eq)
  show "the (cs_map cs' k) = the (cs_map cs k)" if "cs_map cs' k \<noteq> None" for k using that iff by (metis option.exhaust option.sel)
qed

lemma cs_map_upd:
  assumes "unique_keys cs" "unique_keys cs'" "set cs' - {None} = insert (Some (k, w)) {c \<in> set cs - {None}. fst (the c) \<noteq> k}"
  shows "cs_map cs' = (cs_map cs)(k \<mapsto> w)"
proof
  fix k'
  have iff: "cs_map cs' k' = Some v \<longleftrightarrow> (if k' = k then v = w else cs_map cs k' = Some v)" for v
  proof -
    have "Some (k', v) \<in> set cs' \<longleftrightarrow> Some (k', v) \<in> set cs' - {None}" by simp
    then show ?thesis unfolding unique_cs_map [OF assms(1)] unique_cs_map [OF assms(2)] assms(3) by auto
  qed
  show "cs_map cs' k' = ((cs_map cs)(k \<mapsto> w)) k'"
  proof (cases "k' = k")
    case True
    then show ?thesis using iff [of w] by simp
  next
    case False
    then show ?thesis using iff by (cases "cs_map cs k'"; cases "cs_map cs' k'") auto
  qed
qed

fun entries :: "key_value list \<Rightarrow> (u8 list \<times> 'v) option list \<Rightarrow> 'v entry list" where
  "entries (kv # table) (None # cs) = entries table cs"
| "entries (kv # table) (Some c # cs) = (kv, c) # entries table cs"
| "entries table cs = []"

lemma entries_props:
  assumes "length table = length cs" "\<forall>i<length cs. kv_is_empty (table ! i) \<longleftrightarrow> cs ! i = None"
  shows "filter kv_is_not_empty_ref table = map fst (entries table cs)" "set (entries table cs) = pairs table cs"
    "length (entries table cs) = filled cs" "map snd (entries table cs) = map the (filter (\<lambda>c. c \<noteq> None) cs)"
proof -
  have "list_all2 (\<lambda>kv c. kv_is_empty kv \<longleftrightarrow> c = None) table cs" using assms by (simp add: list_all2_conv_all_nth)
  then have "filter kv_is_not_empty_ref table = map fst (entries table cs) \<and> set (entries table cs) = pairs table cs \<and>
    length (entries table cs) = filled cs \<and> map snd (entries table cs) = map the (filter (\<lambda>c. c \<noteq> None) cs)"
  proof (induction rule: list_all2_induct)
    case (Cons kv table c cs)
    have "kv_is_not_empty_ref kv \<longleftrightarrow> c \<noteq> None" using Cons.hyps by (simp add: kv_is_not_empty_ref_def kv_is_empty_def)
    moreover have "pairs (kv # table) (c # cs) = (case c of None \<Rightarrow> {} | Some x \<Rightarrow> {(kv, x)}) \<union> pairs table cs"
      by (cases c) (auto simp: pairs_def)
    ultimately show ?case using Cons.IH by (cases c) (simp_all add: filled_def)
  qed (simp add: pairs_def filled_def)
  then show "filter kv_is_not_empty_ref table = map fst (entries table cs)" "set (entries table cs) = pairs table cs"
    "length (entries table cs) = filled cs" "map snd (entries table cs) = map the (filter (\<lambda>c. c \<noteq> None) cs)" by blast+
qed

lemma place_loop_law:
  assumes tok: "table_ok h table cs" and len: "length cs = 2 ^ k" "k \<le> 63" and e: "e \<le> length cs" "cs ! slot (length cs) hash e = None"
    "\<And>j. 1 \<le> j \<Longrightarrow> j < e \<Longrightarrow> cs ! slot (length cs) hash j \<noteq> None" and j: "j < e"
  shows "place_loop table (length cs - 1) kv (unat hash + j) = Some (table[slot (length cs) hash e := kv])"
  using j
proof (induction "e - j" arbitrary: j)
  case (Suc d)
  have "(2 :: nat) ^ k \<le> 2 ^ 63" using len(2) by (intro power_increasing) auto
  then have "unat hash + j < 2 ^ 64 - 1" using unat_u32_less [of hash] e(1) Suc.prems len(1) by simp
  then have pr: "next_probe (length cs - 1) (unat hash + j) = (slot (length cs) hash (Suc j), unat hash + Suc j)"
    using next_probe_slot [of hash j k] len(1) by simp
  have i: "slot (length cs) hash (Suc j) < length cs" unfolding slot_def len(1) by simp
  have emp: "kv_is_empty (table ! slot (length cs) hash (Suc j)) \<longleftrightarrow> cs ! slot (length cs) hash (Suc j) = None" "length table = length cs"
    using tok i by (simp_all add: table_ok_def)
  show ?case
  proof (cases "Suc j = e")
    case True
    then show ?thesis using pr i emp e(2) by (subst place_loop.simps) simp
  next
    case False
    then have lt: "Suc j < e" using Suc.prems by simp
    have "place_loop table (length cs - 1) kv (unat hash + Suc j) = Some (table[slot (length cs) hash e := kv])"
      by (rule Suc.hyps(1)) (use Suc.hyps(2) lt in linarith)+
    then show ?thesis using pr i emp e(3) [of "Suc j"] lt by (subst place_loop.simps) simp
  qed
qed simp

lemma pairs_insert:
  assumes "length table = length cs" "s < length cs" "cs ! s = None"
  shows "pairs (table[s := kv]) (cs[s := Some (k, v)]) = insert (kv, k, v) (pairs table cs)"
proof (intro set_eqI iffI)
  fix p assume "p \<in> insert (kv, k, v) (pairs table cs)"
  then consider "p = (kv, k, v)" | i where "i < length cs" "fst p = table ! i" "cs ! i = Some (snd p)" "i \<noteq> s"
    using assms(3) by (fastforce simp: pairs_index)
  then show "p \<in> pairs (table[s := kv]) (cs[s := Some (k, v)])"
  proof cases
    case 1 then show ?thesis unfolding pairs_index using assms by (intro exI [of _ s]) simp
  next
    case (2 i) then show ?thesis unfolding pairs_index using assms by (intro exI [of _ i]) simp
  qed
qed (use pairs_update [OF _ assms(1,2)] in blast)

lemma place_all_law:
  assumes "table_ok h table cs" "length cs = 2 ^ k" "k \<le> 63" "filled cs + length ps < length cs" "distinct (map (fst \<circ> snd) ps)"
    "\<And>p v. p \<in> set ps \<Longrightarrow> Some (fst (snd p), v) \<notin> set cs"
    "\<And>p. p \<in> set ps \<Longrightarrow> \<not> kv_is_empty (fst p) \<and> kv_hash (fst p) = h (fst (snd p))"
  shows "\<exists>table' cs'. place_all table (length cs - 1) (map fst ps) = Some table' \<and> table_ok h table' cs' \<and> length cs' = length cs \<and>
    filled cs' = filled cs + length ps \<and> set cs' - {None} = set cs - {None} \<union> (Some \<circ> snd) ` set ps \<and>
    pairs table' cs' = pairs table cs \<union> set ps"
  using assms
proof (induction ps arbitrary: table cs)
  case (Cons p ps)
  obtain kv key v where p: "p = (kv, key, v)" by (cases p)
  have fresh: "Some (key, w) \<notin> set cs" for w using Cons.prems(6) [of p w] p by simp
  have "filled cs < length cs" using Cons.prems(4) by simp
  then obtain i where i: "i < length cs" "cs ! i = None" by (rule filled_none)
  obtain e where e: "1 \<le> e" "e \<le> length cs" "stops cs key (slot (length cs) (h key) e)"
    "\<And>j. 1 \<le> j \<Longrightarrow> j < e \<Longrightarrow> \<not> stops cs key (slot (length cs) (h key) j)" using first_stop [OF i] by blast
  let ?s = "slot (length cs) (h key) e"
  have s: "?s < length cs" unfolding slot_def Cons.prems(2) by simp
  have "cs ! ?s \<noteq> Some (key, w)" for w using fresh [of w] s by (metis nth_mem)
  then have none: "cs ! ?s = None" using e(3) by (cases "cs ! ?s") (auto simp: stops_def)
  have some: "cs ! slot (length cs) (h key) j \<noteq> None" if "1 \<le> j" "j < e" for j
    using e(4) [OF that] by (cases "cs ! slot (length cs) (h key) j") (simp_all add: stops_def)
  have ok: "probes_ok h cs" "unique_keys cs" "length table = length cs" and emp: "\<forall>i<length cs. kv_is_empty (table ! i) \<longleftrightarrow> cs ! i = None"
    using Cons.prems(1) by (simp_all add: table_ok_def)
  have first: "\<forall>j. 1 \<le> j \<longrightarrow> j < e \<longrightarrow> \<not> stops cs key (slot (length cs) (h key) j)" using e(4) by blast
  note ins = insert_first(1-4) [OF ok(1,2) e(1,2) none first, of v]
  have kv: "\<not> kv_is_empty kv" "kv_hash kv = h key" using Cons.prems(7) [of p] p by simp_all
  let ?t = "table[?s := kv]" and ?cs = "cs[?s := Some (key, v)]"
  have "kv_is_empty (?t ! i) \<longleftrightarrow> ?cs ! i = None" if "i < length cs" for i
    using that emp kv(1) ok(3) by (cases "i = ?s") simp_all
  then have tok: "table_ok h ?t ?cs" using ins(1,2) ok(3) by (simp add: table_ok_def)
  have pl: "place_loop table (length cs - 1) kv (unat (kv_hash kv)) = Some ?t"
    using place_loop_law [OF Cons.prems(1-3) e(2) none some, of 0 kv] e(1) kv(2) by simp
  have "\<exists>table' cs'. place_all ?t (length ?cs - 1) (map fst ps) = Some table' \<and> table_ok h table' cs' \<and> length cs' = length ?cs \<and>
    filled cs' = filled ?cs + length ps \<and> set cs' - {None} = set ?cs - {None} \<union> (Some \<circ> snd) ` set ps \<and>
    pairs table' cs' = pairs ?t ?cs \<union> set ps"
  proof (rule Cons.IH [OF tok])
    show "length ?cs = 2 ^ k" "k \<le> 63" using Cons.prems(2,3) by simp_all
    show "filled ?cs + length ps < length ?cs" using Cons.prems(4) ins(3) by simp
    show "distinct (map (fst \<circ> snd) ps)" using Cons.prems(5) by (simp add: comp_def)
    show "\<not> kv_is_empty (fst q) \<and> kv_hash (fst q) = h (fst (snd q))" if "q \<in> set ps" for q using Cons.prems(7) that by simp
    show "Some (fst (snd q), w) \<notin> set ?cs" if q: "q \<in> set ps" for q w
    proof
      assume "Some (fst (snd q), w) \<in> set ?cs"
      then have "Some (fst (snd q), w) \<in> set ?cs - {None}" by blast
      then have "Some (fst (snd q), w) \<in> insert (Some (key, v)) (set cs - {None})" by (simp only: ins(4))
      moreover have "fst (snd q) \<noteq> key" using Cons.prems(5) q p by force
      ultimately show False using Cons.prems(6) [of q w] q by simp
    qed
  qed
  then obtain table' cs' where r: "place_all ?t (length ?cs - 1) (map fst ps) = Some table'" "table_ok h table' cs'" "length cs' = length ?cs"
    "filled cs' = filled ?cs + length ps" "set cs' - {None} = set ?cs - {None} \<union> (Some \<circ> snd) ` set ps"
    "pairs table' cs' = pairs ?t ?cs \<union> set ps" by blast
  have "place_all table (length cs - 1) (map fst (p # ps)) = Some table'" using pl r(1) p by simp
  moreover have "set cs' - {None} = set cs - {None} \<union> (Some \<circ> snd) ` set (p # ps)" unfolding r(5) ins(4) p by simp
  moreover have "pairs table' cs' = pairs table cs \<union> set (p # ps)" unfolding r(6) pairs_insert [OF ok(3) s none] p by simp
  ultimately show ?case using r(2,3,4) ins(3) by (intro exI [of _ table'] exI [of _ cs']) simp
next
  case Nil
  then show ?case by (intro exI [of _ table] exI [of _ cs]) simp
qed

lemma some_the: "Some ` set (map the (filter (\<lambda>c. c \<noteq> None) cs)) = set cs - {None}"
proof (induction cs)
  case (Cons c cs)
  then show ?case by (cases c) (simp_all add: insert_Diff_if)
qed simp

lemma empty_table:
  fixes cs :: "(u8 list \<times> 'v) option list"
  assumes "cs = replicate n None"
  shows "table_ok h (replicate n kv_default) cs" "filled cs = 0" "pairs (replicate n kv_default) cs = {}" "set cs - {None} = {}" "length cs = n"
  using assms
  by (auto simp: table_ok_def kv_is_empty_def kv_default_def addr_is_null_def addr_null_pointer_def probes_ok_def unique_keys_def
      filled_def pairs_def in_set_zip)

lemma hm_resize_law:
  assumes inv: "arena_inv a" and rep: "hm_rep it h a m cs" and sat: "hm_is_saturated m"
  shows "\<exists>m' cs'. hm_resize m = Some m' \<and> hm_rep it h a m' cs' \<and> cs_map cs' = cs_map cs \<and> 2 * (filled cs' + 1) \<le> length cs' \<and>
    hm_footprint it m' cs' = hm_footprint it m cs"
proof -
  have tok: "table_ok h (hm_table m) cs" and ok: "unique_keys cs" and len: "length (hm_table m) = length cs"
    and emp: "\<forall>i<length cs. kv_is_empty (hm_table m ! i) \<longleftrightarrow> cs ! i = None" and ents: "\<forall>p\<in>pairs (hm_table m) cs. entry_ok it h a p"
    using rep by (simp_all add: hm_rep_def table_ok_def)
  obtain k where k: "length cs = 2 ^ k" "1 \<le> k" using rep by (auto simp: hm_rep_def)
  let ?n = "max (length (hm_table m) * 2) 8" and ?ps = "entries (hm_table m) cs"
  have full: "length cs \<le> 2 * filled cs" "filled cs \<le> 2 ^ 32" "hm_len m = filled cs"
    using rep sat len arena_len_bound [OF inv] by (auto simp: hm_rep_def hm_is_saturated_def)
  then have "(2 :: nat) ^ k \<le> 2 ^ 33" using k(1) by simp
  then have "k \<le> 33" by (rule power_le_imp_le_exp [rotated]) simp
  have "\<exists>k'. ?n = 2 ^ k' \<and> 1 \<le> k' \<and> k' \<le> 63"
  proof (cases "k = 1")
    case True
    then show ?thesis unfolding len k(1) by (intro exI [of _ 3]) simp
  next
    case False
    then have "(2 :: nat) ^ 2 \<le> 2 ^ k" using k(2) by (intro power_increasing) auto
    then show ?thesis using \<open>k \<le> 33\<close> unfolding len k(1) by (intro exI [of _ "Suc k"]) simp
  qed
  then obtain k' where k': "?n = 2 ^ k'" "1 \<le> k'" "k' \<le> 63" by blast
  let ?t0 = "replicate ?n kv_default" and ?cs0 = "replicate ?n None :: (u8 list \<times> 'a) option list"
  note e0 = empty_table [of ?cs0 ?n, OF refl]
  note ep = entries_props [OF len emp]
  have dist: "distinct (map (fst \<circ> snd) ?ps)" using unique_keys_distinct [OF ok] unfolding ep(4) [symmetric] by (simp add: comp_def)
  have sz: "2 * (filled cs + 1) \<le> ?n" "filled cs < ?n" using rep unfolding len by (auto simp: hm_rep_def max_def)
  have "\<exists>table' cs'. place_all ?t0 (length ?cs0 - 1) (map fst ?ps) = Some table' \<and> table_ok h table' cs' \<and> length cs' = length ?cs0 \<and>
    filled cs' = filled ?cs0 + length ?ps \<and> set cs' - {None} = set ?cs0 - {None} \<union> (Some \<circ> snd) ` set ?ps \<and>
    pairs table' cs' = pairs ?t0 ?cs0 \<union> set ?ps"
  proof (rule place_all_law [OF e0(1) _ k'(3) _ dist])
    show "length ?cs0 = 2 ^ k'" using k'(1) e0(5) by simp
    show "filled ?cs0 + length ?ps < length ?cs0" unfolding e0(2,5) ep(3) using sz(2) by simp
    show "\<not> kv_is_empty (fst p) \<and> kv_hash (fst p) = h (fst (snd p))" if "p \<in> set ?ps" for p
      using ents that unfolding ep(2) by (simp add: entry_ok_def)
  qed simp
  then obtain table' cs' where r: "place_all ?t0 (?n - 1) (map fst ?ps) = Some table'" "table_ok h table' cs'" "length cs' = ?n"
    "filled cs' = filled cs" "set cs' - {None} = (Some \<circ> snd) ` set ?ps" "pairs table' cs' = pairs (hm_table m) cs"
    unfolding e0(2-5) ep(2,3) by auto
  let ?m = "m\<lparr>hm_mask := ?n - 1, hm_table := table'\<rparr>"
  have "hm_resize m = Some ?m" using r(1) ep(1) by (simp add: hm_resize_def Let_def)
  moreover have "hm_rep it h a ?m cs'" using r(2,3,4,6) k' rep sz(1) by (auto simp: hm_rep_def)
  moreover have "cs_map cs' = cs_map cs"
  proof (rule cs_map_eqI [OF ok])
    show "unique_keys cs'" using r(2) by (simp add: table_ok_def)
    have "(Some \<circ> snd) ` set ?ps = Some ` set (map snd ?ps)" by (simp add: image_comp)
    also have "\<dots> = set cs - {None}" unfolding ep(4) by (rule some_the)
    finally show "set cs' - {None} = set cs - {None}" using r(5) by simp
  qed
  ultimately show ?thesis using r(3,4,6) sz(1) by (intro exI [of _ ?m] exI [of _ cs']) (simp add: hm_footprint_def)
qed

section \<open>The whole operation\<close>

context sized_item
begin

lemma mutate_law:
  assumes inv: "arena_inv a" and rep: "hm_rep it h a m cs" and key: "length key < 2 ^ 16" and half: "2 * (filled cs + 1) \<le> length cs"
    and M: "2 + length key + it_size it \<le> M" "M \<le> PAGE_SIZE" "arena_load M a < arena_cap M" and upd: "upd (cs_map cs key) s = Some (w, s')"
    and w: "storable it w"
  shows "\<exists>m' a' cs'. mutate_loop avx it m a key upd s (h key) (unat (h key)) = Some (w, s', m', a') \<and>
    hm_step it h M (2 + length key + it_size it) a m cs a' m' cs' \<and> cs_map cs' = (cs_map cs)(key \<mapsto> w)"
proof -
  obtain e where e: "1 \<le> e" "e \<le> length cs" "stops cs key (slot (length cs) (h key) e)"
    "\<And>j. 1 \<le> j \<Longrightarrow> j < e \<Longrightarrow> \<not> stops cs key (slot (length cs) (h key) j)" using hm_rep_stop [OF rep] by blast
  let ?s = "slot (length cs) (h key) e"
  have pr: "next_probe (hm_mask m) (unat (h key) + (e - 1)) = (?s, unat (h key) + e)" "?s < length cs"
    and len: "length (hm_table m) = length cs"
    using hm_rep_probe(1,2) [OF rep, of "e - 1" "h key"] hm_rep_probe(3) [OF rep, of 0] e(1,2) by simp_all
  have ok: "probes_ok h cs" "unique_keys cs" and emp: "kv_is_empty (hm_table m ! ?s) \<longleftrightarrow> cs ! ?s = None"
    using rep pr(2) by (auto simp: hm_rep_def table_ok_def)
  have run: "mutate_loop avx it m a key upd s (h key) (unat (h key)) = mutate_loop avx it m a key upd s (h key) (unat (h key) + (e - 1))"
    using mutate_loop_law [OF inv rep e(2,4), where j = 0] e(1) by simp
  show ?thesis
  proof (cases "cs ! ?s")
    case None
    have first: "\<forall>j. 1 \<le> j \<longrightarrow> j < e \<longrightarrow> \<not> stops cs key (slot (length cs) (h key) j)" using e(4) by blast
    note ins = insert_first(1-4) [OF ok e(1,2) None first, of w] and fresh = insert_first(5) [OF ok e(1,2) None first]
    then have old: "cs_map cs key = None" using unique_cs_map [OF ok(2), of key] by (cases "cs_map cs key") auto
    let ?v = w and ?cs = "cs[?s := Some (key, w)]"
    from hm_create_law [OF inv rep key w e(1,2) None e(4) half M, of avx] obtain m' a' where
      c: "hm_create avx it m a key (h key) ?v ?s = Some (m', a')" "arena_inv a'" "hm_rep it h a' m' ?cs" "arena_len a \<le> arena_len a'"
        "\<forall>g<arena_len a. arena_mem a' g = arena_mem a g" "arena_load M a' \<le> arena_load M a + (2 + length key + it_size it)"
        "hm_footprint it m' ?cs \<subseteq> hm_footprint it m cs \<union> {arena_len a..}" by blast
    have "mutate_loop avx it m a key upd s (h key) (unat (h key) + (e - 1)) = Some (w, s', m', a')"
      using pr len emp None c(1) upd old by (subst mutate_loop.simps) simp
    moreover have "hm_step it h M (2 + length key + it_size it) a m cs a' m' ?cs" using c(2-7) by (simp add: hm_step_def)
    moreover have "cs_map ?cs = (cs_map cs)(key \<mapsto> ?v)"
    proof (rule cs_map_upd [OF ok(2)])
      show "unique_keys ?cs" by (rule ins(2))
      have "{c \<in> set cs - {None}. fst (the c) \<noteq> key} = set cs - {None}" using fresh by force
      then show "set ?cs - {None} = insert (Some (key, ?v)) {c \<in> set cs - {None}. fst (the c) \<noteq> key}" using ins(4) by simp
    qed
    ultimately show ?thesis using run old by (intro exI [of _ m'] exI [of _ a'] exI [of _ ?cs]) simp
  next
    case (Some c)
    then obtain v where c: "cs ! ?s = Some (key, v)" using e(3) by (cases c) (auto simp: stops_def)
    have "Some (key, v) \<in> set cs" using c pr(2) by (metis nth_mem)
    then have old: "cs_map cs key = Some v" using unique_cs_map [OF ok(2)] by blast
    have "(hm_table m ! ?s, key, v) \<in> pairs (hm_table m) cs" by (rule pairs_nth [OF pr(2) len c])
    then have eok: "entry_ok it h a (hm_table m ! ?s, key, v)" using rep by (simp add: hm_rep_def)
    from entry_match [OF inv eok, of key] obtain va where
      va: "(if kv_hash (hm_table m ! ?s) = h key then get_value_addr_if_key_match a key (kv_addr (hm_table m ! ?s)) else Some None) = Some (Some va)"
        "unat va = entry_start (hm_table m ! ?s, key, v) + 2 + length key" "arena_read it a va = Some v" by auto
    let ?w = w and ?cs = "cs[?s := Some (key, w)]"
    from hm_update_law [OF inv rep pr(2) c va(2) w, of M "2 + length key + it_size it"] obtain a' where
      a': "arena_write_at it a va ?w = Some a'" "hm_step it h M (2 + length key + it_size it) a m cs a' m ?cs" by blast
    have "mutate_loop avx it m a key upd s (h key) (unat (h key) + (e - 1)) = Some (w, s', m, a')"
      using pr len emp c a'(1) va(3) upd old by (subst mutate_loop.simps) (simp add: Let_def va(1))
    moreover have "cs_map ?cs = (cs_map cs)(key \<mapsto> ?w)"
    proof (rule cs_map_upd [OF ok(2)])
      note rp = replace_table [OF ok pr(2) c, of ?w]
      show "unique_keys ?cs" by (rule rp(2))
      have "fst (the x) \<noteq> key \<longleftrightarrow> x \<noteq> Some (key, v)" if xs: "x \<in> set cs - {None}" for x
      proof -
        obtain k' v' where x: "x = Some (k', v')" using xs by (cases x) auto
        then have "cs_map cs k' = Some v'" using xs unique_cs_map [OF ok(2)] by blast
        then show ?thesis using old x by auto
      qed
      then show "set ?cs - {None} = insert (Some (key, ?w)) {x \<in> set cs - {None}. fst (the x) \<noteq> key}" unfolding rp(4) by auto
    qed
    ultimately show ?thesis using run old a'(2) by (intro exI [of _ m] exI [of _ a'] exI [of _ ?cs]) simp
  qed
qed

lemma hm_mutate_or_create_law:
  assumes inv: "arena_inv a" and rep: "hm_rep it h a m cs" and key: "key' = key_prefix key"
    and M: "2 + length key' + it_size it \<le> M" "M \<le> PAGE_SIZE" "arena_load M a < arena_cap M"
    and upd: "upd (cs_map cs key') s = Some (w, s')" and w: "storable it w"
  shows "\<exists>m' a' cs'. hm_mutate_or_create h avx it m a key upd s = Some (w, s', m', a') \<and>
    hm_step it h M (2 + length key' + it_size it) a m cs a' m' cs' \<and> cs_map cs' = (cs_map cs)(key' \<mapsto> w)"
proof -
  have "\<exists>m1 cs1. (if hm_is_saturated m then hm_resize m else Some m) = Some m1 \<and> hm_rep it h a m1 cs1 \<and> cs_map cs1 = cs_map cs \<and>
    2 * (filled cs1 + 1) \<le> length cs1 \<and> hm_footprint it m1 cs1 = hm_footprint it m cs"
  proof (cases "hm_is_saturated m")
    case True
    then show ?thesis using hm_resize_law [OF inv rep True] by simp
  next
    case False
    obtain k where k: "length cs = 2 ^ k" "1 \<le> k" using rep by (auto simp: hm_rep_def)
    then have "even (length cs)" by simp
    moreover have "2 * filled cs < length cs" using False rep by (simp add: hm_is_saturated_def hm_rep_def table_ok_def)
    ultimately have "2 * (filled cs + 1) \<le> length cs" by presburger
    then show ?thesis using False rep by (intro exI [of _ m] exI [of _ cs]) simp
  qed
  then obtain m1 cs1 where 1: "(if hm_is_saturated m then hm_resize m else Some m) = Some m1" "hm_rep it h a m1 cs1" "cs_map cs1 = cs_map cs"
    "2 * (filled cs1 + 1) \<le> length cs1" "hm_footprint it m1 cs1 = hm_footprint it m cs" by blast
  have "length key' < 2 ^ 16" using key by (simp add: key_prefix_def)
  from mutate_law [OF inv 1(2) this 1(4) M, of upd s w s' avx] upd [folded 1(3)] w obtain m' a' cs' where
    r: "mutate_loop avx it m1 a key' upd s (h key') (unat (h key')) = Some (w, s', m', a')"
      "hm_step it h M (2 + length key' + it_size it) a m1 cs1 a' m' cs'" "cs_map cs' = (cs_map cs1)(key' \<mapsto> w)" by blast
  have "hm_mutate_or_create h avx it m a key upd s = Some (w, s', m', a')"
    unfolding hm_mutate_or_create_def 1(1) using r(1) key by (simp add: Let_def)
  then show ?thesis using r(2,3) 1(3,5) by (intro exI [of _ m'] exI [of _ a'] exI [of _ cs']) (simp add: hm_step_def)
qed

text \<open>Every entry shows up once in the iteration.\<close>

lemma hm_iter_law:
  assumes inv: "arena_inv a" and rep: "hm_rep it h a m cs"
  shows "\<exists>l. hm_iter m a = Some l \<and> distinct (map fst l) \<and> length l = hm_len m \<and>
    (\<forall>k va. (k, va) \<in> set l \<longrightarrow> arena_read it a va = cs_map cs k \<and> cs_map cs k \<noteq> None) \<and> fst ` set l = dom (cs_map cs)"
proof -
  have ok: "unique_keys cs" and len: "length (hm_table m) = length cs" and ents: "\<forall>p\<in>pairs (hm_table m) cs. entry_ok it h a p"
    and emp: "\<forall>i<length cs. kv_is_empty (hm_table m ! i) \<longleftrightarrow> cs ! i = None"
    using rep by (simp_all add: hm_rep_def table_ok_def)
  note ep = entries_props [OF len emp]
  let ?ps = "entries (hm_table m) cs"
  have "\<forall>p\<in>set ?ps. \<exists>va. get_key_value a (kv_addr (fst p)) = Some (fst (snd p), va) \<and> arena_read it a va = Some (snd (snd p))"
  proof
    fix p assume "p \<in> set ?ps"
    then have "entry_ok it h a (fst p, fst (snd p), snd (snd p))" using ents unfolding ep(2) by simp
    from entry_read [OF inv this]
    show "\<exists>va. get_key_value a (kv_addr (fst p)) = Some (fst (snd p), va) \<and> arena_read it a va = Some (snd (snd p))" by blast
  qed
  from bchoice [OF this] obtain VA where rd: "\<forall>p\<in>set ?ps. get_key_value a (kv_addr (fst p)) = Some (fst (snd p), VA p) \<and> arena_read it a (VA p) = Some (snd (snd p))"
    by (rule exE)
  let ?l = "map (\<lambda>p. (fst (snd p), VA p)) ?ps"
  have keys: "map fst ?l = map fst (map the (filter (\<lambda>c. c \<noteq> None) cs))" unfolding ep(4) [symmetric] by simp
  have cm: "cs_map cs = map_of (map snd ?ps)" unfolding ep(4) by (rule ext) (simp add: cs_map_def)
  have d: "distinct (map fst (map snd ?ps))" using unique_keys_distinct [OF ok] unfolding ep(4) .
  have it: "hm_iter m a = Some ?l" unfolding hm_iter_def ep(1) map_opt_map using rd by (intro map_opt_Some) simp
  have get: "cs_map cs (fst (snd p)) = Some (snd (snd p))" if "p \<in> set ?ps" for p
    unfolding cm using d that by (intro map_of_is_SomeI) (auto intro: rev_image_eqI)
  have "arena_read it a va = cs_map cs k \<and> cs_map cs k \<noteq> None" if kva: "(k, va) \<in> set ?l" for k va
  proof -
    obtain p where "p \<in> set ?ps" "k = fst (snd p)" "va = VA p" using kva by auto
    then show ?thesis using rd get by simp
  qed
  moreover have "fst ` set ?l = dom (cs_map cs)" unfolding cm dom_map_of_conv_image_fst by (simp add: image_comp comp_def)
  moreover have "distinct (map fst ?l)" unfolding keys by (rule unique_keys_distinct [OF ok])
  moreover have "length ?l = hm_len m" using ep(3) rep by (simp add: hm_rep_def)
  ultimately show ?thesis using it by blast
qed

end

lemma hm_with_capacity_law:
  fixes it :: "'v item_layout"
  assumes "2 \<le> n" "n < 2 ^ 64" "arena_inv a"
  shows "\<exists>m (cs :: (u8 list \<times> 'v) option list). hm_with_capacity n = Some m \<and> hm_rep it h a m cs \<and> cs_map cs = Map.empty \<and>
    hm_footprint it m cs = {}"
proof -
  let ?k = "63 - leading_zeros (word_of_nat n)"
  let ?cs = "replicate (2 ^ ?k) None :: (u8 list \<times> 'v) option list"
  let ?m = "\<lparr>hm_table = replicate (2 ^ ?k) kv_default, hm_mask = 2 ^ ?k - 1, hm_len = 0\<rparr>"
  note e0 = empty_table [of ?cs "2 ^ ?k", OF refl]
  have "n < 2 ^ (64 - leading_zeros (word_of_nat n))" using unat_less_amplitude [of "word_of_nat n"] assms(2) by (simp add: unat_of_nat)
  moreover have "(2 :: nat) ^ (64 - leading_zeros (word_of_nat n)) \<le> 2 ^ 1" if "64 - leading_zeros (word_of_nat n) \<le> 1"
    using that by (intro power_increasing) auto
  ultimately have "1 \<le> ?k" using assms(1) by (cases "64 - leading_zeros (word_of_nat n) \<le> 1") auto
  moreover have "cs_map ?cs = Map.empty" by (rule ext) (simp add: cs_map_def)
  ultimately show ?thesis using assms(1) e0
    by (intro exI [of _ ?m] exI [of _ ?cs]) (auto simp: hm_with_capacity_def compute_previous_power_of_two_def hm_rep_def hm_footprint_def)
qed

section \<open>Runs\<close>

fun ah_run :: "(u8 list \<Rightarrow> u32) \<Rightarrow> bool \<Rightarrow> 'v item_layout \<Rightarrow> (u8 list \<times> ('v, 's) updater) list \<Rightarrow> 's \<Rightarrow> arena_hashmap \<Rightarrow>
    ('s \<times> arena_hashmap) option" where
  "ah_run h avx it [] s m = Some (s, m)"
| "ah_run h avx it ((key, upd) # ups) s m = ah_mutate_or_create h avx it m key upd s \<bind> (\<lambda>(s', m'). ah_run h avx it ups s' m')"

text \<open>The same updates on a finite map, under the prefixes of the keys.\<close>

fun map_run :: "(u8 list \<times> ('v, 's) updater) list \<Rightarrow> 's \<Rightarrow> (u8 list \<Rightarrow> 'v option) \<Rightarrow> ('s \<times> (u8 list \<Rightarrow> 'v option)) option" where
  "map_run [] s f = Some (s, f)"
| "map_run ((key, upd) # ups) s f = upd (f (key_prefix key)) s \<bind> (\<lambda>(v, s'). map_run ups s' (f(key_prefix key \<mapsto> v)))"

definition run_bytes :: "'v item_layout \<Rightarrow> u8 list list \<Rightarrow> nat" where
  "run_bytes it keys = sum_list (map (\<lambda>key. 2 + length (key_prefix key) + it_size it) keys)"

definition ah_rep :: "'v item_layout \<Rightarrow> (u8 list \<Rightarrow> u32) \<Rightarrow> arena_hashmap \<Rightarrow> (u8 list \<Rightarrow> 'v option) \<Rightarrow> bool" where
  "ah_rep it h m f \<longleftrightarrow>
     arena_inv (ah_memory_arena m) \<and> (\<exists>cs. hm_rep it h (ah_memory_arena m) (ah_shared_arena_hashmap m) cs \<and> cs_map cs = f)"

abbreviation ah_load :: "'v item_layout \<Rightarrow> arena_hashmap \<Rightarrow> nat" where
  "ah_load it m \<equiv> arena_load (2 + 65535 + it_size it) (ah_memory_arena m)"

abbreviation ah_cap :: "'v item_layout \<Rightarrow> nat" where
  "ah_cap it \<equiv> arena_cap (2 + 65535 + it_size it)"

lemma ah_start:
  assumes "2 \<le> capacity" "capacity < 2 ^ 64"
  shows "\<exists>m. ah_with_capacity capacity = Some m \<and> ah_rep it h m Map.empty \<and> ah_load it m = 0"
proof -
  obtain a where a: "arena_default = Some a" "arena_inv a" "arena_load (2 + 65535 + it_size it) a = 0" using arena_default_law by blast
  obtain m0 cs0 where "hm_with_capacity capacity = Some m0" "hm_rep it h a m0 cs0" "cs_map cs0 = Map.empty"
    using hm_with_capacity_law [OF assms a(2), of it h] by blast
  then show ?thesis unfolding ah_with_capacity_def a(1)
    using a(2,3) by (intro exI [of _ "\<lparr>ah_shared_arena_hashmap = m0, ah_memory_arena = a\<rparr>"]) (auto simp: ah_rep_def)
qed

context sized_item
begin

lemma ah_update:
  assumes "ah_rep it h m f" "2 + 65535 + it_size it \<le> PAGE_SIZE" "ah_load it m + (2 + length (key_prefix key) + it_size it) \<le> ah_cap it"
    "upd (f (key_prefix key)) s = Some (w, s')" "storable it w"
  shows "\<exists>m'. ah_mutate_or_create h avx it m key upd s = Some (s', m') \<and> ah_rep it h m' (f(key_prefix key \<mapsto> w)) \<and>
    ah_load it m' \<le> ah_load it m + (2 + length (key_prefix key) + it_size it)"
proof -
  obtain cs where cs: "arena_inv (ah_memory_arena m)" "hm_rep it h (ah_memory_arena m) (ah_shared_arena_hashmap m) cs" "cs_map cs = f"
    using assms(1) by (auto simp: ah_rep_def)
  have b: "2 + length (key_prefix key) + it_size it \<le> 2 + 65535 + it_size it" "ah_load it m < ah_cap it"
    using assms(3) by (auto simp: key_prefix_def)
  from hm_mutate_or_create_law [OF cs(1,2) refl b(1) assms(2) b(2), of upd s w s' avx] assms(4) [folded cs(3)] assms(5) obtain h' a' cs' where
    "hm_mutate_or_create h avx it (ah_shared_arena_hashmap m) (ah_memory_arena m) key upd s = Some (w, s', h', a')"
    "hm_step it h (2 + 65535 + it_size it) (2 + length (key_prefix key) + it_size it) (ah_memory_arena m) (ah_shared_arena_hashmap m) cs a' h' cs'"
    "cs_map cs' = (cs_map cs)(key_prefix key \<mapsto> w)" by blast
  then show ?thesis using cs(3)
    by (intro exI [of _ "\<lparr>ah_shared_arena_hashmap = h', ah_memory_arena = a'\<rparr>"])
      (auto simp: ah_mutate_or_create_def ah_rep_def hm_step_def)
qed

lemma ah_run_law:
  assumes "ah_rep it h m f" and M: "2 + 65535 + it_size it \<le> PAGE_SIZE" and "ah_load it m + run_bytes it (map fst ups) \<le> ah_cap it"
    "map_run ups s f = Some (s', f')" and all: "\<And>v. storable it v"
  shows "\<exists>m'. ah_run h avx it ups s m = Some (s', m') \<and> ah_rep it h m' f'"
  using assms(1,3,4)
proof (induction ups arbitrary: m f s)
  case (Cons u ups)
  obtain key upd where u: "u = (key, upd)" by (cases u)
  obtain w s1 where w: "upd (f (key_prefix key)) s = Some (w, s1)" "map_run ups s1 (f(key_prefix key \<mapsto> w)) = Some (s', f')"
    using Cons.prems(3) unfolding u by (auto split: bind_splits)
  have c: "run_bytes it (map fst (u # ups)) = 2 + length (key_prefix key) + it_size it + run_bytes it (map fst ups)" by (simp add: run_bytes_def u)
  then have "ah_load it m + (2 + length (key_prefix key) + it_size it) \<le> ah_cap it" using Cons.prems(2) by linarith
  from ah_update [OF Cons.prems(1) M this, of upd s w s1 avx] w(1) all obtain m' where
    m': "ah_mutate_or_create h avx it m key upd s = Some (s1, m')" "ah_rep it h m' (f(key_prefix key \<mapsto> w))"
      "ah_load it m' \<le> ah_load it m + (2 + length (key_prefix key) + it_size it)" by blast
  have "ah_load it m' + run_bytes it (map fst ups) \<le> ah_cap it" using m'(3) Cons.prems(2) c by linarith
  from Cons.IH [OF m'(2) this w(2)] show ?case unfolding u using m'(1) by simp
qed simp

lemma ah_get_law: "ah_rep it h m f \<Longrightarrow> ah_get h it m key = Some (f key)"
  using hm_get_law by (auto simp: ah_rep_def ah_get_def)

lemma ah_iter_law:
  assumes "ah_rep it h m f"
  shows "\<exists>l. ah_iter m = Some l \<and> distinct (map fst l) \<and> ah_len m = card (dom f) \<and> fst ` set l = dom f \<and>
    (\<forall>k va. (k, va) \<in> set l \<longrightarrow> ah_read it m va = f k)"
proof -
  obtain cs where cs: "arena_inv (ah_memory_arena m)" "hm_rep it h (ah_memory_arena m) (ah_shared_arena_hashmap m) cs" "cs_map cs = f"
    using assms by (auto simp: ah_rep_def)
  obtain l where l: "ah_iter m = Some l" "distinct (map fst l)" "length l = ah_len m" "fst ` set l = dom (cs_map cs)"
    "\<forall>k va. (k, va) \<in> set l \<longrightarrow> ah_read it m va = cs_map cs k"
    using hm_iter_law [OF cs(1,2)] unfolding ah_iter_def ah_len_def ah_read_def by blast
  have "ah_len m = card (dom f)" using l(2,3,4) cs(3) by (metis distinct_card length_map set_map)
  then show ?thesis using l cs(3) by (intro exI [of _ l]) simp
qed

end

text \<open>
  Property C16. The hash map of the indexer refines a finite map. From any capacity of at least two buckets and for any
  sequence of updates that fits the arena, whatever the hash function, no operation panics or probes forever unless
  an updater does: the lookup of every key returns what the finite map holds under the same updates, \<open>len\<close> is the
  number of keys, and the iteration lists each key once, with the address its value is read from. The state
  the updaters share is threaded through them in order.
\<close>

theorem hash_map_refines_map:
  assumes "copy_item it" "2 + 65535 + it_size it \<le> PAGE_SIZE" "2 \<le> capacity" "capacity < 2 ^ 64"
    "run_bytes it (map fst ups) \<le> ah_cap it" "map_run ups s Map.empty = Some (s', f)"
  shows "\<exists>m l. ah_with_capacity capacity \<bind> ah_run h avx it ups s = Some (s', m) \<and>
    (\<forall>key. ah_get h it m key = Some (f key)) \<and> ah_len m = card (dom f) \<and>
    ah_iter m = Some l \<and> distinct (map fst l) \<and> fst ` set l = dom f \<and> (\<forall>k va. (k, va) \<in> set l \<longrightarrow> ah_read it m va = f k)"
proof -
  have sz: "sized_item it" and all: "\<And>v. storable it v" using copy_item.axioms(1) [OF assms(1)] copy_item.all_storable [OF assms(1)] .
  obtain m0 where m0: "ah_with_capacity capacity = Some m0" "ah_rep it h m0 Map.empty" "ah_load it m0 = 0"
    using ah_start [OF assms(3,4)] by blast
  obtain m where m: "ah_run h avx it ups s m0 = Some (s', m)" "ah_rep it h m f"
    using sized_item.ah_run_law [OF sz m0(2) assms(2) _ assms(6) all] m0(3) assms(5) by auto
  obtain l where "ah_iter m = Some l" "distinct (map fst l)" "ah_len m = card (dom f)" "fst ` set l = dom f"
    "\<forall>k va. (k, va) \<in> set l \<longrightarrow> ah_read it m va = f k" using sized_item.ah_iter_law [OF sz m(2)] by blast
  moreover have "\<forall>key. ah_get h it m key = Some (f key)" using sized_item.ah_get_law [OF sz m(2)] by blast
  ultimately show ?thesis using m0(1) m(1) by (intro exI [of _ m] exI [of _ l]) simp
qed

theorem hash_map_refines_map_witness:
  "\<exists>m l. ah_with_capacity 2 \<bind> ah_run (\<lambda>k. word_of_nat (length k)) True u32_layout
      [([1], \<lambda>_ n. Some (7, n + 1)), ([2], \<lambda>_ n. Some (8, n + 1)), ([1], \<lambda>v n. Some (the v + 1, n + 1)), ([3, 4], \<lambda>_ n. Some (5, n + 1))] (0 :: nat) =
      Some (4, m) \<and>
    ah_get (\<lambda>k. word_of_nat (length k)) u32_layout m [1] = Some (Some 8) \<and>
    ah_get (\<lambda>k. word_of_nat (length k)) u32_layout m [9] = Some None \<and> ah_iter m = Some l"
proof -
  let ?ups = "[([1], \<lambda>_ n. Some (7, n + 1)), ([2], \<lambda>_ n. Some (8, n + 1)), ([1], \<lambda>v n. Some (the v + 1, n + 1)), ([3, 4], \<lambda>_ n. Some (5, n + 1))]
    :: (u8 list \<times> (u32, nat) updater) list"
  let ?f = "[[1] \<mapsto> 7, [2] \<mapsto> 8, [1] \<mapsto> 8, [3, 4] \<mapsto> 5] :: u8 list \<Rightarrow> u32 option"
  have b: "2 + 65535 + it_size u32_layout \<le> PAGE_SIZE" "run_bytes u32_layout (map fst ?ups) \<le> ah_cap u32_layout"
    by (simp_all add: u32_layout_def PAGE_SIZE_def NUM_BITS_PAGE_ADDR_def run_bytes_def arena_cap_def key_prefix_def)
  have "map_run ?ups 0 Map.empty = Some (4, ?f)" by (simp add: key_prefix_def)
  from hash_map_refines_map [OF u32_item.copy_item_axioms b(1) _ _ b(2) this, of 2 "\<lambda>k. word_of_nat (length k)" True] obtain m l where
    r: "ah_with_capacity 2 \<bind> ah_run (\<lambda>k. word_of_nat (length k)) True u32_layout ?ups 0 = Some (4, m)"
      "\<forall>key. ah_get (\<lambda>k. word_of_nat (length k)) u32_layout m key = Some (?f key)" "ah_iter m = Some l" by auto
  have "?f [1] = Some 8" "?f [9] = None" by simp_all
  then show ?thesis using r by (intro exI [of _ m] exI [of _ l]) simp
qed

section \<open>Corners\<close>

text \<open>In a table of one bucket that holds another key, the lookup loop goes round for ever.\<close>

lemma get_loop_stuck:
  assumes "hm_mask m = 0" "hm_table m = [kv]" "\<not> kv_is_empty kv"
    "(if kv_hash kv = hash then get_value_addr_if_key_match a key (kv_addr kv) else Some None) = Some None"
  shows "get_loop it m a key hash pos = None"
proof -
  let ?stuck = "\<lambda>m a key hash. hm_mask m = 0 \<and> hm_table m = [kv] \<and> \<not> kv_is_empty kv \<and>
    (if kv_hash kv = hash then get_value_addr_if_key_match a key (kv_addr kv) else Some None) = Some None"
  have "\<not> ?stuck m a key hash" if "get_loop it m a key hash pos = Some r" for r
    using that
    apply (rule get_loop.raw_induct [where P = "\<lambda>it m a key hash pos r. \<not> ?stuck m a key hash", rotated])
    subgoal premises p for gl it m a key hash pos r
    proof
      assume st: "?stuck m a key hash"
      have "gl it m a key hash ((pos + 1) mod 2 ^ 64) = Some r" using p(2) st by (simp add: next_probe_def)
      from p(1) [OF this] st show False by blast
    qed
    done
  then show ?thesis using assms by (cases "get_loop it m a key hash pos") simp_all
qed

lemma leading_zeros_1: "leading_zeros 1 = 63"
proof -
  have "leading_zeros 1 < 64" using leading_zeros_props(2) [of 1 0] by simp
  then show ?thesis using leading_zeros_props(3) [of 1] by (simp add: bit_1_iff)
qed

context sized_item
begin

lemma capacity_one_stuck:
  assumes M: "2 + 65535 + it_size it < PAGE_SIZE" and key: "key \<noteq> key_prefix k" and v: "storable it v"
  shows "\<exists>m. ah_with_capacity 1 \<bind> ah_run h avx it [(k, \<lambda>_ s. Some (v, s))] s = Some (s, m) \<and> ah_get h it m key = None"
proof -
  let ?k = "key_prefix k" and ?M = "2 + 65535 + it_size it"
  let ?m = "\<lparr>hm_table = [kv_default], hm_mask = 0, hm_len = 0\<rparr>"
  obtain a where a: "arena_default = Some a" "arena_inv a" "arena_load ?M a = 0" using arena_default_law by blast
  have k: "length ?k < 2 ^ 16" "2 + length ?k + it_size it \<le> ?M" by (simp_all add: key_prefix_def)
  have load: "arena_load ?M a < arena_cap ?M" "?M \<le> PAGE_SIZE" using a(3) M by (simp_all add: arena_cap_def)
  from create_entry [OF a(2) k(1) _ v k(2) load(2,1), of 0 ?m avx h] obtain adr a' where
    c: "hm_create avx it ?m a ?k (h ?k) v 0 = Some (\<lparr>hm_table = [\<lparr>kv_addr = adr, kv_hash = h ?k\<rparr>], hm_mask = 0, hm_len = 1\<rparr>, a')"
      "entry_ok it h a' (\<lparr>kv_addr = adr, kv_hash = h ?k\<rparr>, ?k, v)" "arena_inv a'" by auto
  let ?kv = "\<lparr>kv_addr = adr, kv_hash = h ?k\<rparr>"
  let ?m1 = "\<lparr>hm_table = [?kv], hm_mask = 0, hm_len = 1\<rparr>"
  have "compute_previous_power_of_two 1 = Some 1" by (simp add: compute_previous_power_of_two_def leading_zeros_1)
  then have start: "ah_with_capacity 1 = Some \<lparr>ah_shared_arena_hashmap = ?m, ah_memory_arena = a\<rparr>"
    unfolding ah_with_capacity_def a(1) hm_with_capacity_def by simp
  have "kv_is_empty kv_default" by (simp add: kv_is_empty_def kv_default_def addr_is_null_def addr_null_pointer_def)
  then have "hm_mutate_or_create h avx it ?m a k (\<lambda>_ s. Some (v, s)) s = Some (v, s, ?m1, a')"
    using c(1) by (simp add: hm_mutate_or_create_def hm_is_saturated_def Let_def mutate_loop.simps next_probe_def)
  then have "ah_with_capacity 1 \<bind> ah_run h avx it [(k, \<lambda>_ s. Some (v, s))] s =
      Some (s, \<lparr>ah_shared_arena_hashmap = ?m1, ah_memory_arena = a'\<rparr>)" unfolding start by (simp add: ah_mutate_or_create_def)
  moreover have "ah_get h it \<lparr>ah_shared_arena_hashmap = ?m1, ah_memory_arena = a'\<rparr> key = None"
  proof -
    have ne: "\<not> kv_is_empty ?kv" using c(2) by (simp add: entry_ok_def)
    have other: "(if kv_hash ?kv = h key then get_value_addr_if_key_match a' key (kv_addr ?kv) else Some None) = Some None"
      using entry_match [OF c(3,2), of key] key by auto
    have "get_loop it ?m1 a' key (h key) (unat (h key)) = None" by (rule get_loop_stuck [OF _ _ ne other]) simp_all
    then show ?thesis by (simp add: ah_get_def hm_get_def)
  qed
  ultimately show ?thesis by blast
qed

lemma long_key_lost:
  assumes M: "2 + 65535 + it_size it \<le> PAGE_SIZE" "2 + 65535 + it_size it \<le> ah_cap it" and long: "65535 < length key" and v: "storable it v"
  shows "\<exists>m. ah_default \<bind> ah_run h avx it [(key, \<lambda>_ s. Some (v, s))] s = Some (s, m) \<and>
    ah_get h it m (key_prefix key) = Some (Some v) \<and> ah_get h it m key = Some None"
proof -
  obtain m0 where m0: "ah_default = Some m0" "ah_rep it h m0 Map.empty" "ah_load it m0 = 0"
    using ah_start [of 4 it h] unfolding ah_default_def by auto
  have "ah_load it m0 + (2 + length (key_prefix key) + it_size it) \<le> ah_cap it" using m0(3) M(2) by (simp add: key_prefix_def)
  from ah_update [OF m0(2) M(1) this, of "\<lambda>_ s. Some (v, s)" s v s avx] v obtain m where
    m: "ah_mutate_or_create h avx it m0 key (\<lambda>_ s. Some (v, s)) s = Some (s, m)" "ah_rep it h m [key_prefix key \<mapsto> v]" by auto
  have "key_prefix key \<noteq> key" using long by (auto simp: key_prefix_def dest: arg_cong [where f = length])
  then show ?thesis unfolding m0(1) using m(1) ah_get_law [OF m(2)] by (intro exI [of _ m]) simp
qed

end

text \<open>
  Property C17. Two corners of the hash map. A map created with room for one bucket fills up before it first grows:
  after one insertion, looking up any other key never returns. And a key longer than 65535 bytes is stored under
  its prefix while the lookup does not cut it, so right after being inserted it is not found.
\<close>

theorem hash_map_corners:
  assumes "copy_item it" "2 + 65535 + it_size it < PAGE_SIZE" "2 + 65535 + it_size it \<le> ah_cap it"
  shows "(\<forall>k key. key \<noteq> key_prefix k \<longrightarrow>
      (\<exists>m. ah_with_capacity 1 \<bind> ah_run h avx it [(k, \<lambda>_ s. Some (v, s))] s = Some (s, m) \<and> ah_get h it m key = None)) \<and>
    (\<forall>key. 65535 < length key \<longrightarrow>
      (\<exists>m. ah_default \<bind> ah_run h avx it [(key, \<lambda>_ s. Some (v, s))] s = Some (s, m) \<and>
        ah_get h it m (key_prefix key) = Some (Some v) \<and> ah_get h it m key = Some None))"
  by (intro conjI allI impI sized_item.capacity_one_stuck [OF copy_item.axioms(1) [OF assms(1)] assms(2)]
      sized_item.long_key_lost [OF copy_item.axioms(1) [OF assms(1)] less_imp_le [OF assms(2)] assms(3)] copy_item.all_storable [OF assms(1)])

theorem hash_map_corners_witness:
  "(\<exists>m. ah_with_capacity 1 \<bind> ah_run (\<lambda>_. 0) True u32_layout [([1], \<lambda>_ s. Some (5, s))] () = Some ((), m) \<and>
      ah_get (\<lambda>_. 0) u32_layout m [2] = None) \<and>
   (\<exists>m. ah_default \<bind> ah_run (\<lambda>_. 0) True u32_layout [(replicate 65536 7, \<lambda>_ s. Some (5, s))] () = Some ((), m) \<and>
      ah_get (\<lambda>_. 0) u32_layout m (replicate 65536 7) = Some None)"
proof -
  have b: "2 + 65535 + it_size u32_layout < PAGE_SIZE" "2 + 65535 + it_size u32_layout \<le> ah_cap u32_layout"
    by (simp_all add: u32_layout_def PAGE_SIZE_def NUM_BITS_PAGE_ADDR_def arena_cap_def)
  note c = hash_map_corners [OF u32_item.copy_item_axioms b, of "\<lambda>_. 0" True 5 "()"]
  have "[2] \<noteq> key_prefix [1 :: u8]" by (simp add: key_prefix_def)
  moreover have "65535 < length (replicate 65536 (7 :: u8))" by (simp only: length_replicate)
  ultimately show ?thesis using conjunct1 [OF c] conjunct2 [OF c] by blast
qed

end
