(* ===== verification/PostingsWriter.thy ===== *)
theory PostingsWriter
  imports Recorder HashMapCorrect "HOL-Library.List_Lexorder" "HOL-Library.Product_Lexorder"
begin

text \<open>
  Building the inverted index of a segment in memory, \<^verbatim>\<open>src/postings/postings_writer.rs\<close>, \<^verbatim>\<open>indexing_context.rs\<close> and
  \<^verbatim>\<open>src/indexer/indexing_term.rs\<close>: the terms of a document are subscribed one occurrence at a time to a hash map from
  terms to recorders, whose stacks share a second arena, and at the end all terms are serialised in the order of
  fields and terms. The serialiser is the log of the calls it receives. Fields whose values are JSON, and an index
  whose fields use recorders of different kinds, are not modelled.
\<close>

section \<open>Terms\<close>

definition TERM_METADATA_LENGTH :: nat where
  "TERM_METADATA_LENGTH = 4"

type_synonym indexing_term = "u8 list"

definition be_bytes :: "nat \<Rightarrow> nat \<Rightarrow> u8 list" where
  "be_bytes n x = rev (le_bytes n x)"

definition be_nat :: "u8 list \<Rightarrow> nat" where
  "be_nat bs = le_nat (rev bs)"

definition term_with_capacity :: "nat \<Rightarrow> indexing_term" where
  "term_with_capacity capacity = replicate TERM_METADATA_LENGTH 0"

definition term_is_empty :: "indexing_term \<Rightarrow> bool" where
  "term_is_empty t \<longleftrightarrow> length t = TERM_METADATA_LENGTH"

definition set_field :: "indexing_term \<Rightarrow> u32 \<Rightarrow> indexing_term option" where
  "set_field t field = (if term_is_empty t then Some (be_bytes 4 (unat field) @ drop 4 t) else None)"

definition truncate_value_bytes :: "indexing_term \<Rightarrow> nat \<Rightarrow> indexing_term" where
  "truncate_value_bytes t len = take (len + TERM_METADATA_LENGTH) t"

definition clear_with_field :: "indexing_term \<Rightarrow> u32 \<Rightarrow> indexing_term option" where
  "clear_with_field t field = set_field (truncate_value_bytes t 0) field"

definition set_bytes :: "indexing_term \<Rightarrow> u8 list \<Rightarrow> indexing_term" where
  "set_bytes t bytes = truncate_value_bytes t 0 @ bytes"

definition set_u64 :: "indexing_term \<Rightarrow> u64 \<Rightarrow> indexing_term" where
  "set_u64 t val = set_bytes t (be_bytes 8 (unat val))"

definition len_bytes :: "indexing_term \<Rightarrow> nat" where
  "len_bytes t = length t - TERM_METADATA_LENGTH"

definition append_bytes :: "indexing_term \<Rightarrow> u8 list \<Rightarrow> indexing_term" where
  "append_bytes t bytes = t @ bytes"

definition term_field :: "indexing_term \<Rightarrow> u32 option" where
  "term_field t = (if 4 \<le> length t then Some (word_of_nat (be_nat (take 4 t))) else None)"

section \<open>Indexing\<close>

record indexing_context =
  ic_term_index :: arena_hashmap
  ic_arena :: memory_arena

definition indexing_context_new :: "nat \<Rightarrow> indexing_context option" where
  "indexing_context_new table_size =
     ah_with_capacity table_size \<bind> (\<lambda>term_index.
     arena_default \<bind> (\<lambda>a. Some \<lparr>ic_term_index = term_index, ic_arena = a\<rparr>))"

definition ic_mem_usage :: "indexing_context \<Rightarrow> nat" where
  "ic_mem_usage ctx = ah_mem_usage (ic_term_index ctx) + arena_mem_usage (ic_arena ctx)"

definition compute_initial_table_size :: "nat \<Rightarrow> nat option" where
  "compute_initial_table_size per_thread_memory_budget =
     (let table_memory_upper_bound = per_thread_memory_budget div 3;
          capacities = takeWhile (\<lambda>capacity. compute_table_memory_size capacity < table_memory_upper_bound) (map (\<lambda>power. 2 ^ power) [10..<20])
      in if capacities = [] then None else Some (last capacities))"

text \<open>The closure \<open>subscribe\<close> gives to the hash map; the arena it captures is the state it is passed.\<close>

definition subscribe_update :: "'r recorder_ops \<Rightarrow> u32 \<Rightarrow> u32 \<Rightarrow> ('r, memory_arena) updater" where
  "subscribe_update rops doc position opt_recorder a =
     (case opt_recorder of
        Some rcd \<Rightarrow>
          (if rc_current_doc rops rcd \<noteq> doc then
             rc_close_doc rops rcd a \<bind> (\<lambda>(rcd1, a1). rc_new_doc rops rcd1 doc a1)
           else Some (rcd, a)) \<bind> (\<lambda>(rcd2, a2). rc_record_position rops rcd2 position a2)
      | None \<Rightarrow> rc_new_doc rops (rc_default rops) doc a \<bind> (\<lambda>(rcd1, a1). rc_record_position rops rcd1 position a1))"

text \<open>A writer is the number of tokens it has seen.\<close>

definition subscribe ::
  "(u8 list \<Rightarrow> u32) \<Rightarrow> bool \<Rightarrow> 'r item_layout \<Rightarrow> 'r recorder_ops \<Rightarrow> u64 \<Rightarrow> u32 \<Rightarrow> u32 \<Rightarrow> indexing_term \<Rightarrow> indexing_context \<Rightarrow>
     (u64 \<times> indexing_context) option" where
  "subscribe h avx it rops total_num_tokens doc position trm ctx =
     ah_mutate_or_create h avx it (ic_term_index ctx) trm (subscribe_update rops doc position) (ic_arena ctx) \<bind> (\<lambda>(a', term_index').
       Some (total_num_tokens + 1, \<lparr>ic_term_index = term_index', ic_arena = a'\<rparr>))"

definition MAX_TOKEN_LEN :: nat where
  "MAX_TOKEN_LEN = 2 ^ 16 - 1 - 5"

definition POSITION_GAP :: u32 where
  "POSITION_GAP = 1"

record token =
  tk_position :: nat
  tk_text :: "u8 list"
  tk_position_length :: nat

record indexing_position =
  ip_num_tokens :: u32
  ip_end_position :: u32

text \<open>The sink of the token stream, run on the tokens it yields.\<close>

fun index_tokens ::
  "(u8 list \<Rightarrow> u32) \<Rightarrow> bool \<Rightarrow> 'r item_layout \<Rightarrow> 'r recorder_ops \<Rightarrow> u32 \<Rightarrow> nat \<Rightarrow> u32 \<Rightarrow> token list \<Rightarrow>
     u64 \<times> indexing_context \<times> indexing_term \<times> u32 \<times> u32 \<Rightarrow> (u64 \<times> indexing_context \<times> indexing_term \<times> u32 \<times> u32) option" where
  "index_tokens h avx it rops doc end_of_path_idx start [] st = Some st"
| "index_tokens h avx it rops doc end_of_path_idx start (tok # toks) (num_seen, ctx, term_buffer, num_tokens, end_position) =
     (if MAX_TOKEN_LEN < length (tk_text tok) then
        index_tokens h avx it rops doc end_of_path_idx start toks (num_seen, ctx, term_buffer, num_tokens, end_position)
      else
        let term_buffer' = append_bytes (truncate_value_bytes term_buffer end_of_path_idx) (tk_text tok);
            start_position = start + word_of_nat (tk_position tok);
            end_position' = max end_position (start_position + word_of_nat (tk_position_length tok))
        in subscribe h avx it rops num_seen doc start_position term_buffer' ctx \<bind> (\<lambda>(num_seen', ctx').
           index_tokens h avx it rops doc end_of_path_idx start toks (num_seen', ctx', term_buffer', num_tokens + 1, end_position')))"

definition index_text ::
  "(u8 list \<Rightarrow> u32) \<Rightarrow> bool \<Rightarrow> 'r item_layout \<Rightarrow> 'r recorder_ops \<Rightarrow> u64 \<Rightarrow> u32 \<Rightarrow> token list \<Rightarrow> indexing_term \<Rightarrow> indexing_context \<Rightarrow>
     indexing_position \<Rightarrow> (u64 \<times> indexing_term \<times> indexing_context \<times> indexing_position) option" where
  "index_text h avx it rops num_seen doc_id token_stream term_buffer ctx indexing_position =
     (let end_of_path_idx = len_bytes term_buffer; end_position = ip_end_position indexing_position in
      index_tokens h avx it rops doc_id end_of_path_idx end_position token_stream (num_seen, ctx, term_buffer, 0, end_position) \<bind>
        (\<lambda>(num_seen', ctx', term_buffer', num_tokens, end_position').
        Some (num_seen', truncate_value_bytes term_buffer' end_of_path_idx, ctx',
          \<lparr>ip_num_tokens = ip_num_tokens indexing_position + num_tokens, ip_end_position = end_position' + POSITION_GAP\<rparr>)))"

section \<open>Serialising\<close>

datatype ser_event =
    NewField u32 u64
  | NewTerm "u8 list" u32 bool
  | WriteDoc posting
  | CloseTerm
  | CloseField

definition serialize_one_term ::
  "'r item_layout \<Rightarrow> 'r recorder_ops \<Rightarrow> u8 list \<Rightarrow> addr \<Rightarrow> doc_id_mapping option \<Rightarrow> indexing_context \<Rightarrow> ser_event list option" where
  "serialize_one_term it rops trm adr doc_id_map ctx =
     ah_read it (ic_term_index ctx) adr \<bind> (\<lambda>rcd.
     let term_doc_freq = (case rc_term_doc_freq rops rcd of None \<Rightarrow> 0 | Some n \<Rightarrow> n) in
     rc_serialize rops rcd (ic_arena ctx) doc_id_map \<bind> (\<lambda>posts.
     Some (NewTerm trm term_doc_freq (rc_has_term_freq rops) # map WriteDoc posts @ [CloseTerm])))"

type_synonym term_offset = "u32 \<times> u32 \<times> u8 list \<times> addr"

fun field_starts :: "nat \<Rightarrow> u32 option \<Rightarrow> u32 list \<Rightarrow> (u32 \<times> nat) list" where
  "field_starts offset prev [] = []"
| "field_starts offset prev (field # fs) =
     (if Some field \<noteq> prev then (field, offset) # field_starts (offset + 1) (Some field) fs
      else field_starts (offset + 1) prev fs)"

definition make_field_partition :: "term_offset list \<Rightarrow> (u32 \<times> nat \<times> nat) list" where
  "make_field_partition term_offsets =
     (let starts = field_starts 0 None (map fst term_offsets); offsets = map snd starts @ [length term_offsets]
      in map (\<lambda>i. (fst (starts ! i), offsets ! i, offsets ! (i + 1))) [0..<length starts])"

definition serialize_field ::
  "'r item_layout \<Rightarrow> 'r recorder_ops \<Rightarrow> term_offset list \<Rightarrow> doc_id_mapping option \<Rightarrow> indexing_context \<Rightarrow> ser_event list option" where
  "serialize_field it rops term_addrs doc_id_map ctx =
     map_option concat (map_opt (\<lambda>(_, _, trm, adr). serialize_one_term it rops trm adr doc_id_map ctx) term_addrs)"

text \<open>The tuple of a key: field, path (none outside JSON), value bytes and address.\<close>

definition term_offset :: "u8 list \<times> addr \<Rightarrow> term_offset option" where
  "term_offset ka = (case ka of (key, adr) \<Rightarrow> term_field key \<bind> (\<lambda>field. Some (field, 0, drop 4 key, adr)))"

definition serialize_postings ::
  "'r item_layout \<Rightarrow> 'r recorder_ops \<Rightarrow> indexing_context \<Rightarrow> u64 list \<Rightarrow> doc_id_mapping option \<Rightarrow> ser_event list option" where
  "serialize_postings it rops ctx per_field_postings_writers doc_id_map =
     ah_iter (ic_term_index ctx) \<bind> (\<lambda>entries.
     map_opt term_offset entries \<bind> (\<lambda>term_offsets.
     let sorted = sort_key (\<lambda>(field, path, bytes, _). (field, path, bytes)) term_offsets in
     map_option concat (map_opt (\<lambda>(field, i, j).
         if unat field < length per_field_postings_writers then
           serialize_field it rops (take (j - i) (drop i sorted)) doc_id_map ctx \<bind> (\<lambda>events.
           Some (NewField field (per_field_postings_writers ! unat field) # events @ [CloseField]))
         else None) (make_field_partition sorted))))"

section \<open>One occurrence\<close>

context recorder
begin

lemma method_step:
  assumes m: "\<exists>vs r'. length vs \<le> 1 \<and> vals ph' = vals ph @ vs \<and> (\<forall>e. fields ph' (set_stack r' e)) \<and>
      (\<forall>a. f a = append_vals avx (stack r) a vs \<bind> (\<lambda>(e, a'). Some (set_stack r' e, a')))"
    and inv: "arena_inv a" and rep: "eull_rep a (stack r) (vints (vals ph)) bs" and bud: "within_budget B a bs"
    and room: "2 * B + 5 * (length (vints (vals ph)) + 5) + 24 \<le> 2 * arena_cap MAX_ALLOC"
  shows "\<exists>r1 a1 bs1. f a = Some (r1, a1) \<and> arena_inv a1 \<and> fields ph' r1 \<and> eull_rep a1 (stack r1) (vints (vals ph')) bs1 \<and>
    within_budget B a1 bs1 \<and> eull_step a bs a1 bs1 \<and> length (vals ph') \<le> length (vals ph) + 1 \<and>
    length (vints (vals ph')) \<le> length (vints (vals ph)) + 5"
proof -
  obtain vs r' where v: "length vs \<le> 1" "vals ph' = vals ph @ vs" "\<forall>e. fields ph' (set_stack r' e)"
    "\<forall>a. f a = append_vals avx (stack r) a vs \<bind> (\<lambda>(e, a'). Some (set_stack r' e, a'))" using m by blast
  have l: "length (vints vs) \<le> 5" using length_vints(2) [of vs] v(1) by linarith
  then have "2 * B + 5 * (length (vints (vals ph)) + length (vints vs)) + 24 \<le> 2 * arena_cap MAX_ALLOC" using room by simp
  from append_vals_law [OF inv rep bud this, of avx] obtain e' a' bs' where
    e: "append_vals avx (stack r) a vs = Some (e', a')" "arena_inv a'" "eull_rep a' e' (vints (vals ph) @ vints vs) bs'"
      "within_budget B a' bs'" "eull_step a bs a' bs'" by blast
  then show ?thesis using v l by (intro exI [of _ "set_stack r' e'"] exI [of _ a'] exI [of _ bs']) (simp add: stack_set)
qed

end

text \<open>The recorder of a term with the given occurrences: none before the first.\<close>

definition rec_holds :: "'r recorder_ops \<Rightarrow> (phase \<Rightarrow> 'r \<Rightarrow> bool) \<Rightarrow> phase \<Rightarrow> 'r option \<Rightarrow> bool" where
  "rec_holds rops flds ph opt =
     (case ph of Closed rs \<Rightarrow> rs = [] \<and> opt = None | Open rs d ps \<Rightarrow> (\<exists>r. opt = Some r \<and> flds ph r))"

definition rec_or_default :: "'r recorder_ops \<Rightarrow> 'r option \<Rightarrow> 'r" where
  "rec_or_default rops opt = (case opt of None \<Rightarrow> rc_default rops | Some r \<Rightarrow> r)"

context recorder
begin

lemma subscribe_step:
  assumes h: "rec_holds rops fields ph opt" and inv: "arena_inv a" and rep: "eull_rep a (stack (rec_or_default rops opt)) (vints (vals ph)) bs"
    and bud: "within_budget B a bs" and room: "2 * B + 5 * (length (vints (vals ph)) + 15) + 24 \<le> 2 * arena_cap MAX_ALLOC"
  shows "\<exists>r1 a1 bs1. subscribe_update rops doc pos opt a = Some (r1, a1) \<and> arena_inv a1 \<and> rec_holds rops fields (push_occ ph (doc, pos)) (Some r1) \<and>
    eull_rep a1 (stack r1) (vints (vals (push_occ ph (doc, pos)))) bs1 \<and> within_budget B a1 bs1 \<and> eull_step a bs a1 bs1 \<and>
    length (vals (push_occ ph (doc, pos))) \<le> length (vals ph) + 3 \<and>
    length (vints (vals (push_occ ph (doc, pos)))) \<le> length (vints (vals ph)) + 15"
proof (cases ph)
  case (Closed rs)
  then have rs: "rs = []" "opt = None" using h by (simp_all add: rec_holds_def)
  have r0: "2 * B + 5 * (length (vints (vals ph)) + 5) + 24 \<le> 2 * arena_cap MAX_ALLOC" using room by simp
  have rep0: "eull_rep a (stack (rc_default rops)) (vints (vals (Closed []))) bs" using rep Closed rs by (simp add: rec_or_default_def)
  from method_step [OF new_doc [OF default(2), of doc] inv rep0 bud] r0 Closed rs(1) obtain r1 a1 bs1 where
    1: "rc_new_doc rops (rc_default rops) doc a = Some (r1, a1)" "arena_inv a1" "fields (Open [] doc []) r1"
      "eull_rep a1 (stack r1) (vints (vals (Open [] doc []))) bs1" "within_budget B a1 bs1" "eull_step a bs a1 bs1"
      "length (vals (Open [] doc [])) \<le> length (vals (Closed [])) + 1"
      "length (vints (vals (Open [] doc []))) \<le> length (vints (vals (Closed []))) + 5" by blast
  have "2 * B + 5 * (length (vints (vals (Open [] doc []))) + 5) + 24 \<le> 2 * arena_cap MAX_ALLOC" using room 1(8) Closed rs(1) by simp
  from method_step [OF record_position [OF 1(3), of pos] 1(2,4,5) this] obtain r2 a2 bs2 where
    2: "rc_record_position rops r1 pos a1 = Some (r2, a2)" "arena_inv a2" "fields (Open [] doc [pos]) r2"
      "eull_rep a2 (stack r2) (vints (vals (Open [] doc [pos]))) bs2" "within_budget B a2 bs2" "eull_step a1 bs1 a2 bs2"
      "length (vals (Open [] doc [pos])) \<le> length (vals (Open [] doc [])) + 1"
      "length (vints (vals (Open [] doc [pos]))) \<le> length (vints (vals (Open [] doc []))) + 5" by auto
  have "subscribe_update rops doc pos opt a = Some (r2, a2)" using 1(1) 2(1) rs(2) by (simp add: subscribe_update_def)
  then show ?thesis using 2 1(7,8) Closed rs(1) eull_step_trans [OF 1(6) 2(6)]
    by (intro exI [of _ r2] exI [of _ a2] exI [of _ bs2]) (simp add: rec_holds_def)
next
  case (Open rs d ps)
  then obtain r where r: "opt = Some r" "fields (Open rs d ps) r" using h by (auto simp: rec_holds_def)
  have rep0: "eull_rep a (stack r) (vints (vals (Open rs d ps))) bs" using rep Open r(1) by (simp add: rec_or_default_def)
  have cur: "rc_current_doc rops r = d" by (rule current_doc [OF r(2)])
  have l5: "2 * B + 5 * (length (vints (vals (Open rs d ps))) + 5) + 24 \<le> 2 * arena_cap MAX_ALLOC" using room Open by simp
  show ?thesis
  proof (cases "d = doc")
    case True
    from method_step [OF record_position [OF r(2), of pos] inv rep0 bud l5] obtain r2 a2 bs2 where
      2: "rc_record_position rops r pos a = Some (r2, a2)" "arena_inv a2" "fields (Open rs d (ps @ [pos])) r2"
        "eull_rep a2 (stack r2) (vints (vals (Open rs d (ps @ [pos])))) bs2" "within_budget B a2 bs2" "eull_step a bs a2 bs2"
        "length (vals (Open rs d (ps @ [pos]))) \<le> length (vals (Open rs d ps)) + 1"
        "length (vints (vals (Open rs d (ps @ [pos])))) \<le> length (vints (vals (Open rs d ps))) + 5" by auto
    have "subscribe_update rops doc pos opt a = Some (r2, a2)" using 2(1) r(1) cur True by (simp add: subscribe_update_def)
    then show ?thesis using 2 Open True by (intro exI [of _ r2] exI [of _ a2] exI [of _ bs2]) (simp add: rec_holds_def)
  next
    case False
    from method_step [OF close_doc [OF r(2)] inv rep0 bud l5] obtain r1 a1 bs1 where
      1: "rc_close_doc rops r a = Some (r1, a1)" "arena_inv a1" "fields (Closed (rs @ [(d, ps)])) r1"
        "eull_rep a1 (stack r1) (vints (vals (Closed (rs @ [(d, ps)])))) bs1" "within_budget B a1 bs1" "eull_step a bs a1 bs1"
        "length (vals (Closed (rs @ [(d, ps)]))) \<le> length (vals (Open rs d ps)) + 1"
        "length (vints (vals (Closed (rs @ [(d, ps)])))) \<le> length (vints (vals (Open rs d ps))) + 5" by auto
    have "2 * B + 5 * (length (vints (vals (Closed (rs @ [(d, ps)])))) + 5) + 24 \<le> 2 * arena_cap MAX_ALLOC" using room 1(8) Open by simp
    from method_step [OF new_doc [OF 1(3), of doc] 1(2,4,5) this] obtain r2 a2 bs2 where
      2: "rc_new_doc rops r1 doc a1 = Some (r2, a2)" "arena_inv a2" "fields (Open (rs @ [(d, ps)]) doc []) r2"
        "eull_rep a2 (stack r2) (vints (vals (Open (rs @ [(d, ps)]) doc []))) bs2" "within_budget B a2 bs2" "eull_step a1 bs1 a2 bs2"
        "length (vals (Open (rs @ [(d, ps)]) doc [])) \<le> length (vals (Closed (rs @ [(d, ps)]))) + 1"
        "length (vints (vals (Open (rs @ [(d, ps)]) doc []))) \<le> length (vints (vals (Closed (rs @ [(d, ps)])))) + 5" by auto
    have "2 * B + 5 * (length (vints (vals (Open (rs @ [(d, ps)]) doc []))) + 5) + 24 \<le> 2 * arena_cap MAX_ALLOC" using room 1(8) 2(8) Open by simp
    from method_step [OF record_position [OF 2(3), of pos] 2(2,4,5) this] obtain r3 a3 bs3 where
      3: "rc_record_position rops r2 pos a2 = Some (r3, a3)" "arena_inv a3" "fields (Open (rs @ [(d, ps)]) doc [pos]) r3"
        "eull_rep a3 (stack r3) (vints (vals (Open (rs @ [(d, ps)]) doc [pos]))) bs3" "within_budget B a3 bs3" "eull_step a2 bs2 a3 bs3"
        "length (vals (Open (rs @ [(d, ps)]) doc [pos])) \<le> length (vals (Open (rs @ [(d, ps)]) doc [])) + 1"
        "length (vints (vals (Open (rs @ [(d, ps)]) doc [pos]))) \<le> length (vints (vals (Open (rs @ [(d, ps)]) doc []))) + 5" by auto
    have "subscribe_update rops doc pos opt a = Some (r3, a3)" using 1(1) 2(1) 3(1) r(1) cur False by (simp add: subscribe_update_def)
    then show ?thesis using 3 1(7,8) 2(7,8) Open False eull_step_trans [OF eull_step_trans [OF 1(6) 2(6)] 3(6)]
      by (intro exI [of _ r3] exI [of _ a3] exI [of _ bs3]) (simp add: rec_holds_def)
  qed
qed

end

section \<open>Many terms\<close>

text \<open>Lists of one arena, one per key of a finite set.\<close>

definition lists_rep :: "memory_arena \<Rightarrow> ('k \<Rightarrow> eull) \<Rightarrow> ('k \<Rightarrow> u8 list) \<Rightarrow> ('k \<Rightarrow> nat list) \<Rightarrow> 'k set \<Rightarrow> bool" where
  "lists_rep a E D BS K \<longleftrightarrow>
     arena_inv a \<and> (\<forall>k\<in>K. eull_rep a (E k) (D k) (BS k)) \<and>
     (\<forall>j\<in>K. \<forall>k\<in>K. j \<noteq> k \<longrightarrow> footprint (BS j) \<inter> footprint (BS k) = {}) \<and>
     arena_load MAX_ALLOC a \<le> (\<Sum>k\<in>K. eull_bytes (length (BS k)))"

lemma lists_rep_budget:
  assumes l: "lists_rep a E D BS K" and K: "finite K" "k \<in> K"
  shows "within_budget (\<Sum>j\<in>K - {k}. eull_bytes (length (BS j))) a (BS k)"
    "2 * (\<Sum>j\<in>K - {k}. eull_bytes (length (BS j))) \<le> 5 * (\<Sum>j\<in>K - {k}. length (D j)) + 24 * (card K - 1)"
proof -
  have "arena_load MAX_ALLOC a \<le> (\<Sum>j\<in>K. eull_bytes (length (BS j)))" using l by (simp add: lists_rep_def)
  then show "within_budget (\<Sum>j\<in>K - {k}. eull_bytes (length (BS j))) a (BS k)"
    unfolding within_budget_def using sum.remove [OF K, of "\<lambda>j. eull_bytes (length (BS j))"] by linarith
  have "2 * eull_bytes (length (BS j)) \<le> 5 * length (D j) + 24" if "j \<in> K" for j
    using l that by (intro eull_bytes_data [of a "E j"]) (simp add: lists_rep_def)
  then have "(\<Sum>j\<in>K - {k}. 2 * eull_bytes (length (BS j))) \<le> (\<Sum>j\<in>K - {k}. 5 * length (D j) + 24)" by (intro sum_mono) simp
  also have "\<dots> = 5 * (\<Sum>j\<in>K - {k}. length (D j)) + 24 * (card K - 1)" using K by (simp add: sum.distrib sum_distrib_left)
  finally show "2 * (\<Sum>j\<in>K - {k}. eull_bytes (length (BS j))) \<le> 5 * (\<Sum>j\<in>K - {k}. length (D j)) + 24 * (card K - 1)"
    by (simp add: sum_distrib_left)
qed

lemma lists_rep_step:
  assumes l: "lists_rep a E D BS K" and K: "finite K" "k \<in> K" and inv: "arena_inv a'" and rep: "eull_rep a' e' d' bs'"
    and bud: "within_budget (\<Sum>j\<in>K - {k}. eull_bytes (length (BS j))) a' bs'" and st: "eull_step a (BS k) a' bs'"
  shows "lists_rep a' (E(k := e')) (D(k := d')) (BS(k := bs')) K"
  unfolding lists_rep_def
proof (intro conjI ballI impI)
  have foot: "footprint (BS j) \<subseteq> {..<arena_len a}" "footprint (BS j) \<inter> footprint (BS k) = {}" if "j \<in> K" "j \<noteq> k" for j
    using l that K(2) footprint_bound [of a "E j" "D j" "BS j"] by (simp_all add: lists_rep_def)
  have disj: "footprint (BS j) \<inter> footprint bs' = {}" if "j \<in> K" "j \<noteq> k" for j
    using foot [OF that] st unfolding eull_step_def by (force simp: not_less)
  show "arena_inv a'" by (rule inv)
  show "eull_rep a' ((E(k := e')) j) ((D(k := d')) j) ((BS(k := bs')) j)" if j: "j \<in> K" for j
  proof (cases "j = k")
    case False
    have "eull_rep a' (E j) (D j) (BS j)"
    proof (rule eull_rep_frame)
      show "eull_rep a (E j) (D j) (BS j)" using l j by (simp add: lists_rep_def)
      show "arena_len a \<le> arena_len a'" using st by (simp add: eull_step_def)
      show "arena_mem a' g = arena_mem a g" if "g \<in> footprint (BS j)" for g
        using that foot [OF j False] st unfolding eull_step_def by blast
    qed
    then show ?thesis using False by simp
  qed (use rep in simp)
  show "footprint ((BS(k := bs')) i) \<inter> footprint ((BS(k := bs')) j) = {}" if "i \<in> K" "j \<in> K" "i \<noteq> j" for i j
    using that disj [of i] disj [of j] l by (cases "i = k"; cases "j = k") (simp_all add: lists_rep_def Int_commute)
  have "(\<Sum>j\<in>K. eull_bytes (length ((BS(k := bs')) j))) = eull_bytes (length bs') + (\<Sum>j\<in>K - {k}. eull_bytes (length (BS j)))"
    using sum.remove [OF K, of "\<lambda>j. eull_bytes (length ((BS(k := bs')) j))"] by simp
  then show "arena_load MAX_ALLOC a' \<le> (\<Sum>j\<in>K. eull_bytes (length ((BS(k := bs')) j)))"
    using bud by (simp add: within_budget_def add.commute)
qed

text \<open>The fields of a list fit their machine types.\<close>

definition eull_in_range :: "eull \<Rightarrow> bool" where
  "eull_in_range e \<longleftrightarrow> eu_remaining_cap e < 2 ^ 16 \<and> eu_block_num e < 2 ^ 32"

lemma eull_rep_range:
  assumes "eull_rep a e data bs" "5 * length data + 24 \<le> 2 * arena_cap MAX_ALLOC"
  shows "eull_in_range e"
proof (cases "bs = []")
  case True
  then show ?thesis using assms(1) by (simp add: eull_rep_def eull_in_range_def eull_default_def FIRST_BLOCK_NUM_def)
next
  case False
  then have e: "eu_block_num e = 3 + (length bs - 1)" "eu_remaining_cap e \<le> blk (length bs - 1)" using assms(1) by (auto simp: eull_rep_def Let_def)
  have "24 * length bs \<le> 2 * arena_cap MAX_ALLOC"
    using eull_bytes_blocks [of "length bs"] eull_bytes_data [OF assms(1)] assms(2) by linarith
  then have "length bs < 2 ^ 31" using arena_cap_max by simp
  then show ?thesis using e blk_bounds(2) [of "length bs - 1"] by (simp add: eull_in_range_def)
qed

section \<open>The partition by fields\<close>

fun ranges :: "(u32 \<times> nat) list \<Rightarrow> nat \<Rightarrow> (u32 \<times> nat \<times> nat) list" where
  "ranges [] n = []"
| "ranges ((f, i) # rest) n = (f, i, case rest of [] \<Rightarrow> n | (_, j) # _ \<Rightarrow> j) # ranges rest n"

lemma ranges_nth:
  "map (\<lambda>i. (fst (starts ! i), (map snd starts @ [n]) ! i, (map snd starts @ [n]) ! (i + 1))) [0..<length starts] = ranges starts n"
proof (induction starts n rule: ranges.induct)
  case (2 f i rest n)
  have "map (\<lambda>j. (fst (((f, i) # rest) ! j), (map snd ((f, i) # rest) @ [n]) ! j, (map snd ((f, i) # rest) @ [n]) ! (j + 1))) [0..<length ((f, i) # rest)] =
      (f, i, (map snd rest @ [n]) ! 0) # map (\<lambda>j. (fst (rest ! j), (map snd rest @ [n]) ! j, (map snd rest @ [n]) ! (j + 1))) [0..<length rest]"
    by (simp add: upt_conv_Cons map_Suc_upt [symmetric] comp_def del: upt_Suc)
  moreover have "(map snd rest @ [n]) ! 0 = (case rest of [] \<Rightarrow> n | (_, j) # _ \<Rightarrow> j)" by (cases rest) auto
  ultimately show ?case using 2 by simp
qed simp

text \<open>On offsets sorted by field, the ranges cut the list into one part per field.\<close>

lemma field_starts_skip:
  "\<forall>x\<in>set fs. x = f \<Longrightarrow> field_starts off (Some f) (fs @ gs) = field_starts (off + length fs) (Some f) gs"
  by (induction fs arbitrary: off) auto

lemma field_starts_fresh: "gs = [] \<or> hd gs \<noteq> f \<Longrightarrow> field_starts off (Some f) gs = field_starts off None gs"
  by (cases gs) auto

lemma ranges_first: "gs \<noteq> [] \<Longrightarrow> \<exists>f rest. field_starts off None gs = (f, off) # rest"
  by (cases gs) auto

lemma remdups_adj_block: "\<forall>x\<in>set fs. x = f \<Longrightarrow> gs = [] \<or> hd gs \<noteq> f \<Longrightarrow> remdups_adj (f # fs @ gs) = f # remdups_adj gs"
proof (induction fs)
  case Nil
  then show ?case by (cases gs) auto
qed simp

lemma ranges_groups:
  assumes "sorted (map fst ys)" "drop off xs = ys" "off + length ys = n" "length xs = n"
  shows "map (\<lambda>(f, i, j). (f, take (j - i) (drop i xs))) (ranges (field_starts off None (map fst ys)) n) =
    map (\<lambda>f. (f, filter (\<lambda>y. fst y = f) ys)) (remdups_adj (map fst ys))"
  using assms
proof (induction "length ys" arbitrary: ys off rule: less_induct)
  case less
  show ?case
  proof (cases ys)
    case (Cons y ys')
    let ?f = "fst y"
    define A where "A = takeWhile (\<lambda>z. fst z = ?f) ys'"
    define B where "B = dropWhile (\<lambda>z. fst z = ?f) ys'"
    have ab: "ys' = A @ B" "\<forall>z\<in>set A. fst z = ?f" unfolding A_def B_def by (auto dest: set_takeWhileD)
    have hdB: "B = [] \<or> fst (hd B) \<noteq> ?f" using hd_dropWhile [of "\<lambda>z. fst z = ?f" ys'] unfolding B_def by blast
    have srt: "sorted (map fst B)" "\<forall>z\<in>set B. ?f \<le> fst z" using less.prems(1) unfolding Cons ab(1) by (simp_all add: sorted_append)
    have ltB: "\<forall>z\<in>set B. fst z \<noteq> ?f"
    proof
      fix z assume z: "z \<in> set B"
      then have ne: "B \<noteq> []" by auto
      then have "fst (hd B) \<le> fst z" using srt(1) z by (cases B) auto
      moreover have "?f \<le> fst (hd B)" using srt(2) ne by simp
      ultimately show "fst z \<noteq> ?f" using hdB ne by auto
    qed
    let ?off = "off + Suc (length A)"
    have dB: "drop ?off xs = B" 
    proof -
      have "drop ?off xs = drop (Suc (length A)) (drop off xs)" by (simp add: add.commute)
      also have "\<dots> = B" unfolding less.prems(2) Cons ab(1) by simp
      finally show ?thesis .
    qed
    have fsts: "map fst ys = ?f # map fst A @ map fst B" using Cons ab(1) by simp
    have hdB': "map fst B = [] \<or> hd (map fst B) \<noteq> ?f" using hdB by (cases B) simp_all
    have "field_starts off None (map fst ys) = (?f, off) # field_starts ?off None (map fst B)"
      using field_starts_skip [of "map fst A" ?f "off + 1" "map fst B"] ab(2) field_starts_fresh [OF hdB', of ?off] unfolding fsts by simp
    moreover have "remdups_adj (map fst ys) = ?f # remdups_adj (map fst B)"
      unfolding fsts using ab(2) by (intro remdups_adj_block hdB') simp
    moreover have "map (\<lambda>(f, i, j). (f, take (j - i) (drop i xs))) (ranges (field_starts ?off None (map fst B)) n) =
        map (\<lambda>f. (f, filter (\<lambda>y. fst y = f) B)) (remdups_adj (map fst B))"
      using less.prems(3,4) Cons ab(1) by (intro less.hyps srt(1) dB) simp_all
    moreover have "filter (\<lambda>z. fst z = f) ys = filter (\<lambda>z. fst z = f) B" if "f \<in> set (map fst B)" for f
    proof -
      have "f \<noteq> ?f" using that ltB by auto
      then have "filter (\<lambda>z. fst z = f) A = []" using ab(2) by (auto simp: filter_empty_conv)
      then show ?thesis using Cons ab(1) \<open>f \<noteq> ?f\<close> by simp
    qed
    moreover have "filter (\<lambda>z. fst z = ?f) ys = y # A"
    proof -
      have "filter (\<lambda>z. fst z = ?f) B = []" "filter (\<lambda>z. fst z = ?f) A = A" using ltB ab(2) by (auto simp: filter_empty_conv intro: filter_True)
      then show ?thesis using Cons ab(1) by simp
    qed
    moreover have "take (e - off) (drop off xs) = y # A"
      if "e = (case field_starts ?off None (map fst B) of [] \<Rightarrow> n | (_, j) # _ \<Rightarrow> j)" for e
    proof -
      have "e = ?off"
      proof (cases "B = []")
        case True
        then show ?thesis using that less.prems(3) Cons ab(1) by simp
      next
        case False
        then show ?thesis using that ranges_first [of "map fst B" ?off] by auto
      qed
      then show ?thesis unfolding less.prems(2) Cons ab(1) by simp
    qed
    ultimately show ?thesis by (simp cong: map_cong)
  qed simp
qed

text \<open>The state of the writer after the occurrences \<open>occ\<close> of every term.\<close>

definition index_rep ::
  "'r recorder_ops \<Rightarrow> ('r \<Rightarrow> eull) \<Rightarrow> (phase \<Rightarrow> u32 list) \<Rightarrow> (phase \<Rightarrow> 'r \<Rightarrow> bool) \<Rightarrow> 'r item_layout \<Rightarrow> (u8 list \<Rightarrow> u32) \<Rightarrow>
     u8 list set \<Rightarrow> (u8 list \<Rightarrow> (u32 \<times> u32) list) \<Rightarrow> indexing_context \<Rightarrow> bool" where
  "index_rep rops stack vals flds it h K occ ctx \<longleftrightarrow>
     (\<exists>f BS. ah_rep it h (ic_term_index ctx) f \<and> (\<forall>k. rec_holds rops flds (phase_of (occ k)) (f k)) \<and>
        (\<forall>k. length (vals (phase_of (occ k))) \<le> 3 * length (occ k)) \<and>
        lists_rep (ic_arena ctx) (\<lambda>k. stack (rec_or_default rops (f k))) (\<lambda>k. vints (vals (phase_of (occ k)))) BS K)"

context recorder
begin

lemma subscribe_law:
  assumes rep: "index_rep rops stack vals fields it h K occ ctx" and K: "finite K" "trm \<in> K" and short: "length trm \<le> 65535"
    and sz: "sized_item it" and M: "2 + 65535 + it_size it \<le> PAGE_SIZE" and store: "\<And>r. eull_in_range (stack r) \<Longrightarrow> storable it r"
    and room: "75 * ((\<Sum>k\<in>K. length (occ k)) + 1) + 24 * card K \<le> 2 * arena_cap MAX_ALLOC"
    and load: "ah_load it (ic_term_index ctx) + (2 + length trm + it_size it) \<le> ah_cap it"
  shows "\<exists>ctx'. subscribe h avx it rops n doc pos trm ctx = Some (n + 1, ctx') \<and>
    index_rep rops stack vals fields it h K (occ(trm := occ trm @ [(doc, pos)])) ctx' \<and>
    ah_load it (ic_term_index ctx') \<le> ah_load it (ic_term_index ctx) + (2 + length trm + it_size it)"
proof -
  obtain f BS where f: "ah_rep it h (ic_term_index ctx) f" "\<forall>k. rec_holds rops fields (phase_of (occ k)) (f k)"
    "\<forall>k. length (vals (phase_of (occ k))) \<le> 3 * length (occ k)"
    "lists_rep (ic_arena ctx) (\<lambda>k. stack (rec_or_default rops (f k))) (\<lambda>k. vints (vals (phase_of (occ k)))) BS K"
    using rep by (auto simp: index_rep_def)
  let ?D = "\<lambda>k. vints (vals (phase_of (occ k)))" and ?B = "\<Sum>j\<in>K - {trm}. eull_bytes (length (BS j))"
  have len: "length (?D k) \<le> 15 * length (occ k)" for k using length_vints(2) [of "vals (phase_of (occ k))"] f(3) [rule_format, of k] by linarith
  have sum: "(\<Sum>j\<in>K - {trm}. length (?D j)) + length (?D trm) \<le> 15 * (\<Sum>k\<in>K. length (occ k))"
    using sum.remove [OF K, of "\<lambda>k. length (?D k)"] sum_mono [of K "\<lambda>k. length (?D k)" "\<lambda>k. 15 * length (occ k)"] len
    by (simp add: sum_distrib_left add.commute)
  note bud = lists_rep_budget [OF f(4) K]
  have "0 < card K" using K by (auto simp: card_gt_0_iff)
  then have r: "2 * ?B + 5 * (length (?D trm) + 15) + 24 \<le> 2 * arena_cap MAX_ALLOC" using bud(2) sum room by simp
  have a: "arena_inv (ic_arena ctx)" "eull_rep (ic_arena ctx) (stack (rec_or_default rops (f trm))) (?D trm) (BS trm)"
    using f(4) K(2) by (simp_all add: lists_rep_def)
  let ?ph = "push_occ (phase_of (occ trm)) (doc, pos)"
  from subscribe_step [OF f(2) [rule_format] a bud(1) r, of doc pos] obtain r1 a1 bs1 where
    s: "subscribe_update rops doc pos (f trm) (ic_arena ctx) = Some (r1, a1)" "arena_inv a1" "rec_holds rops fields ?ph (Some r1)"
      "eull_rep a1 (stack r1) (vints (vals ?ph)) bs1" "within_budget ?B a1 bs1" "eull_step (ic_arena ctx) (BS trm) a1 bs1"
      "length (vals ?ph) \<le> length (vals (phase_of (occ trm))) + 3" "length (vints (vals ?ph)) \<le> length (?D trm) + 15" by blast
  have ph: "phase_of (occ trm @ [(doc, pos)]) = ?ph" by (simp add: phase_of_def)
  have "eull_in_range (stack r1)" using r s(8) by (intro eull_rep_range [OF s(4)]) simp
  then have st: "storable it r1" by (rule store)
  have kp: "key_prefix trm = trm" using short by (simp add: key_prefix_def)
  from sized_item.ah_update [OF sz f(1) M, of trm "subscribe_update rops doc pos" "ic_arena ctx" r1 a1 avx] load s(1) st kp obtain ti where
    u: "ah_mutate_or_create h avx it (ic_term_index ctx) trm (subscribe_update rops doc pos) (ic_arena ctx) = Some (a1, ti)"
      "ah_rep it h ti (f(trm \<mapsto> r1))" "ah_load it ti \<le> ah_load it (ic_term_index ctx) + (2 + length trm + it_size it)" by auto
  let ?occ = "occ(trm := occ trm @ [(doc, pos)])" and ?f = "f(trm \<mapsto> r1)" and ?ctx = "\<lparr>ic_term_index = ti, ic_arena = a1\<rparr>"
  have "lists_rep a1 ((\<lambda>k. stack (rec_or_default rops (f k)))(trm := stack r1)) (?D(trm := vints (vals ?ph))) (BS(trm := bs1)) K"
    by (rule lists_rep_step [OF f(4) K s(2,4,5,6)])
  moreover have "(\<lambda>k. stack (rec_or_default rops (f k)))(trm := stack r1) = (\<lambda>k. stack (rec_or_default rops (?f k)))"
    by (auto simp: rec_or_default_def)
  moreover have "?D(trm := vints (vals ?ph)) = (\<lambda>k. vints (vals (phase_of (?occ k))))" using ph by auto
  ultimately have "lists_rep a1 (\<lambda>k. stack (rec_or_default rops (?f k))) (\<lambda>k. vints (vals (phase_of (?occ k)))) (BS(trm := bs1)) K" by simp
  moreover have "rec_holds rops fields (phase_of (?occ k)) (?f k)" for k using f(2) s(3) ph by (cases "k = trm") simp_all
  moreover have "length (vals (phase_of (?occ k))) \<le> 3 * length (?occ k)" for k
    using f(3) [rule_format, of k] f(3) [rule_format, of trm] s(7) ph by (cases "k = trm") simp_all
  ultimately have "index_rep rops stack vals fields it h K ?occ ?ctx" unfolding index_rep_def
    using u(2) by (intro exI [of _ ?f] exI [of _ "BS(trm := bs1)"]) simp
  then show ?thesis using u(1,3) by (intro exI [of _ ?ctx]) (simp add: subscribe_def)
qed

end

end
