(* ===== verification/PostingsCorrect.thy ===== *)
theory PostingsCorrect
  imports PostingsWriter "HOL-Library.Multiset"
begin

text \<open>
  The inverted index is right: whatever occurrences are subscribed, in any order of terms and fields, serialising
  writes one block per field in order, in it one block per term in order, and in it exactly the documents, frequencies
  and positions the term was subscribed with. Indexing a text subscribes its tokens.
\<close>

section \<open>Occurrences\<close>

text \<open>An occurrence: field, value bytes of the term, document and position.\<close>

type_synonym occurrence = "u32 \<times> u8 list \<times> u32 \<times> u32"

definition term_key :: "u32 \<Rightarrow> u8 list \<Rightarrow> u8 list" where
  "term_key field bytes = be_bytes 4 (unat field) @ bytes"

definition occ_key :: "occurrence \<Rightarrow> u8 list" where
  "occ_key x = (case x of (field, bytes, _, _) \<Rightarrow> term_key field bytes)"

definition occs_of :: "occurrence list \<Rightarrow> u8 list \<Rightarrow> (u32 \<times> u32) list" where
  "occs_of xs k = map (\<lambda>(_, _, doc, pos). (doc, pos)) (filter (\<lambda>x. occ_key x = k) xs)"

text \<open>Subscribing them one after the other, each with the writer of its field.\<close>

fun subscribe_all ::
  "(u8 list \<Rightarrow> u32) \<Rightarrow> bool \<Rightarrow> 'r item_layout \<Rightarrow> 'r recorder_ops \<Rightarrow> occurrence list \<Rightarrow> u64 list \<Rightarrow> indexing_context \<Rightarrow>
     (u64 list \<times> indexing_context) option" where
  "subscribe_all h avx it rops [] writers ctx = Some (writers, ctx)"
| "subscribe_all h avx it rops ((field, bytes, doc, pos) # xs) writers ctx =
     (if unat field < length writers then
        subscribe h avx it rops (writers ! unat field) doc pos (term_key field bytes) ctx \<bind> (\<lambda>(n, ctx').
        subscribe_all h avx it rops xs (writers[unat field := n]) ctx')
      else None)"

definition build_index ::
  "(u8 list \<Rightarrow> u32) \<Rightarrow> bool \<Rightarrow> 'r item_layout \<Rightarrow> 'r recorder_ops \<Rightarrow> nat \<Rightarrow> nat \<Rightarrow> doc_id_mapping option \<Rightarrow> occurrence list \<Rightarrow>
     ser_event list option" where
  "build_index h avx it rops capacity num_fields doc_id_map xs =
     indexing_context_new capacity \<bind> (\<lambda>ctx.
     subscribe_all h avx it rops xs (replicate num_fields 0) ctx \<bind> (\<lambda>(writers, ctx').
     serialize_postings it rops ctx' writers doc_id_map))"

section \<open>What is written\<close>

definition field_count :: "occurrence list \<Rightarrow> u32 \<Rightarrow> nat" where
  "field_count xs field = length (filter (\<lambda>x. fst x = field) xs)"

definition field_terms :: "occurrence list \<Rightarrow> u32 \<Rightarrow> u8 list list" where
  "field_terms xs field = sorted_list_of_set ((\<lambda>(_, bytes, _, _). bytes) ` {x \<in> set xs. fst x = field})"

definition term_events ::
  "(run \<Rightarrow> posting) \<Rightarrow> (run list \<Rightarrow> u32) \<Rightarrow> bool \<Rightarrow> doc_id_mapping option \<Rightarrow> occurrence list \<Rightarrow> u32 \<Rightarrow> u8 list \<Rightarrow> ser_event list option" where
  "term_events post freq has_freq mp xs field bytes =
     (let rs = doc_runs (occs_of xs (term_key field bytes))
      in map_option (\<lambda>posts. NewTerm bytes (freq rs) has_freq # map WriteDoc posts @ [CloseTerm]) (serialized post mp rs))"

definition field_events ::
  "(run \<Rightarrow> posting) \<Rightarrow> (run list \<Rightarrow> u32) \<Rightarrow> bool \<Rightarrow> doc_id_mapping option \<Rightarrow> occurrence list \<Rightarrow> u32 \<Rightarrow> ser_event list option" where
  "field_events post freq has_freq mp xs field =
     map_option (\<lambda>evs. NewField field (word_of_nat (field_count xs field)) # concat evs @ [CloseField])
       (map_opt (term_events post freq has_freq mp xs field) (field_terms xs field))"

definition index_events ::
  "(run \<Rightarrow> posting) \<Rightarrow> (run list \<Rightarrow> u32) \<Rightarrow> bool \<Rightarrow> doc_id_mapping option \<Rightarrow> occurrence list \<Rightarrow> ser_event list option" where
  "index_events post freq has_freq mp xs =
     map_option concat (map_opt (field_events post freq has_freq mp xs) (sorted_list_of_set (fst ` set xs)))"

text \<open>Occurrences the memory of the writer has room for.\<close>

definition occs_ok :: "nat \<Rightarrow> occurrence list \<Rightarrow> bool" where
  "occs_ok num_fields xs \<longleftrightarrow>
     (\<forall>(field, bytes, doc, pos) \<in> set xs. unat field < num_fields \<and> length bytes \<le> 65531 \<and> pos \<noteq> - 1) \<and>
     99 * length xs \<le> 2 * arena_cap MAX_ALLOC"

definition layout_ok :: "'r item_layout \<Rightarrow> ('r \<Rightarrow> eull) \<Rightarrow> occurrence list \<Rightarrow> bool" where
  "layout_ok it stack xs \<longleftrightarrow>
     sized_item it \<and> (\<forall>r. eull_in_range (stack r) \<longrightarrow> storable it r) \<and> 2 + 65535 + it_size it \<le> PAGE_SIZE \<and>
     run_bytes it (map occ_key xs) \<le> ah_cap it"

section \<open>Subscribing\<close>

lemma length_be_bytes [simp]: "length (be_bytes n x) = n"
  by (simp add: be_bytes_def)

lemma length_term_key [simp]: "length (term_key field bytes) = 4 + length bytes"
  by (simp add: term_key_def)

lemma term_key_parts: "term_field (term_key field bytes) = Some field" "drop 4 (term_key field bytes) = bytes"
proof -
  have "unat field < 256 ^ 4" using unat_u32_less [of field] by simp
  then show "term_field (term_key field bytes) = Some field" by (simp add: term_field_def term_key_def be_nat_def be_bytes_def le_nat_le_bytes_id)
  show "drop 4 (term_key field bytes) = bytes" by (simp add: term_key_def)
qed

lemma term_key_inj: "term_key f b = term_key f' b' \<longleftrightarrow> f = f' \<and> b = b'"
  using term_key_parts by (metis option.inject)

lemma occs_of_simps [simp]: "occs_of [] k = []"
  "occs_of ((f, b, d, p) # xs) k = (if term_key f b = k then (d, p) # occs_of xs k else occs_of xs k)"
  by (simp_all add: occs_of_def occ_key_def)

lemma sum_occ_upd:
  assumes "finite K" "k \<in> K"
  shows "(\<Sum>j\<in>K. length ((occ(k := occ k @ [x])) j)) = (\<Sum>j\<in>K. length (occ j)) + 1"
  using sum.remove [OF assms, of "\<lambda>j. length ((occ(k := occ k @ [x])) j)"] sum.remove [OF assms, of "\<lambda>j. length (occ j)"] by simp

context recorder
begin

lemma subscribe_all_law:
  assumes rep: "index_rep rops stack vals fields it h K occ ctx" and K: "finite K"
    and sz: "sized_item it" and M: "2 + 65535 + it_size it \<le> PAGE_SIZE" and store: "\<And>r. eull_in_range (stack r) \<Longrightarrow> storable it r"
    and xs: "\<forall>(field, bytes, doc, pos) \<in> set xs. unat field < length ws \<and> length bytes \<le> 65531 \<and> term_key field bytes \<in> K"
    and room: "75 * ((\<Sum>k\<in>K. length (occ k)) + length xs) + 24 * card K \<le> 2 * arena_cap MAX_ALLOC"
    and load: "ah_load it (ic_term_index ctx) + run_bytes it (map occ_key xs) \<le> ah_cap it"
  shows "\<exists>ws' ctx'. subscribe_all h avx it rops xs ws ctx = Some (ws', ctx') \<and>
    index_rep rops stack vals fields it h K (\<lambda>k. occ k @ occs_of xs k) ctx' \<and> length ws' = length ws \<and>
    (\<forall>i<length ws. ws' ! i = ws ! i + word_of_nat (length (filter (\<lambda>x. unat (fst x) = i) xs)))"
  using rep xs room load
proof (induction xs arbitrary: occ ctx ws)
  case Nil
  then show ?case by simp
next
  case (Cons x xs)
  obtain f b d p where x: "x = (f, b, d, p)" by (cases x)
  let ?k = "term_key f b" and ?ws = "ws[unat f := ws ! unat f + 1]"
  have f: "unat f < length ws" "length ?k \<le> 65535" "?k \<in> K" using Cons.prems(2) x by auto
  have c: "run_bytes it (map occ_key (x # xs)) = 2 + length ?k + it_size it + run_bytes it (map occ_key xs)"
    using f(2) by (simp add: run_bytes_def x occ_key_def key_prefix_def)
  have r: "75 * ((\<Sum>k\<in>K. length (occ k)) + 1) + 24 * card K \<le> 2 * arena_cap MAX_ALLOC" using Cons.prems(3) by simp
  have l: "ah_load it (ic_term_index ctx) + (2 + length ?k + it_size it) \<le> ah_cap it" using Cons.prems(4) c by linarith
  from subscribe_law [OF Cons.prems(1) K f(3,2) sz M store r l, of "ws ! unat f" d p] obtain ctx1 where
    s: "subscribe h avx it rops (ws ! unat f) d p ?k ctx = Some (ws ! unat f + 1, ctx1)"
      "index_rep rops stack vals fields it h K (occ(?k := occ ?k @ [(d, p)])) ctx1"
      "ah_load it (ic_term_index ctx1) \<le> ah_load it (ic_term_index ctx) + (2 + length ?k + it_size it)" by blast
  have "\<exists>ws' ctx'. subscribe_all h avx it rops xs ?ws ctx1 = Some (ws', ctx') \<and>
    index_rep rops stack vals fields it h K (\<lambda>k. (occ(?k := occ ?k @ [(d, p)])) k @ occs_of xs k) ctx' \<and> length ws' = length ?ws \<and>
    (\<forall>i<length ?ws. ws' ! i = ?ws ! i + word_of_nat (length (filter (\<lambda>x. unat (fst x) = i) xs)))"
  proof (rule Cons.IH [OF s(2)])
    show "\<forall>(field, bytes, doc, pos) \<in> set xs. unat field < length ?ws \<and> length bytes \<le> 65531 \<and> term_key field bytes \<in> K"
      using Cons.prems(2) by auto
    show "75 * ((\<Sum>k\<in>K. length ((occ(?k := occ ?k @ [(d, p)])) k)) + length xs) + 24 * card K \<le> 2 * arena_cap MAX_ALLOC"
      unfolding sum_occ_upd [OF K f(3)] using Cons.prems(3) by simp
    show "ah_load it (ic_term_index ctx1) + run_bytes it (map occ_key xs) \<le> ah_cap it" using Cons.prems(4) c s(3) by linarith
  qed
  then obtain ws' ctx' where w: "subscribe_all h avx it rops xs ?ws ctx1 = Some (ws', ctx')"
    "index_rep rops stack vals fields it h K (\<lambda>k. (occ(?k := occ ?k @ [(d, p)])) k @ occs_of xs k) ctx'" "length ws' = length ws"
    "\<forall>i<length ws. ws' ! i = ?ws ! i + word_of_nat (length (filter (\<lambda>x. unat (fst x) = i) xs))" by auto
  have "(\<lambda>k. (occ(?k := occ ?k @ [(d, p)])) k @ occs_of xs k) = (\<lambda>k. occ k @ occs_of (x # xs) k)" by (auto simp: x)
  moreover have "subscribe_all h avx it rops (x # xs) ws ctx = Some (ws', ctx')" using w(1) s(1) f(1) by (simp add: x)
  moreover have "\<forall>i<length ws. ws' ! i = ws ! i + word_of_nat (length (filter (\<lambda>x. unat (fst x) = i) (x # xs)))"
    using w(4) f(1) by (auto simp: x nth_list_update)
  ultimately show ?case using w(2,3) by (intro exI [of _ ws'] exI [of _ ctx']) simp
qed

lemma index_start:
  assumes "2 \<le> capacity" "capacity < 2 ^ 64"
  shows "\<exists>ctx. indexing_context_new capacity = Some ctx \<and> index_rep rops stack vals fields it h K (\<lambda>_. []) ctx \<and> ah_load it (ic_term_index ctx) = 0"
proof -
  obtain m where m: "ah_with_capacity capacity = Some m" "ah_rep it h m Map.empty" "ah_load it m = 0" using ah_start [OF assms] by blast
  obtain a where a: "arena_default = Some a" "arena_inv a" "arena_load MAX_ALLOC a = 0" using arena_default_law by blast
  have "lists_rep a (\<lambda>k. stack (rec_or_default rops None)) (\<lambda>k. []) (\<lambda>_. []) K"
    using a(2,3) eull_rep_default by (simp add: lists_rep_def rec_or_default_def default(1) footprint_def)
  then have "index_rep rops stack vals fields it h K (\<lambda>_. []) \<lparr>ic_term_index = m, ic_arena = a\<rparr>"
    unfolding index_rep_def using m(2) default(3)
    by (intro exI [of _ Map.empty] exI [of _ "\<lambda>_. []"]) (simp add: rec_holds_def phase_of_def)
  then show ?thesis unfolding indexing_context_new_def m(1) a(1) using m(3) by simp
qed

end

section \<open>Serialising\<close>

lemma push_occ_runs_ok:
  assumes "runs_ok (runs_of ph)" "pos_ok p"
  shows "runs_ok (runs_of (push_occ ph (d, p)))"
  using assms by (cases ph) (auto simp: runs_ok_def)

lemma doc_runs_ok: "\<forall>x\<in>set ys. pos_ok (snd x) \<Longrightarrow> runs_ok (doc_runs ys)"
proof (induction ys rule: rev_induct)
  case Nil
  then show ?case by (simp add: doc_runs_def phase_of_def runs_ok_def)
next
  case (snoc y ys)
  then show ?case using push_occ_runs_ok [of "phase_of ys" "snd y" "fst y"] by (simp add: doc_runs_def phase_of_def)
qed

lemma phase_of_open: "ys \<noteq> [] \<Longrightarrow> \<exists>rs d ps. phase_of ys = Open rs d ps"
proof (induction ys rule: rev_induct)
  case (snoc y ys)
  have "\<exists>rs d ps. push_occ ph y = Open rs d ps" for ph by (cases ph; cases y) auto
  then show ?case by (simp add: phase_of_def)
qed simp

definition freq_or_0 :: "u32 option \<Rightarrow> u32" where
  "freq_or_0 n = (case n of None \<Rightarrow> 0 | Some n \<Rightarrow> n)"

context recorder
begin

lemma serialize_term_law:
  assumes "ah_rep it h (ic_term_index ctx) f" "\<forall>k. rec_holds rops fields (phase_of (occ k)) (f k)"
    "\<forall>k. length (vals (phase_of (occ k))) \<le> 3 * length (occ k)"
    "lists_rep (ic_arena ctx) (\<lambda>k. stack (rec_or_default rops (f k))) (\<lambda>k. vints (vals (phase_of (occ k)))) BS K"
    and k: "k \<in> K" "occ k \<noteq> []" "3 * length (occ k) < 2 ^ 32" "\<forall>x\<in>set (occ k). pos_ok (snd x)"
    and va: "ah_read it (ic_term_index ctx) va = f k"
  shows "serialize_one_term it rops trm va mp ctx =
    map_option (\<lambda>posts. NewTerm trm (freq_or_0 (doc_freq (doc_runs (occ k)))) (rc_has_term_freq rops) # map WriteDoc posts @ [CloseTerm])
      (serialized post mp (doc_runs (occ k)))"
proof -
  obtain rs d ps where ph: "phase_of (occ k) = Open rs d ps" using phase_of_open [OF k(2)] by blast
  then obtain r where r: "f k = Some r" "fields (Open rs d ps) r" using assms(2) [rule_format, of k] by (auto simp: rec_holds_def)
  have runs: "doc_runs (occ k) = rs @ [(d, ps)]" by (simp add: doc_runs_def ph)
  have "eull_rep (ic_arena ctx) (stack r) (vints (vals (Open rs d ps))) (BS k)" "arena_inv (ic_arena ctx)"
    using assms(4) k(1) r(1) ph by (auto simp: lists_rep_def rec_or_default_def dest!: bspec [of K _ k])
  then have rd: "read_to_end (stack r) (ic_arena ctx) [] = Some (vints (vals (Open rs d ps)))" using read_to_end_law by fastforce
  have "runs_ok (rs @ [(d, ps)])" using doc_runs_ok [OF k(4)] runs by simp
  moreover have "length (vals (Open rs d ps)) < 2 ^ 32" using assms(3) [rule_format, of k] k(3) ph by simp
  ultimately have "rc_serialize rops r (ic_arena ctx) mp = serialized post mp (doc_runs (occ k))"
    using serialize [OF r(2) _ _ rd] runs by simp
  then show ?thesis using va r term_doc_freq [OF r(2)] runs
    by (cases "serialized post mp (doc_runs (occ k))") (simp_all add: serialize_one_term_def freq_or_0_def Let_def)
qed

end

lemma sorted_distinct_adj: "sorted (xs :: 'a :: linorder list) \<Longrightarrow> remdups_adj xs = sorted_list_of_set (set xs)"
proof -
  assume s: "sorted xs"
  have "distinct (remdups_adj xs)" using s
  proof (induction xs rule: remdups_adj.induct)
    case (3 x y xs)
    then show ?case by (cases "x = y") auto
  qed simp_all
  then show ?thesis using sorted_list_of_set.idem_if_sorted_distinct [of "remdups_adj xs"] sorted_remdups_adj [OF s] by simp
qed

lemma sorted_pairs_filter:
  fixes ps :: "('a :: linorder \<times> 'b :: linorder) list"
  assumes "sorted ps" "distinct ps"
  shows "map snd (filter (\<lambda>p. fst p = f) ps) = sorted_list_of_set (snd ` {p \<in> set ps. fst p = f})"
proof -
  have "sorted (map snd (filter (\<lambda>p. fst p = f) ps))" "distinct (map snd (filter (\<lambda>p. fst p = f) ps))" using assms
  proof (induction ps)
    case (Cons p ps)
    { case 1
      have "snd p \<le> snd q" if "fst p = f" "q \<in> set ps" "fst q = f" for q
        using 1 that by (auto simp: less_eq_prod_def)
      then show ?case using Cons.IH(1) 1 by auto }
    { case 2
      have "snd p \<noteq> snd q" if "fst p = f" "q \<in> set ps" "fst q = f" for q
        using 2 that by (metis prod.expand distinct.simps(2))
      then show ?case using Cons.IH(2) 2 by auto }
  qed simp_all
  from sorted_list_of_set.idem_if_sorted_distinct [OF this] show ?thesis by simp
qed

definition offset_of :: "u8 list \<times> addr \<Rightarrow> term_offset" where
  "offset_of ka = (the (term_field (fst ka)), 0, drop 4 (fst ka), snd ka)"

definition offset_term :: "term_offset \<Rightarrow> u32 \<times> u8 list" where
  "offset_term x = (fst x, fst (snd (snd x)))"

definition occ_terms :: "occurrence list \<Rightarrow> (u32 \<times> u8 list) set" where
  "occ_terms xs = (\<lambda>(f, b, _, _). (f, b)) ` set xs"

lemma occ_termsI: "(f, b, d, p) \<in> set xs \<Longrightarrow> (f, b) \<in> occ_terms xs"
  by (force simp: occ_terms_def)

text \<open>The sorted offsets list the terms in order, each once.\<close>

lemma sorted_offsets:
  assumes d: "distinct (map fst l)" and keys: "fst ` set l = occ_key ` set xs"
    and S: "S = sort_key (\<lambda>(field, path, bytes, _). (field, path, bytes)) (map offset_of l)"
  shows "map_opt term_offset l = Some (map offset_of l)" "sorted (map offset_term S)" "distinct (map offset_term S)"
    "set (map offset_term S) = occ_terms xs"
    "\<And>x. x \<in> set S \<Longrightarrow> (term_key (fst x) (fst (snd (snd x))), snd (snd (snd x))) \<in> set l"
proof -
  have form: "\<exists>f b. k = term_key f b \<and> (f, b) \<in> occ_terms xs" if "(k, va) \<in> set l" for k va
  proof -
    have "k \<in> occ_key ` set xs" using keys that by force
    then obtain f b d p where "(f, b, d, p) \<in> set xs" "k = term_key f b" by (auto simp: occ_key_def)
    then show ?thesis using occ_termsI by blast
  qed
  have off: "term_offset ka = Some (offset_of ka) \<and> offset_term (offset_of ka) \<in> occ_terms xs \<and>
      fst ka = term_key (fst (offset_term (offset_of ka))) (snd (offset_term (offset_of ka)))" if ka: "ka \<in> set l" for ka
  proof -
    obtain k va where kv: "ka = (k, va)" by (cases ka)
    then obtain f b where "k = term_key f b" "(f, b) \<in> occ_terms xs" using form ka by blast
    then show ?thesis using kv term_key_parts [of f b] by (simp add: term_offset_def offset_of_def offset_term_def)
  qed
  show "map_opt term_offset l = Some (map offset_of l)" using off by (intro map_opt_Some) simp
  have setS: "set S = offset_of ` set l" unfolding S by simp
  show "(term_key (fst x) (fst (snd (snd x))), snd (snd (snd x))) \<in> set l" if x: "x \<in> set S" for x
  proof -
    obtain ka where ka: "ka \<in> set l" "x = offset_of ka" using x setS by auto
    have "ka = (term_key (fst x) (fst (snd (snd x))), snd (snd (snd x)))" using off [OF ka(1)] ka(2) by (cases ka) (simp add: offset_term_def offset_of_def)
    then show ?thesis using ka(1) by simp
  qed
  have dl: "distinct (map (\<lambda>ka. offset_term (offset_of ka)) l)"
  proof -
    have "distinct l" "inj_on fst (set l)" using d by (simp_all add: distinct_map)
    moreover have "inj_on (\<lambda>ka. offset_term (offset_of ka)) (set l)"
    proof (rule inj_onI)
      fix x y assume xy: "x \<in> set l" "y \<in> set l" "offset_term (offset_of x) = offset_term (offset_of y)"
      then have "fst x = fst y" using off [OF xy(1)] off [OF xy(2)] by simp
      then show "x = y" using \<open>inj_on fst (set l)\<close> xy(1,2) by (simp add: inj_on_def)
    qed
    ultimately show ?thesis by (simp add: distinct_map)
  qed
  have "mset (map offset_term S) = mset (map (\<lambda>ka. offset_term (offset_of ka)) l)"
    unfolding S by (simp add: multiset.map_comp comp_def)
  then show "distinct (map offset_term S)" using dl mset_eq_imp_distinct_iff by blast
  have "occ_terms xs \<subseteq> (\<lambda>ka. offset_term (offset_of ka)) ` set l"
  proof
    fix p assume "p \<in> occ_terms xs"
    then obtain f b dd pp where p: "p = (f, b)" "(f, b, dd, pp) \<in> set xs" by (auto simp: occ_terms_def)
    then have "term_key f b \<in> fst ` set l" unfolding keys by (force simp: occ_key_def)
    then obtain ka where "ka \<in> set l" "fst ka = term_key f b" by auto
    then show "p \<in> (\<lambda>ka. offset_term (offset_of ka)) ` set l"
      using p(1) term_key_parts [of f b] by (intro image_eqI [of _ _ ka]) (simp_all add: offset_term_def offset_of_def)
  qed
  then show "set (map offset_term S) = occ_terms xs" using off setS by auto
  have "sorted (map (\<lambda>(field, path, bytes, _). (field, path, bytes)) S)" unfolding S by (rule sorted_sort_key)
  then have "sorted_wrt (\<lambda>x y. (case x of (f, p, b, _) \<Rightarrow> (f, p, b)) \<le> (case y of (f, p, b, _) \<Rightarrow> (f, p, b))) S"
    by (simp add: sorted_wrt_map)
  then have "sorted_wrt (\<lambda>x y. offset_term x \<le> offset_term y) S"
  proof (rule sorted_wrt_mono_rel [rotated])
    fix x y assume xy: "x \<in> set S" "y \<in> set S" "(case x of (f, p, b, _) \<Rightarrow> (f, p, b)) \<le> (case y of (f, p, b, _) \<Rightarrow> (f, p, b))"
    have "fst (snd x) = 0" "fst (snd y) = 0" using xy(1,2) unfolding setS by (auto simp: offset_of_def)
    then show "offset_term x \<le> offset_term y" using xy(3) by (cases x; cases y) (auto simp: offset_term_def less_eq_prod_def)
  qed
  then show "sorted (map offset_term S)" by (simp add: sorted_wrt_map)
qed

lemma partition_groups:
  assumes "sorted (map fst S)"
  shows "map (\<lambda>(f, i, j). (f, take (j - i) (drop i S))) (make_field_partition S) =
    map (\<lambda>f. (f, filter (\<lambda>y. fst y = f) S)) (sorted_list_of_set (set (map fst S)))"
  unfolding make_field_partition_def Let_def ranges_nth using ranges_groups [of S 0 S "length S"] assms sorted_distinct_adj [OF assms] by simp

lemma occs_of_length: "length (occs_of xs k) \<le> length xs"
  by (simp add: occs_of_def)

lemma occs_of_empty: "occs_of xs k = [] \<longleftrightarrow> k \<notin> occ_key ` set xs"
  by (auto simp: occs_of_def filter_empty_conv)

context recorder
begin

lemma serialize_postings_law:
  assumes rep: "index_rep rops stack vals fields it h (occ_key ` set xs) (occs_of xs) ctx" and sz: "sized_item it"
    and ok: "occs_ok nf xs" and ws: "length ws = nf" "\<forall>i<nf. ws ! i = word_of_nat (length (filter (\<lambda>x. unat (fst x) = i) xs))"
  shows "serialize_postings it rops ctx ws mp = index_events post (\<lambda>rs. freq_or_0 (doc_freq rs)) (rc_has_term_freq rops) mp xs"
proof -
  let ?K = "occ_key ` set xs"
  obtain f BS where f: "ah_rep it h (ic_term_index ctx) f" "\<forall>k. rec_holds rops fields (phase_of (occs_of xs k)) (f k)"
    "\<forall>k. length (vals (phase_of (occs_of xs k))) \<le> 3 * length (occs_of xs k)"
    "lists_rep (ic_arena ctx) (\<lambda>k. stack (rec_or_default rops (f k))) (\<lambda>k. vints (vals (phase_of (occs_of xs k)))) BS ?K"
    using rep by (auto simp: index_rep_def)
  have dom: "dom f = ?K"
  proof -
    have iff: "f k = None \<longleftrightarrow> occs_of xs k = []" for k
    proof (cases "occs_of xs k = []")
      case True
      then show ?thesis using f(2) [rule_format, of k] by (simp add: rec_holds_def phase_of_def)
    next
      case False
      then show ?thesis using phase_of_open [OF False] f(2) [rule_format, of k] by (auto simp: rec_holds_def)
    qed
    show ?thesis
    proof (rule set_eqI)
      fix k
      show "k \<in> dom f \<longleftrightarrow> k \<in> ?K" using iff [of k] unfolding occs_of_empty domIff by (simp only: not_not simp_thms)
    qed
  qed
  obtain l where l: "ah_iter (ic_term_index ctx) = Some l" "distinct (map fst l)" "fst ` set l = ?K"
    "\<forall>k va. (k, va) \<in> set l \<longrightarrow> ah_read it (ic_term_index ctx) va = f k"
    using sized_item.ah_iter_law [OF sz f(1)] dom by auto
  define S where "S = sort_key (\<lambda>(field, path, bytes, _). (field, path, bytes)) (map offset_of l)"
  note so = sorted_offsets [OF l(2,3) S_def]
  have fsts: "map fst S = map fst (map offset_term S)" by (simp add: offset_term_def)
  have "sorted (map fst S)" unfolding fsts using so(2) by (auto simp: sorted_wrt_map less_eq_prod_def elim!: sorted_wrt_mono_rel [rotated])
  note groups = partition_groups [OF this]
  have fields_set: "set (map fst S) = fst ` set xs"
    unfolding fsts set_map [of fst] so(4) by (force simp: occ_terms_def)
  have one: "serialize_one_term it rops (fst (snd (snd x))) (snd (snd (snd x))) mp ctx =
      term_events post (\<lambda>rs. freq_or_0 (doc_freq rs)) (rc_has_term_freq rops) mp xs (fst x) (fst (snd (snd x)))" if x: "x \<in> set S" for x
  proof -
    let ?k = "term_key (fst x) (fst (snd (snd x)))"
    have k: "(?k, snd (snd (snd x))) \<in> set l" by (rule so(5) [OF x])
    then have kK: "?k \<in> ?K" using l(3) by force
    have "99 * length xs \<le> 2 * arena_cap MAX_ALLOC" using ok by (simp add: occs_ok_def)
    then have "3 * length (occs_of xs ?k) < 2 ^ 32" using occs_of_length [of xs ?k] arena_cap_max by simp
    moreover have "\<forall>y\<in>set (occs_of xs ?k). pos_ok (snd y)"
      using ok by (auto simp: occs_ok_def occs_of_def pos_ok_def POSITION_END_def eq_neg_iff_add_eq_0)
    ultimately show ?thesis unfolding term_events_def Let_def
      using kK l(4) k occs_of_empty by (intro serialize_term_law [OF f kK]) auto
  qed
  let ?F = "\<lambda>(fl, part). if unat fl < length ws then serialize_field it rops part mp ctx \<bind> (\<lambda>events.
      Some (NewField fl (ws ! unat fl) # events @ [CloseField])) else None"
  have field: "?F (fl, filter (\<lambda>y. fst y = fl) S) = field_events post (\<lambda>rs. freq_or_0 (doc_freq rs)) (rc_has_term_freq rops) mp xs fl"
    if fl: "fl \<in> fst ` set xs" for fl
  proof -
    let ?part = "filter (\<lambda>y. fst y = fl) S"
    have lt: "unat fl < nf" using ok fl by (auto simp: occs_ok_def)
    have cnt: "ws ! unat fl = word_of_nat (field_count xs fl)"
      using ws(2) lt by (simp add: field_count_def word_unat_eq_iff [symmetric])
    have "map (\<lambda>x. fst (snd (snd x))) ?part = map snd (filter (\<lambda>p. fst p = fl) (map offset_term S))"
      by (simp add: filter_map comp_def offset_term_def)
    also have "\<dots> = field_terms xs fl"
    proof -
      have "snd ` {p \<in> occ_terms xs. fst p = fl} = (\<lambda>(_, bytes, _, _). bytes) ` {x \<in> set xs. fst x = fl}"
        by (force simp: occ_terms_def)
      then show ?thesis unfolding sorted_pairs_filter [OF so(2,3)] so(4) field_terms_def by simp
    qed
    finally have terms: "map (\<lambda>x. fst (snd (snd x))) ?part = field_terms xs fl" .
    have "map_opt (\<lambda>(_, _, trm, adr). serialize_one_term it rops trm adr mp ctx) ?part =
        map_opt (\<lambda>x. term_events post (\<lambda>rs. freq_or_0 (doc_freq rs)) (rc_has_term_freq rops) mp xs fl (fst (snd (snd x)))) ?part"
      using one by (intro map_opt_cong) (auto simp: case_prod_beta)
    also have "\<dots> = map_opt (term_events post (\<lambda>rs. freq_or_0 (doc_freq rs)) (rc_has_term_freq rops) mp xs fl) (field_terms xs fl)"
      unfolding terms [symmetric] map_opt_map ..
    finally show ?thesis using lt ws(1) cnt
      by (cases "map_opt (term_events post (\<lambda>rs. freq_or_0 (doc_freq rs)) (rc_has_term_freq rops) mp xs fl) (field_terms xs fl)")
        (simp_all add: serialize_field_def field_events_def)
  qed
  have "serialize_postings it rops ctx ws mp = map_option concat (map_opt (\<lambda>(fl, i, j). ?F (fl, take (j - i) (drop i S))) (make_field_partition S))"
    unfolding serialize_postings_def l(1) bind.simps so(1) Let_def S_def [symmetric] prod.case ..
  also have "map_opt (\<lambda>(fl, i, j). ?F (fl, take (j - i) (drop i S))) (make_field_partition S) =
      map_opt ?F (map (\<lambda>(f, i, j). (f, take (j - i) (drop i S))) (make_field_partition S))"
    unfolding map_opt_map by (intro map_opt_cong) auto
  also have "\<dots> = map_opt (field_events post (\<lambda>rs. freq_or_0 (doc_freq rs)) (rc_has_term_freq rops) mp xs) (sorted_list_of_set (fst ` set xs))"
    unfolding groups map_opt_map fields_set using field by (intro map_opt_cong) simp
  finally show ?thesis by (simp add: index_events_def)
qed

lemma build_index_law:
  assumes ok: "occs_ok nf xs" and lay: "layout_ok it stack xs" and cap: "2 \<le> capacity" "capacity < 2 ^ 64"
  shows "build_index h avx it rops capacity nf mp xs = index_events post (\<lambda>rs. freq_or_0 (doc_freq rs)) (rc_has_term_freq rops) mp xs"
proof -
  let ?K = "occ_key ` set xs"
  obtain ctx where ctx: "indexing_context_new capacity = Some ctx" "index_rep rops stack vals fields it h ?K (\<lambda>_. []) ctx"
    "ah_load it (ic_term_index ctx) = 0" using index_start [OF cap] by blast
  note l = lay [unfolded layout_ok_def]
  have "card ?K \<le> length xs" by (meson card_image_le card_length finite_set le_trans)
  then have room: "75 * ((\<Sum>k\<in>?K. length ([] :: (u32 \<times> u32) list)) + length xs) + 24 * card ?K \<le> 2 * arena_cap MAX_ALLOC"
    using ok by (simp add: occs_ok_def)
  have "\<forall>(field, bytes, doc, pos) \<in> set xs. unat field < length (replicate nf (0 :: u64)) \<and> length bytes \<le> 65531 \<and> term_key field bytes \<in> ?K"
    using ok by (force simp: occs_ok_def occ_key_def)
  from subscribe_all_law [OF ctx(2) finite_imageI [OF finite_set] _ _ _ this room] l ctx(3) obtain ws ctx' where
    w: "subscribe_all h avx it rops xs (replicate nf 0) ctx = Some (ws, ctx')"
      "index_rep rops stack vals fields it h ?K (\<lambda>k. [] @ occs_of xs k) ctx'" "length ws = nf"
      "\<forall>i<nf. ws ! i = replicate nf 0 ! i + word_of_nat (length (filter (\<lambda>x. unat (fst x) = i) xs))" by auto
  have "serialize_postings it rops ctx' ws mp = index_events post (\<lambda>rs. freq_or_0 (doc_freq rs)) (rc_has_term_freq rops) mp xs"
    using w(2-4) l ok by (intro serialize_postings_law [where nf = nf]) simp_all
  then show ?thesis unfolding build_index_def ctx(1) using w(1) by simp
qed

end

section \<open>The inverted index\<close>

text \<open>One layout of the recorders as bytes; any other that restores them will do.\<close>

definition eull_store :: "eull \<Rightarrow> u8 list" where
  "eull_store e = le_bytes 2 (eu_remaining_cap e) @ le_bytes 4 (eu_block_num e) @ le_bytes 4 (unat (eu_head e)) @ le_bytes 4 (unat (eu_tail e))"

definition eull_load :: "u8 list \<Rightarrow> eull" where
  "eull_load bs = \<lparr>eu_remaining_cap = le_nat (take 2 bs), eu_block_num = le_nat (take 4 (drop 2 bs)),
     eu_head = word_of_nat (le_nat (take 4 (drop 6 bs))), eu_tail = word_of_nat (le_nat (take 4 (drop 10 bs)))\<rparr>"

definition u32_at :: "nat \<Rightarrow> u8 list \<Rightarrow> u32" where
  "u32_at i bs = word_of_nat (le_nat (take 4 (drop i bs)))"

definition dr_layout :: "doc_id_recorder item_layout" where
  "dr_layout = \<lparr>it_size = 18, it_store = \<lambda>r. eull_store (dr_stack r) @ le_bytes 4 (unat (dr_current_doc r)),
     it_load = \<lambda>bs. \<lparr>dr_stack = eull_load bs, dr_current_doc = u32_at 14 bs\<rparr>\<rparr>"

definition tr_layout :: "tf_recorder item_layout" where
  "tr_layout = \<lparr>it_size = 26, it_store = \<lambda>r. eull_store (tr_stack r) @ le_bytes 4 (unat (tr_current_doc r)) @ le_bytes 4 (unat (tr_current_tf r)) @
       le_bytes 4 (unat (tr_term_doc_freq r)),
     it_load = \<lambda>bs. \<lparr>tr_stack = eull_load bs, tr_current_doc = u32_at 14 bs, tr_current_tf = u32_at 18 bs, tr_term_doc_freq = u32_at 22 bs\<rparr>\<rparr>"

definition pr_layout :: "pos_recorder item_layout" where
  "pr_layout = \<lparr>it_size = 22, it_store = \<lambda>r. eull_store (pr_stack r) @ le_bytes 4 (unat (pr_current_doc r)) @ le_bytes 4 (unat (pr_term_doc_freq r)),
     it_load = \<lambda>bs. \<lparr>pr_stack = eull_load bs, pr_current_doc = u32_at 14 bs, pr_term_doc_freq = u32_at 18 bs\<rparr>\<rparr>"

lemma u32_le_bytes: "word_of_nat (le_nat (le_bytes 4 (unat w))) = (w :: u32)"
proof -
  have "unat w < 256 ^ 4" using unat_u32_less [of w] by simp
  then show ?thesis by (simp add: le_nat_le_bytes_id)
qed

lemma length_eull_store [simp]: "length (eull_store e) = 14"
  by (simp add: eull_store_def)

lemma eull_load_store: "eull_in_range e \<Longrightarrow> eull_load (eull_store e @ rest) = e"
  by (simp add: eull_load_def eull_store_def eull_in_range_def le_nat_le_bytes_id u32_le_bytes)

lemma layouts_ok:
  assumes "26 + 2 + 65535 \<le> PAGE_SIZE"
  shows "run_bytes dr_layout (map occ_key xs) \<le> ah_cap dr_layout \<Longrightarrow> layout_ok dr_layout dr_stack xs"
    "run_bytes tr_layout (map occ_key xs) \<le> ah_cap tr_layout \<Longrightarrow> layout_ok tr_layout tr_stack xs"
    "run_bytes pr_layout (map occ_key xs) \<le> ah_cap pr_layout \<Longrightarrow> layout_ok pr_layout pr_stack xs"
  using assms
  by (simp_all add: layout_ok_def sized_item_def storable_def dr_layout_def tr_layout_def pr_layout_def eull_load_store u32_at_def u32_le_bytes)

text \<open>
  Property C1. The inverted index of a segment. For any sequence of occurrences of terms in fields and documents
  that fits the memory budget, subscribing them one by one and serialising writes exactly the expected index, with
  each of the three recorders: fields in increasing order, each with its number of tokens; in a field the terms in
  the order of their bytes, each with its document frequency; for a term one posting per run of its occurrences in a document,
  in order, with the frequency and the differences of positions the recorder keeps. With renumbered documents the
  postings come in the order of the new ids. Without, no step panics. This holds whatever the hash function, the
  interleaving of terms, and the layout of the recorders in memory.
\<close>

theorem inverted_index_correct:
  assumes "occs_ok num_fields xs" "2 \<le> capacity" "capacity < 2 ^ 64"
    and "layout_ok it1 dr_stack xs" "layout_ok it2 tr_stack xs" "layout_ok it3 pr_stack xs"
  shows "build_index h avx it1 (doc_id_recorder_ops avx) capacity num_fields mp xs = index_events dr_posting (\<lambda>_. 0) False mp xs \<and>
    build_index h avx it2 (tf_recorder_ops avx) capacity num_fields mp xs =
      index_events tr_posting (\<lambda>rs. word_of_nat (length rs)) True mp xs \<and>
    build_index h avx it3 (pos_recorder_ops avx) capacity num_fields mp xs =
      index_events pos_posting (\<lambda>rs. word_of_nat (length rs)) True mp xs \<and>
    (mp = None \<longrightarrow> (\<exists>events. index_events pos_posting (\<lambda>rs. word_of_nat (length rs)) True mp xs = Some events))"
proof (intro conjI impI)
  show "build_index h avx it1 (doc_id_recorder_ops avx) capacity num_fields mp xs = index_events dr_posting (\<lambda>_. 0) False mp xs"
    using dr.build_index_law [OF assms(1,4,2,3)] by (simp add: freq_or_0_def doc_id_recorder_ops_def)
  show "build_index h avx it2 (tf_recorder_ops avx) capacity num_fields mp xs = index_events tr_posting (\<lambda>rs. word_of_nat (length rs)) True mp xs"
    using tr.build_index_law [OF assms(1,5,2,3)] by (simp add: freq_or_0_def tf_recorder_ops_def)
  show "build_index h avx it3 (pos_recorder_ops avx) capacity num_fields mp xs = index_events pos_posting (\<lambda>rs. word_of_nat (length rs)) True mp xs"
    using pr.build_index_law [OF assms(1,6,2,3)] by (simp add: freq_or_0_def pos_recorder_ops_def)
  assume "mp = None"
  then have "term_events pos_posting df hf mp xs f b = Some (the (term_events pos_posting df hf mp xs f b))" for df hf f b
    by (simp add: term_events_def serialized_def Let_def)
  then have "map_opt (term_events pos_posting df hf mp xs f) bs = Some (map (\<lambda>b. the (term_events pos_posting df hf mp xs f b)) bs)" for df hf f bs
    by (intro map_opt_Some) simp
  then show "\<exists>events. index_events pos_posting (\<lambda>rs. word_of_nat (length rs)) True mp xs = Some events"
    unfolding index_events_def field_events_def by (simp add: map_opt_Some)
qed

theorem inverted_index_correct_witness:
  "build_index (\<lambda>_. 0) True pr_layout (pos_recorder_ops True) 4 2 None
     [(1, [98], 3, 0), (0, [97], 3, 0), (1, [97], 3, 1), (1, [98], 3, 4), (1, [98], 7, 2)] =
   Some [NewField 0 1, NewTerm [97] 1 True, WriteDoc (3, 1, [0]), CloseTerm, CloseField,
     NewField 1 4, NewTerm [97] 1 True, WriteDoc (3, 1, [1]), CloseTerm,
       NewTerm [98] 2 True, WriteDoc (3, 2, [0, 4]), WriteDoc (7, 1, [2]), CloseTerm, CloseField]"
proof -
  let ?xs = "[(1, [98], 3, 0), (0, [97], 3, 0), (1, [97], 3, 1), (1, [98], 3, 4), (1, [98], 7, 2)] :: occurrence list"
  have ok: "occs_ok 2 ?xs" by (simp add: occs_ok_def arena_cap_def MAX_ALLOC_def PAGE_SIZE_def NUM_BITS_PAGE_ADDR_def)
  have p: "26 + 2 + 65535 \<le> PAGE_SIZE" by (simp add: PAGE_SIZE_def NUM_BITS_PAGE_ADDR_def)
  have r: "run_bytes dr_layout (map occ_key ?xs) \<le> ah_cap dr_layout" "run_bytes tr_layout (map occ_key ?xs) \<le> ah_cap tr_layout"
    "run_bytes pr_layout (map occ_key ?xs) \<le> ah_cap pr_layout"
    by (simp_all add: run_bytes_def occ_key_def key_prefix_def dr_layout_def tr_layout_def pr_layout_def arena_cap_def PAGE_SIZE_def NUM_BITS_PAGE_ADDR_def)
  have sets: "fst ` set ?xs = set [0, 1]" "(\<lambda>(_, bytes, _, _). bytes) ` {x \<in> set ?xs. fst x = 0} = set [[97]]"
    "(\<lambda>(_, bytes, _, _). bytes) ` {x \<in> set ?xs. fst x = 1} = set [[97], [98]]" by force+
  have terms: "sorted_list_of_set (fst ` set ?xs) = [0, 1]" "field_terms ?xs 0 = [[97]]" "field_terms ?xs 1 = [[97], [98]]"
    unfolding field_terms_def sets by (subst sorted_list_of_set.idem_if_sorted_distinct; simp)+
  have "index_events pos_posting (\<lambda>rs. word_of_nat (length rs)) True None ?xs =
      Some [NewField 0 1, NewTerm [97] 1 True, WriteDoc (3, 1, [0]), CloseTerm, CloseField,
        NewField 1 4, NewTerm [97] 1 True, WriteDoc (3, 1, [1]), CloseTerm,
        NewTerm [98] 2 True, WriteDoc (3, 2, [0, 4]), WriteDoc (7, 1, [2]), CloseTerm, CloseField]"
    unfolding index_events_def terms(1)
    by (simp add: field_events_def terms(2,3) field_count_def term_events_def doc_runs_def phase_of_def term_key_inj serialized_def pos_posting_def)
  then show ?thesis
    using inverted_index_correct [OF ok _ _ layouts_ok(1) [OF p r(1)] layouts_ok(2) [OF p r(2)] layouts_ok(3) [OF p r(3)], of 4 "\<lambda>_. 0" True None]
    by simp
qed

end
