(* ===== verification/Spec2Isabelle.thy ===== *)
theory Spec2Isabelle
  imports VInt Serialize BlockedBitpack Exclude IntersectionCount BufferedUnion OptionalIndexWrite BooleanCorrect PostingsCorrect
begin

text \<open>
  Tantivy is a full-text search library. An index is a collection of immutable segments. While documents are
  added, the indexer keeps an inverted index in memory: a hash map from terms to recorders, each of which appends
  the documents, frequencies and positions of its term to a list of bytes; hash map and lists live in arenas. When the
  memory budget is reached the terms are sorted and written out. Values of documents go to columns, whose
  optional index says which documents have a value, and whose numbers are bit-packed. Deleted
  documents are recorded in a bitset beside the segment. A query is evaluated per segment through one interface,
  the document set: an iterator over increasing document ids that can skip ahead. Term postings, bitsets and the
  like are leaves; boolean queries build intersections, unions, disjunctions and exclusions above
  them.

  The development follows these parts. Paths are those of the repository below \<^verbatim>\<open>src/\<close>; every definition keeps the
  name of the function or type it translates, with a prefix where several types have a method of that name.

  \<^bold>\<open>Conventions\<close> (\<^verbatim>\<open>Prelude\<close>). A struct is a record, an enum a datatype, a method that changes its receiver a function
  that returns the new state. Integers whose bits or overflow matter are words; sizes, offsets and document ids are
  naturals, with the wrap-around written out where a value may reach its width and the bound an invariant elsewhere.
  Arithmetic is that of the release profile, and \<open>debug_assert\<close> is left out. An assertion that fails, an index or slice
  out of range, an \<open>unwrap\<close> of nothing and an unchecked access outside its memory are \<open>None\<close>; an error the code
  returns is the left summand of a sum. A loop with no evident bound is a \<^verbatim>\<open>partial_function (option)\<close>, so that running
  forever is \<open>None\<close> as well: a theorem that gives \<open>Some\<close> proves that the loop ends and that nothing panics. There is no
  fuel anywhere.

  \<^bold>\<open>Sets of small integers\<close> (\<^verbatim>\<open>TinySet\<close>, \<^verbatim>\<open>BitSet\<close>; \<^verbatim>\<open>common/src/bitset.rs\<close>, \<^verbatim>\<open>src/fastfield/alive_bitset.rs\<close>).
  \<open>tinyset_elems\<close>, \<open>bitset_elems\<close> and \<open>ro_elems\<close> give the set each type stands for. The locale \<open>bounded_set\<close> is the
  interface of a set with a capacity, interpreted on \<open>BitSet\<close>. Shown: any sequence of insertions and removals builds the
  set it describes; writing and opening the alive bitset keeps it; intersections and their counts. \<open>BitSet::clear\<close> is
  shown to leave the cached length behind.

  \<^bold>\<open>Codes\<close> (\<^verbatim>\<open>VInt\<close>, \<^verbatim>\<open>Serialize\<close>; \<^verbatim>\<open>common/src/vint.rs\<close>, \<^verbatim>\<open>sstable/src/vint.rs\<close>, \<^verbatim>\<open>src/postings/compression/vint.rs\<close>,
  \<^verbatim>\<open>common/src/serialize.rs\<close>). The trait \<open>BinarySerializable\<close> is the locale \<open>codec\<close>, with vectors and pairs as locales over
  the codes of their items. Shown: every code round-trips and leaves what follows it untouched; the encoder that packs a
  \<open>u32\<close> into one word writes the bytes of the loop; a truncated string is accepted when what is left is valid UTF-8.

  \<^bold>\<open>Bit packing\<close> (\<^verbatim>\<open>BitPack\<close>, \<^verbatim>\<open>BlockedBitpack\<close>; \<^verbatim>\<open>bitpacker/src/\<close>). Correctness is stated on the number the bytes denote.
  Shown: round trip of the writer and the random-access reader; the batch reader, with its unchecked 64-bit loads, stays
  inside the data and equals one read per index; blocks of 128 values relative to their minimum round-trip; the search for
  the positions whose value is in a range is exact on its slow and its block-decoding path. The block decoder of
  the external \<^verbatim>\<open>bitpacking\<close> crate is a parameter with its decoding law as hypothesis. The range filter is the scalar one.

  \<^bold>\<open>Document sets\<close> (\<^verbatim>\<open>DocSet\<close>, \<^verbatim>\<open>LeafDocSets\<close>, \<^verbatim>\<open>Exclude\<close>, \<^verbatim>\<open>Intersection\<close>, \<^verbatim>\<open>IntersectionCount\<close>, \<^verbatim>\<open>SimpleUnion\<close>,
  \<^verbatim>\<open>BufferedUnion\<close>, \<^verbatim>\<open>Disjunction\<close>, \<^verbatim>\<open>Scorers\<close>; \<^verbatim>\<open>src/docset.rs\<close> and \<^verbatim>\<open>src/query/\<close>). The trait is a record of operations over a
  state; its provided methods are definitions over the record. Its contract is the chain of locales \<open>docset_iter\<close>,
  \<open>docset_seek\<close>, \<open>docset\<close> over a relation \<open>rep D s\<close>: state \<open>s\<close> has the documents \<open>D\<close> left. The last one covers \<open>seek_danger\<close>,
  whose failure leaves a state on which only the same method may be called; a second relation \<open>ready t D s\<close> describes such
  states. Each combinator has a locale that assumes the contract of its children, a sublocale that proves its
  own, and an interpretation. Shown: every combinator keeps the contract over any children that keep it and holds the
  documents it should (intersection, union, documents with enough matches, difference, filtered by a predicate), and
  its specialised counting, batch filling and block counting agree with plain iteration. The loops of these methods are
  shown to end by the documents left getting fewer or the candidate moving up to \<open>TERMINATED\<close>, which is \<open>2 ^ 31 - 1\<close>. Bitsets
  as document sets keep the laws of iteration and of seeking below their capacity, and two of their corners are shown to
  break the contract. Scores are of an abstract type whose operations are parameters; size estimates in floating
  point are parameters too. In the model of \<open>Disjunction\<close> the heap of the standard library is a list from which a
  least element is removed.

  \<^bold>\<open>Boolean queries\<close> (\<^verbatim>\<open>BoxedScorer\<close>, \<^verbatim>\<open>BooleanWeight\<close>, \<^verbatim>\<open>BooleanAlign\<close>, \<^verbatim>\<open>BooleanCorrect\<close>;
  \<^verbatim>\<open>src/query/boolean_query/\<close>, \<^verbatim>\<open>src/query/weight.rs\<close>). A boxed scorer is the behaviour of a document set, a codatatype,
  so that combinators nest freely; its contract is the largest one, with boxing as an introduction rule. A weight is the
  pair of results of its two methods for the segment at hand. Shown: for children that keep the contract, the scorer of a
  boolean query is always built and has exactly the documents that match every required, no excluded and enough
  optional clauses, through all rewritings of the clauses; the aligned creation of the required scorers ends with all of them on
  the first common document. The bound \<open>max_doc + HORIZON \<le> TERMINATED\<close>, with \<open>HORIZON\<close> the 4096 documents of the window of the
  buffered union, keeps the window below the sentinel.

  \<^bold>\<open>Optional index\<close> (\<^verbatim>\<open>SetBlocks\<close>, \<^verbatim>\<open>DenseBlock\<close>, \<^verbatim>\<open>OptionalIndex\<close>, \<^verbatim>\<open>OptionalIndexRead\<close>, \<^verbatim>\<open>OptionalIndexWrite\<close>;
  \<^verbatim>\<open>columnar/src/column_index/optional_index/\<close>). The trait \<open>Set\<close> is the locale \<open>set_reader\<close>, interpreted on sparse blocks,
  dense blocks and the union of both. Shown: writing any increasing list of rows and opening the bytes gives an index whose
  membership, rank, select, cursors and batch lookups are those of the list, and the galloping search in a
  sparse block equals one binary search per element.

  \<^bold>\<open>Memory of the indexer\<close> (\<^verbatim>\<open>Arena\<close>, \<^verbatim>\<open>Expull\<close>, \<^verbatim>\<open>SharedArenaHashMap\<close>, \<^verbatim>\<open>HashMapCorrect\<close>; \<^verbatim>\<open>stacker/src/\<close>). The arena is an
  explicit store of pages of one megabyte with 32-bit addresses; the layout of a stored type is a record of its size, reader
  and writer, with the locales \<open>sized_item\<close> and \<open>copy_item\<close> for what is relied on. Allocations are disjoint and never move.
  Shown: stored items stay readable whatever is stored later; any number of byte lists grow in one arena, in any
  interleaving, without disturbing each other; the hash map refines a finite map for every hash function, through
  resizing, and every probe ends because half of the table stays empty; copies and comparisons of short slices by
  overlapping blocks are the plain ones. These hold within the budget \<open>arena_cap M\<close>, the bytes of 4095 pages when no
  allocation exceeds \<open>M\<close> bytes and so no page wastes more than \<open>M\<close>: past it the code runs out of 32-bit addresses.

  \<^bold>\<open>Inverted index\<close> (\<^verbatim>\<open>DocIdMapping\<close>, \<^verbatim>\<open>Recorder\<close>, \<^verbatim>\<open>PostingsWriter\<close>, \<^verbatim>\<open>PostingsCorrect\<close>;
  \<^verbatim>\<open>src/indexer/doc_id_mapping.rs\<close>, \<^verbatim>\<open>src/indexer/indexing_term.rs\<close>, \<^verbatim>\<open>src/postings/recorder.rs\<close>,
  \<^verbatim>\<open>src/postings/postings_writer.rs\<close>, \<^verbatim>\<open>src/postings/indexing_context.rs\<close>). The trait \<open>Recorder\<close> is a record of operations and the locale
  \<open>recorder\<close>, interpreted on its three implementations. The serialiser is the log of the calls it gets. Shown: subscribing any
  occurrences and serialising writes exactly the index \<open>index_events\<close> describes, fields, terms and postings in
  order; a validated document id mapping is a permutation with its inverse. The predicate \<open>occs_ok\<close> bounds the number of
  occurrences: each appends at most a few short integers to a list whose blocks double, so 99 bytes for every two occurrences
  cover the arena; \<open>layout_ok\<close> bounds the keys of the hash map in the same way. Positions are below the largest 32-bit integer,
  which the recorder uses as the end of a list.

  \<^bold>\<open>Not modelled.\<close> What is input and output or concurrency: directories, memory maps, index writer, merging
  threads, reader reload. What rests on external crates: the postings blocks and term dictionaries on disk, the
  document store, tokenizers, the query parser, JSON, compiled expressions, sketches of aggregations. What is floating
  point: BM25, block-max pruning, explanations, aggregations. The column codecs and the remaining queries, which read these
  structures: a boolean query takes them as any scorers that keep the document set contract. Vector intrinsics of the range filter.
\<close>

end
